(* ===== verification/Prelude.thy ===== *)
theory Prelude
  imports Main "HOL-Library.Word" "HOL-Library.While_Combinator"
begin

text \<open>
  Shared foundations of the development: the faults a C function of the repository can run
  into (a failed \<open>assert\<close>, a null or out-of-range access, a read of memory that was never
  written), results that carry such a fault, counted loops over such results with their
  invariant rules, and bounds-checked blocks of memory cells.
\<close>

section \<open>Machine types\<close>

type_synonym size_t = "64 word"

section \<open>Faults and results\<close>

datatype fault =
    Assert_Failed
  | Null_Deref
  | Out_Of_Bounds
  | Uninit_Read
  | Div_By_Zero
  | Dangling
  | Diverges

type_synonym 'a res = "fault + 'a"

fun rbind :: "'e + 'a \<Rightarrow> ('a \<Rightarrow> 'e + 'b) \<Rightarrow> 'e + 'b" where
  "rbind (Inl e) f = Inl e"
| "rbind (Inr x) f = f x"

definition c_assert :: "bool \<Rightarrow> 'a res \<Rightarrow> 'a res" where
  "c_assert b k = (if b then k else Inl Assert_Failed)"

definition returns :: "'a option \<Rightarrow> 'a res" where
  \<comment> \<open>a loop whose model is \<open>None\<close> never returns\<close>
  "returns r = (case r of None \<Rightarrow> Inl Diverges | Some x \<Rightarrow> Inr x)"

section \<open>Counted loops\<close>

text \<open>
  \<open>for_count k i body s\<close> runs \<open>body\<close> at \<open>i, i + 1, \<dots>, i + k - 1\<close>; \<open>for_up\<close> is the C loop
  \<open>for (j = i; j < n; j++)\<close> and \<open>for_down\<close> the loop \<open>for (j = n; j > i; j--)\<close>.
\<close>

primrec for_count :: "nat \<Rightarrow> nat \<Rightarrow> (nat \<Rightarrow> 's \<Rightarrow> 'e + 's) \<Rightarrow> 's \<Rightarrow> 'e + 's" where
  "for_count 0 i body s = Inr s"
| "for_count (Suc k) i body s = rbind (body i s) (for_count k (Suc i) body)"

definition for_up :: "nat \<Rightarrow> nat \<Rightarrow> (nat \<Rightarrow> 's \<Rightarrow> 'e + 's) \<Rightarrow> 's \<Rightarrow> 'e + 's" where
  "for_up i n body s = for_count (n - i) i body s"

definition for_down :: "nat \<Rightarrow> nat \<Rightarrow> (nat \<Rightarrow> 's \<Rightarrow> 'e + 's) \<Rightarrow> 's \<Rightarrow> 'e + 's" where
  "for_down n i body s = for_count (n - i) 0 (\<lambda>k. body (n - k)) s"

section \<open>Blocks of memory\<close>

text \<open>
  A cell of an allocated block is indeterminate until it is written. A block is the list of
  its cells; a pointer to a block is \<open>None\<close> when it is \<open>NULL\<close>.
\<close>

datatype 'a cell = Uninit | Val 'a

definition rd :: "'a cell list \<Rightarrow> nat \<Rightarrow> 'a res" where
  "rd b i =
     (if i < length b
      then (case b ! i of Uninit \<Rightarrow> Inl Uninit_Read | Val x \<Rightarrow> Inr x)
      else Inl Out_Of_Bounds)"

definition wr :: "'a cell list \<Rightarrow> nat \<Rightarrow> 'a \<Rightarrow> 'a cell list res" where
  "wr b i x = (if i < length b then Inr (b[i := Val x]) else Inl Out_Of_Bounds)"

definition deref :: "'a option \<Rightarrow> 'a res" where
  "deref p = (case p of None \<Rightarrow> Inl Null_Deref | Some x \<Rightarrow> Inr x)"

fun is_val :: "'a cell \<Rightarrow> bool" where
  "is_val Uninit = False"
| "is_val (Val _) = True"

fun the_val :: "'a cell \<Rightarrow> 'a" where
  "the_val (Val x) = x"
| "the_val Uninit = undefined"

section \<open>Lemmas on results\<close>

named_theorems res_simps \<open>equations that decide a bind, an assertion or a memory access\<close>

lemma rbind_Inr_iff [res_simps]: "rbind m f = Inr y \<longleftrightarrow> (\<exists>x. m = Inr x \<and> f x = Inr y)"
  by (cases m) auto

lemma rbind_Inl_iff: "rbind m f = Inl e \<longleftrightarrow> m = Inl e \<or> (\<exists>x. m = Inr x \<and> f x = Inl e)"
  by (cases m) auto

lemma rbind_assoc: "rbind (rbind m f) g = rbind m (\<lambda>x. rbind (f x) g)"
  by (cases m) auto

lemma c_assert_True [simp]: "c_assert True k = k"
  by (simp add: c_assert_def)

lemma c_assert_False [simp]: "c_assert False k = Inl Assert_Failed"
  by (simp add: c_assert_def)

lemma returns_simps [simp]: "returns None = Inl Diverges" "returns (Some x) = Inr x"
  by (simp_all add: returns_def)

lemma deref_simps [simp]: "deref None = Inl Null_Deref" "deref (Some x) = Inr x"
  by (simp_all add: deref_def)

lemma rd_Val [simp]: "i < length b \<Longrightarrow> b ! i = Val x \<Longrightarrow> rd b i = Inr x"
  by (simp add: rd_def)

lemma rd_is_val: "i < length b \<Longrightarrow> is_val (b ! i) \<Longrightarrow> rd b i = Inr (the_val (b ! i))"
  by (cases "b ! i") (simp_all add: rd_def)

lemma rd_out [simp]: "length b \<le> i \<Longrightarrow> rd b i = Inl Out_Of_Bounds"
  by (simp add: rd_def)

lemma wr_in [simp]: "i < length b \<Longrightarrow> wr b i x = Inr (b[i := Val x])"
  by (simp add: wr_def)

lemma wr_out [simp]: "length b \<le> i \<Longrightarrow> wr b i x = Inl Out_Of_Bounds"
  by (simp add: wr_def)

lemma wr_Inr_iff [res_simps]: "wr b i x = Inr b' \<longleftrightarrow> i < length b \<and> b' = b[i := Val x]"
  by (auto simp: wr_def)

lemma is_val_iff: "is_val c \<longleftrightarrow> (\<exists>x. c = Val x)"
  by (cases c) auto

lemma Val_the_val [simp]: "is_val c \<Longrightarrow> Val (the_val c) = c"
  by (cases c) auto

section \<open>Invariant rules for loops\<close>

lemma for_count_rule:
  assumes "P i s"
    and "\<And>j s. i \<le> j \<Longrightarrow> j < i + k \<Longrightarrow> P j s \<Longrightarrow> \<exists>s'. body j s = Inr s' \<and> P (Suc j) s'"
  shows "\<exists>s'. for_count k i body s = Inr s' \<and> P (i + k) s'"
  using assms
proof (induction k arbitrary: i s)
  case 0
  then show ?case by simp
next
  case (Suc k)
  from Suc.prems(2)[of i s] Suc.prems(1) obtain s1 where s1: "body i s = Inr s1" "P (Suc i) s1"
    by auto
  have "\<exists>s'. for_count k (Suc i) body s1 = Inr s' \<and> P (Suc i + k) s'"
    by (rule Suc.IH[OF s1(2)]) (use Suc.prems(2) in auto)
  with s1 show ?case by simp
qed

lemma for_up_rule:
  assumes "P i s" and "i \<le> n"
    and "\<And>j s. i \<le> j \<Longrightarrow> j < n \<Longrightarrow> P j s \<Longrightarrow> \<exists>s'. body j s = Inr s' \<and> P (Suc j) s'"
  shows "\<exists>s'. for_up i n body s = Inr s' \<and> P n s'"
  using for_count_rule[of P i s "n - i" body] assms by (simp add: for_up_def)

lemma for_down_rule:
  assumes "P n s" and "i \<le> n"
    and "\<And>j s. i < j \<Longrightarrow> j \<le> n \<Longrightarrow> P j s \<Longrightarrow> \<exists>s'. body j s = Inr s' \<and> P (j - 1) s'"
  shows "\<exists>s'. for_down n i body s = Inr s' \<and> P i s'"
proof -
  have "\<exists>s'. for_count (n - i) 0 (\<lambda>k. body (n - k)) s = Inr s' \<and> P (n - (0 + (n - i))) s'"
  proof (rule for_count_rule[where P = "\<lambda>k. P (n - k)"])
    show "P (n - 0) s" using assms(1) by simp
    fix j s
    assume "j < 0 + (n - i)" and "P (n - j) s"
    then show "\<exists>s'. body (n - j) s = Inr s' \<and> P (n - Suc j) s'"
      using assms(3)[of "n - j" s] by auto
  qed
  with assms(2) show ?thesis by (simp add: for_down_def)
qed

lemma for_count_append:
  "for_count (k + m) i body s = rbind (for_count k i body s) (for_count m (i + k) body)"
  by (induction k arbitrary: i s) (auto simp: rbind_assoc fun_eq_iff intro!: arg_cong[of _ _ "rbind _"])

lemma for_up_fault_rule:
  assumes "P i s" and "i \<le> m" and "m < n"
    and "\<And>j s. i \<le> j \<Longrightarrow> j < m \<Longrightarrow> P j s \<Longrightarrow> \<exists>s'. body j s = Inr s' \<and> P (Suc j) s'"
    and "\<And>s. P m s \<Longrightarrow> body m s = Inl e"
  shows "for_up i n body s = Inl e"
proof -
  obtain s' where s': "for_count (m - i) i body s = Inr s'" "P m s'"
    using for_up_rule[of P i s m body] assms unfolding for_up_def by blast
  have "n - i = (m - i) + Suc (n - Suc m)" using assms(2,3) by simp
  then have "for_up i n body s
      = rbind (for_count (m - i) i body s) (for_count (Suc (n - Suc m)) (i + (m - i)) body)"
    unfolding for_up_def by (simp only: for_count_append)
  with s' assms(2,5) show ?thesis by simp
qed

lemma for_up_step:
  assumes "i < n"
  shows "for_up i n body s = rbind (body i s) (for_up (Suc i) n body)"
proof -
  have "n - i = Suc (n - Suc i)" using assms by simp
  moreover have "for_up (Suc i) n body = for_count (n - Suc i) (Suc i) body"
    by (simp add: for_up_def fun_eq_iff)
  ultimately show ?thesis by (simp add: for_up_def)
qed

lemma for_up_done [simp]: "n \<le> i \<Longrightarrow> for_up i n body s = Inr s"
  by (simp add: for_up_def)

section \<open>Sums over lists\<close>

lemma sum_update:
  fixes g :: "'a \<Rightarrow> 'b::comm_monoid_add"
  shows "k < length xs \<Longrightarrow> sum_list (List.map g (xs[k := y])) + g (xs ! k) = sum_list (List.map g xs) + g y"
proof (induction xs arbitrary: k)
  case (Cons x xs)
  show ?case
  proof (cases k)
    case 0
    then show ?thesis by (simp add: ac_simps)
  next
    case (Suc j)
    then show ?thesis using Cons.IH[of j] Cons.prems by (simp add: add.assoc)
  qed
qed simp

section \<open>Loops that never stop, powers of two\<close>

lemma while_option_NoneI:
  assumes "I s" and "\<And>s. I s \<Longrightarrow> b s" and "\<And>s. I s \<Longrightarrow> I (c s)"
  shows "while_option b c s = None"
proof (rule ccontr)
  assume "while_option b c s \<noteq> None"
  then obtain t where "while_option b c s = Some t" by blast
  then obtain k where "t = (c ^^ k) s" and "\<not> b t" using while_option_stop2 by metis
  moreover have "I ((c ^^ k) s)" by (induction k) (use assms in auto)
  ultimately show False using assms(2) by blast
qed

lemma unat_pow2: "unat ((2::64 word) ^ k) = 2 ^ k" if "k < 64"
proof -
  have "(2::nat) ^ k < 2 ^ 64" using that by (rule power_strict_increasing) simp
  then show ?thesis using unat_of_nat[where 'a = 64, of "2 ^ k"] by simp
qed

end
