(* ===== verification/Sequence.thy ===== *)
theory Sequence
  imports Prelude
begin

text \<open>
  The interface through which the rest of the repository uses the dynamic array: an empty
  sequence is created, elements are pushed at its end, read by position and counted. The laws
  speak of the abstract list the sequence stands for. The client, which
  collects the tokens of \<^verbatim>\<open>sstring_split\<close>, is proved once against these laws.
\<close>

primrec push_all :: "('s \<Rightarrow> 'a \<Rightarrow> 's res) \<Rightarrow> 's \<Rightarrow> 'a list \<Rightarrow> 's res" where
  "push_all push s [] = Inr s"
| "push_all push s (x # xs) = rbind (push s x) (\<lambda>s'. push_all push s' xs)"

lemma push_all_append:
  "push_all push s (xs @ ys) = rbind (push_all push s xs) (\<lambda>s'. push_all push s' ys)"
  by (induction xs arbitrary: s) (auto simp: rbind_assoc)

locale growable_seq =
  fixes push :: "'s \<Rightarrow> 'a \<Rightarrow> 's res"
    and get :: "'s \<Rightarrow> nat \<Rightarrow> 'a res"
    and contents :: "'s \<Rightarrow> 'a list"
    and inv :: "'s \<Rightarrow> bool"
    and valid :: "'a \<Rightarrow> bool"
    and room :: nat
  assumes push_law: "inv s \<Longrightarrow> valid x \<Longrightarrow> length (contents s) < room \<Longrightarrow>
      \<exists>s'. push s x = Inr s' \<and> inv s' \<and> contents s' = contents s @ [x]"
    and get_law: "inv s \<Longrightarrow> i < length (contents s) \<Longrightarrow> get s i = Inr (contents s ! i)"
begin

lemma push_all_law:
  assumes "inv s" and "\<forall>x \<in> set xs. valid x" and "length (contents s) + length xs \<le> room"
  shows "\<exists>s'. push_all push s xs = Inr s' \<and> inv s' \<and> contents s' = contents s @ xs"
  using assms
proof (induction xs arbitrary: s)
  case Nil
  then show ?case by simp
next
  case (Cons x xs)
  from Cons.prems push_law[of s x] obtain s1
    where s1: "push s x = Inr s1" "inv s1" "contents s1 = contents s @ [x]" by auto
  with Cons.prems Cons.IH[of s1] show ?case by auto
qed

lemma get_pushed:
  assumes "inv s" and "\<forall>x \<in> set xs. valid x" and "length (contents s) + length xs \<le> room"
    and "i < length xs"
  shows "rbind (push_all push s xs) (\<lambda>s'. get s' (length (contents s) + i)) = Inr (xs ! i)"
proof -
  obtain s' where s': "push_all push s xs = Inr s'" "inv s'" "contents s' = contents s @ xs"
    using push_all_law[OF assms(1,2,3)] by blast
  with assms(4) get_law[OF s'(2), of "length (contents s) + i"] show ?thesis
    by (simp add: nth_append)
qed

end

end
