(* ===== verification/Vector.thy ===== *)
theory Vector
  imports Sequence "HOL-Library.Multiset"
begin

text \<open>
  The dynamic array of \<^verbatim>\<open>vector/vector.c\<close>: a block of \<open>capacity\<close> cells of which the first
  \<open>size\<close> hold the elements, grown to the least power of two that is large enough. An element
  \<open>void *\<close> is an \<open>option\<close> (\<open>None\<close> for \<open>NULL\<close>); the three callbacks of the struct are
  parameters of the model, the destructor being represented by the objects a call of it
  releases. Operations that destroy or free elements return the list of released objects, in
  order. \<open>malloc\<close> is the parameter \<open>ok\<close>, true of the request sizes that succeed. The
  assertion that \<open>this\<close> is not \<open>NULL\<close> is discharged by the type of the model; every other
  assertion is a branch.
\<close>

section \<open>The struct and its allocation\<close>

type_synonym 'e ptr = "'e option"

record 'e callbacks =
  cb_copy :: "'e ptr \<Rightarrow> 'e ptr"
  cb_destroy :: "'e ptr \<Rightarrow> 'e list"
  cb_default :: "'e ptr"

record 'e vector =
  copy_constructor :: "'e ptr \<Rightarrow> 'e ptr"
  destructor :: "'e ptr \<Rightarrow> 'e list"
  default_constructor :: "'e ptr"
  array :: "'e ptr cell list option"
  vsize :: size_t
  capacity :: size_t

definition INITIAL_CAPACITY :: size_t where "INITIAL_CAPACITY = 8"
definition GROWTH_FACTOR :: size_t where "GROWTH_FACTOR = 2"

definition get_new_capacity :: "size_t \<Rightarrow> size_t option" where
  "get_new_capacity target =
     while_option (\<lambda>new_capacity. new_capacity < target)
                  (\<lambda>new_capacity. new_capacity * GROWTH_FACTOR) 1"

definition malloc_array :: "(size_t \<Rightarrow> bool) \<Rightarrow> size_t \<Rightarrow> 'e ptr cell list option" where
  \<comment> \<open>\<open>malloc(cap * sizeof(void*))\<close>, the product taken in \<open>size_t\<close>\<close>
  "malloc_array ok cap =
     (let bytes = cap * 8 in
      if ok bytes then Some (replicate (unat bytes div 8) Uninit) else None)"

definition vector_create ::
  "(size_t \<Rightarrow> bool) \<Rightarrow> 'e callbacks \<Rightarrow> ('e ptr \<Rightarrow> 'e ptr) option \<Rightarrow> ('e ptr \<Rightarrow> 'e list) option
   \<Rightarrow> 'e ptr option \<Rightarrow> 'e vector res" where
  "vector_create ok shallow cc dt dc =
     (if \<not> ok (8 * 2 + 8 + 8 + 8 + 8) then Inl Null_Deref
      else
        let (cc', dt', dc') =
          (case (cc, dt, dc) of
             (Some c, Some d, Some e) \<Rightarrow> (c, d, e)
           | _ \<Rightarrow> (cb_copy shallow, cb_destroy shallow, cb_default shallow))
        in Inr \<lparr>copy_constructor = cc', destructor = dt', default_constructor = dc',
                array = malloc_array ok INITIAL_CAPACITY, vsize = 0,
                capacity = INITIAL_CAPACITY\<rparr>)"

section \<open>Loops over the array\<close>

definition destroy_cells ::
  "('e ptr \<Rightarrow> 'e list) \<Rightarrow> nat \<Rightarrow> nat \<Rightarrow> 'e ptr cell list \<Rightarrow> ('e ptr cell list \<times> 'e list) res"
where
  \<comment> \<open>\<open>for (j = i; j < n; j++) if (*arr != NULL) { destructor(*arr); *arr = NULL; }\<close>\<close>
  "destroy_cells d i n b =
     for_up i n
       (\<lambda>j (b, log). rbind (rd b j) (\<lambda>p.
          if p \<noteq> None then rbind (wr b j None) (\<lambda>b'. Inr (b', log @ d p))
          else Inr (b, log)))
       (b, [])"

definition fill_cells :: "'e ptr \<Rightarrow> nat \<Rightarrow> nat \<Rightarrow> 'e ptr cell list \<Rightarrow> 'e ptr cell list res"
where
  "fill_cells x i n b = for_up i n (\<lambda>j b. wr b j x) b"

definition copy_cells ::
  "nat \<Rightarrow> 'e ptr cell list \<Rightarrow> 'e ptr cell list \<Rightarrow> 'e ptr cell list res" where
  "copy_cells n old new = for_up 0 n (\<lambda>j b. rbind (rd old j) (wr b j)) new"

section \<open>Operations\<close>

definition vector_begin :: "'e vector \<Rightarrow> nat" where "vector_begin this = 0"

definition vector_end :: "'e vector \<Rightarrow> nat" where "vector_end this = unat (vsize this)"

definition vector_size :: "'e vector \<Rightarrow> size_t" where "vector_size this = vsize this"

definition vector_capacity :: "'e vector \<Rightarrow> size_t" where "vector_capacity this = capacity this"

definition vector_empty :: "'e vector \<Rightarrow> bool" where "vector_empty this = (vsize this = 0)"

definition vector_destroy :: "'e vector \<Rightarrow> 'e list res" where
  "vector_destroy this =
     (case array this of
        None \<Rightarrow> Inr []
      | Some arr \<Rightarrow>
          rbind (destroy_cells (destructor this) 0 (unat (vsize this)) arr)
            (\<lambda>(b, log). Inr log))"

definition vector_clear :: "'e vector \<Rightarrow> ('e vector \<times> 'e list) res" where
  "vector_clear this =
     (case array this of
        None \<Rightarrow> Inr (this\<lparr>vsize := 0\<rparr>, [])
      | Some arr \<Rightarrow>
          rbind (destroy_cells (destructor this) 0 (unat (vsize this)) arr)
            (\<lambda>(b, log). Inr (this\<lparr>array := Some b, vsize := 0\<rparr>, log)))"

definition vector_reserve ::
  "(size_t \<Rightarrow> bool) \<Rightarrow> 'e vector \<Rightarrow> size_t \<Rightarrow> 'e vector res" where
  "vector_reserve ok this n =
     (if n = capacity this then Inr this
      else
        let old_arr = array this in
        rbind (returns (get_new_capacity n)) (\<lambda>cap.
          let new_arr = malloc_array ok cap in
          if vsize this = 0 then Inr (this\<lparr>capacity := cap, array := new_arr\<rparr>)
          else
            rbind (deref old_arr) (\<lambda>old.
              rbind (deref new_arr) (\<lambda>new.
                rbind (copy_cells (unat (vsize this)) old new) (\<lambda>b.
                  Inr (this\<lparr>capacity := cap, array := Some b\<rparr>))))))"

definition vector_resize ::
  "(size_t \<Rightarrow> bool) \<Rightarrow> 'e vector \<Rightarrow> size_t \<Rightarrow> ('e vector \<times> 'e list) res" where
  "vector_resize ok this n =
     (if n = vsize this then Inr (this, [])
      else if n < vsize this then
        (case array this of
           None \<Rightarrow> if n = 0 then Inr (this\<lparr>vsize := n\<rparr>, []) else Inl Null_Deref
         | Some arr \<Rightarrow>
             rbind (destroy_cells (destructor this) (unat n) (unat (vsize this)) arr)
               (\<lambda>(b, log). Inr (this\<lparr>array := Some b, vsize := n\<rparr>, log)))
      else if n \<le> capacity this then
        (case array this of
           None \<Rightarrow> if vsize this = 0 then Inr (this\<lparr>vsize := n\<rparr>, []) else Inl Null_Deref
         | Some arr \<Rightarrow>
             rbind (fill_cells (default_constructor this) (unat (vsize this)) (unat n) arr)
               (\<lambda>b. Inr (this\<lparr>array := Some b, vsize := n\<rparr>, [])))
      else
        rbind (returns (get_new_capacity n)) (\<lambda>cap.
          rbind (deref (malloc_array ok cap)) (\<lambda>new.
            rbind (if vsize this = 0 then Inr new
                   else rbind (deref (array this))
                          (\<lambda>old. copy_cells (unat (vsize this)) old new)) (\<lambda>b.
              rbind (fill_cells (default_constructor this) (unat (vsize this)) (unat n) b)
                (\<lambda>b'. Inr (this\<lparr>capacity := cap, array := Some b', vsize := n\<rparr>, []))))))"

definition vector_at :: "'e vector \<Rightarrow> size_t \<Rightarrow> nat res" where
  \<comment> \<open>the address \<open>array + position\<close>, as an offset into the array\<close>
  "vector_at this position = c_assert (position < vsize this) (Inr (unat position))"

definition vector_get :: "'e vector \<Rightarrow> size_t \<Rightarrow> 'e ptr res" where
  "vector_get this position =
     c_assert (position < vsize this)
       (rbind (deref (array this)) (\<lambda>b. rd b (unat position)))"

definition vector_set ::
  "'e vector \<Rightarrow> size_t \<Rightarrow> 'e ptr \<Rightarrow> ('e vector \<times> 'e list) res" where
  "vector_set this position element =
     c_assert (position < vsize this)
       (rbind (deref (array this)) (\<lambda>b.
          rbind (rd b (unat position)) (\<lambda>old.
            rbind (wr b (unat position) (copy_constructor this element)) (\<lambda>b'.
              Inr (this\<lparr>array := Some b'\<rparr>, (case old of None \<Rightarrow> [] | Some e \<Rightarrow> [e]))))))"

definition vector_front :: "'e vector \<Rightarrow> nat res" where
  "vector_front this = c_assert (\<not> vector_empty this) (Inr 0)"

definition vector_back :: "'e vector \<Rightarrow> nat res" where
  "vector_back this = c_assert (\<not> vector_empty this) (Inr (unat (vsize this - 1)))"

definition vector_push_back ::
  "(size_t \<Rightarrow> bool) \<Rightarrow> 'e vector \<Rightarrow> 'e ptr \<Rightarrow> 'e vector res" where
  "vector_push_back ok this element =
     c_assert (element \<noteq> None)
       (rbind (if vsize this = capacity this then vector_reserve ok this (vsize this + 1)
               else Inr this) (\<lambda>v.
          rbind (deref (array v)) (\<lambda>b.
            rbind (wr b (unat (vsize v)) (copy_constructor v element)) (\<lambda>b'.
              Inr (v\<lparr>array := Some b', vsize := vsize v + 1\<rparr>)))))"

definition vector_pop_back :: "'e vector \<Rightarrow> ('e vector \<times> 'e list) res" where
  "vector_pop_back this =
     (if vector_empty this then Inr (this, [])
      else
        rbind (deref (array this)) (\<lambda>b.
          rbind (rd b (unat (vsize this - 1))) (\<lambda>p.
            rbind (wr b (unat (vsize this - 1)) None) (\<lambda>b'.
              Inr (this\<lparr>array := Some b', vsize := vsize this - 1\<rparr>, destructor this p)))))"

definition vector_insert ::
  "(size_t \<Rightarrow> bool) \<Rightarrow> 'e vector \<Rightarrow> size_t \<Rightarrow> 'e ptr \<Rightarrow> 'e vector res" where
  "vector_insert ok this position element =
     c_assert (element \<noteq> None) (c_assert (position \<le> vsize this)
       (if position = vsize this then vector_push_back ok this element
        else
          rbind (if vsize this = capacity this then vector_reserve ok this (vsize this + 1)
                 else Inr this) (\<lambda>v.
            rbind (deref (array v)) (\<lambda>b.
              rbind (for_down (unat (vsize v)) (unat position)
                       (\<lambda>i b. rbind (rd b (i - 1)) (wr b i)) b) (\<lambda>b'.
                rbind (wr b' (unat position) (copy_constructor v element)) (\<lambda>b''.
                  Inr (v\<lparr>array := Some b'', vsize := vsize v + 1\<rparr>)))))))"

definition vector_erase ::
  "'e vector \<Rightarrow> size_t \<Rightarrow> ('e vector \<times> 'e list) res" where
  "vector_erase this position =
     c_assert (position < vector_size this)
       (if vector_empty this then Inr (this, [])
        else
          rbind (deref (array this)) (\<lambda>b.
            rbind (rd b (unat position)) (\<lambda>p.
              rbind (if p \<noteq> None then rbind (wr b (unat position) None)
                                        (\<lambda>b'. Inr (b', destructor this p))
                     else Inr (b, [])) (\<lambda>(b1, log).
                rbind (for_up (unat position) (unat (vsize this - 1))
                         (\<lambda>i b. rbind (rd b (i + 1)) (wr b i)) b1) (\<lambda>b2.
                  rbind (wr b2 (unat (vsize this - 1)) None) (\<lambda>b3.
                    Inr (this\<lparr>array := Some b3, vsize := vsize this - 1\<rparr>, log)))))))"

section \<open>Abstraction and invariant\<close>

definition elems :: "'e vector \<Rightarrow> 'e ptr list" where
  "elems v = map the_val (take (unat (vsize v)) (the (array v)))"

definition vec_inv :: "'e vector \<Rightarrow> bool" where
  "vec_inv v \<longleftrightarrow>
     (\<exists>b. array v = Some b \<and> length b = unat (capacity v) \<and> unat (vsize v) \<le> length b
        \<and> (\<forall>i < unat (vsize v). is_val (b ! i))
        \<and> b \<noteq> [] \<and> length b \<le> 2 ^ 60)"

definition live :: "'e ptr list \<Rightarrow> 'e ptr list" where
  "live ps = filter (\<lambda>p. p \<noteq> None) ps"

section \<open>The growth policy\<close>

lemma get_new_capacity_least_pow2:
  assumes "unat target \<le> 2 ^ 63"
  shows "\<exists>k. get_new_capacity target = Some (2 ^ k) \<and> k \<le> 63 \<and> unat target \<le> 2 ^ k
           \<and> (\<forall>j. unat target \<le> 2 ^ j \<longrightarrow> k \<le> j)"
proof -
  let ?b = "\<lambda>c. c < target" and ?c = "\<lambda>c. c * GROWTH_FACTOR"
  let ?I = "\<lambda>c. \<exists>k \<le> 63. c = 2 ^ k \<and> (\<forall>j. unat target \<le> 2 ^ j \<longrightarrow> k \<le> j)"
  have step: "?I (?c c) \<and> unat target - unat (?c c) < unat target - unat c"
    if I: "?I c" and b: "c < target" for c
  proof -
    from I obtain k where k: "k \<le> 63" "c = 2 ^ k" by blast
    from b k have lt: "2 ^ k < unat target" by (simp add: word_less_nat_alt unat_pow2)
    with assms have k63: "k < 63"
      by (metis k(1) le_neq_implies_less linorder_not_less)
    have "\<forall>j. unat target \<le> 2 ^ j \<longrightarrow> Suc k \<le> j"
    proof (intro allI impI)
      fix j assume "unat target \<le> 2 ^ j"
      with lt have "(2::nat) ^ k < 2 ^ j" by linarith
      then show "Suc k \<le> j" by simp
    qed
    moreover have "?c c = 2 ^ Suc k" by (simp add: k GROWTH_FACTOR_def)
    moreover have "unat ((2::64 word) ^ Suc k) = 2 ^ Suc k" using k63 by (intro unat_pow2) simp
    ultimately show ?thesis using k63 k lt
      by (auto intro!: exI[of _ "Suc k"] simp: unat_pow2 simp del: power_Suc) (simp add: diff_less_mono2)
  qed
  have "\<exists>t. while_option ?b ?c 1 = Some t"
    by (rule measure_while_option_Some[where P = ?I and f = "\<lambda>c. unat target - unat c"])
      (use step in \<open>auto intro!: exI[of _ 0]\<close>)
  then obtain t where t: "while_option ?b ?c 1 = Some t" by blast
  have "?I t"
    by (rule while_option_rule[OF _ t]) (use step in \<open>auto intro!: exI[of _ 0]\<close>)
  then obtain k where k: "k \<le> 63" "t = 2 ^ k" "\<forall>j. unat target \<le> 2 ^ j \<longrightarrow> k \<le> j" by blast
  have "\<not> t < target" by (rule while_option_stop[OF t])
  with k have "unat target \<le> 2 ^ k" by (simp add: word_less_nat_alt unat_pow2)
  with k t show ?thesis by (auto simp: get_new_capacity_def)
qed

lemma get_new_capacity_diverges:
  assumes "2 ^ 63 < unat target"
  shows "get_new_capacity target = None"
  unfolding get_new_capacity_def
proof (rule while_option_NoneI[where I = "\<lambda>c. c = 0 \<or> (\<exists>k \<le> 63. c = 2 ^ k)"])
  show "(1::64 word) = 0 \<or> (\<exists>k \<le> 63. (1::64 word) = 2 ^ k)" by (auto intro!: exI[of _ 0])
next
  fix c :: "64 word"
  assume I: "c = 0 \<or> (\<exists>k \<le> 63. c = 2 ^ k)"
  then have "unat c \<le> 2 ^ 63"
    using power_increasing[of _ 63 "2::nat"] by (auto simp: unat_pow2)
  with assms show "c < target" by (simp add: word_less_nat_alt)
  show "c * GROWTH_FACTOR = 0 \<or> (\<exists>k \<le> 63. c * GROWTH_FACTOR = 2 ^ k)"
  proof (cases "c = 0")
    case False
    with I obtain k where k: "k \<le> 63" "c = 2 ^ k" by blast
    have "c * GROWTH_FACTOR = 2 ^ Suc k" by (simp add: k GROWTH_FACTOR_def)
    moreover have "(2::64 word) ^ Suc 63 = 0" by simp
    ultimately show ?thesis using k by (cases "k = 63") (auto intro!: exI[of _ "Suc k"] simp del: power_Suc)
  qed simp
qed

section \<open>What the loops compute\<close>

lemma copy_cells_ok:
  assumes "n \<le> length old" and "n \<le> length new" and "\<forall>j < n. is_val (old ! j)"
  shows "copy_cells n old new = Inr (take n old @ drop n new)"
proof -
  let ?P = "\<lambda>j b. length b = length new
              \<and> (\<forall>k < length new. b ! k = (if k < j then old ! k else new ! k))"
  have "\<exists>b. copy_cells n old new = Inr b \<and> ?P n b"
    unfolding copy_cells_def
    by (rule for_up_rule) (use assms in \<open>auto simp: rd_is_val nth_list_update less_Suc_eq\<close>)
  then obtain b where b: "copy_cells n old new = Inr b" "?P n b" by blast
  have "b = take n old @ drop n new"
    by (rule nth_equalityI) (use b(2) assms in \<open>auto simp: nth_append\<close>)
  with b(1) show ?thesis by simp
qed

lemma fill_cells_ok:
  assumes "i \<le> n" and "n \<le> length b"
  shows "fill_cells x i n b = Inr (take i b @ replicate (n - i) (Val x) @ drop n b)"
proof -
  let ?P = "\<lambda>j c. length c = length b
              \<and> (\<forall>k < length b. c ! k = (if i \<le> k \<and> k < j then Val x else b ! k))"
  have "\<exists>c. fill_cells x i n b = Inr c \<and> ?P n c"
    unfolding fill_cells_def
    by (rule for_up_rule) (use assms in \<open>auto simp: nth_list_update less_Suc_eq\<close>)
  then obtain c where c: "fill_cells x i n b = Inr c" "?P n c" by blast
  have "c = take i b @ replicate (n - i) (Val x) @ drop n b"
    by (rule nth_equalityI) (use c(2) assms in \<open>auto simp: nth_append\<close>)
  with c(1) show ?thesis by simp
qed

lemma live_append [simp]: "live (xs @ ys) = live xs @ live ys"
  by (simp add: live_def)

lemma destroy_cells_ok:
  assumes "i \<le> n" and "n \<le> length b" and "\<forall>j. i \<le> j \<and> j < n \<longrightarrow> is_val (b ! j)"
  shows "destroy_cells d i n b =
           Inr (take i b @ replicate (n - i) (Val None) @ drop n b,
                concat (map d (live (map the_val (drop i (take n b))))))"
proof -
  let ?out = "\<lambda>j. concat (map d (live (map the_val (drop i (take j b)))))"
  let ?P = "\<lambda>j (c, log). length c = length b \<and> log = ?out j
              \<and> (\<forall>k < length b. c ! k = (if i \<le> k \<and> k < j then Val None else b ! k))"
  have "\<exists>r. destroy_cells d i n b = Inr r \<and> ?P n r"
    unfolding destroy_cells_def
  proof (rule for_up_rule)
    fix j and s :: "'a option cell list \<times> 'a list"
    assume j: "i \<le> j" "j < n" and P: "?P j s"
    obtain c log where s: "s = (c, log)" by (cases s)
    with j P assms obtain p where p: "c ! j = Val p" "b ! j = Val p"
      by (auto simp: is_val_iff)
    have "?out (Suc j) = ?out j @ (if p = None then [] else d p)"
      using j assms p by (simp add: take_Suc_conv_app_nth live_def)
    then show "\<exists>s'. (\<lambda>(b, log). rbind (rd b j) (\<lambda>p. if p \<noteq> None
        then rbind (wr b j None) (\<lambda>b'. Inr (b', log @ d p)) else Inr (b, log))) s = Inr s'
        \<and> ?P (Suc j) s'"
      using j P assms p by (auto simp: s nth_list_update less_Suc_eq)
  qed (use assms in \<open>auto simp: live_def\<close>)
  then obtain c log where r: "destroy_cells d i n b = Inr (c, log)" "?P n (c, log)" by auto
  have "c = take i b @ replicate (n - i) (Val None) @ drop n b"
    by (rule nth_equalityI) (use r(2) assms in \<open>auto simp: nth_append\<close>)
  with r show ?thesis by simp
qed

lemma shift_up_ok:
  assumes "pos \<le> n" and "n < length b" and "\<forall>j < n. is_val (b ! j)"
  shows "\<exists>c. for_down n pos (\<lambda>i b. rbind (rd b (i - 1)) (wr b i)) b = Inr c
           \<and> length c = length b
           \<and> (\<forall>k < length b. c ! k = (if pos < k \<and> k \<le> n then b ! (k - 1) else b ! k))"
proof -
  let ?P = "\<lambda>j c. length c = length b
              \<and> (\<forall>k < length b. c ! k = (if j < k \<and> k \<le> n then b ! (k - 1) else b ! k))"
  show ?thesis
  proof (rule for_down_rule[where P = ?P])
    fix j c
    assume j: "pos < j" "j \<le> n" and P: "?P j c"
    then have "c ! (j - 1) = b ! (j - 1)" "is_val (b ! (j - 1))" using assms by auto
    with j P assms show "\<exists>c'. rbind (rd c (j - 1)) (wr c j) = Inr c' \<and> ?P (j - 1) c'"
      by (auto simp: rd_is_val nth_list_update)
  qed (use assms in auto)
qed

lemma shift_down_ok:
  assumes "pos \<le> n" and "n < length b" and "\<forall>j. pos < j \<and> j \<le> n \<longrightarrow> is_val (b ! j)"
  shows "\<exists>c. for_up pos n (\<lambda>i b. rbind (rd b (i + 1)) (wr b i)) b = Inr c
           \<and> length c = length b
           \<and> (\<forall>k < length b. c ! k = (if pos \<le> k \<and> k < n then b ! (k + 1) else b ! k))"
proof -
  let ?P = "\<lambda>j c. length c = length b
              \<and> (\<forall>k < length b. c ! k = (if pos \<le> k \<and> k < j then b ! (k + 1) else b ! k))"
  show ?thesis
  proof (rule for_up_rule[where P = ?P])
    fix j c
    assume j: "pos \<le> j" "j < n" and P: "?P j c"
    then have "c ! (j + 1) = b ! (j + 1)" "is_val (b ! (j + 1))" using assms by auto
    with j P assms show "\<exists>c'. rbind (rd c (j + 1)) (wr c j) = Inr c' \<and> ?P (Suc j) c'"
      by (auto simp: rd_is_val nth_list_update less_Suc_eq)
  qed (use assms in auto)
qed

section \<open>Every operation keeps the invariant and implements its list operation\<close>

lemma unat_inc: "unat (w :: size_t) < 2 ^ 60 \<Longrightarrow> unat (w + 1) = unat w + 1"
  by (simp add: unat_word_ariths)

lemma unat_dec: "(w :: size_t) \<noteq> 0 \<Longrightarrow> unat (w - 1) = unat w - 1"
  by (simp add: unat_minus_one)

lemma unat_pos: "(w :: size_t) \<noteq> 0 \<Longrightarrow> 0 < unat w"
  using unat_eq_zero[of w] by linarith

lemma malloc_array_ok:
  assumes "unat cap \<le> 2 ^ 60" and "\<forall>bytes. ok bytes"
  shows "malloc_array ok cap = Some (replicate (unat cap) Uninit)"
proof -
  have "unat (cap * 8) = unat cap * 8" using assms(1) by (simp add: unat_word_ariths)
  then show ?thesis using assms(2) by (simp add: malloc_array_def)
qed

definition same_callbacks :: "'e vector \<Rightarrow> 'e vector \<Rightarrow> bool" where
  "same_callbacks v v' \<longleftrightarrow> copy_constructor v' = copy_constructor v
     \<and> destructor v' = destructor v \<and> default_constructor v' = default_constructor v"

lemma vec_invE:
  assumes "vec_inv v"
  obtains b where "array v = Some b" "length b = unat (capacity v)" "unat (vsize v) \<le> length b"
    "\<forall>i < unat (vsize v). is_val (b ! i)" "b \<noteq> []" "length b \<le> 2 ^ 60"
    "elems v = map the_val (take (unat (vsize v)) b)"
  using assms by (auto simp: vec_inv_def elems_def)

lemma length_elems: "vec_inv v \<Longrightarrow> length (elems v) = unat (vsize v)"
  by (auto simp: vec_inv_def elems_def)

lemma new_capacity_bounds:
  assumes "unat n \<le> 2 ^ 60"
  obtains cap where "get_new_capacity n = Some cap" "unat n \<le> unat cap" "unat cap \<le> 2 ^ 60"
    "0 < unat cap"
proof -
  obtain k where k: "get_new_capacity n = Some (2 ^ k)" "k \<le> 63" "unat n \<le> 2 ^ k"
      "\<forall>j. unat n \<le> 2 ^ j \<longrightarrow> k \<le> j"
    using get_new_capacity_least_pow2[of n] assms by auto
  from k(4) assms have "k \<le> 60" by blast
  then have "(2::nat) ^ k \<le> 2 ^ 60" by (rule power_increasing) simp
  with k(1-3) show ?thesis by (intro that[of "2 ^ k"]) (simp_all add: unat_pow2)
qed

lemma vector_reserve_ok:
  assumes "vec_inv v" and "vsize v \<le> n" and "unat n \<le> 2 ^ 60" and "\<forall>bytes. ok bytes"
  shows "\<exists>v'. vector_reserve ok v n = Inr v' \<and> vec_inv v' \<and> same_callbacks v v'
           \<and> elems v' = elems v \<and> vsize v' = vsize v \<and> unat n \<le> unat (capacity v')"
proof (cases "n = capacity v")
  case True
  with assms(1) show ?thesis by (simp add: vector_reserve_def same_callbacks_def)
next
  case False
  obtain b where b: "array v = Some b" "length b = unat (capacity v)" "unat (vsize v) \<le> length b"
    "\<forall>i < unat (vsize v). is_val (b ! i)" "elems v = map the_val (take (unat (vsize v)) b)"
    using assms(1) by (rule vec_invE)
  obtain cap where cap: "get_new_capacity n = Some cap" "unat n \<le> unat cap"
    "unat cap \<le> 2 ^ 60" "0 < unat cap" using new_capacity_bounds[OF assms(3)] .
  have mal: "malloc_array ok cap = Some (replicate (unat cap) (Uninit :: 'a ptr cell))"
    by (rule malloc_array_ok) (use cap assms in auto)
  have le: "unat (vsize v) \<le> unat n" using assms(2) by (simp add: word_le_nat_alt)
  have "copy_cells (unat (vsize v)) b (replicate (unat cap) Uninit)
      = Inr (take (unat (vsize v)) b @ drop (unat (vsize v)) (replicate (unat cap) Uninit))"
    by (rule copy_cells_ok) (use b cap le in auto)
  with False b cap mal le show ?thesis
    by (auto simp: vector_reserve_def vec_inv_def same_callbacks_def elems_def nth_append Let_def
        unat_pos)
qed

text \<open>The step \<open>if (size == capacity) reserve(size + 1)\<close> that push and insert share.\<close>

lemma make_room:
  assumes "vec_inv v" and "unat (vsize v) < 2 ^ 60" and "\<forall>bytes. ok bytes"
  shows "\<exists>v'. (if vsize v = capacity v then vector_reserve ok v (vsize v + 1) else Inr v) = Inr v'
           \<and> vec_inv v' \<and> same_callbacks v v' \<and> elems v' = elems v \<and> vsize v' = vsize v
           \<and> unat (vsize v') < unat (capacity v')"
proof (cases "vsize v = capacity v")
  case True
  have "vsize v \<le> vsize v + 1" using unat_inc[OF assms(2)] by (simp add: word_le_nat_alt)
  with assms unat_inc[OF assms(2)] obtain v' where v': "vector_reserve ok v (vsize v + 1) = Inr v'"
    "vec_inv v'" "same_callbacks v v'" "elems v' = elems v" "vsize v' = vsize v"
    "unat (vsize v + 1) \<le> unat (capacity v')"
    using vector_reserve_ok[of v "vsize v + 1" ok] by auto
  with True unat_inc[OF assms(2)] show ?thesis by (intro exI[of _ v']) auto
next
  case False
  moreover have "unat (vsize v) \<noteq> unat (capacity v)" using False by (simp add: word_unat_eq_iff)
  ultimately show ?thesis using assms(1) by (auto simp: vec_inv_def same_callbacks_def)
qed

lemma vector_push_back_ok:
  assumes "vec_inv v" and "unat (vsize v) < 2 ^ 60" and "\<forall>bytes. ok bytes" and "x \<noteq> None"
  shows "\<exists>v'. vector_push_back ok v x = Inr v' \<and> vec_inv v' \<and> same_callbacks v v'
           \<and> elems v' = elems v @ [copy_constructor v x]"
proof -
  obtain w where w: "(if vsize v = capacity v then vector_reserve ok v (vsize v + 1) else Inr v) = Inr w"
    "vec_inv w" "same_callbacks v w" "elems w = elems v" "vsize w = vsize v"
    "unat (vsize w) < unat (capacity w)"
    using make_room[OF assms(1,2,3)] by blast
  obtain b where b: "array w = Some b" "length b = unat (capacity w)"
    "\<forall>i < unat (vsize w). is_val (b ! i)" "elems w = map the_val (take (unat (vsize w)) b)"
    "b \<noteq> []" "length b \<le> 2 ^ 60"
    using w(2) by (rule vec_invE)
  have inc: "unat (vsize w + 1) = unat (vsize w) + 1" by (rule unat_inc) (use w assms in simp)
  show ?thesis
    using w b inc assms(4)
    by (auto simp: vector_push_back_def vec_inv_def same_callbacks_def elems_def nth_list_update
        less_Suc_eq take_Suc_conv_app_nth)
qed

lemma vector_create_ok:
  assumes "\<forall>bytes. ok bytes"
  shows "\<exists>v. vector_create ok sh cc dt dc = Inr v \<and> vec_inv v \<and> elems v = [] \<and> vsize v = 0"
proof -
  have "malloc_array ok INITIAL_CAPACITY = Some (replicate 8 (Uninit :: 'a ptr cell))"
    using malloc_array_ok[of INITIAL_CAPACITY ok] assms by (simp add: INITIAL_CAPACITY_def)
  then show ?thesis using assms
    by (auto simp: vector_create_def vec_inv_def elems_def INITIAL_CAPACITY_def Let_def
        split: option.split)
qed

lemma vector_get_ok:
  assumes "vec_inv v" and "p < vsize v"
  shows "vector_get v p = Inr (elems v ! unat p)"
  using assms by (auto simp: vector_get_def vec_inv_def elems_def rd_is_val word_less_nat_alt)

lemma vector_get_out: "\<not> p < vsize v \<Longrightarrow> vector_get v p = Inl Assert_Failed"
  by (simp add: vector_get_def)

lemma vector_set_ok:
  assumes "vec_inv v" and "p < vsize v"
  shows "\<exists>v'. vector_set v p x = Inr (v', case elems v ! unat p of None \<Rightarrow> [] | Some e \<Rightarrow> [e])
           \<and> vec_inv v' \<and> same_callbacks v v'
           \<and> elems v' = (elems v)[unat p := copy_constructor v x]"
proof -
  obtain b where b: "array v = Some b" "length b = unat (capacity v)" "unat (vsize v) \<le> length b"
    "\<forall>i < unat (vsize v). is_val (b ! i)" "b \<noteq> []" "length b \<le> 2 ^ 60"
    "elems v = map the_val (take (unat (vsize v)) b)"
    using assms(1) by (rule vec_invE)
  from assms(2) have p: "unat p < unat (vsize v)" by (simp add: word_less_nat_alt)
  then show ?thesis using b assms(2)
    by (auto simp: vector_set_def rd_is_val vec_inv_def same_callbacks_def elems_def
        nth_list_update take_update_swap map_update)
qed

lemma vector_pop_back_ok:
  assumes "vec_inv v" and "vsize v \<noteq> 0"
  shows "\<exists>v'. vector_pop_back v = Inr (v', destructor v (last (elems v)))
           \<and> vec_inv v' \<and> same_callbacks v v' \<and> elems v' = butlast (elems v)"
proof -
  obtain b where b: "array v = Some b" "length b = unat (capacity v)" "unat (vsize v) \<le> length b"
    "\<forall>i < unat (vsize v). is_val (b ! i)" "b \<noteq> []" "length b \<le> 2 ^ 60"
    "elems v = map the_val (take (unat (vsize v)) b)"
    using assms(1) by (rule vec_invE)
  obtain n where n: "unat (vsize v) = Suc n" using unat_pos[OF assms(2)] by (cases "unat (vsize v)") auto
  then have dec: "unat (vsize v - 1) = n" using unat_dec[OF assms(2)] by simp
  have "last (elems v) = the_val (b ! n)" "butlast (elems v) = map the_val (take n b)"
    using b n by (simp_all add: take_Suc_conv_app_nth)
  with b n dec assms(2) show ?thesis
    by (auto simp: vector_pop_back_def vector_empty_def rd_is_val vec_inv_def same_callbacks_def
        elems_def)
qed

lemma vector_clear_ok:
  assumes "vec_inv v"
  shows "\<exists>v'. vector_clear v = Inr (v', concat (map (destructor v) (live (elems v))))
           \<and> vec_inv v' \<and> same_callbacks v v' \<and> elems v' = []"
proof -
  obtain b where b: "array v = Some b" "length b = unat (capacity v)" "unat (vsize v) \<le> length b"
    "\<forall>i < unat (vsize v). is_val (b ! i)" "b \<noteq> []" "length b \<le> 2 ^ 60"
    "elems v = map the_val (take (unat (vsize v)) b)"
    using assms(1) by (rule vec_invE)
  then show ?thesis
    using destroy_cells_ok[of 0 "unat (vsize v)" b "destructor v"]
    by (auto simp: vector_clear_def vec_inv_def same_callbacks_def elems_def)
qed

lemma vector_destroy_ok:
  assumes "vec_inv v"
  shows "vector_destroy v = Inr (concat (map (destructor v) (live (elems v))))"
  using assms destroy_cells_ok[of 0 "unat (vsize v)" "the (array v)" "destructor v"]
  by (auto simp: vector_destroy_def vec_inv_def elems_def)

lemma vector_insert_ok:
  assumes "vec_inv v" and "unat (vsize v) < 2 ^ 60" and "\<forall>bytes. ok bytes" and "x \<noteq> None"
    and "p \<le> vsize v"
  shows "\<exists>v'. vector_insert ok v p x = Inr v' \<and> vec_inv v' \<and> same_callbacks v v'
           \<and> elems v' = take (unat p) (elems v) @ [copy_constructor v x] @ drop (unat p) (elems v)"
proof (cases "p = vsize v")
  case True
  then show ?thesis using vector_push_back_ok[OF assms(1-4)] length_elems[OF assms(1)] assms(4)
    by (simp add: vector_insert_def)
next
  case False
  have pv: "p < vsize v" using False assms(5) by simp
  obtain w where w: "(if vsize v = capacity v then vector_reserve ok v (vsize v + 1) else Inr v) = Inr w"
    "vec_inv w" "same_callbacks v w" "elems w = elems v" "vsize w = vsize v"
    "unat (vsize w) < unat (capacity w)"
    using make_room[OF assms(1,2,3)] by blast
  obtain b where b: "array w = Some b" "length b = unat (capacity w)"
    "\<forall>i < unat (vsize w). is_val (b ! i)" "elems w = map the_val (take (unat (vsize w)) b)"
    "b \<noteq> []" "length b \<le> 2 ^ 60"
    using w(2) by (rule vec_invE)
  have p: "unat p < unat (vsize w)" using pv w by (simp add: word_less_nat_alt)
  have inc: "unat (vsize w + 1) = unat (vsize w) + 1" by (rule unat_inc) (use w assms in simp)
  obtain c where c: "for_down (unat (vsize w)) (unat p) (\<lambda>i b. rbind (rd b (i - 1)) (wr b i)) b = Inr c"
    "length c = length b"
    "\<forall>k < length b. c ! k = (if unat p < k \<and> k \<le> unat (vsize w) then b ! (k - 1) else b ! k)"
    using shift_up_ok[of "unat p" "unat (vsize w)" b] p b w by auto
  let ?c = "c[unat p := Val (copy_constructor w x)]"
  let ?v = "w\<lparr>array := Some ?c, vsize := vsize w + 1\<rparr>"
  have "vector_insert ok v p x = Inr ?v"
    using False pv assms(4,5) w b c p by (simp add: vector_insert_def)
  moreover have "vec_inv ?v"
    using b c w p inc by (auto simp: vec_inv_def nth_list_update less_Suc_eq)
  moreover have "elems ?v = take (unat p) (elems w) @ [copy_constructor w x] @ drop (unat p) (elems w)"
    by (rule nth_equalityI)
      (use b(1-4) c w(6) p inc in \<open>auto simp: elems_def nth_list_update nth_append nth_Cons'\<close>)
  ultimately show ?thesis using w by (auto simp: same_callbacks_def)
qed

lemma vector_erase_ok:
  assumes "vec_inv v" and "p < vsize v"
  shows "\<exists>v'. vector_erase v p =
             Inr (v', if elems v ! unat p = None then [] else destructor v (elems v ! unat p))
           \<and> vec_inv v' \<and> same_callbacks v v'
           \<and> elems v' = take (unat p) (elems v) @ drop (unat p + 1) (elems v)"
proof -
  obtain b where b: "array v = Some b" "length b = unat (capacity v)" "unat (vsize v) \<le> length b"
    "\<forall>i < unat (vsize v). is_val (b ! i)" "b \<noteq> []" "length b \<le> 2 ^ 60"
    "elems v = map the_val (take (unat (vsize v)) b)"
    using assms(1) by (rule vec_invE)
  have p: "unat p < unat (vsize v)" using assms(2) by (simp add: word_less_nat_alt)
  have nz: "vsize v \<noteq> 0" using p by auto
  let ?n = "unat (vsize v)"
  have dec: "unat (vsize v - 1) = ?n - 1" by (rule unat_dec[OF nz])
  define b1 where "b1 = (if elems v ! unat p = None then b else b[unat p := Val None])"
  have b1: "length b1 = length b" "\<forall>j < ?n. is_val (b1 ! j)" "\<forall>j < length b. j \<noteq> unat p \<longrightarrow> b1 ! j = b ! j"
    using b p by (auto simp: b1_def nth_list_update)
  have iv: "\<forall>j. unat p < j \<and> j \<le> ?n - 1 \<longrightarrow> is_val (b1 ! j)"
    using b1(2) p by auto
  have le: "unat p \<le> ?n - 1" "?n - 1 < length b1" using p b(3) b1(1) by linarith+
  obtain c where c: "for_up (unat p) (?n - 1) (\<lambda>i b. rbind (rd b (i + 1)) (wr b i)) b1 = Inr c"
    "length c = length b1"
    "\<forall>k < length b1. c ! k = (if unat p \<le> k \<and> k < ?n - 1 then b1 ! (k + 1) else b1 ! k)"
    using shift_down_ok[OF le iv] by blast
  let ?v = "v\<lparr>array := Some (c[?n - 1 := Val None]), vsize := vsize v - 1\<rparr>"
  have "vector_erase v p =
      Inr (?v, if elems v ! unat p = None then [] else destructor v (elems v ! unat p))"
    using assms(2) p b(1-4,7) b1(1) c(1,2) nz dec
    by (cases "elems v ! unat p = None")
      (auto simp: vector_erase_def vector_size_def vector_empty_def rd_is_val b1_def)
  moreover have "vec_inv ?v"
    using b b1 c p dec by (auto simp: vec_inv_def nth_list_update)
  moreover have "elems ?v = take (unat p) (elems v) @ drop (unat p + 1) (elems v)"
    by (rule nth_equalityI)
      (use b b1 c p dec in \<open>auto simp: elems_def nth_append\<close>)
  ultimately show ?thesis by (auto simp: same_callbacks_def)
qed

lemma vector_resize_ok:
  assumes "vec_inv v" and "unat n \<le> 2 ^ 60" and "\<forall>bytes. ok bytes"
  shows "\<exists>v'. vector_resize ok v n =
             Inr (v', concat (map (destructor v) (live (drop (unat n) (elems v)))))
           \<and> vec_inv v' \<and> same_callbacks v v'
           \<and> elems v' = take (unat n) (elems v)
                @ replicate (unat n - length (elems v)) (default_constructor v)"
proof -
  obtain b where b: "array v = Some b" "length b = unat (capacity v)" "unat (vsize v) \<le> length b"
    "\<forall>i < unat (vsize v). is_val (b ! i)" "b \<noteq> []" "length b \<le> 2 ^ 60"
    "elems v = map the_val (take (unat (vsize v)) b)"
    using assms(1) by (rule vec_invE)
  note inv_simps = vec_inv_def same_callbacks_def elems_def
  consider "n = vsize v" | "n < vsize v" | "vsize v < n" "n \<le> capacity v" | "capacity v < n" "vsize v < n"
    using b(2,3) by (metis leD leI le_less_trans not_less_iff_gr_or_eq word_le_nat_alt)
  then show ?thesis
  proof cases
    case 1
    then show ?thesis using b assms(1) by (simp add: vector_resize_def same_callbacks_def live_def)
  next
    case 2
    then have "unat n < unat (vsize v)" by (simp add: word_less_nat_alt)
    with 2 b show ?thesis
      using destroy_cells_ok[of "unat n" "unat (vsize v)" b "destructor v"]
      by (auto simp: vector_resize_def inv_simps drop_map nth_append take_map)
  next
    case 3
    then have "unat (vsize v) < unat n" "unat n \<le> length b"
      using b by (auto simp: word_less_nat_alt word_le_nat_alt)
    with 3 b show ?thesis
      using fill_cells_ok[of "unat (vsize v)" "unat n" b "default_constructor v"]
      by (auto simp: vector_resize_def inv_simps nth_append live_def)
  next
    case 4
    then have lt: "unat (vsize v) < unat n" by (simp add: word_less_nat_alt)
    obtain cap where cap: "get_new_capacity n = Some cap" "unat n \<le> unat cap"
      "unat cap \<le> 2 ^ 60" "0 < unat cap" using new_capacity_bounds[OF assms(2)] .
    have mal: "malloc_array ok cap = Some (replicate (unat cap) (Uninit :: 'a ptr cell))"
      by (rule malloc_array_ok) (use cap assms in auto)
    let ?b = "take (unat (vsize v)) b @ replicate (unat cap - unat (vsize v)) Uninit"
    have "(if vsize v = 0 then Inr (replicate (unat cap) Uninit)
           else rbind (deref (array v)) (\<lambda>old. copy_cells (unat (vsize v)) old (replicate (unat cap) Uninit)))
        = Inr ?b"
      using copy_cells_ok[of "unat (vsize v)" b "replicate (unat cap) Uninit"] b cap lt by auto
    moreover have "fill_cells (default_constructor v) (unat (vsize v)) (unat n) ?b = Inr
        (take (unat (vsize v)) b @ replicate (unat n - unat (vsize v)) (Val (default_constructor v))
           @ replicate (unat cap - unat n) Uninit)"
      using fill_cells_ok[of "unat (vsize v)" "unat n" ?b "default_constructor v"] b cap lt by simp
    ultimately show ?thesis using 4 b cap mal lt
      by (auto simp: vector_resize_def inv_simps nth_append live_def)
  qed
qed

lemma vector_reserve_overflow:
  assumes "vec_inv v" and "n \<noteq> capacity v" and "\<forall>bytes. ok bytes"
    and "get_new_capacity n = Some cap" and "cap < vsize v"
  shows "vector_reserve ok v n = Inl Out_Of_Bounds"
proof -
  obtain b where b: "array v = Some b" "length b = unat (capacity v)" "unat (vsize v) \<le> length b"
    "\<forall>i < unat (vsize v). is_val (b ! i)" "length b \<le> 2 ^ 60"
    using assms(1) by (rule vec_invE)
  have lt: "unat cap < unat (vsize v)" using assms(5) by (simp add: word_less_nat_alt)
  have mal: "malloc_array ok cap = Some (replicate (unat cap) (Uninit :: 'a ptr cell))"
    by (rule malloc_array_ok) (use b lt assms(3) in auto)
  have "copy_cells (unat (vsize v)) b (replicate (unat cap) Uninit) = Inl Out_Of_Bounds"
    unfolding copy_cells_def
    by (rule for_up_fault_rule[where P = "\<lambda>j c. length c = unat cap" and m = "unat cap"])
      (use b lt in \<open>auto simp: rd_is_val\<close>)
  with b lt mal assms(2,4) show ?thesis by (auto simp: vector_reserve_def Let_def)
qed

section \<open>Programs over a vector and their list specification\<close>

text \<open>
  A client is a sequence of calls. \<open>list_step\<close> is the specification of one call on the
  abstract list: \<open>None\<close> when the call breaks its contract (a failed assertion, a size beyond
  \<open>2 ^ 60\<close>, a reserve below the size), otherwise the new list, the objects released and the
  objects constructed.
\<close>

datatype 'e vec_op =
    Push_Back "'e ptr" | Pop_Back | Insert size_t "'e ptr" | Erase size_t
  | Set_At size_t "'e ptr" | Resize size_t | Reserve size_t | Clear

fun vec_step ::
  "(size_t \<Rightarrow> bool) \<Rightarrow> 'e vec_op \<Rightarrow> 'e vector \<Rightarrow> ('e vector \<times> 'e list) res" where
  "vec_step ok (Push_Back x) v = rbind (vector_push_back ok v x) (\<lambda>v'. Inr (v', []))"
| "vec_step ok Pop_Back v = vector_pop_back v"
| "vec_step ok (Insert p x) v = rbind (vector_insert ok v p x) (\<lambda>v'. Inr (v', []))"
| "vec_step ok (Erase p) v = vector_erase v p"
| "vec_step ok (Set_At p x) v = vector_set v p x"
| "vec_step ok (Resize n) v = vector_resize ok v n"
| "vec_step ok (Reserve n) v = rbind (vector_reserve ok v n) (\<lambda>v'. Inr (v', []))"
| "vec_step ok Clear v = vector_clear v"

fun vec_run ::
  "(size_t \<Rightarrow> bool) \<Rightarrow> 'e vec_op list \<Rightarrow> 'e vector \<Rightarrow> ('e vector \<times> 'e list) res" where
  "vec_run ok [] v = Inr (v, [])"
| "vec_run ok (p # ops) v =
     rbind (vec_step ok p v) (\<lambda>(v1, l1).
       rbind (vec_run ok ops v1) (\<lambda>(v2, l2). Inr (v2, l1 @ l2)))"

fun opt_list :: "'e ptr \<Rightarrow> 'e list" where
  "opt_list None = []"
| "opt_list (Some e) = [e]"

fun list_step ::
  "'e callbacks \<Rightarrow> 'e vec_op \<Rightarrow> 'e ptr list \<Rightarrow> ('e ptr list \<times> 'e list \<times> 'e list) option" where
  "list_step cb (Push_Back x) xs =
     (if x \<noteq> None \<and> length xs < 2 ^ 60
      then Some (xs @ [cb_copy cb x], [], opt_list (cb_copy cb x)) else None)"
| "list_step cb Pop_Back xs =
     Some (butlast xs, if xs = [] then [] else cb_destroy cb (last xs), [])"
| "list_step cb (Insert p x) xs =
     (if x \<noteq> None \<and> unat p \<le> length xs \<and> length xs < 2 ^ 60
      then Some (take (unat p) xs @ [cb_copy cb x] @ drop (unat p) xs, [], opt_list (cb_copy cb x))
      else None)"
| "list_step cb (Erase p) xs =
     (if unat p < length xs
      then Some (take (unat p) xs @ drop (unat p + 1) xs,
                 if xs ! unat p = None then [] else cb_destroy cb (xs ! unat p), [])
      else None)"
| "list_step cb (Set_At p x) xs =
     (if unat p < length xs
      then Some (xs[unat p := cb_copy cb x], opt_list (xs ! unat p), opt_list (cb_copy cb x))
      else None)"
| "list_step cb (Resize n) xs =
     (if unat n \<le> 2 ^ 60
      then Some (take (unat n) xs @ replicate (unat n - length xs) (cb_default cb),
                 concat (map (cb_destroy cb) (live (drop (unat n) xs))),
                 concat (replicate (unat n - length xs) (opt_list (cb_default cb))))
      else None)"
| "list_step cb (Reserve n) xs =
     (if length xs \<le> unat n \<and> unat n \<le> 2 ^ 60 then Some (xs, [], []) else None)"
| "list_step cb Clear xs = Some ([], concat (map (cb_destroy cb) (live xs)), [])"

fun list_run ::
  "'e callbacks \<Rightarrow> 'e vec_op list \<Rightarrow> 'e ptr list \<Rightarrow> ('e ptr list \<times> 'e list \<times> 'e list) option"
where
  "list_run cb [] xs = Some (xs, [], [])"
| "list_run cb (p # ops) xs =
     (case list_step cb p xs of None \<Rightarrow> None
      | Some (ys, r1, m1) \<Rightarrow>
          (case list_run cb ops ys of None \<Rightarrow> None
           | Some (zs, r2, m2) \<Rightarrow> Some (zs, r1 @ r2, m1 @ m2)))"

definition has_callbacks :: "'e callbacks \<Rightarrow> 'e vector \<Rightarrow> bool" where
  "has_callbacks cb v \<longleftrightarrow> copy_constructor v = cb_copy cb \<and> destructor v = cb_destroy cb
     \<and> default_constructor v = cb_default cb"

definition owning :: "'e callbacks \<Rightarrow> bool" where
  \<comment> \<open>the destructor releases exactly the object it is given\<close>
  "owning cb \<longleftrightarrow> cb_destroy cb = opt_list"

section \<open>Simulation and ownership\<close>

lemma unat_lt_length: "vec_inv v \<Longrightarrow> (unat p < length (elems v)) = (p < vsize v)"
  by (simp add: length_elems word_less_nat_alt)

lemma unat_le_length: "vec_inv v \<Longrightarrow> (unat p \<le> length (elems v)) = (p \<le> vsize v)"
  by (simp add: length_elems word_le_nat_alt)

lemma length_le_unat: "vec_inv v \<Longrightarrow> (length (elems v) \<le> unat p) = (vsize v \<le> p)"
  by (simp add: length_elems word_le_nat_alt)

lemma has_callbacks_same: "has_callbacks cb v \<Longrightarrow> same_callbacks v w \<Longrightarrow> has_callbacks cb w"
  by (simp add: has_callbacks_def same_callbacks_def)

lemma elems_empty_iff: "vec_inv v \<Longrightarrow> (elems v = []) = (vsize v = 0)"
  using length_elems[of v] unat_eq_zero[of "vsize v"] by (metis length_0_conv)

lemma opt_list_case: "(case q of None \<Rightarrow> [] | Some e \<Rightarrow> [e]) = opt_list q"
  by (cases q) auto

lemma vec_step_refines:
  assumes "vec_inv v" and "has_callbacks cb v" and "\<forall>bytes. ok bytes"
    and "list_step cb p (elems v) = Some (ys, log, built)"
  shows "\<exists>v'. vec_step ok p v = Inr (v', log) \<and> vec_inv v' \<and> has_callbacks cb v' \<and> elems v' = ys"
proof -
  note len = length_elems[OF assms(1)]
  note cb = assms(2)[unfolded has_callbacks_def]
  note go = has_callbacks_same[OF assms(2)]
  show ?thesis
  proof (cases p)
    case (Push_Back x)
    with vector_push_back_ok[OF assms(1) _ assms(3), of x] assms(4) len cb go show ?thesis
      by (fastforce split: if_splits)
  next
    case Pop_Back
    show ?thesis
    proof (cases "vsize v = 0")
      case True
      with Pop_Back assms(1,2,4) elems_empty_iff[OF assms(1)] show ?thesis
        by (simp add: vector_pop_back_def vector_empty_def)
    next
      case False
      with Pop_Back vector_pop_back_ok[OF assms(1) False] assms(4) elems_empty_iff[OF assms(1)] cb go
      show ?thesis by fastforce
    qed
  next
    case (Insert q x)
    with vector_insert_ok[OF assms(1) _ assms(3), of x q] assms(4) unat_le_length[OF assms(1)] len cb go
    show ?thesis by (fastforce split: if_splits)
  next
    case (Erase q)
    with vector_erase_ok[OF assms(1), of q] assms(4) unat_lt_length[OF assms(1)] cb go
    show ?thesis by (fastforce split: if_splits)
  next
    case (Set_At q x)
    with vector_set_ok[OF assms(1), of q x] assms(4) unat_lt_length[OF assms(1)] cb go
    show ?thesis by (fastforce simp: opt_list_case split: if_splits)
  next
    case (Resize n)
    with vector_resize_ok[OF assms(1) _ assms(3), of n] assms(4) cb go
    show ?thesis by (fastforce split: if_splits)
  next
    case (Reserve n)
    with vector_reserve_ok[OF assms(1) _ _ assms(3), of n] assms(4) length_le_unat[OF assms(1)] go
    show ?thesis by (fastforce split: if_splits)
  next
    case Clear
    with vector_clear_ok[OF assms(1)] assms(4) cb go show ?thesis by fastforce
  qed
qed

lemma vec_run_refines:
  assumes "vec_inv v" and "has_callbacks cb v" and "\<forall>bytes. ok bytes"
    and "list_run cb ops (elems v) = Some (ys, log, built)"
  shows "\<exists>v'. vec_run ok ops v = Inr (v', log) \<and> vec_inv v' \<and> has_callbacks cb v' \<and> elems v' = ys"
  using assms
proof (induction ops arbitrary: v log built)
  case Nil
  then show ?case by simp
next
  case (Cons p ops)
  obtain xs r1 m1 r2 m2 where s: "list_step cb p (elems v) = Some (xs, r1, m1)"
    "list_run cb ops xs = Some (ys, r2, m2)" "log = r1 @ r2"
    using Cons.prems(4) by (auto split: option.splits)
  obtain v1 where v1: "vec_step ok p v = Inr (v1, r1)" "vec_inv v1" "has_callbacks cb v1" "elems v1 = xs"
    using vec_step_refines[OF Cons.prems(1-3) s(1)] by blast
  obtain v2 where "vec_run ok ops v1 = Inr (v2, r2)" "vec_inv v2" "has_callbacks cb v2" "elems v2 = ys"
    using Cons.IH[OF v1(2,3) Cons.prems(3)] s(2) v1(4) by blast
  with v1(1) s(3) show ?case by simp
qed

lemma vector_create_callbacks:
  "vector_create ok sh (Some c) (Some d) (Some e) = Inr v \<Longrightarrow>
     has_callbacks \<lparr>cb_copy = c, cb_destroy = d, cb_default = e\<rparr> v"
  by (auto simp: vector_create_def has_callbacks_def Let_def split: if_splits)

lemma vec_program_refines:
  assumes "\<forall>bytes. ok bytes"
    and "list_run \<lparr>cb_copy = c, cb_destroy = d, cb_default = e\<rparr> ops [] = Some (ys, log, built)"
  obtains v0 v where "vector_create ok sh (Some c) (Some d) (Some e) = Inr v0"
    "vec_run ok ops v0 = Inr (v, log)" "vec_inv v" "elems v = ys" "destructor v = d"
proof -
  let ?cb = "\<lparr>cb_copy = c, cb_destroy = d, cb_default = e\<rparr>"
  obtain v0 where v0: "vector_create ok sh (Some c) (Some d) (Some e) = Inr v0" "vec_inv v0" "elems v0 = []"
    using vector_create_ok[OF assms(1)] by blast
  have cb: "has_callbacks ?cb v0" by (rule vector_create_callbacks[OF v0(1)])
  obtain v where v: "vec_run ok ops v0 = Inr (v, log)" "vec_inv v" "has_callbacks ?cb v" "elems v = ys"
    using vec_run_refines[OF v0(2) cb assms(1), of ops ys log built, unfolded v0(3), OF assms(2)]
    by blast
  show thesis by (rule that[OF v0(1) v(1,2,4)]) (use v(3) in \<open>simp add: has_callbacks_def\<close>)
qed

definition held :: "'e ptr list \<Rightarrow> 'e list" where
  "held ps = concat (map opt_list ps)"

lemma held_simps [simp]:
  "held [] = []" "held (p # ps) = opt_list p @ held ps" "held (ps @ qs) = held ps @ held qs"
  "held (replicate n p) = concat (replicate n (opt_list p))"
  by (simp_all add: held_def)

lemma held_live: "concat (map opt_list (live ps)) = held ps"
  by (induction ps) (auto simp: live_def)

lemma held_take_drop: "mset (held (take n ps)) + mset (held (drop n ps)) = mset (held ps)"
  by (metis append_take_drop_id held_simps(3) mset_append)

lemma held_at:
  assumes "i < length ps"
  shows "mset (held ps) = mset (held (take i ps)) + mset (opt_list (ps ! i)) + mset (held (drop (Suc i) ps))"
  using id_take_nth_drop[OF assms] by (metis append.assoc held_simps(2,3) mset_append union_assoc)

lemma held_update:
  assumes "i < length ps"
  shows "mset (held (ps[i := q])) + mset (opt_list (ps ! i)) = mset (held ps) + mset (opt_list q)"
  using assms by (simp add: held_at[OF assms] upd_conv_take_nth_drop)

lemma held_butlast:
  "ps \<noteq> [] \<Longrightarrow> mset (held ps) = mset (held (butlast ps)) + mset (opt_list (last ps))"
  by (metis append_butlast_last_id held_simps(1,2,3) append_Nil2 mset_append)

lemma list_step_conserves:
  assumes "owning cb" and "list_step cb p xs = Some (ys, log, built)"
  shows "mset (held ys) + mset log = mset (held xs) + mset built"
proof -
  have d: "cb_destroy cb = opt_list" using assms(1) by (simp add: owning_def)
  have None_list: "(if q = None then [] else opt_list q) = opt_list q" for q :: "'a ptr" by simp
  show ?thesis
  proof (cases p)
    case (Erase q)
    with assms(2) d show ?thesis
      by (auto simp: None_list held_at split: if_splits)
  next
    case (Set_At q x)
    with assms(2) held_update[of "unat q" xs "cb_copy cb x"] show ?thesis by (auto split: if_splits)
  next
    case (Insert q x)
    with assms(2) held_take_drop[of "unat q" xs, symmetric] show ?thesis by (auto split: if_splits)
  next
    case (Resize n)
    with assms(2) d held_take_drop[of "unat n" xs] show ?thesis
      by (auto simp: held_live split: if_splits)
  qed (use assms(2) d in \<open>auto simp: held_live held_butlast split: if_splits\<close>)
qed

lemma list_run_conserves:
  assumes "owning cb" and "list_run cb ops xs = Some (ys, log, built)"
  shows "mset (held ys) + mset log = mset (held xs) + mset built"
  using assms(2)
proof (induction ops arbitrary: xs log built)
  case Nil
  then show ?case by simp
next
  case (Cons p ops)
  then obtain zs r1 m1 r2 m2 where s: "list_step cb p xs = Some (zs, r1, m1)"
    "list_run cb ops zs = Some (ys, r2, m2)" "log = r1 @ r2" "built = m1 @ m2"
    by (auto split: option.splits)
  from Cons.IH[OF s(2)] list_step_conserves[OF assms(1) s(1)] s(3,4) show ?case
    by (metis mset_append union_assoc union_commute)
qed

section \<open>The vector as a growable sequence\<close>

definition vector_nth :: "'e vector \<Rightarrow> nat \<Rightarrow> 'e ptr res" where
  "vector_nth v i = vector_get v (word_of_nat i)"

definition value_vector :: "'e vector \<Rightarrow> bool" where
  \<comment> \<open>a vector whose copy constructor reproduces the value it copies\<close>
  "value_vector v \<longleftrightarrow> vec_inv v \<and> (\<forall>p. copy_constructor v p = p)"

interpretation vec_seq:
  growable_seq "vector_push_back (\<lambda>_. True)" vector_nth elems value_vector "\<lambda>p. p \<noteq> None" "2 ^ 60"
proof unfold_locales
  fix v :: "'e vector" and x :: "'e ptr"
  assume "value_vector v" "x \<noteq> None" "length (elems v) < 2 ^ 60"
  then show "\<exists>v'. vector_push_back (\<lambda>_. True) v x = Inr v' \<and> value_vector v' \<and> elems v' = elems v @ [x]"
    using vector_push_back_ok[of v "\<lambda>_. True" x] length_elems[of v]
    by (auto simp: value_vector_def same_callbacks_def)
next
  fix v :: "'e vector" and i
  assume a: "value_vector v" "i < length (elems v)"
  then have "i < 2 ^ 60" by (auto simp: value_vector_def vec_inv_def elems_def)
  then have "unat (word_of_nat i :: size_t) = i" by (simp add: unat_of_nat)
  with a show "vector_nth v i = Inr (elems v ! i)"
    using vector_get_ok[of v "word_of_nat i"] unat_lt_length[of v "word_of_nat i"]
    by (simp add: vector_nth_def value_vector_def)
qed

section \<open>Properties\<close>

text \<open>
  C1: for every sequence of calls that keeps the contracts of \<^verbatim>\<open>vector.c\<close> (pushes, pops,
  insertions, erasures, sets, resizes, reserves, clears, with sizes up to \<open>2 ^ 60\<close>), a vector
  made by \<open>vector_create\<close> never faults; its elements are exactly those of the same calls on a
  list, the objects released are exactly those the list specification names, in order, and
  \<open>vector_destroy\<close> then calls the destructor once on each remaining element that is not
  \<open>NULL\<close>, in order.
\<close>

theorem vector_program_refines_list:
  assumes "\<forall>bytes. ok bytes"
    and "list_run \<lparr>cb_copy = c, cb_destroy = d, cb_default = e\<rparr> ops [] = Some (ys, log, built)"
  shows "\<exists>v0 v. vector_create ok sh (Some c) (Some d) (Some e) = Inr v0
           \<and> vec_run ok ops v0 = Inr (v, log) \<and> vec_inv v \<and> elems v = ys
           \<and> vector_destroy v = Inr (concat (map d (live ys)))"
proof -
  obtain v0 v where v: "vector_create ok sh (Some c) (Some d) (Some e) = Inr v0"
    "vec_run ok ops v0 = Inr (v, log)" "vec_inv v" "elems v = ys" "destructor v = d"
    using assms by (rule vec_program_refines)
  with vector_destroy_ok[OF v(3)] show ?thesis by auto
qed

theorem vector_program_refines_list_witness:
  "\<exists>v0 v. vector_create (\<lambda>_. True) \<lparr>cb_copy = \<lambda>p. p, cb_destroy = \<lambda>_. [], cb_default = None\<rparr>
       (Some (\<lambda>p. p)) (Some opt_list) (Some (Some (0::int))) = Inr v0
     \<and> vec_run (\<lambda>_. True)
         [Push_Back (Some 1), Insert 0 (Some 3), Push_Back (Some 2), Erase 1, Set_At 0 (Some 9),
          Reserve 40, Resize 3, Pop_Back] v0 = Inr (v, [1, 3, 0])
     \<and> vec_inv v \<and> elems v = [Some 9, Some 2] \<and> vector_destroy v = Inr [9, 2]"
proof -
  have r: "list_run \<lparr>cb_copy = \<lambda>p. p, cb_destroy = opt_list, cb_default = Some (0::int)\<rparr>
      [Push_Back (Some 1), Insert 0 (Some 3), Push_Back (Some 2), Erase 1, Set_At 0 (Some 9),
       Reserve 40, Resize 3, Pop_Back] []
      = Some ([Some 9, Some 2], [1, 3, 0], [1, 3, 2, 9, 0])"
    by (simp add: live_def)
  show ?thesis
    using vector_program_refines_list[OF _ r, of "\<lambda>_. True"] by (simp add: live_def)
qed

text \<open>
  C2: with an owning destructor, over any such program followed by \<open>vector_destroy\<close> every
  object built by the copy and default constructors is released exactly once: nothing leaks
  and nothing is freed twice.
\<close>

theorem vector_releases_each_object_once:
  assumes "\<forall>bytes. ok bytes"
    and "list_run \<lparr>cb_copy = c, cb_destroy = opt_list, cb_default = e\<rparr> ops [] = Some (ys, log, built)"
  shows "\<exists>v0 v rest. vector_create ok sh (Some c) (Some opt_list) (Some e) = Inr v0
           \<and> vec_run ok ops v0 = Inr (v, log) \<and> vector_destroy v = Inr rest
           \<and> mset (log @ rest) = mset built"
proof -
  obtain v0 v where v: "vector_create ok sh (Some c) (Some opt_list) (Some e) = Inr v0"
    "vec_run ok ops v0 = Inr (v, log)" "vec_inv v" "elems v = ys" "destructor v = opt_list"
    using assms by (rule vec_program_refines)
  have "vector_destroy v = Inr (held ys)"
    using vector_destroy_ok[OF v(3)] v(4,5) by (simp add: held_live)
  moreover have "mset (log @ held ys) = mset built"
    using list_run_conserves[OF _ assms(2)] by (simp add: owning_def union_commute)
  ultimately show ?thesis using v(1,2) by blast
qed

theorem vector_releases_each_object_once_witness:
  "\<exists>v0 v rest. vector_create (\<lambda>_. True) \<lparr>cb_copy = \<lambda>p. p, cb_destroy = \<lambda>_. [], cb_default = None\<rparr>
       (Some (\<lambda>p. p)) (Some opt_list) (Some (None :: nat option)) = Inr v0
     \<and> vec_run (\<lambda>_. True) [Push_Back (Some 4), Push_Back (Some 5), Resize 1, Set_At 0 (Some 6)] v0
         = Inr (v, [5, 4])
     \<and> vector_destroy v = Inr rest \<and> mset ([5, 4] @ rest) = mset [4, 5, 6]"
proof -
  have r: "list_run \<lparr>cb_copy = \<lambda>p. p, cb_destroy = opt_list, cb_default = (None :: nat option)\<rparr>
      [Push_Back (Some 4), Push_Back (Some 5), Resize 1, Set_At 0 (Some 6)] []
      = Some ([Some 6], [5, 4], [4, 5, 6])"
    by (simp add: live_def)
  show ?thesis
    using vector_releases_each_object_once[OF _ r, of "\<lambda>_. True"] by simp
qed

text \<open>
  \<open>get_new_capacity\<close> returns for every target up to \<open>2 ^ 63\<close>, and returns the least power
  of two that is at least the target.
\<close>

theorem get_new_capacity_least:
  assumes "unat target \<le> 2 ^ 63"
  shows "\<exists>c. get_new_capacity target = Some c \<and> target \<le> c \<and> (\<exists>k. unat c = 2 ^ k)
           \<and> (\<forall>j. unat target \<le> 2 ^ j \<longrightarrow> unat c \<le> 2 ^ j)"
proof -
  obtain k where k: "get_new_capacity target = Some (2 ^ k)" "k \<le> 63" "unat target \<le> 2 ^ k"
      "\<forall>j. unat target \<le> 2 ^ j \<longrightarrow> k \<le> j"
    using get_new_capacity_least_pow2[OF assms] by blast
  then show ?thesis
    by (auto simp: word_le_nat_alt unat_pow2 intro!: exI[of _ "2 ^ k"] power_increasing)
qed

theorem get_new_capacity_least_witness:
  "\<exists>c. get_new_capacity 9 = Some c \<and> 9 \<le> c \<and> (\<exists>k. unat c = 2 ^ k)
     \<and> (\<forall>j. 9 \<le> (2::nat) ^ j \<longrightarrow> unat c \<le> 2 ^ j)"
  using get_new_capacity_least[of 9] by simp

text \<open>
  Beyond \<open>2 ^ 63\<close> the doubling wraps to zero and the loop of \<open>get_new_capacity\<close> never
  stops, so \<open>vector_reserve\<close> and \<open>vector_resize\<close> with such a size never return.
\<close>

theorem vector_growth_beyond_2_63_diverges:
  assumes "2 ^ 63 < unat n" and "capacity v < n" and "vsize v < n"
  shows "vector_reserve ok v n = Inl Diverges \<and> vector_resize ok v n = Inl Diverges"
  using assms get_new_capacity_diverges[OF assms(1)]
  by (auto simp: vector_reserve_def vector_resize_def)

definition demo_vector :: "nat \<Rightarrow> nat vector" where
  \<comment> \<open>a vector of \<open>m \<le> 16\<close> elements in sixteen cells, for the concrete instances\<close>
  "demo_vector m =
     \<lparr>copy_constructor = \<lambda>p. p, destructor = opt_list, default_constructor = None,
      array = Some (replicate 16 (Val (Some 7))), vsize = word_of_nat m, capacity = 16\<rparr>"

theorem vector_growth_beyond_2_63_diverges_witness:
  "vector_reserve (\<lambda>_. True) (demo_vector 9) (2 ^ 63 + 1) = Inl Diverges
     \<and> vector_resize (\<lambda>_. True) (demo_vector 9) (2 ^ 63 + 1) = Inl Diverges"
  by (rule vector_growth_beyond_2_63_diverges) (simp_all add: demo_vector_def)

text \<open>
  \<open>vector_reserve\<close> called with a size whose rounded capacity is below the current size
  allocates the smaller array and copies every element into it, so it writes past the end of
  the new block.
\<close>

theorem vector_reserve_below_size_overflows:
  assumes "vec_inv v" and "n \<noteq> capacity v" and "\<forall>bytes. ok bytes"
    and "get_new_capacity n = Some cap" and "cap < vsize v"
  shows "vector_reserve ok v n = Inl Out_Of_Bounds"
  using assms by (rule vector_reserve_overflow)

theorem vector_reserve_below_size_overflows_witness:
  "vector_reserve (\<lambda>_. True) (demo_vector 9) 2 = Inl Out_Of_Bounds"
proof (rule vector_reserve_below_size_overflows)
  show "vec_inv (demo_vector 9)" by (simp add: vec_inv_def demo_vector_def)
  show "get_new_capacity 2 = Some 2" unfolding get_new_capacity_def
    by (simp add: while_option_unfold GROWTH_FACTOR_def)
qed (simp_all add: demo_vector_def)

text \<open>
  Every positional operation checks its position: outside the vector, \<open>vector_at\<close>,
  \<open>vector_get\<close>, \<open>vector_set\<close>, \<open>vector_erase\<close> and (beyond the end) \<open>vector_insert\<close> stop at the
  failed assertion before touching memory; on an empty vector so do \<open>vector_front\<close> and
  \<open>vector_back\<close>, while \<open>vector_pop_back\<close> leaves it as it is.
\<close>

theorem vector_positions_are_checked:
  "(\<not> p < vsize v \<longrightarrow> vector_at v p = Inl Assert_Failed \<and> vector_get v p = Inl Assert_Failed
      \<and> vector_set v p x = Inl Assert_Failed \<and> vector_erase v p = Inl Assert_Failed)
   \<and> (vsize v < p \<longrightarrow> vector_insert ok v p x = Inl Assert_Failed)
   \<and> (vsize v = 0 \<longrightarrow> vector_front v = Inl Assert_Failed \<and> vector_back v = Inl Assert_Failed
      \<and> vector_pop_back v = Inr (v, []))"
  by (auto simp: vector_at_def vector_get_def vector_set_def vector_erase_def vector_insert_def
      vector_front_def vector_back_def vector_pop_back_def vector_empty_def vector_size_def
      c_assert_def)

theorem vector_positions_are_checked_witness:
  "vector_get (demo_vector 9) 9 = Inl Assert_Failed
     \<and> vector_insert (\<lambda>_. True) (demo_vector 9) 10 (Some 1) = Inl Assert_Failed
     \<and> vector_pop_back (demo_vector 0) = Inr (demo_vector 0, [])"
  using vector_positions_are_checked[of 9 "demo_vector 9" None "\<lambda>_. True"]
    vector_positions_are_checked[of 10 "demo_vector 9" "Some 1" "\<lambda>_. True"]
    vector_positions_are_checked[of 0 "demo_vector 0" None "\<lambda>_. True"]
  by (simp add: demo_vector_def)

end
