(* ===== verification/Cstring.thy ===== *)
theory Cstring
  imports Prelude "HOL-Library.Sublist"
begin

text \<open>
  C strings in blocks of memory cells, and the functions of \<^verbatim>\<open>string.h\<close> the repository
  calls, with the memory accesses the C standard gives them: reading stops at the terminator
  and faults on a cell that was never written or past the end of the block, writing faults past
  the end of the block. \<open>int_of_long\<close> is the conversion to the 32-bit \<open>int\<close>.
\<close>

section \<open>Strings in blocks\<close>

definition NUL :: char where "NUL = CHR 0x00"

type_synonym block = "char cell list"

fun read_cstr :: "block \<Rightarrow> string res" where
  "read_cstr [] = Inl Out_Of_Bounds"
| "read_cstr (Uninit # b) = Inl Uninit_Read"
| "read_cstr (Val c # b) = (if c = NUL then Inr [] else rbind (read_cstr b) (\<lambda>s. Inr (c # s)))"

definition c_strlen :: "block \<Rightarrow> nat res" where
  "c_strlen b = rbind (read_cstr b) (\<lambda>s. Inr (length s))"

fun write_bytes :: "block \<Rightarrow> nat \<Rightarrow> string \<Rightarrow> block res" where
  "write_bytes b i [] = Inr b"
| "write_bytes b i (c # cs) = rbind (wr b i c) (\<lambda>b'. write_bytes b' (Suc i) cs)"

definition c_strcpy :: "block \<Rightarrow> block \<Rightarrow> block res" where
  "c_strcpy dst src = rbind (read_cstr src) (\<lambda>s. write_bytes dst 0 (s @ [NUL]))"

definition c_strcat :: "block \<Rightarrow> block \<Rightarrow> block res" where
  "c_strcat dst src =
     rbind (c_strlen dst) (\<lambda>n. rbind (read_cstr src) (\<lambda>s. write_bytes dst n (s @ [NUL])))"

definition c_memcpy :: "block \<Rightarrow> block \<Rightarrow> nat \<Rightarrow> block res" where
  \<comment> \<open>\<open>memcpy(dst, src, n)\<close> copies \<open>n\<close> cells as they are\<close>
  "c_memcpy dst src n =
     (if n \<le> length dst \<and> n \<le> length src then Inr (take n src @ drop n dst)
      else Inl Out_Of_Bounds)"

primrec c_strstr :: "string \<Rightarrow> string \<Rightarrow> nat option" where
  "c_strstr [] t = (if t = [] then Some 0 else None)"
| "c_strstr (c # s) t = (if prefix t (c # s) then Some 0 else map_option Suc (c_strstr s t))"

definition cstring :: "string \<Rightarrow> block" where
  "cstring s = map Val (s @ [NUL])"

section \<open>Allocation and int arithmetic\<close>

text \<open>
  \<open>malloc\<close> is a parameter of the model: the block it returns for a request. \<open>fresh_malloc\<close> is
  what the C standard promises (exactly the bytes asked for, indeterminate);
  \<open>zeroed_malloc k\<close> returns zero bytes and \<open>k\<close> usable bytes more than asked for, as an
  allocator does whose blocks are rounded up and come from fresh pages.
\<close>

type_synonym allocator = "nat \<Rightarrow> block"

definition fresh_malloc :: allocator where "fresh_malloc n = replicate n Uninit"

definition zeroed_malloc :: "nat \<Rightarrow> allocator" where
  "zeroed_malloc k n = replicate (n + k) (Val NUL)"

definition int_of_long :: "int \<Rightarrow> int" where
  "int_of_long i = signed_take_bit 31 i"

definition malloc_int :: "allocator \<Rightarrow> int \<Rightarrow> block res" where
  \<comment> \<open>an \<open>int\<close> request is converted to \<open>size_t\<close>: a negative one is too large to succeed\<close>
  "malloc_int al n = (if n < 0 then Inl Null_Deref else Inr (al (nat n)))"

section \<open>Lemmas\<close>

lemma int_of_long_small [simp]: "0 \<le> i \<Longrightarrow> i < 2 ^ 31 \<Longrightarrow> int_of_long i = i"
  by (simp add: int_of_long_def signed_take_bit_int_eq_self)

lemma read_cstr_Inr_iff:
  "read_cstr b = Inr s \<longleftrightarrow> NUL \<notin> set s \<and> (\<exists>rest. b = cstring s @ rest)"
proof (induction b arbitrary: s rule: read_cstr.induct)
  case (3 c b)
  show ?case
    by (cases s) (auto simp: "3.IH" rbind_Inr_iff cstring_def)
next
  case (2 b)
  show ?case by (cases s) (auto simp: cstring_def)
qed (auto simp: cstring_def)

lemma read_cstring [simp]: "NUL \<notin> set s \<Longrightarrow> read_cstr (cstring s @ rest) = Inr s"
  by (auto simp: read_cstr_Inr_iff)

lemma read_cstring_self [simp]: "NUL \<notin> set s \<Longrightarrow> read_cstr (cstring s) = Inr s"
  using read_cstring[of s "[]"] by simp

lemma length_cstring [simp]: "length (cstring s) = Suc (length s)"
  by (simp add: cstring_def)

lemma write_bytes_in:
  "i + length cs \<le> length b \<Longrightarrow>
     write_bytes b i cs = Inr (take i b @ map Val cs @ drop (i + length cs) b)"
proof (induction cs arbitrary: b i)
  case Nil
  then show ?case by simp
next
  case (Cons c cs)
  then have "write_bytes b i (c # cs) = Inr (take (Suc i) (b[i := Val c]) @ map Val cs
      @ drop (Suc i + length cs) (b[i := Val c]))" by simp
  also have "take (Suc i) (b[i := Val c]) = take i b @ [Val c]"
    using Cons.prems by (simp add: take_Suc_conv_app_nth)
  finally show ?case by simp
qed

lemma write_bytes_out:
  "cs \<noteq> [] \<Longrightarrow> length b < i + length cs \<Longrightarrow> write_bytes b i cs = Inl Out_Of_Bounds"
proof (induction cs arbitrary: b i)
  case Nil
  then show ?case by simp
next
  case (Cons c cs)
  show ?case
  proof (cases "i < length b")
    case True
    with Cons.prems have "cs \<noteq> []" by auto
    with True Cons.IH[of "b[i := Val c]" "Suc i"] Cons.prems show ?thesis by simp
  qed simp
qed

lemma c_strcpy_in:
  "read_cstr src = Inr s \<Longrightarrow> length s < length dst \<Longrightarrow>
     c_strcpy dst src = Inr (cstring s @ drop (Suc (length s)) dst)"
  by (simp add: c_strcpy_def write_bytes_in cstring_def)

lemma c_strcat_in:
  assumes "read_cstr dst = Inr t" and "read_cstr src = Inr s" and "length t + length s < length dst"
  shows "c_strcat dst src = Inr (cstring (t @ s) @ drop (Suc (length t + length s)) dst)"
proof -
  obtain rest where dst: "dst = cstring t @ rest" using assms(1) by (auto simp: read_cstr_Inr_iff)
  with assms show ?thesis
    by (simp add: c_strcat_def c_strlen_def write_bytes_in cstring_def)
qed

lemma c_strcat_out:
  "read_cstr dst = Inr t \<Longrightarrow> read_cstr src = Inr s \<Longrightarrow> length dst \<le> length t + length s \<Longrightarrow>
     c_strcat dst src = Inl Out_Of_Bounds"
  by (simp add: c_strcat_def c_strlen_def write_bytes_out)

lemma read_cstr_append: "read_cstr b = Inr s \<Longrightarrow> read_cstr (b @ rest) = Inr s"
  by (auto simp: read_cstr_Inr_iff)

lemma no_NUL: "read_cstr b = Inr s \<Longrightarrow> NUL \<notin> set s"
  by (simp add: read_cstr_Inr_iff)

lemma length_fresh [simp]: "length (fresh_malloc n) = n"
  by (simp add: fresh_malloc_def)

lemma length_zeroed [simp]: "length (zeroed_malloc k n) = n + k"
  by (simp add: zeroed_malloc_def)

lemma c_strstr_Some:
  "c_strstr s t = Some i \<Longrightarrow> i + length t \<le> length s \<and> take (length t) (drop i s) = t
     \<and> (\<forall>j < i. \<not> prefix t (drop j s))"
proof (induction s arbitrary: i)
  case Nil
  then show ?case by (auto split: if_splits)
next
  case (Cons c s)
  show ?case
  proof (cases "prefix t (c # s)")
    case True
    then have "length t \<le> length (c # s)" by (rule prefix_length_le)
    with True Cons.prems show ?thesis by (auto simp: prefix_def)
  next
    case False
    with Cons.prems obtain k where k: "c_strstr s t = Some k" "i = Suc k" by auto
    have "\<not> prefix t (drop j (c # s))" if "j < i" for j
      using that False k Cons.IH[OF k(1)] by (cases j) auto
    with k Cons.IH[OF k(1)] show ?thesis by auto
  qed
qed

lemma c_strstr_None: "c_strstr s t = None \<Longrightarrow> \<not> prefix t (drop j s) \<or> t = [] "
proof (induction s arbitrary: j)
  case Nil
  then show ?case by (auto split: if_splits)
next
  case (Cons c s)
  then show ?case by (cases j) (auto split: if_splits)
qed

end
