(* ===== verification/Sstring.thy ===== *)
theory Sstring
  imports Cstring Vector
begin

text \<open>
  The counted string of \<^verbatim>\<open>vector/sstring.c\<close>: a heap block, the length and a capacity, both
  \<open>int\<close>. The allocator \<open>al\<close> gives the block \<open>malloc\<close> returns; string arguments are the blocks
  they point to. \<open>sstring_split\<close> pushes its tokens into the vector of \<^verbatim>\<open>vector.c\<close>, whose
  string callbacks are a parameter.
\<close>

section \<open>The struct and its operations\<close>

record sstring =
  slength :: int
  scapacity :: int
  sstr :: "block option"

definition sstr_new_capacity :: "int \<Rightarrow> int option" where
  "sstr_new_capacity target =
     while_option (\<lambda>new_capacity. new_capacity < target)
       (\<lambda>new_capacity. int_of_long (new_capacity * uint GROWTH_FACTOR)) 1"

definition cstr_to_sstring :: "allocator \<Rightarrow> block \<Rightarrow> sstring res" where
  "cstr_to_sstring al input =
     rbind (c_strlen input) (\<lambda>n.
       let len = int_of_long (int n); cap = int_of_long (2 * len) in
       rbind (malloc_int al (int_of_long (cap + 1))) (\<lambda>b.
         rbind (c_strcpy b input) (\<lambda>b'.
           Inr \<lparr>slength = len, scapacity = cap, sstr = Some b'\<rparr>)))"

definition sstring_to_cstr :: "allocator \<Rightarrow> sstring \<Rightarrow> block res" where
  "sstring_to_cstr al input =
     rbind (malloc_int al (int_of_long (slength input + 1))) (\<lambda>result.
       rbind (deref (sstr input)) (\<lambda>b. c_strcpy result b))"

definition sstring_append ::
  "allocator \<Rightarrow> sstring \<Rightarrow> sstring option \<Rightarrow> (sstring \<times> int) res" where
  \<comment> \<open>\<open>None\<close> for \<open>addition\<close> is the call \<open>sstring_append(this, this)\<close>\<close>
  "sstring_append al this addition =
     c_assert (sstr this \<noteq> None)
       (c_assert (case addition of None \<Rightarrow> True | Some a \<Rightarrow> sstr a \<noteq> None)
         (let add_len = (case addition of None \<Rightarrow> slength this | Some a \<Rightarrow> slength a) in
          rbind (deref (sstr this)) (\<lambda>b.
          rbind (if int_of_long (add_len + slength this) > scapacity this
                 then rbind (returns (sstr_new_capacity (int_of_long (add_len + slength this + 1))))
                        (\<lambda>cap. rbind (malloc_int al cap) (\<lambda>new.
                           rbind (c_strcpy new b) (\<lambda>b'. Inr (cap, b'))))
                 else Inr (scapacity this, b)) (\<lambda>(cap, b1).
          rbind (case addition of
                   None \<Rightarrow> rbind (c_strlen b1) (\<lambda>n.
                             rbind (c_strcpy (al (n + 1)) b1) (\<lambda>temp. c_strcat b1 temp))
                 | Some a \<Rightarrow> rbind (deref (sstr a)) (c_strcat b1)) (\<lambda>b2.
          let len = int_of_long (slength this + add_len) in
          Inr (this\<lparr>slength := len, scapacity := cap, sstr := Some b2\<rparr>, len))))))"

definition split_push ::
  "(size_t \<Rightarrow> bool) \<Rightarrow> string vector \<Rightarrow> block \<Rightarrow> string vector res" where
  \<comment> \<open>\<open>cur[strlen(cur)+1] = 0; vector_push_back(v, cur)\<close>: the vector copies the string\<close>
  "split_push ok v cur =
     rbind (c_strlen cur) (\<lambda>k. rbind (wr cur (k + 1) NUL) (\<lambda>cur'.
       rbind (read_cstr cur') (\<lambda>s. vector_push_back ok v (Some s))))"

fun split_loop ::
  "allocator \<Rightarrow> (size_t \<Rightarrow> bool) \<Rightarrow> char \<Rightarrow> block \<Rightarrow> block option \<Rightarrow> bool \<Rightarrow> string vector
   \<Rightarrow> string vector res" where
  "split_loop al ok delimiter [] cur newstart v = Inl Out_Of_Bounds"
| "split_loop al ok delimiter (Uninit # s) cur newstart v = Inl Uninit_Read"
| "split_loop al ok delimiter (Val c # s) cur newstart v =
     rbind (if newstart then rbind (c_strlen (Val c # s)) (\<lambda>n. Inr (al (n + 1))) else deref cur)
       (\<lambda>b. if c = NUL then split_push ok v b
             else if c = delimiter then
               rbind (split_push ok v b) (\<lambda>v'. split_loop al ok delimiter s None True v')
             else
               rbind (c_strlen b) (\<lambda>k. rbind (wr b k c) (\<lambda>b'.
                 split_loop al ok delimiter s (Some b') False v)))"

definition sstring_split ::
  "allocator \<Rightarrow> (size_t \<Rightarrow> bool) \<Rightarrow> string callbacks \<Rightarrow> string callbacks \<Rightarrow> sstring \<Rightarrow> char
   \<Rightarrow> string vector res" where
  "sstring_split al ok shallow strings this delimiter =
     c_assert (sstr this \<noteq> None)
       (rbind (vector_create ok shallow (Some (cb_copy strings)) (Some (cb_destroy strings))
                 (Some (cb_default strings))) (\<lambda>v.
          rbind (deref (sstr this)) (\<lambda>b. split_loop al ok delimiter b None True v)))"

definition sstring_substitute ::
  "allocator \<Rightarrow> sstring \<Rightarrow> nat \<Rightarrow> block \<Rightarrow> block \<Rightarrow> (sstring \<times> int) res" where
  "sstring_substitute al this offset target substitution =
     c_assert (sstr this \<noteq> None)
      (rbind (deref (sstr this)) (\<lambda>b.
       rbind (c_strlen target) (\<lambda>lt.
       rbind (c_strlen substitution) (\<lambda>ls.
       let ltarget = int_of_long (int lt); lsub = int_of_long (int ls) in
       if slength this = 0 \<or> ltarget = 0 then Inr (this, -1)
       else
         rbind (read_cstr (drop offset b)) (\<lambda>hay.
         rbind (read_cstr target) (\<lambda>needle.
         case c_strstr hay needle of
           None \<Rightarrow> Inr (this, -1)
         | Some i \<Rightarrow>
             let idx = offset + i;
                 l2 = slength this - (int idx + ltarget - 1);
                 total = slength this - ltarget + lsub in
             rbind (malloc_int al (l2 + 1)) (\<lambda>after_half.
             rbind (c_memcpy (al (idx + 1)) b idx) (\<lambda>pre.
             rbind (if l2 < 0 then Inl Out_Of_Bounds
                    else c_memcpy after_half (drop (idx + nat ltarget) b) (nat l2)) (\<lambda>post.
             rbind (if total > scapacity this
                    then rbind (returns (sstr_new_capacity (total + 1)))
                           (\<lambda>cap. rbind (malloc_int al cap) (\<lambda>new. Inr (cap, new)))
                    else Inr (scapacity this, b)) (\<lambda>(cap, b1).
             rbind (c_strcpy b1 pre) (\<lambda>b2.
             rbind (c_strcat b2 substitution) (\<lambda>b3.
             rbind (c_strcat b3 post) (\<lambda>b4.
             Inr (this\<lparr>scapacity := cap, sstr := Some b4\<rparr>, 0))))))))))))))"

definition sstring_slice :: "allocator \<Rightarrow> sstring \<Rightarrow> int \<Rightarrow> int \<Rightarrow> block res" where
  "sstring_slice al this start stop =
     c_assert (start \<ge> 0) (c_assert (stop \<le> slength this) (c_assert (start \<le> stop)
       (if start = stop then wr (al 1) 0 NUL
        else rbind (deref (sstr this)) (\<lambda>b.
               c_memcpy (al (nat (stop - start + 1))) (drop (nat start) b) (nat (stop - start))))))"

section \<open>Specification\<close>

fun split_acc :: "char \<Rightarrow> string \<Rightarrow> string \<Rightarrow> string list" where
  "split_acc d acc [] = [acc]"
| "split_acc d acc (c # cs) =
     (if c = d then acc # split_acc d [] cs else split_acc d (acc @ [c]) cs)"

definition holds :: "sstring \<Rightarrow> string \<Rightarrow> bool" where
  \<comment> \<open>a well-formed counted string with the contents \<open>t\<close>\<close>
  "holds s t \<longleftrightarrow>
     (\<exists>b. sstr s = Some b \<and> read_cstr b = Inr t \<and> slength s = int (length t) \<and> length t < 2 ^ 29)"

definition block_size :: "sstring \<Rightarrow> nat" where
  "block_size s = (case sstr s of None \<Rightarrow> 0 | Some b \<Rightarrow> length b)"

section \<open>Growth\<close>

lemma sstr_new_capacity_ok:
  assumes "1 \<le> target" and "target \<le> 2 ^ 30"
  shows "\<exists>c. sstr_new_capacity target = Some c \<and> target \<le> c \<and> c \<le> 2 ^ 30"
proof -
  let ?b = "\<lambda>c. c < target" and ?c = "\<lambda>c. int_of_long (c * uint GROWTH_FACTOR)"
  let ?I = "\<lambda>c. \<exists>k \<le> 30. c = 2 ^ k"
  have step: "?I (?c c) \<and> nat (target - ?c c) < nat (target - c)" if I: "?I c" and b: "c < target" for c
  proof -
    from I obtain k where k: "k \<le> 30" "c = 2 ^ k" by blast
    have "(2::int) ^ k < 2 ^ 30" using b k assms by simp
    then have k30: "k < 30" by (rule power_less_imp_less_exp[rotated]) simp
    then have "(2::int) ^ Suc k \<le> 2 ^ 30" by (intro power_increasing) auto
    then have "?c c = 2 ^ Suc k" by (simp add: k GROWTH_FACTOR_def)
    moreover have "(2::int) ^ k < 2 ^ Suc k" by simp
    ultimately show ?thesis using k30 b k
      by (auto intro!: exI[of _ "Suc k"] simp del: power_Suc)
  qed
  have one: "?I 1" by (rule exI[of _ 0]) simp
  have "\<exists>t. while_option ?b ?c 1 = Some t"
    by (rule measure_while_option_Some[where P = ?I and f = "\<lambda>c. nat (target - c)"])
      (use step one in auto)
  then obtain t where t: "while_option ?b ?c 1 = Some t" by blast
  have "?I t" by (rule while_option_rule[OF _ t]) (use step one in auto)
  then have "t \<le> 2 ^ 30" using power_increasing[of _ 30 "2::int"] by auto
  moreover have "target \<le> t" using while_option_stop[OF t] by simp
  ultimately show ?thesis using t by (auto simp: sstr_new_capacity_def)
qed

section \<open>Conversion and append\<close>

lemma holdsE:
  assumes "holds s t"
  obtains b where "sstr s = Some b" "read_cstr b = Inr t" "slength s = int (length t)"
    "length t < 2 ^ 29" "block_size s = length b" "length t < length b"
  using assms by (auto simp: holds_def block_size_def read_cstr_Inr_iff)

lemma c_strlen_read: "read_cstr b = Inr t \<Longrightarrow> c_strlen b = Inr (length t)"
  by (simp add: c_strlen_def)

lemma cstr_to_sstring_ok:
  assumes "read_cstr input = Inr t" and "length t < 2 ^ 29" and "\<forall>n. n \<le> length (al n)"
  shows "\<exists>s. cstr_to_sstring al input = Inr s \<and> holds s t \<and> scapacity s = 2 * int (length t)
           \<and> scapacity s < int (block_size s)"
proof -
  let ?n = "2 * length t + 1"
  have small: "int_of_long (int (length t)) = int (length t)"
    "int_of_long (2 * int (length t)) = 2 * int (length t)"
    "int_of_long (2 * int (length t) + 1) = int ?n"
    using assms(2) by simp_all
  have len: "length t < length (al ?n)" "?n \<le> length (al ?n)"
    using assms(3)[rule_format, of ?n] by linarith+
  have n: "nat (1 + 2 * int (length t)) = ?n" "nat (2 * int (length t) + 1) = ?n" by simp_all
  show ?thesis
    using assms(1,2) small len c_strcpy_in[OF assms(1) len(1)]
    by (auto simp: cstr_to_sstring_def c_strlen_read Let_def malloc_int_def n holds_def block_size_def
        no_NUL[OF assms(1)])
qed

lemma sstring_to_cstr_ok:
  assumes "holds s t" and "\<forall>n. n \<le> length (al n)"
  shows "\<exists>b. sstring_to_cstr al s = Inr b \<and> read_cstr b = Inr t"
proof -
  obtain b where b: "sstr s = Some b" "read_cstr b = Inr t" "slength s = int (length t)" "length t < 2 ^ 29"
    using assms(1) by (rule holdsE)
  have n: "nat (int (length t) + 1) = Suc (length t)" "nat (1 + int (length t)) = Suc (length t)" by simp_all
  have "length t < length (al (Suc (length t)))" using assms(2)[rule_format, of "Suc (length t)"] by simp
  with b c_strcpy_in[OF b(2), of "al (Suc (length t))"] show ?thesis
    by (simp add: sstring_to_cstr_def malloc_int_def n no_NUL)
qed

lemma append_tail:
  \<comment> \<open>the concatenation step, for a distinct \<open>addition\<close> and for \<open>this\<close> itself\<close>
  assumes "read_cstr b1 = Inr t" and "\<forall>n. n \<le> length (al n)"
    and "case addition of None \<Rightarrow> u = t | Some a \<Rightarrow> holds a u"
  shows "(case addition of
            None \<Rightarrow> rbind (c_strlen b1) (\<lambda>n. rbind (c_strcpy (al (n + 1)) b1) (\<lambda>temp. c_strcat b1 temp))
          | Some a \<Rightarrow> rbind (deref (sstr a)) (c_strcat b1))
       = (if length t + length u < length b1
          then Inr (cstring (t @ u) @ drop (Suc (length t + length u)) b1)
          else Inl Out_Of_Bounds)"
proof (cases addition)
  case None
  have len: "length t < length (al (Suc (length t)))" using assms(2)[rule_format, of "Suc (length t)"] by simp
  have temp: "read_cstr (cstring t @ drop (Suc (length t)) (al (Suc (length t)))) = Inr t"
    using no_NUL[OF assms(1)] by simp
  show ?thesis
    using None assms(1,3) c_strcpy_in[OF assms(1) len] c_strcat_in[OF assms(1) temp]
      c_strcat_out[OF assms(1) temp]
    by (simp add: c_strlen_read)
next
  case (Some a)
  then obtain d where d: "sstr a = Some d" "read_cstr d = Inr u"
    using assms(3) by (auto simp: holds_def)
  then show ?thesis
    using Some c_strcat_in[OF assms(1) d(2)] c_strcat_out[OF assms(1) d(2)] by simp
qed

lemma sstring_append_cases:
  assumes "holds s t" and "case addition of None \<Rightarrow> u = t | Some a \<Rightarrow> holds a u"
    and "\<forall>n. n \<le> length (al n)"
  defines "n \<equiv> length t + length u"
  shows "int n > scapacity s \<Longrightarrow>
           \<exists>s' cap. sstring_append al s addition = Inr (s', int n) \<and> scapacity s' = cap
             \<and> int n < cap \<and> sstr s' = Some (cstring (t @ u) @ drop (Suc n)
                   (cstring t @ drop (Suc (length t)) (al (nat cap)))) \<and> slength s' = int n"
    and "int n \<le> scapacity s \<Longrightarrow> n < block_size s \<Longrightarrow>
           \<exists>s' b. sstring_append al s addition = Inr (s', int n) \<and> scapacity s' = scapacity s
             \<and> sstr s = Some b \<and> sstr s' = Some (cstring (t @ u) @ drop (Suc n) b) \<and> slength s' = int n"
    and "int n \<le> scapacity s \<Longrightarrow> block_size s \<le> n \<Longrightarrow>
           sstring_append al s addition = Inl Out_Of_Bounds"
proof -
  obtain b where b: "sstr s = Some b" "read_cstr b = Inr t" "slength s = int (length t)"
    "length t < 2 ^ 29" "block_size s = length b"
    using assms(1) by (rule holdsE)
  let ?add = "case addition of None \<Rightarrow> slength s | Some a \<Rightarrow> slength a"
  have add: "?add = int (length u)" "length u < 2 ^ 29"
    "(case addition of None \<Rightarrow> True | Some a \<Rightarrow> sstr a \<noteq> None)"
    using assms(2) b by (auto simp: holds_def split: option.splits)
  have sum: "int_of_long (int (length u) + int (length t)) = int n"
    "int_of_long (int (length t) + int (length u)) = int n"
    "int_of_long (int (length u) + int (length t) + 1) = int n + 1"
    using b(4) add(2) by (simp_all add: n_def)
  note app = sstring_append_def c_assert_def Let_def b add sum append_tail[OF _ assms(3,2)]
  show "\<exists>s' cap. sstring_append al s addition = Inr (s', int n) \<and> scapacity s' = cap
             \<and> int n < cap \<and> sstr s' = Some (cstring (t @ u) @ drop (Suc n)
                   (cstring t @ drop (Suc (length t)) (al (nat cap)))) \<and> slength s' = int n"
    if big: "int n > scapacity s"
  proof -
    obtain c where c: "sstr_new_capacity (int n + 1) = Some c" "int n + 1 \<le> c"
      using sstr_new_capacity_ok[of "int n + 1"] b(4) add(2) by (auto simp: n_def)
    have al: "n < length (al (nat c))" using assms(3)[rule_format, of "nat c"] c(2) by linarith
    then have cp: "c_strcpy (al (nat c)) b = Inr (cstring t @ drop (Suc (length t)) (al (nat c)))"
      by (intro c_strcpy_in b(2)) (simp add: n_def)
    have rd: "read_cstr (cstring t @ drop (Suc (length t)) (al (nat c))) = Inr t"
      using no_NUL[OF b(2)] by simp
    have "length (cstring t @ drop (Suc (length t)) (al (nat c))) = length (al (nat c))"
      using al by (simp add: n_def)
    then show ?thesis
      using big c cp al rd by (simp add: app malloc_int_def n_def[symmetric])
  qed
  show "\<exists>s' b. sstring_append al s addition = Inr (s', int n) \<and> scapacity s' = scapacity s
             \<and> sstr s = Some b \<and> sstr s' = Some (cstring (t @ u) @ drop (Suc n) b) \<and> slength s' = int n"
    if "int n \<le> scapacity s" "n < block_size s"
    using that by (simp add: app n_def[symmetric])
  show "sstring_append al s addition = Inl Out_Of_Bounds"
    if "int n \<le> scapacity s" "block_size s \<le> n"
    using that by (simp add: app n_def[symmetric])
qed

section \<open>Splitting\<close>

text \<open>A token buffer: the token so far, followed by \<open>m\<close> zero bytes.\<close>

definition zbuf :: "string \<Rightarrow> nat \<Rightarrow> block" where
  "zbuf acc m = map Val acc @ replicate m (Val NUL)"

lemma zbuf_read: "NUL \<notin> set acc \<Longrightarrow> read_cstr (zbuf acc (Suc m)) = Inr acc"
  by (simp add: zbuf_def read_cstr_Inr_iff cstring_def)

lemma length_zbuf [simp]: "length (zbuf acc m) = length acc + m"
  by (simp add: zbuf_def)

lemma zbuf_put: "wr (zbuf acc (Suc m)) (length acc) c = Inr (zbuf (acc @ [c]) m)"
  by (simp add: wr_def zbuf_def list_update_append)

lemma zbuf_terminate:
  "wr (zbuf acc (Suc (Suc m))) (Suc (length acc)) NUL = Inr (zbuf acc (Suc (Suc m)))"
  by (simp add: wr_def zbuf_def list_update_append)

lemma split_push_zbuf:
  assumes "NUL \<notin> set acc"
  shows "split_push ok v (zbuf acc (Suc (Suc m))) = vector_push_back ok v (Some acc)"
    and "split_push ok v (zbuf acc (Suc 0)) = Inl Out_Of_Bounds"
  using zbuf_read[OF assms] by (simp_all add: split_push_def c_strlen_def zbuf_terminate)

lemma zbuf_nil: "zbuf [] m = replicate m (Val NUL)"
  by (simp add: zbuf_def)

text \<open>
  With zeroed memory of \<open>k\<close> spare bytes, the loop pushes the tokens one after the other; what
  happens at the last token depends on whether there is a spare byte.
\<close>

lemma split_loop_zeroed:
  assumes "NUL \<notin> set s" and "NUL \<notin> set acc"
    and "newstart \<Longrightarrow> acc = []"
    and "\<not> newstart \<Longrightarrow> cur = Some (zbuf acc (Suc k + length s + extra))"
    and "k = 0 \<Longrightarrow> extra = 0"
  shows "split_loop (zeroed_malloc k) ok d (cstring s @ rest) cur newstart v =
     rbind (push_all (vector_push_back ok) v (map Some (butlast (split_acc d acc s))))
       (\<lambda>v'. if k = 0 then Inl Out_Of_Bounds
              else vector_push_back ok v' (Some (last (split_acc d acc s))))"
  using assms
proof (induction s arbitrary: acc newstart cur v extra)
  case Nil
  have cs0: "cstring [] @ rest = Val NUL # rest" by (simp add: cstring_def)
  have len0: "c_strlen (Val NUL # rest) = Inr 0" by (simp add: c_strlen_def)
  have buf: "(if newstart then rbind (c_strlen (Val NUL # rest)) (\<lambda>n. Inr (zeroed_malloc k (n + 1)))
              else deref cur) = Inr (zbuf acc (Suc (k + (if newstart then 0 else extra))))"
    using Nil by (auto simp: len0 zbuf_nil zeroed_malloc_def)
  show ?case
    unfolding cs0 split_loop.simps buf
    using Nil.prems(2,5) by (cases k) (simp_all add: split_push_zbuf)
next
  case (Cons c s)
  have cs: "cstring (c # s) @ rest = Val c # (cstring s @ rest)" by (simp add: cstring_def)
  have c: "c \<noteq> NUL" "NUL \<notin> set s" using Cons.prems(1) by auto
  define m where "m = Suc k + length s + (if newstart then 0 else extra)"
  have rd: "c_strlen (Val c # cstring s @ rest) = Inr (Suc (length s))"
    using c_strlen_read[OF read_cstring[of "c # s" rest]] Cons.prems(1) by (simp add: cstring_def)
  have buf: "(if newstart then rbind (c_strlen (Val c # cstring s @ rest)) (\<lambda>n. Inr (zeroed_malloc k (n + 1)))
              else deref cur) = Inr (zbuf acc (Suc m))"
    using Cons.prems(3,4) unfolding rd
    by (auto simp: zbuf_nil zeroed_malloc_def m_def add_ac)
  have m: "Suc m = Suc (Suc (m - 1))" by (simp add: m_def)
  have sp: "split_push ok v (zbuf acc (Suc m)) = vector_push_back ok v (Some acc)"
    by (subst m) (rule split_push_zbuf[OF Cons.prems(2)])
  have ne: "split_acc d a s \<noteq> []" for a by (induction s arbitrary: a) auto
  show ?case
  proof (cases "c = d")
    case True
    have IH: "split_loop (zeroed_malloc k) ok d (cstring s @ rest) None True v' =
       rbind (push_all (vector_push_back ok) v' (map Some (butlast (split_acc d [] s))))
       (\<lambda>v'. if k = 0 then Inl Out_Of_Bounds
              else vector_push_back ok v' (Some (last (split_acc d [] s))))" for v'
      by (rule Cons.IH[where extra = 0]) (use c in auto)
    have sa: "split_acc d acc (c # s) = acc # split_acc d [] s" using True by simp
    have la: "last (acc # split_acc d [] s) = last (split_acc d [] s)" using ne[of "[]"] by simp
    show ?thesis
      unfolding cs split_loop.simps buf sa la
      using True c sp IH ne[of "[]"] by (cases "vector_push_back ok v (Some acc)") simp_all
  next
    case False
    have IH: "split_loop (zeroed_malloc k) ok d (cstring s @ rest) (Some (zbuf (acc @ [c]) m)) False v =
       rbind (push_all (vector_push_back ok) v (map Some (butlast (split_acc d (acc @ [c]) s))))
       (\<lambda>v'. if k = 0 then Inl Out_Of_Bounds
              else vector_push_back ok v' (Some (last (split_acc d (acc @ [c]) s))))"
      by (rule Cons.IH[where extra = "if newstart then 0 else extra"])
        (use c Cons.prems in \<open>auto simp: m_def\<close>)
    have "c_strlen (zbuf acc (Suc m)) = Inr (length acc)"
      by (rule c_strlen_read[OF zbuf_read[OF Cons.prems(2)]])
    moreover have sa: "split_acc d acc (c # s) = split_acc d (acc @ [c]) s" using False by simp
    ultimately show ?thesis
      using False c ne IH unfolding cs split_loop.simps buf sa by (simp add: zbuf_put)
  qed
qed

lemma split_loop_fresh:
  assumes "NUL \<notin> set s"
  shows "split_loop fresh_malloc ok d (cstring s @ rest) None True v = Inl Uninit_Read"
proof -
  obtain c r where cs: "cstring s @ rest = Val c # r"
    by (cases s) (auto simp: cstring_def)
  have "c_strlen (Val c # r) = Inr (length s)"
    using c_strlen_read[OF read_cstring[OF assms, of rest]] cs by simp
  then show ?thesis
    by (simp add: cs fresh_malloc_def split_push_def c_strlen_def)
qed

section \<open>Substitution and slices\<close>

lemma take_cstring_read:
  assumes "read_cstr b = Inr t" and "j \<le> length t"
  shows "read_cstr (drop j b) = Inr (drop j t)" and "take j b = map Val (take j t)"
    and "take (Suc (length t) - j) (drop j b) = cstring (drop j t)"
proof -
  obtain rest where b: "b = cstring t @ rest" "NUL \<notin> set t"
    using assms(1) by (auto simp: read_cstr_Inr_iff)
  have dr: "drop j (cstring t) = cstring (drop j t)" using assms(2) by (simp add: cstring_def drop_map)
  have "NUL \<notin> set (drop j t)" using b(2) by (meson in_set_dropD)
  with b dr assms(2) show "read_cstr (drop j b) = Inr (drop j t)" by simp
  show "take j b = map Val (take j t)" using b assms(2) by (simp add: cstring_def take_map)
  show "take (Suc (length t) - j) (drop j b) = cstring (drop j t)" using b dr assms(2) by simp
qed

lemma not_NUL_take_drop: "NUL \<notin> set t \<Longrightarrow> NUL \<notin> set (take i t) \<and> NUL \<notin> set (drop j t)"
  by (meson in_set_dropD in_set_takeD)

lemma read_fits: "read_cstr b = Inr t \<Longrightarrow> length t < length b"
  by (auto simp: read_cstr_Inr_iff cstring_def)

lemma copy_prefix_zeroed:
  assumes "read_cstr b = Inr t" and "idx \<le> length t"
  shows "c_memcpy (zeroed_malloc k (idx + 1)) b idx = Inr (zbuf (take idx t) (Suc k))"
proof -
  have "drop idx (zeroed_malloc k (idx + 1)) = replicate (Suc k) (Val NUL)"
    by (simp add: zeroed_malloc_def del: replicate_Suc)
  then show ?thesis using read_fits[OF assms(1)] take_cstring_read(2)[OF assms] assms(2)
    by (simp add: c_memcpy_def zbuf_def del: replicate_Suc)
qed

lemma copy_suffix_zeroed:
  assumes "read_cstr b = Inr t" and "j \<le> length t"
  shows "c_memcpy (zeroed_malloc k (Suc (Suc (length t - j)))) (drop j b) (Suc (length t - j))
    = Inr (cstring (drop j t) @ replicate (Suc k) (Val NUL))"
proof -
  have "drop (Suc (length t - j)) (zeroed_malloc k (Suc (Suc (length t - j)))) = replicate (Suc k) (Val NUL)"
    by (simp add: zeroed_malloc_def del: replicate_Suc)
  moreover have "take (Suc (length t - j)) (drop j b) = cstring (drop j t)"
    using take_cstring_read(3)[OF assms] assms(2) by (simp add: Suc_diff_le)
  ultimately show ?thesis using read_fits[OF assms(1)] assms(2)
    by (simp add: c_memcpy_def del: replicate_Suc) linarith
qed

lemma grow_block:
  fixes total :: nat
  assumes "total < 2 ^ 30" and "scapacity s < int (length b)"
  obtains cap b1 where "(if int total > scapacity s
        then rbind (returns (sstr_new_capacity (int total + 1)))
              (\<lambda>cap. rbind (malloc_int (zeroed_malloc k) cap) (\<lambda>new. Inr (cap, new)))
        else Inr (scapacity s, b)) = Inr (cap, b1)" and "total < length b1"
proof (cases "int total > scapacity s")
  case True
  then obtain c where "sstr_new_capacity (int total + 1) = Some c" "int total + 1 \<le> c"
    using sstr_new_capacity_ok[of "int total + 1"] assms(1) by auto
  with True show thesis by (intro that[of c "zeroed_malloc k (nat c)"]) (auto simp: malloc_int_def)
next
  case False
  with assms(2) show thesis by (intro that[of "scapacity s" b]) auto
qed

lemma build_three:
  \<comment> \<open>\<open>strcpy\<close>, \<open>strcat\<close>, \<open>strcat\<close> into a block with room for all\<close>
  assumes "read_cstr p = Inr x" and "read_cstr q = Inr y" and "read_cstr r = Inr z"
    and "length x + length y + length z < length b"
  shows "\<exists>b1 b2 b3. c_strcpy b p = Inr b1 \<and> c_strcat b1 q = Inr b2 \<and> c_strcat b2 r = Inr b3
    \<and> read_cstr b3 = Inr (x @ y @ z)"
proof -
  have n: "NUL \<notin> set x" "NUL \<notin> set y" "NUL \<notin> set z" by (rule no_NUL[OF assms(1)], rule no_NUL[OF assms(2)], rule no_NUL[OF assms(3)])
  let ?b1 = "cstring x @ drop (Suc (length x)) b"
  let ?b2 = "cstring (x @ y) @ drop (Suc (length x + length y)) ?b1"
  let ?b3 = "cstring ((x @ y) @ z) @ drop (Suc (length (x @ y) + length z)) ?b2"
  have b1: "c_strcpy b p = Inr ?b1" "read_cstr ?b1 = Inr x" "length ?b1 = length b"
    using c_strcpy_in[OF assms(1), of b] assms(4) n by auto
  have b2: "c_strcat ?b1 q = Inr ?b2" "read_cstr ?b2 = Inr (x @ y)" "length ?b2 = length b"
    using c_strcat_in[OF b1(2) assms(2)] b1(3) assms(4) n by auto
  have "c_strcat ?b2 r = Inr ?b3" using c_strcat_in[OF b2(2) assms(3)] b2(3) assms(4) by simp
  moreover have "read_cstr ?b3 = Inr (x @ y @ z)" using n by (subst read_cstring) auto
  ultimately show ?thesis using b1(1) b2(1) by blast
qed

lemma sstring_substitute_zeroed:
  assumes "holds s t" and "read_cstr target = Inr pat" and "read_cstr sub = Inr new"
    and "pat \<noteq> []" and "length pat < 2 ^ 29" and "length new < 2 ^ 29" and "offset \<le> length t"
    and "c_strstr (drop offset t) pat = Some i"
    and "scapacity s < int (block_size s)"
  defines "idx \<equiv> offset + i"
  shows "\<exists>s'. sstring_substitute (zeroed_malloc k) s offset target sub = Inr (s', 0)
           \<and> slength s' = slength s
           \<and> (\<exists>b. sstr s' = Some b
                \<and> read_cstr b = Inr (take idx t @ new @ drop (idx + length pat) t))"
proof -
  obtain b where b: "sstr s = Some b" "read_cstr b = Inr t" "slength s = int (length t)"
    "length t < 2 ^ 29" "block_size s = length b"
    using assms(1) by (rule holdsE)
  have fits: "idx + length pat \<le> length t"
    using c_strstr_Some[OF assms(8)] assms(7) unfolding idx_def length_drop by linarith
  define pre where "pre = take idx t"
  define post where "post = drop (idx + length pat) t"
  define total where "total = length t - length pat + length new"
  have l2: "int (length t) - (int idx + int (length pat) - 1) = int (Suc (length post))"
    using fits by (simp add: post_def)
  have tot: "int (length t) - int (length pat) + int (length new) = int total"
    "total = length pre + length new + length post" "total < 2 ^ 30"
    using fits b(4) assms(6) by (simp_all add: total_def pre_def post_def)
  have pat0: "length t \<noteq> 0" "length pat \<noteq> 0" using fits assms(4) by (auto simp: Suc_le_eq)
  have small: "int_of_long (int (length pat)) = int (length pat)"
    "int_of_long (int (length new)) = int (length new)" using assms(5,6) by simp_all
  have hay: "read_cstr (drop offset b) = Inr (drop offset t)"
    by (rule take_cstring_read(1)[OF b(2) assms(7)])
  have nul: "NUL \<notin> set pre" "NUL \<notin> set post"
    using not_NUL_take_drop[OF no_NUL[OF b(2)]] by (auto simp: pre_def post_def)
  have mpre: "c_memcpy (zeroed_malloc k (idx + 1)) b idx = Inr (zbuf pre (Suc k))"
    unfolding pre_def by (rule copy_prefix_zeroed[OF b(2)]) (use fits in simp)
  have mpost: "c_memcpy (zeroed_malloc k (Suc (Suc (length post)))) (drop (idx + length pat) b) (Suc (length post))
      = Inr (cstring post @ replicate (Suc k) (Val NUL))"
    using copy_suffix_zeroed[OF b(2) fits] by (simp add: post_def)
  obtain cap b1 where grow: "(if int total > scapacity s
        then rbind (returns (sstr_new_capacity (int total + 1)))
              (\<lambda>cap. rbind (malloc_int (zeroed_malloc k) cap) (\<lambda>new. Inr (cap, new)))
        else Inr (scapacity s, b)) = Inr (cap, b1)" and b1: "total < length b1"
    by (rule grow_block[OF tot(3) assms(9)[unfolded b(5)]])
  have "length pre + length new + length post < length b1" using b1 tot(2) by simp
  from build_three[OF zbuf_read[OF nul(1), of k] assms(3) read_cstring[OF nul(2), of "replicate (Suc k) (Val NUL)"] this]
  obtain c1 c2 c3 where c: "c_strcpy b1 (zbuf pre (Suc k)) = Inr c1" "c_strcat c1 sub = Inr c2"
    "c_strcat c2 (cstring post @ replicate (Suc k) (Val NUL)) = Inr c3" "read_cstr c3 = Inr (pre @ new @ post)"
    by blast
  have "sstring_substitute (zeroed_malloc k) s offset target sub = Inr (s\<lparr>scapacity := cap, sstr := Some c3\<rparr>, 0)"
    unfolding sstring_substitute_def b(1,3) deref_simps rbind.simps c_strlen_read[OF assms(2)]
      c_strlen_read[OF assms(3)] small Let_def hay assms(2,8) option.case idx_def[symmetric] l2 tot(1)
    using pat0 mpre mpost grow c(1-3) by (simp add: malloc_int_def nat_add_distrib)
  with c(4) show ?thesis by (simp add: pre_def post_def)
qed

section \<open>Properties\<close>

lemma length_split_acc: "length (split_acc d acc s) \<le> Suc (length s)"
  by (induction s arbitrary: acc) (auto simp: le_SucI)

lemma split_acc_ne: "split_acc d acc s \<noteq> []"
  by (induction s arbitrary: acc) auto

lemma sstring_split_pushes:
  assumes "holds s t"
  shows "sstring_split (zeroed_malloc k) ok sh cb s d =
     rbind (vector_create ok sh (Some (cb_copy cb)) (Some (cb_destroy cb)) (Some (cb_default cb)))
       (\<lambda>v. rbind (push_all (vector_push_back ok) v (map Some (butlast (split_acc d [] t))))
          (\<lambda>v'. if k = 0 then Inl Out_Of_Bounds
                 else vector_push_back ok v' (Some (last (split_acc d [] t)))))"
proof -
  obtain b where b: "sstr s = Some b" "read_cstr b = Inr t" using assms by (auto simp: holds_def)
  then obtain rest where r: "b = cstring t @ rest" "NUL \<notin> set t" by (auto simp: read_cstr_Inr_iff)
  show ?thesis
    using split_loop_zeroed[OF r(2), of "[]" True None k 0 ok d rest] b r
    by (simp add: sstring_split_def)
qed

lemma string_vector_created:
  assumes "cb_copy cb = (\<lambda>p. p)"
  obtains v where "vector_create (\<lambda>_. True) sh (Some (cb_copy cb)) (Some (cb_destroy cb))
     (Some (cb_default cb)) = Inr v" "value_vector v" "elems v = []"
proof -
  obtain v where v: "vector_create (\<lambda>_. True) sh (Some (cb_copy cb)) (Some (cb_destroy cb))
     (Some (cb_default cb)) = Inr v" "vec_inv v" "elems v = []"
    using vector_create_ok[of "\<lambda>_. True"] by blast
  from vector_create_callbacks[OF v(1)] assms have "\<forall>p. copy_constructor v p = p"
    by (simp add: has_callbacks_def)
  with v show thesis by (intro that) (auto simp: value_vector_def)
qed

text \<open>
  A counted string made from a C string converts back to that string, for any allocator
  that returns at least the bytes asked for; its capacity is twice its length and fits in its
  block with the terminator.
\<close>

theorem sstring_roundtrip:
  assumes "read_cstr input = Inr t" and "length t < 2 ^ 29" and "\<forall>n. n \<le> length (al n)"
  shows "\<exists>s b. cstr_to_sstring al input = Inr s \<and> holds s t \<and> scapacity s = 2 * int (length t)
           \<and> scapacity s < int (block_size s)
           \<and> sstring_to_cstr al s = Inr b \<and> read_cstr b = Inr t"
  using cstr_to_sstring_ok[OF assms] sstring_to_cstr_ok[OF _ assms(3)] by blast

theorem sstring_roundtrip_witness:
  "\<exists>s b. cstr_to_sstring fresh_malloc (cstring ''ab'') = Inr s \<and> holds s ''ab'' \<and> scapacity s = 2 * int 2
     \<and> scapacity s < int (block_size s)
     \<and> sstring_to_cstr fresh_malloc s = Inr b \<and> read_cstr b = Inr ''ab''"
  using sstring_roundtrip[of "cstring ''ab''" "''ab''" fresh_malloc] by (simp add: NUL_def)

text \<open>
  \<open>sstring_append\<close> concatenates and returns the new length, for a distinct addition and for
  the string appended to itself, whenever the result fits its block or exceeds the recorded
  capacity (and so is reallocated).
\<close>

theorem sstring_append_concatenates:
  assumes "holds s t" and "case addition of None \<Rightarrow> u = t | Some a \<Rightarrow> holds a u"
    and "\<forall>n. n \<le> length (al n)" and "length t + length u < 2 ^ 29"
    and "scapacity s < int (length t + length u) \<or> length t + length u < block_size s"
  shows "\<exists>s'. sstring_append al s addition = Inr (s', int (length t + length u)) \<and> holds s' (t @ u)"
proof -
  have nul: "NUL \<notin> set (t @ u)"
    using assms(1,2) by (auto simp: holds_def dest!: no_NUL split: option.splits)
  show ?thesis
  proof (cases "int (length t + length u) > scapacity s")
    case True
    from sstring_append_cases(1)[OF assms(1,2,3) True] nul assms(4) show ?thesis
      by (auto simp: holds_def)
  next
    case False
    with assms(5) have le: "int (length t + length u) \<le> scapacity s" "length t + length u < block_size s"
      by auto
    from sstring_append_cases(2)[OF assms(1,2,3) le] nul assms(4) show ?thesis
      by (auto simp: holds_def)
  qed
qed

definition demo_string :: "string \<Rightarrow> int \<Rightarrow> nat \<Rightarrow> sstring" where
  \<comment> \<open>a counted string for concrete instances: contents, capacity, cells beyond the terminator\<close>
  "demo_string t cap m =
     \<lparr>slength = int (length t), scapacity = cap, sstr = Some (cstring t @ replicate m Uninit)\<rparr>"

lemma demo_string_holds: "NUL \<notin> set t \<Longrightarrow> length t < 2 ^ 29 \<Longrightarrow> holds (demo_string t cap m) t"
  by (auto simp: holds_def demo_string_def)

theorem sstring_append_concatenates_witness:
  "\<exists>s'. sstring_append fresh_malloc (demo_string ''abc'' 6 3) None = Inr (s', 6) \<and> holds s' ''abcabc''"
  using sstring_append_concatenates[of "demo_string ''abc'' 6 3" "''abc''" "''abc''" None fresh_malloc]
    demo_string_holds[of "''abc''" 6 3]
  by (simp add: NUL_def demo_string_def block_size_def)

text \<open>
  An append that has to grow the string leaves a block of exactly \<open>capacity\<close> bytes, so the
  next append whose result has length \<open>capacity\<close> passes the capacity test and writes the
  terminator one byte past the block.
\<close>

theorem sstring_append_off_by_one:
  assumes "holds s t" and "holds a u" and "length t + length u < 2 ^ 29"
    and "scapacity s < int (length t + length u)"
    and "holds c w"
  shows "\<exists>s'. sstring_append fresh_malloc s (Some a) = Inr (s', int (length t + length u))
           \<and> (int (length t + length u + length w) = scapacity s' \<longrightarrow>
                sstring_append fresh_malloc s' (Some c) = Inl Out_Of_Bounds)"
proof -
  have nul: "NUL \<notin> set (t @ u)"
    using assms(1,2) by (auto simp: holds_def dest!: no_NUL)
  let ?n = "length t + length u"
  obtain s' cap where s': "sstring_append fresh_malloc s (Some a) = Inr (s', int ?n)"
    "scapacity s' = cap" "int ?n < cap" "slength s' = int ?n"
    "sstr s' = Some (cstring (t @ u) @ drop (Suc ?n)
        (cstring t @ drop (Suc (length t)) (fresh_malloc (nat cap))))"
    using sstring_append_cases(1)[OF assms(1) _ _ assms(4), where addition = "Some a" and al = fresh_malloc]
      assms(2) by auto
  have h: "holds s' (t @ u)" using s' nul assms(3) by (auto simp: holds_def)
  have bs: "block_size s' = nat cap" using s'(3,5) by (simp add: block_size_def)
  have "sstring_append fresh_malloc s' (Some c) = Inl Out_Of_Bounds"
    if "int (?n + length w) = scapacity s'"
    by (rule sstring_append_cases(3)[OF h, where u = w]) (use that assms(5) s'(2) bs in auto)
  with s'(1) show ?thesis by blast
qed

theorem sstring_append_off_by_one_witness:
  "\<exists>s'. sstring_append fresh_malloc (demo_string ''abc'' 6 3) (Some (demo_string ''defg'' 8 4)) = Inr (s', 7)
     \<and> (int 7 + int 1 = scapacity s' \<longrightarrow>
          sstring_append fresh_malloc s' (Some (demo_string ''h'' 2 1)) = Inl Out_Of_Bounds)"
  using sstring_append_off_by_one[of "demo_string ''abc'' 6 3" "''abc''" "demo_string ''defg'' 8 4" "''defg''"
      "demo_string ''h'' 2 1" "''h''"]
    demo_string_holds[of "''abc''" 6 3] demo_string_holds[of "''defg''" 8 4] demo_string_holds[of "''h''" 2 1]
  by (simp add: NUL_def demo_string_def add.commute)


definition string_cbs :: "string callbacks" where
  \<comment> \<open>callbacks that copy and release C strings by value\<close>
  "string_cbs = \<lparr>cb_copy = \<lambda>p. p, cb_destroy = opt_list, cb_default = Some []\<rparr>"


text \<open>
  Without that luck \<open>sstring_split\<close> has no defined behaviour on any string: with the
  indeterminate memory the C standard promises it reads an uninitialised byte, and with zeroed
  memory of exactly the requested size the terminator of the last token is written one byte
  past its buffer.
\<close>

theorem sstring_split_faults:
  assumes "holds s t" and "cb_copy cb = (\<lambda>p. p)"
  shows "sstring_split fresh_malloc (\<lambda>_. True) sh cb s d = Inl Uninit_Read
           \<and> sstring_split (zeroed_malloc 0) (\<lambda>_. True) sh cb s d = Inl Out_Of_Bounds"
proof -
  obtain v where v: "vector_create (\<lambda>_. True) sh (Some (cb_copy cb)) (Some (cb_destroy cb))
     (Some (cb_default cb)) = Inr v" "value_vector v" "elems v = []"
    using string_vector_created[OF assms(2)] .
  obtain b rest where b: "sstr s = Some b" "b = cstring t @ rest" "NUL \<notin> set t"
    using assms(1) by (auto simp: holds_def read_cstr_Inr_iff)
  let ?ts = "split_acc d [] t"
  have "length (butlast ?ts) \<le> 2 ^ 60"
    using length_split_acc[of d "[]" t] assms(1) by (auto simp: holds_def)
  then obtain v' where "push_all (vector_push_back (\<lambda>_. True)) v (map Some (butlast ?ts)) = Inr v'"
    using vec_seq.push_all_law[OF v(2), of "map Some (butlast ?ts)"] v(3) by auto
  with sstring_split_pushes[OF assms(1), of 0] v(1)
  have "sstring_split (zeroed_malloc 0) (\<lambda>_. True) sh cb s d = Inl Out_Of_Bounds" by simp
  moreover have "sstring_split fresh_malloc (\<lambda>_. True) sh cb s d = Inl Uninit_Read"
    using v(1) b split_loop_fresh[OF b(3)] by (simp add: sstring_split_def)
  ultimately show ?thesis by blast
qed

theorem sstring_split_faults_witness:
  "sstring_split fresh_malloc (\<lambda>_. True) string_cbs string_cbs (demo_string ''ab'' 4 2) CHR '','' = Inl Uninit_Read
     \<and> sstring_split (zeroed_malloc 0) (\<lambda>_. True) string_cbs string_cbs (demo_string ''ab'' 4 2) CHR '',''
         = Inl Out_Of_Bounds"
  by (rule sstring_split_faults[OF demo_string_holds]) (simp_all add: NUL_def string_cbs_def)

text \<open>
  On zeroed memory \<open>sstring_substitute\<close> replaces the first occurrence of the target at or
  after the offset and nothing else, but never updates the recorded length: after a
  replacement of another length, the struct is no longer well formed.
\<close>

theorem sstring_substitute_leaves_length:
  assumes "holds s t" and "read_cstr target = Inr pat" and "read_cstr sub = Inr new"
    and "pat \<noteq> []" and "length pat < 2 ^ 29" and "length new < 2 ^ 29" and "offset \<le> length t"
    and "c_strstr (drop offset t) pat = Some i"
    and "scapacity s < int (block_size s)"
  shows "\<exists>s' b. sstring_substitute (zeroed_malloc k) s offset target sub = Inr (s', 0)
           \<and> sstr s' = Some b
           \<and> read_cstr b = Inr (take (offset + i) t @ new @ drop (offset + i + length pat) t)
           \<and> (\<forall>j < i. \<not> prefix pat (drop (offset + j) t))
           \<and> slength s' = int (length t)
           \<and> ((\<exists>t'. holds s' t') \<longleftrightarrow> length new = length pat)"
proof -
  obtain s' b where s': "sstring_substitute (zeroed_malloc k) s offset target sub = Inr (s', 0)"
    "slength s' = slength s" "sstr s' = Some b"
    "read_cstr b = Inr (take (offset + i) t @ new @ drop (offset + i + length pat) t)"
    using sstring_substitute_zeroed[OF assms] by blast
  have len: "slength s = int (length t)" "length t < 2 ^ 29" using assms(1) by (auto simp: holds_def)
  note st = c_strstr_Some[OF assms(8)]
  have fits: "offset + i + length pat \<le> length t" using st assms(7) unfolding length_drop by linarith
  have "(\<exists>t'. holds s' t') \<longleftrightarrow> length new = length pat"
    using s' len fits by (auto simp: holds_def)
  moreover have "\<forall>j < i. \<not> prefix pat (drop (offset + j) t)"
    using st by (simp add: add.commute)
  ultimately show ?thesis using s' len by auto
qed

theorem sstring_substitute_leaves_length_witness:
  "\<exists>s' b. sstring_substitute (zeroed_malloc 0) (demo_string ''aXbX'' 8 4) 2 (cstring ''X'') (cstring ''yy'')
        = Inr (s', 0)
     \<and> sstr s' = Some b \<and> read_cstr b = Inr ''aXbyy''
     \<and> (\<forall>j < 1. \<not> prefix ''X'' (drop (2 + j) ''aXbX'')) \<and> slength s' = int 4
     \<and> ((\<exists>t'. holds s' t') \<longleftrightarrow> (2::nat) = 1)"
  using sstring_substitute_leaves_length[of "demo_string ''aXbX'' 8 4" "''aXbX''" "cstring ''X''" "''X''"
      "cstring ''yy''" "''yy''" 2 1 0]
    demo_string_holds[of "''aXbX''" 8 4]
  by (simp add: NUL_def demo_string_def block_size_def)

end
