(* ===== verification/Heap.thy ===== *)
theory Heap
  imports Prelude
begin

text \<open>
  An explicit heap of structures, for the code whose claims depend on pointers: loads, stores
  and \<open>free\<close> with their faults, and linked chains of structures with the lemmas the list
  manipulating components share. A pointer is \<open>None\<close> when it is \<open>NULL\<close>; the heap maps the
  addresses of the live structures to their fields.
\<close>

type_synonym addr = nat
type_synonym 'n heap = "addr \<rightharpoonup> 'n"

section \<open>Accesses\<close>

definition ld :: "'n heap \<Rightarrow> addr option \<Rightarrow> 'n res" where
  \<comment> \<open>read through a pointer\<close>
  "ld h p = rbind (deref p) (\<lambda>a. case h a of None \<Rightarrow> Inl Dangling | Some n \<Rightarrow> Inr n)"

definition upd :: "'n heap \<Rightarrow> addr option \<Rightarrow> ('n \<Rightarrow> 'n) \<Rightarrow> 'n heap res" where
  \<comment> \<open>assign fields through a pointer\<close>
  "upd h p f = rbind (deref p) (\<lambda>a. case h a of None \<Rightarrow> Inl Dangling | Some n \<Rightarrow> Inr (h(a \<mapsto> f n)))"

definition release :: "'n heap \<Rightarrow> addr option \<Rightarrow> 'n heap res" where
  \<comment> \<open>\<open>free\<close>: \<open>NULL\<close> is ignored, anything not live is a double or invalid free\<close>
  "release h p = (case p of None \<Rightarrow> Inr h
     | Some a \<Rightarrow> (case h a of None \<Rightarrow> Inl Dangling | Some _ \<Rightarrow> Inr (h(a := None))))"

lemma ld_simps [simp]:
  "ld h None = Inl Null_Deref"
  "h a = None \<Longrightarrow> ld h (Some a) = Inl Dangling"
  "h a = Some n \<Longrightarrow> ld h (Some a) = Inr n"
  by (simp_all add: ld_def)

lemma upd_simps [simp]:
  "upd h None f = Inl Null_Deref"
  "h a = None \<Longrightarrow> upd h (Some a) f = Inl Dangling"
  "h a = Some n \<Longrightarrow> upd h (Some a) f = Inr (h(a \<mapsto> f n))"
  by (simp_all add: upd_def)

lemma release_simps [simp]:
  "release h None = Inr h"
  "h a = None \<Longrightarrow> release h (Some a) = Inl Dangling"
  "h a = Some n \<Longrightarrow> release h (Some a) = Inr (h(a := None))"
  by (simp_all add: release_def)

section \<open>Chains\<close>

fun chain :: "('n \<Rightarrow> addr option) \<Rightarrow> 'n heap \<Rightarrow> addr option \<Rightarrow> addr list \<Rightarrow> bool" where
  \<comment> \<open>following the field \<open>nx\<close> from \<open>p\<close> visits exactly the listed addresses and ends at \<open>NULL\<close>\<close>
  "chain nx h p [] = (p = None)"
| "chain nx h p (a # as) = (p = Some a \<and> (\<exists>n. h a = Some n \<and> chain nx h (nx n) as))"

fun first :: "'a list \<Rightarrow> 'a option" where
  "first [] = None"
| "first (a # as) = Some a"

definition final :: "'a list \<Rightarrow> 'a option" where
  "final as = (if as = [] then None else Some (last as))"

lemma final_simps [simp]: "final [] = None" "final (as @ [a]) = Some a"
  "as \<noteq> [] \<Longrightarrow> final (a # as) = final as" "final [a] = Some a"
  by (simp_all add: final_def)

lemma final_append: "final (as @ b # bs) = (if bs = [] then Some b else final bs)"
  by (simp add: final_def)

lemma first_None [simp]: "first as = None \<longleftrightarrow> as = []"
  by (cases as) auto

lemma final_None [simp]: "final as = None \<longleftrightarrow> as = []"
  by (simp add: final_def)

lemma chain_first: "chain nx h p as \<Longrightarrow> p = first as"
  by (cases as) auto

lemma chain_None [simp]: "chain nx h None as \<longleftrightarrow> as = []"
  by (cases as) auto

lemma chain_Some: "chain nx h (Some a) as \<longleftrightarrow>
    (\<exists>n as'. as = a # as' \<and> h a = Some n \<and> chain nx h (nx n) as')"
  by (cases as) auto

lemma chain_live: "chain nx h p as \<Longrightarrow> set as \<subseteq> dom h"
  by (induction as arbitrary: p) auto

lemma chain_unique: "chain nx h p as \<Longrightarrow> chain nx h p bs \<Longrightarrow> as = bs"
proof (induction as arbitrary: p bs)
  case Nil
  then show ?case by simp
next
  case (Cons a as)
  then show ?case by (cases bs) auto
qed

lemma chain_append:
  "chain nx h p (as @ b # bs) \<Longrightarrow> \<exists>n. h b = Some n \<and> chain nx h (Some b) (b # bs)"
  by (induction as arbitrary: p) auto

lemma chain_distinct: "chain nx h p as \<Longrightarrow> distinct as"
proof (induction as arbitrary: p)
  case Nil
  then show ?case by simp
next
  case (Cons a as)
  then obtain n where n: "h a = Some n" "chain nx h (nx n) as" by auto
  have "a \<notin> set as"
  proof
    assume "a \<in> set as"
    then obtain us vs where as: "as = us @ a # vs" by (meson split_list)
    with n chain_append[of nx h "nx n" us a vs] have "chain nx h (Some a) (a # vs)" by blast
    moreover have "chain nx h (Some a) (a # as)" using n by simp
    ultimately have "a # vs = a # as" by (rule chain_unique)
    with as show False by simp
  qed
  with Cons.IH[OF n(2)] show ?case by simp
qed

lemma chain_upd_other: "a \<notin> set as \<Longrightarrow> chain nx (h(a := v)) p as = chain nx h p as"
  by (induction as arbitrary: p) auto

lemma chain_cong:
  assumes "\<And>a. a \<in> set as \<Longrightarrow> map_option nx (h a) = map_option nx (h' a)"
  shows "chain nx h p as = chain nx h' p as"
  using assms
proof (induction as arbitrary: p)
  case Nil
  show ?case by simp
next
  case (Cons a as)
  have "map_option nx (h a) = map_option nx (h' a)" using Cons.prems by simp
  moreover have "\<And>p. chain nx h p as = chain nx h' p as" using Cons by simp
  ultimately show ?case by (cases "h a"; cases "h' a") auto
qed

lemma chain_last_null:
  assumes "chain nx h p as" and "as \<noteq> []"
  shows "\<exists>n. h (last as) = Some n \<and> nx n = None"
  using assms
proof (induction as arbitrary: p)
  case Nil
  then show ?case by simp
next
  case (Cons a as)
  then show ?case by (cases "as = []") auto
qed

lemma chain_snoc:
  \<comment> \<open>hang a new last structure behind the old one\<close>
  assumes "chain nx h p as" and "as \<noteq> []" and "b \<notin> set as"
    and "nx (g (the (h (last as)))) = Some b" and "nx n = None"
  shows "chain nx ((h(last as \<mapsto> g (the (h (last as)))))(b \<mapsto> n)) p (as @ [b])"
  using assms
proof (induction as arbitrary: p)
  case Nil
  then show ?case by simp
next
  case (Cons a as)
  then obtain m where m: "p = Some a" "h a = Some m" "chain nx h (nx m) as" by auto
  show ?case
  proof (cases "as = []")
    case True
    then show ?thesis using Cons.prems m by (auto simp: chain_Some)
  next
    case False
    have "a \<notin> set as" using chain_distinct[OF Cons.prems(1)] by simp
    then have "a \<noteq> last as" using False by auto
    then show ?thesis using Cons.IH[OF m(3) False] Cons.prems m False by auto
  qed
qed

section \<open>Doubly linked lists\<close>

text \<open>
  The fields of the structures of a heap as functions of their address, and the shape of a
  doubly linked list given by its \<open>next\<close> and \<open>prev\<close> fields.
\<close>

definition fld :: "('n \<Rightarrow> 'f) \<Rightarrow> 'n heap \<Rightarrow> addr \<Rightarrow> 'f" where
  "fld f h a = f (the (h a))"

fun heado :: "'a list \<Rightarrow> 'a option \<Rightarrow> 'a option" where
  "heado [] r = r"
| "heado (a # as) r = Some a"

fun lasto :: "'a option \<Rightarrow> 'a list \<Rightarrow> 'a option" where
  "lasto l [] = l"
| "lasto l (a # as) = lasto (Some a) as"

fun links :: "(addr \<Rightarrow> addr option) \<Rightarrow> (addr \<Rightarrow> addr option)
    \<Rightarrow> addr option \<Rightarrow> addr list \<Rightarrow> addr option \<Rightarrow> bool" where
  \<comment> \<open>the listed structures follow each other, between the neighbours \<open>l\<close> and \<open>r\<close>\<close>
  "links nx pv l [] r = True"
| "links nx pv l (a # as) r = (pv a = l \<and> nx a = heado as r \<and> links nx pv (Some a) as r)"

lemma fld_at: "h a = Some n \<Longrightarrow> fld f h a = f n"
  by (simp add: fld_def)

lemma fld_upd [simp]: "fld f (h(a \<mapsto> n)) = (fld f h)(a := f n)"
  by (simp add: fld_def fun_eq_iff)

lemma fld_keep [simp]: "h a = Some n \<Longrightarrow> (fld f h)(a := f n) = fld f h"
  by (simp add: fld_def fun_eq_iff)

lemma heado_append [simp]: "heado (as @ bs) r = heado as (heado bs r)"
  by (cases as) auto

lemma lasto_append [simp]: "lasto l (as @ bs) = lasto (lasto l as) bs"
  by (induction as arbitrary: l) auto

lemma heado_None: "heado as None = first as"
  by (cases as) auto

lemma lasto_None: "lasto None as = final as"
  by (cases as rule: rev_cases) auto

lemma links_append [simp]:
  "links nx pv l (as @ bs) r \<longleftrightarrow> links nx pv l as (heado bs r) \<and> links nx pv (lasto l as) bs r"
  by (induction as arbitrary: l) auto

lemma links_upd_other [simp]:
  "a \<notin> set as \<Longrightarrow> links (nx(a := v)) pv l as r = links nx pv l as r"
  "a \<notin> set as \<Longrightarrow> links nx (pv(a := v)) l as r = links nx pv l as r"
  by (induction as arbitrary: l) auto

lemma links_cong:
  "(\<And>a. a \<in> set as \<Longrightarrow> nx' a = nx a) \<Longrightarrow> (\<And>a. a \<in> set as \<Longrightarrow> pv' a = pv a)
    \<Longrightarrow> links nx' pv' l as r = links nx pv l as r"
  by (induction as arbitrary: l) auto

lemma heado_cases: "heado as None = None \<and> as = [] \<or> (\<exists>b bs. as = b # bs)"
  by (cases as) auto

section \<open>Singly linked lists by their field\<close>

fun slinks :: "(addr \<Rightarrow> addr option) \<Rightarrow> addr list \<Rightarrow> addr option \<Rightarrow> bool" where
  "slinks nx [] r = True"
| "slinks nx (a # as) r = (nx a = heado as r \<and> slinks nx as r)"

lemma slinks_append [simp]:
  "slinks nx (as @ bs) r \<longleftrightarrow> slinks nx as (heado bs r) \<and> slinks nx bs r"
  by (induction as) auto

lemma slinks_upd_other [simp]: "a \<notin> set as \<Longrightarrow> slinks (nx(a := v)) as r = slinks nx as r"
  by (induction as) auto

lemma slinks_cong: "(\<And>a. a \<in> set as \<Longrightarrow> nx' a = nx a) \<Longrightarrow> slinks nx' as r = slinks nx as r"
  by (induction as) auto

lemma chain_slinks:
  "chain nx h p as \<longleftrightarrow> p = first as \<and> set as \<subseteq> dom h \<and> slinks (fld nx h) as None"
proof (induction as arbitrary: p)
  case Nil
  show ?case by simp
next
  case (Cons a as)
  show ?case
  proof (cases "h a")
    case None
    then show ?thesis by auto
  next
    case (Some n)
    then show ?thesis using Cons[of "nx n"] by (auto simp: fld_at heado_None)
  qed
qed

lemma fld_del: "fld f (h(a := None)) x = fld f h x" if "x \<noteq> a"
  using that by (simp add: fld_def)

end
