(* ===== verification/Alloc.thy ===== *)
theory Alloc
  imports Heap
begin

text \<open>
  The allocator of \<^verbatim>\<open>malloc/alloc.c\<close>: every block is a header \<open>memory_list\<close> followed by its
  payload; all blocks form a doubly linked list in address order, the free blocks a second one,
  last freed first. Addresses and sizes are natural numbers, with the wrap-around of \<open>size_t\<close>
  written out; \<open>HDR\<close> is \<open>sizeof(memory_list)\<close> on a 64-bit machine. The heap of the model maps
  the address of every block to its header; the payload is the memory \<open>bytes\<close>.

  \<open>sbrk\<close> is the kernel's: \<open>grants b d\<close> says whether it moves the program break from \<open>b\<close> by \<open>d\<close>.
  The break is moved by this allocator only, and fresh memory is zero. \<open>junk\<close> is what reading a
  pointer gives at an address where no header is.
\<close>

definition HDR :: nat where
  "HDR = 56"

definition wrap64 :: "nat \<Rightarrow> nat" where
  "wrap64 x = x mod 2 ^ 64"

record memory_list =
  mptr :: "addr option"
  msize :: nat
  mfree :: bool
  mnext :: "addr option"
  mprev :: "addr option"
  mnextfree :: "addr option"
  mprevfree :: "addr option"

record alloc =
  blocks :: "memory_list heap"
  ahead :: "addr option"
  atail :: "addr option"
  emhead :: "addr option"
  brk :: nat
  bytes :: "addr \<Rightarrow> 8 word"

definition alloc_start :: "nat \<Rightarrow> (addr \<Rightarrow> 8 word) \<Rightarrow> alloc" where
  "alloc_start b m = \<lparr>blocks = Map.empty, ahead = None, atail = None, emhead = None, brk = b, bytes = m\<rparr>"

section \<open>The helpers\<close>

definition put :: "alloc \<Rightarrow> addr option \<Rightarrow> (memory_list \<Rightarrow> memory_list) \<Rightarrow> alloc res" where
  \<comment> \<open>assign fields of the header a pointer points to\<close>
  "put st p f = rbind (upd (blocks st) p f) (\<lambda>h. Inr (st\<lparr>blocks := h\<rparr>))"

definition remove_node :: "alloc \<Rightarrow> addr option \<Rightarrow> alloc res" where
  "remove_node st node =
     (if node = None then Inr st
      else rbind (ld (blocks st) node) (\<lambda>n.
        let prevfree = mprevfree n;
            nextfree = mnextfree n;
            st1 = (if node = emhead st then st\<lparr>emhead := nextfree\<rparr> else st)
        in rbind (if prevfree \<noteq> None then put st1 prevfree (\<lambda>m. m\<lparr>mnextfree := nextfree\<rparr>) else Inr st1)
          (\<lambda>st2. if nextfree \<noteq> None then put st2 nextfree (\<lambda>m. m\<lparr>mprevfree := prevfree\<rparr>) else Inr st2)))"

definition push_free :: "alloc \<Rightarrow> addr option \<Rightarrow> alloc res" where
  \<comment> \<open>the statements at the end of \<open>block_split\<close> and in \<open>free\<close> that put a block in front of the
     free list\<close>
  "push_free st node =
     rbind (put st node (\<lambda>m. m\<lparr>mnextfree := emhead st, mprevfree := None\<rparr>)) (\<lambda>st1.
     rbind (if emhead st1 \<noteq> None then put st1 (emhead st1) (\<lambda>m. m\<lparr>mprevfree := node\<rparr>) else Inr st1)
       (\<lambda>st2. Inr (st2\<lparr>emhead := node\<rparr>)))"

definition block_split :: "alloc \<Rightarrow> addr option \<Rightarrow> nat \<Rightarrow> (addr option \<times> alloc) res" where
  "block_split st node sz =
     (case node of None \<Rightarrow> Inr (None, st) | Some a \<Rightarrow>
      rbind (ld (blocks st) node) (\<lambda>n.
      if msize n \<le> wrap64 (sz + HDR) then Inr (None, st)
      else
        let new = a + HDR + sz;
            temp = mnext n;
            st1 = st\<lparr>blocks := (blocks st)
                     (new \<mapsto> \<lparr>mptr = Some (new + HDR), msize = msize n - sz - HDR, mfree = True,
                              mnext = temp, mprev = node, mnextfree = None, mprevfree = None\<rparr>)\<rparr>
        in rbind (put st1 node (\<lambda>m. m\<lparr>msize := sz, mnext := Some new\<rparr>)) (\<lambda>st2.
           rbind (if temp \<noteq> None then put st2 temp (\<lambda>m. m\<lparr>mprev := Some new\<rparr>) else Inr st2) (\<lambda>st3.
           let st4 = (if atail st3 = node then st3\<lparr>atail := Some new\<rparr> else st3)
           in rbind (push_free st4 (Some new)) (\<lambda>st5. Inr (Some new, st5))))))"

definition block_merge :: "alloc \<Rightarrow> addr option \<Rightarrow> alloc res" where
  \<comment> \<open>at the end the header of the swallowed block has become payload\<close>
  "block_merge st node =
     (if node = None then Inr st
      else rbind (ld (blocks st) node) (\<lambda>n.
      case mnext n of None \<Rightarrow> Inr st | Some b \<Rightarrow>
        let st1 = (if mnext n = atail st then st\<lparr>atail := node\<rparr> else st)
        in rbind (ld (blocks st1) (Some b)) (\<lambda>nb.
           rbind (put st1 node (\<lambda>m. m\<lparr>msize := wrap64 (msize m + msize nb + HDR), mnext := mnext nb\<rparr>)) (\<lambda>st2.
           rbind (if mnext nb \<noteq> None then put st2 (mnext nb) (\<lambda>m. m\<lparr>mprev := node\<rparr>) else Inr st2) (\<lambda>st3.
           rbind (put st3 (Some b) (\<lambda>m. m\<lparr>msize := 0, mfree := False, mnext := None, mprev := None, mptr := None\<rparr>)) (\<lambda>st4.
           rbind (remove_node st4 (Some b)) (\<lambda>st5.
           Inr (st5\<lparr>blocks := (blocks st5)(b := None)\<rparr>))))))))"

definition sbrk :: "(nat \<Rightarrow> int \<Rightarrow> bool) \<Rightarrow> alloc \<Rightarrow> nat \<Rightarrow> alloc option" where
  \<comment> \<open>the argument is an \<open>intptr_t\<close>: a \<open>size_t\<close> from \<open>2 ^ 63\<close> on is a negative increment\<close>
  "sbrk grants st sz =
     (let d = (if sz < 2 ^ 63 then int sz else int sz - 2 ^ 64)
      in if grants (brk st) d then Some (st\<lparr>brk := nat (int (brk st) + d)\<rparr>) else None)"

definition add_node_to_tail ::
  "(nat \<Rightarrow> int \<Rightarrow> bool) \<Rightarrow> alloc \<Rightarrow> nat \<Rightarrow> (addr option \<times> alloc) res" where
  "add_node_to_tail grants st sz =
     (let node = brk st in
      case sbrk grants st HDR of None \<Rightarrow> Inr (None, st) | Some st1 \<Rightarrow>
      let p = brk st1 in
      case sbrk grants st1 sz of None \<Rightarrow> Inr (None, st1) | Some st2 \<Rightarrow>
      let st3 = st2\<lparr>blocks := (blocks st2)
                (node \<mapsto> \<lparr>mptr = Some p, msize = sz, mfree = False, mnext = None,
                         mprev = atail st2, mnextfree = None, mprevfree = None\<rparr>)\<rparr>
      in rbind (if atail st3 \<noteq> None then put st3 (atail st3) (\<lambda>m. m\<lparr>mnext := Some node\<rparr>)
                else if ahead st3 = None then Inr (st3\<lparr>ahead := Some node\<rparr>) else Inr st3)
           (\<lambda>st4. Inr (Some node, st4\<lparr>atail := Some node\<rparr>)))"

section \<open>The allocator\<close>

fun malloc_find :: "nat \<Rightarrow> alloc \<Rightarrow> addr option \<Rightarrow> nat \<Rightarrow> addr option res" where
  \<comment> \<open>the search loop of \<open>malloc\<close>, with at most the given number of tests of its condition\<close>
  "malloc_find 0 st cur sz = Inl Diverges"
| "malloc_find (Suc k) st cur sz =
     (if cur = None then Inr None
      else rbind (ld (blocks st) cur) (\<lambda>n.
        if sz \<le> msize n then Inr cur else malloc_find k st (mnextfree n) sz))"

definition malloc_take :: "alloc \<Rightarrow> addr option \<Rightarrow> nat \<Rightarrow> (addr option \<times> alloc) res" where
  \<comment> \<open>the body of the loop, once a block that is large enough is found\<close>
  "malloc_take st chosen sz =
     rbind (ld (blocks st) chosen) (\<lambda>n.
     rbind (if msize n - sz > 64 + HDR
            then rbind (block_split st chosen sz) (\<lambda>(splittednode, st1).
                 rbind (ld (blocks st1) splittednode) (\<lambda>m.
                 if mnext m = None then Inr st1
                 else rbind (ld (blocks st1) (mnext m)) (\<lambda>nn.
                      if mfree nn then block_merge st1 splittednode else Inr st1)))
            else Inr st) (\<lambda>st2.
     rbind (remove_node st2 chosen) (\<lambda>st3.
     rbind (put st3 chosen (\<lambda>m. m\<lparr>mfree := False\<rparr>)) (\<lambda>st4.
     rbind (ld (blocks st4) chosen) (\<lambda>m. Inr (mptr m, st4))))))"

definition malloc ::
  "(nat \<Rightarrow> int \<Rightarrow> bool) \<Rightarrow> nat \<Rightarrow> alloc \<Rightarrow> nat \<Rightarrow> (addr option \<times> alloc) res" where
  "malloc grants fuel st sz =
     rbind (malloc_find fuel st (emhead st) sz) (\<lambda>chosen.
     if chosen \<noteq> None then malloc_take st chosen sz
     else rbind (add_node_to_tail grants st sz) (\<lambda>(newnode, st1).
          rbind (ld (blocks st1) newnode) (\<lambda>n. Inr (mptr n, st1))))"

definition calloc ::
  "(nat \<Rightarrow> int \<Rightarrow> bool) \<Rightarrow> nat \<Rightarrow> alloc \<Rightarrow> nat \<Rightarrow> nat \<Rightarrow> (addr option \<times> alloc) res" where
  "calloc grants fuel st num sz =
     rbind (malloc grants fuel st (wrap64 (num * sz))) (\<lambda>(p, st1).
     case p of None \<Rightarrow> Inr (None, st1)
     | Some a \<Rightarrow> Inr (p, st1\<lparr>bytes := (\<lambda>b. if a \<le> b \<and> b < a + wrap64 (num * sz) then 0 else bytes st1 b)\<rparr>))"

definition header_of :: "(addr \<Rightarrow> addr option) \<Rightarrow> alloc \<Rightarrow> addr \<Rightarrow> addr option" where
  \<comment> \<open>what \<open>((memory_list*)ptr - 1)->ptr\<close> reads\<close>
  "header_of junk st p =
     (if HDR \<le> p then (case blocks st (p - HDR) of Some n \<Rightarrow> mptr n | None \<Rightarrow> junk (p - HDR)) else None)"

definition free :: "(addr \<Rightarrow> addr option) \<Rightarrow> alloc \<Rightarrow> addr option \<Rightarrow> alloc res" where
  "free junk st ptr =
     (case ptr of None \<Rightarrow> Inr st | Some p \<Rightarrow>
      if header_of junk st p \<noteq> ptr then Inr st
      else
        let node = Some (p - HDR)
        in rbind (put st node (\<lambda>m. m\<lparr>mfree := True\<rparr>)) (\<lambda>st1.
           rbind (push_free st1 node) (\<lambda>st2.
           rbind (ld (blocks st2) node) (\<lambda>n.
           let prevnode = mprev n; nextnode = mnext n
           in rbind (if prevnode = None then Inr (node, st2)
                     else rbind (ld (blocks st2) prevnode) (\<lambda>pn.
                          if mfree pn then rbind (block_merge st2 prevnode) (\<lambda>st3. Inr (prevnode, st3))
                          else Inr (node, st2))) (\<lambda>(node, st3).
              if nextnode = None then Inr st3
              else rbind (ld (blocks st3) nextnode) (\<lambda>nn.
                   if mfree nn then block_merge st3 node else Inr st3))))))"

definition realloc ::
  "(nat \<Rightarrow> int \<Rightarrow> bool) \<Rightarrow> (addr \<Rightarrow> addr option) \<Rightarrow> nat \<Rightarrow> alloc \<Rightarrow> addr option \<Rightarrow> nat
     \<Rightarrow> (addr option \<times> alloc) res" where
  "realloc grants junk fuel st ptr sz =
     (case ptr of
        None \<Rightarrow> if sz \<noteq> 0 then malloc grants fuel st sz else Inr (None, st)
      | Some p \<Rightarrow>
        if sz = 0 then rbind (free junk st ptr) (\<lambda>st1. Inr (None, st1))
        else if header_of junk st p \<noteq> ptr then Inr (None, st)
        else
          let node = p - HDR
          in rbind (ld (blocks st) (Some node)) (\<lambda>n.
             if msize n < sz then
               if Some node = atail st then
                 let st1 = (case sbrk grants st (sz - msize n) of None \<Rightarrow> st | Some st1 \<Rightarrow> st1)
                 in rbind (put st1 (Some node) (\<lambda>m. m\<lparr>msize := sz\<rparr>)) (\<lambda>st2. Inr (ptr, st2))
               else rbind (malloc grants fuel st sz) (\<lambda>(new_ptr, st1).
                    case new_ptr of None \<Rightarrow> Inr (None, st1) | Some q \<Rightarrow>
                    rbind (ld (blocks st1) (Some node)) (\<lambda>n1. rbind (deref (mptr n1)) (\<lambda>src.
                    let st2 = st1\<lparr>bytes := (\<lambda>b. if q \<le> b \<and> b < q + msize n1 then bytes st1 (src + (b - q))
                                             else bytes st1 b)\<rparr>
                    in rbind (free junk st2 (Some node)) (\<lambda>st3. Inr (new_ptr, st3)))))
             else Inr (ptr, st)))"

section \<open>Invariant\<close>

text \<open>
  The block list and the free list as lists of addresses; the blocks tile the memory from
  \<open>base\<close> to the program break, the free list holds exactly the free blocks, and no two
  neighbouring blocks are free.
\<close>

fun tiles :: "(addr \<Rightarrow> nat) \<Rightarrow> nat \<Rightarrow> addr list \<Rightarrow> nat \<Rightarrow> bool" where
  "tiles sz b [] e = (b = e)"
| "tiles sz b (a # as) e = (a = b \<and> tiles sz (a + HDR + sz a) as e)"

fun apart :: "(addr \<Rightarrow> bool) \<Rightarrow> addr list \<Rightarrow> bool" where
  "apart fr (a # b # as) = (\<not> (fr a \<and> fr b) \<and> apart fr (b # as))"
| "apart fr as = True"

definition same_core :: "memory_list heap \<Rightarrow> memory_list heap \<Rightarrow> bool" where
  \<comment> \<open>equal up to the links of the free list\<close>
  "same_core h h' \<longleftrightarrow> dom h' = dom h \<and> fld mptr h' = fld mptr h \<and> fld msize h' = fld msize h
     \<and> fld mfree h' = fld mfree h \<and> fld mnext h' = fld mnext h \<and> fld mprev h' = fld mprev h"

definition free_list :: "memory_list heap \<Rightarrow> addr list \<Rightarrow> bool" where
  "free_list h fs \<longleftrightarrow> distinct fs \<and> set fs \<subseteq> dom h
     \<and> links (fld mnextfree h) (fld mprevfree h) None fs None"

definition block_list :: "nat \<Rightarrow> nat \<Rightarrow> memory_list heap \<Rightarrow> addr list \<Rightarrow> bool" where
  "block_list b e h as \<longleftrightarrow> tiles (fld msize h) b as e \<and> dom h = set as
     \<and> links (fld mnext h) (fld mprev h) None as None
     \<and> (\<forall>a \<in> set as. fld mptr h a = Some (a + HDR))"

definition alloc_wf :: "nat \<Rightarrow> alloc \<Rightarrow> addr list \<Rightarrow> addr list \<Rightarrow> bool" where
  "alloc_wf b st as fs \<longleftrightarrow> block_list b (brk st) (blocks st) as \<and> free_list (blocks st) fs
     \<and> ahead st = first as \<and> atail st = final as \<and> emhead st = first fs
     \<and> (\<forall>a \<in> set as. a \<in> set fs \<longleftrightarrow> fld mfree (blocks st) a) \<and> brk st < 2 ^ 63"

definition alloc_ok :: "nat \<Rightarrow> alloc \<Rightarrow> addr list \<Rightarrow> addr list \<Rightarrow> bool" where
  "alloc_ok b st as fs \<longleftrightarrow> alloc_wf b st as fs \<and> apart (fld mfree (blocks st)) as"

lemma same_core_refl [simp]: "same_core h h"
  by (simp add: same_core_def)

lemma same_core_trans: "same_core h h' \<Longrightarrow> same_core h' h'' \<Longrightarrow> same_core h h''"
  by (simp add: same_core_def)

lemma same_core_upd:
  assumes "same_core h h'" and "h' a = Some n" and "mptr m = mptr n" and "msize m = msize n"
    and "mfree m = mfree n" and "mnext m = mnext n" and "mprev m = mprev n"
  shows "same_core h (h'(a \<mapsto> m))"
proof (rule same_core_trans[OF assms(1)])
  have "dom (h'(a \<mapsto> m)) = dom h'" using assms(2) by auto
  then show "same_core h' (h'(a \<mapsto> m))" using assms(2-) by (simp add: same_core_def)
qed

lemma put_ok [simp]:
  "blocks st a = Some n \<Longrightarrow> put st (Some a) f = Inr (st\<lparr>blocks := (blocks st)(a \<mapsto> f n)\<rparr>)"
  by (simp add: put_def)

lemma atail_keep [simp]: "st\<lparr>blocks := h, atail := atail st\<rparr> = st\<lparr>blocks := h\<rparr>"
  by simp

lemma atail_blocks: "st\<lparr>atail := x, blocks := h\<rparr> = st\<lparr>blocks := h, atail := x\<rparr>"
  by simp

subsection \<open>The free list\<close>

lemma remove_node_ok:
  assumes f: "free_list (blocks st) (us @ a # vs)" and e: "emhead st = first (us @ a # vs)"
  shows "\<exists>h. remove_node st (Some a) = Inr (st\<lparr>blocks := h, emhead := first (us @ vs)\<rparr>)
     \<and> same_core (blocks st) h \<and> free_list h (us @ vs)"
proof -
  let ?h = "blocks st"
  have d: "distinct (us @ a # vs)" "set (us @ a # vs) \<subseteq> dom ?h" using f by (simp_all add: free_list_def)
  obtain n where n: "?h a = Some n" using d(2) by auto
  have l: "links (fld mnextfree ?h) (fld mprevfree ?h) None us (Some a)"
    "links (fld mnextfree ?h) (fld mprevfree ?h) (Some a) vs None"
    "mprevfree n = final us" "mnextfree n = first vs"
    using f n by (simp_all add: free_list_def fld_at heado_None lasto_None)
  have em: "Some a = emhead st \<longleftrightarrow> us = []" using e d(1) by (cases us) auto
  have p: "\<exists>m. ?h x = Some m" if "x \<in> set (us @ a # vs)" for x using d(2) that by auto
  show ?thesis
  proof (cases us rule: rev_cases)
    case Nil
    show ?thesis
    proof (cases vs)
      case vs: Nil
      show ?thesis using Nil vs n l e
        by (auto simp: remove_node_def free_list_def Let_def intro!: exI[of _ ?h])
    next
      case (Cons v vs')
      obtain m where m: "?h v = Some m" using p[of v] Cons by auto
      show ?thesis using Nil Cons n l e m d
        by (auto simp: remove_node_def free_list_def Let_def fld_at
            intro!: same_core_upd exI[of _ "?h(v \<mapsto> m\<lparr>mprevfree := None\<rparr>)"])
    qed
  next
    case (snoc us' u)
    obtain k where k: "?h u = Some k" using p[of u] snoc by auto
    have neq: "first (us @ vs) = emhead st" using e snoc by (cases us') auto
    show ?thesis
    proof (cases vs)
      case vs: Nil
      show ?thesis using snoc vs n l em k d neq
        by (auto simp: remove_node_def free_list_def Let_def fld_at
            intro!: same_core_upd exI[of _ "?h(u \<mapsto> k\<lparr>mnextfree := None\<rparr>)"])
    next
      case (Cons v vs')
      obtain m where m: "?h v = Some m" using p[of v] Cons by auto
      let ?h' = "?h(u \<mapsto> k\<lparr>mnextfree := Some v\<rparr>, v \<mapsto> m\<lparr>mprevfree := Some u\<rparr>)"
      show ?thesis using snoc Cons n l em k m d neq
        by (auto simp: remove_node_def free_list_def Let_def fld_at intro!: same_core_upd exI[of _ ?h'])
    qed
  qed
qed

lemma push_free_ok:
  assumes f: "free_list (blocks st) fs" and e: "emhead st = first fs"
    and a: "a \<in> dom (blocks st)" "a \<notin> set fs"
  shows "\<exists>h. push_free st (Some a) = Inr (st\<lparr>blocks := h, emhead := Some a\<rparr>)
     \<and> same_core (blocks st) h \<and> free_list h (a # fs)"
proof -
  obtain n where n: "blocks st a = Some n" using a by auto
  show ?thesis
  proof (cases fs)
    case Nil
    then show ?thesis using n e a
      by (auto simp: push_free_def free_list_def fld_at intro!: same_core_upd)
  next
    case (Cons v vs)
    then obtain m where m: "blocks st v = Some m" using f by (auto simp: free_list_def)
    let ?h = "(blocks st)(a \<mapsto> n\<lparr>mnextfree := Some v, mprevfree := None\<rparr>,
                          v \<mapsto> m\<lparr>mprevfree := Some a\<rparr>)"
    show ?thesis using n m e a f Cons
      by (auto simp: push_free_def free_list_def fld_at
          intro!: exI[of _ ?h] same_core_upd[where h' = "fun_upd _ _ _"] same_core_upd)
  qed
qed

subsection \<open>The block list\<close>

lemma tiles_append:
  "tiles sz b (as @ bs) e \<longleftrightarrow> (\<exists>m. tiles sz b as m \<and> tiles sz m bs e)"
  by (induction as arbitrary: b) auto

lemma tiles_le: "tiles sz b as e \<Longrightarrow> b \<le> e"
  by (induction as arbitrary: b) (auto dest: add_leD1)

lemma tiles_bounds: "tiles sz b as e \<Longrightarrow> a \<in> set as \<Longrightarrow> b \<le> a \<and> a + HDR + sz a \<le> e"
proof (induction as arbitrary: b)
  case Nil
  then show ?case by simp
next
  case (Cons c as)
  then show ?case using tiles_le[of sz "c + HDR + sz c" as e] by fastforce
qed

lemma tiles_upd_other [simp]: "a \<notin> set as \<Longrightarrow> tiles (sz(a := v)) b as e = tiles sz b as e"
  by (induction as arbitrary: b) auto

lemma tiles_distinct: "tiles sz b as e \<Longrightarrow> distinct as"
proof (induction as arbitrary: b)
  case Nil
  then show ?case by simp
next
  case (Cons c as)
  then have "c \<notin> set as" using tiles_bounds[of sz "c + HDR + sz c" as e c] by (auto simp: HDR_def)
  with Cons show ?case by auto
qed

lemma tiles_disjoint:
  "tiles sz b as e \<Longrightarrow> a \<in> set as \<Longrightarrow> c \<in> set as \<Longrightarrow> a < c \<Longrightarrow> a + HDR + sz a \<le> c"
proof (induction as arbitrary: b)
  case Nil
  then show ?case by simp
next
  case (Cons x as)
  then show ?case using tiles_bounds[of sz "x + HDR + sz x" as e]
    by (auto dest: tiles_bounds[of sz _ as e])
qed

lemma wrap64_small [simp]: "x < 2 ^ 64 \<Longrightarrow> wrap64 x = x"
  by (simp add: wrap64_def)

lemma tiles_cong:
  "(\<And>a. a \<in> set as \<Longrightarrow> sz' a = sz a) \<Longrightarrow> tiles sz' b as e = tiles sz b as e"
  by (induction as arbitrary: b) auto

lemma free_list_core:
  assumes "free_list h fs" and "set fs \<subseteq> dom h'"
    and "\<And>a. a \<in> set fs \<Longrightarrow> fld mnextfree h' a = fld mnextfree h a"
    and "\<And>a. a \<in> set fs \<Longrightarrow> fld mprevfree h' a = fld mprevfree h a"
  shows "free_list h' fs"
  using assms(1,2) links_cong[of fs "fld mnextfree h'" "fld mnextfree h" "fld mprevfree h'", OF assms(3,4)]
  by (simp add: free_list_def)

lemma block_list_core: "block_list b e h as \<Longrightarrow> same_core h h' \<Longrightarrow> block_list b e h' as"
  by (simp add: block_list_def same_core_def)

lemma block_list_at:
  assumes "block_list b e h (us @ a # vs)"
  obtains n where "h a = Some n" and "mnext n = first vs" and "mprev n = final us"
    and "mptr n = Some (a + HDR)"
proof -
  have "a \<in> dom h" using assms by (simp add: block_list_def)
  then obtain n where n: "h a = Some n" by blast
  then show ?thesis using assms that[OF n]
    by (simp add: block_list_def fld_at heado_None lasto_None)
qed

text \<open>Splitting the block at \<open>a\<close>: the new header lies in its payload.\<close>

definition split_heap :: "memory_list heap \<Rightarrow> addr \<Rightarrow> nat \<Rightarrow> addr list \<Rightarrow> memory_list heap" where
  \<comment> \<open>the headers when both blocks are linked; \<open>vs\<close> are the blocks behind\<close>
  "split_heap h a sz vs =
     (let new = a + HDR + sz; n = the (h a);
          h1 = h(new \<mapsto> \<lparr>mptr = Some (new + HDR), msize = msize n - sz - HDR, mfree = True,
                   mnext = first vs, mprev = Some a, mnextfree = None, mprevfree = None\<rparr>,
                 a \<mapsto> n\<lparr>msize := sz, mnext := Some new\<rparr>)
      in case vs of [] \<Rightarrow> h1 | v # _ \<Rightarrow> h1(v \<mapsto> (the (h1 v))\<lparr>mprev := Some new\<rparr>))"

lemma split_new:
  assumes B: "block_list b e h (us @ a # vs)" and s: "sz + HDR < fld msize h a"
  shows "a + HDR + sz \<notin> dom h"
proof
  assume "a + HDR + sz \<in> dom h"
  then have "a + HDR + fld msize h a \<le> a + HDR + sz"
    using tiles_disjoint[of "fld msize h" b "us @ a # vs" e a "a + HDR + sz"] B by (simp add: block_list_def HDR_def)
  then show False using s by simp
qed

lemma split_block_list:
  assumes B: "block_list b e h (us @ a # vs)" and s: "sz + HDR < fld msize h a"
  shows "block_list b e (split_heap h a sz vs) (us @ a # (a + HDR + sz) # vs)"
proof -
  let ?new = "a + HDR + sz"
  have T: "tiles (fld msize h) b (us @ a # vs) e" and D: "dom h = set (us @ a # vs)"
    using B by (simp_all add: block_list_def)
  obtain n where n: "h a = Some n" "mnext n = first vs" "mprev n = final us" "mptr n = Some (a + HDR)"
    by (rule block_list_at[OF B])
  have ds: "distinct (us @ a # vs)" by (rule tiles_distinct[OF T])
  have nn: "?new \<noteq> a" "?new \<notin> set us" "?new \<notin> set vs" using split_new[OF assms] D by auto
  obtain k where k: "tiles (fld msize h) b us a" "tiles (fld msize h) (a + HDR + msize n) vs e"
    using T n by (auto simp: tiles_append fld_at)
  have sz: "sz + HDR < msize n" using s n by (simp add: fld_at)
  show ?thesis
  proof (cases vs)
    case Nil
    then show ?thesis using B n nn ds k sz
      by (auto simp: split_heap_def Let_def block_list_def tiles_append fld_at fld_def HDR_def heado_None lasto_None)
  next
    case (Cons v vs')
    obtain x where "h v = Some x" using D Cons by auto
    then show ?thesis using B n nn ds k sz Cons
      by (auto simp: split_heap_def Let_def block_list_def tiles_append fld_at HDR_def heado_None lasto_None)
  qed
qed

lemma split_fields:
  assumes B: "block_list b e h (us @ a # vs)" and s: "sz + HDR < fld msize h a"
  defines "h' \<equiv> split_heap h a sz vs" and "new \<equiv> a + HDR + sz"
  shows "fld msize h' = (fld msize h)(a := sz, new := fld msize h a - sz - HDR)"
    and "fld mfree h' = (fld mfree h)(new := True)" and "dom h' = insert new (dom h)"
    and "c \<noteq> new \<Longrightarrow> fld mnextfree h' c = fld mnextfree h c" and "c \<noteq> new \<Longrightarrow> fld mprevfree h' c = fld mprevfree h c"
proof -
  have D: "dom h = set (us @ a # vs)" using B by (simp add: block_list_def)
  obtain n where n: "h a = Some n" using D by auto
  have nn: "new \<notin> dom h" unfolding new_def by (rule split_new[OF B s])
  have v: "\<exists>x. h v = Some x" if "v \<in> set vs" for v using D that by auto
  show "fld msize h' = (fld msize h)(a := sz, new := fld msize h a - sz - HDR)" "fld mfree h' = (fld mfree h)(new := True)"
    "dom h' = insert new (dom h)" "c \<noteq> new \<Longrightarrow> fld mnextfree h' c = fld mnextfree h c"
    "c \<noteq> new \<Longrightarrow> fld mprevfree h' c = fld mprevfree h c"
    using n nn v[of "hd vs"] D
    by (cases vs; auto simp: h'_def split_heap_def Let_def new_def[symmetric] fld_def fun_eq_iff)+
qed

lemma block_split_run:
  assumes B: "block_list b e (blocks st) (us @ a # vs)" and t: "atail st = final (us @ a # vs)"
    and s: "sz + HDR < fld msize (blocks st) a" and lim: "e < 2 ^ 64"
  defines "new \<equiv> a + HDR + sz"
  shows "block_split st (Some a) sz
    = rbind (push_free (st\<lparr>blocks := split_heap (blocks st) a sz vs, atail := final (us @ a # new # vs)\<rparr>) (Some new))
        (\<lambda>st5. Inr (Some new, st5))"
proof -
  let ?h = "blocks st"
  have T: "tiles (fld msize ?h) b (us @ a # vs) e" and D: "dom ?h = set (us @ a # vs)"
    using B by (simp_all add: block_list_def)
  obtain n where n: "?h a = Some n" "mnext n = first vs" by (rule block_list_at[OF B])
  have sz: "sz + HDR < msize n" using s n by (simp add: fld_at)
  have ds: "distinct (us @ a # vs)" by (rule tiles_distinct[OF T])
  have nn: "new \<noteq> a" "new \<notin> set vs" using split_new[OF B s] D by (auto simp: new_def)
  have "a + HDR + msize n \<le> e" using tiles_bounds[OF T, of a] n by (simp add: fld_at)
  then have w: "wrap64 (sz + HDR) = sz + HDR" using sz lim by simp
  have fin: "final (us @ a # new # vs) = (if vs = [] then Some new else atail st)" using t by (simp add: final_append)
  have tl: "atail st = Some a \<longleftrightarrow> vs = []" using t ds by (auto simp: final_append final_def)
  show ?thesis
  proof (cases vs)
    case Nil
    then show ?thesis using n sz w nn tl
      by (simp add: block_split_def split_heap_def Let_def new_def[symmetric] fin final_append)
  next
    case (Cons v vs')
    obtain x where "?h v = Some x" using D Cons by auto
    then show ?thesis using n sz w nn tl Cons ds fin
      by (simp add: block_split_def split_heap_def Let_def new_def[symmetric])
  qed
qed

lemma block_split_ok:
  assumes B: "block_list b e (blocks st) (us @ a # vs)" and F: "free_list (blocks st) fs"
    and e: "emhead st = first fs" and t: "atail st = final (us @ a # vs)"
    and s: "sz + HDR < fld msize (blocks st) a" and lim: "e < 2 ^ 64"
  defines "new \<equiv> a + HDR + sz"
  shows "\<exists>h. block_split st (Some a) sz = Inr (Some new,
             st\<lparr>blocks := h, emhead := Some new, atail := final (us @ a # new # vs)\<rparr>)
     \<and> block_list b e h (us @ a # new # vs) \<and> free_list h (new # fs)
     \<and> fld msize h = (fld msize (blocks st))(a := sz, new := fld msize (blocks st) a - sz - HDR)
     \<and> fld mfree h = (fld mfree (blocks st))(new := True) \<and> new \<notin> dom (blocks st)"
proof -
  let ?h = "blocks st"
  define h2 where "h2 = split_heap ?h a sz vs"
  note fd = split_fields[OF B s, folded h2_def new_def]
  have fr: "new \<notin> dom ?h" unfolding new_def by (rule split_new[OF B s])
  have ffs: "set fs \<subseteq> dom ?h" using F by (simp add: free_list_def)
  have F2: "free_list h2 fs"
  proof (rule free_list_core[OF F])
    have "c \<noteq> new" if "c \<in> set fs" for c using ffs fr that by blast
    then show "fld mnextfree h2 c = fld mnextfree ?h c" "fld mprevfree h2 c = fld mprevfree ?h c"
      if "c \<in> set fs" for c using fd(4,5) that by blast+
    show "set fs \<subseteq> dom h2" using ffs fd(3) by blast
  qed
  define st2 where "st2 = st\<lparr>blocks := h2, atail := final (us @ a # new # vs)\<rparr>"
  obtain h3 where h3: "push_free st2 (Some new) = Inr (st2\<lparr>blocks := h3, emhead := Some new\<rparr>)"
    "same_core h2 h3" "free_list h3 (new # fs)"
    using push_free_ok[of st2 fs new] F2 e fd(3) ffs fr unfolding st2_def by auto
  have B2: "block_list b e h2 (us @ a # new # vs)" unfolding h2_def new_def by (rule split_block_list[OF B s])
  have "block_split st (Some a) sz = rbind (push_free st2 (Some new)) (\<lambda>st5. Inr (Some new, st5))"
    unfolding st2_def h2_def new_def by (rule block_split_run[OF B t s lim])
  then show ?thesis using h3 block_list_core[OF B2 h3(2)] fd(1,2) fr
    by (auto simp: st2_def same_core_def intro!: exI[of _ h3])
qed

text \<open>Merging the block at \<open>a\<close> with its right neighbour, which is free.\<close>

definition merge_heap :: "memory_list heap \<Rightarrow> addr \<Rightarrow> addr \<Rightarrow> addr list \<Rightarrow> memory_list heap" where
  \<comment> \<open>the headers before the merged block leaves the free list; \<open>vs\<close> are the blocks behind\<close>
  "merge_heap h a c vs =
     (let n = the (h a); k = the (h c);
          h1 = h(a \<mapsto> n\<lparr>msize := msize n + msize k + HDR, mnext := first vs\<rparr>);
          h2 = (case vs of [] \<Rightarrow> h1 | v # _ \<Rightarrow> h1(v \<mapsto> (the (h v))\<lparr>mprev := Some a\<rparr>))
      in h2(c \<mapsto> k\<lparr>msize := 0, mfree := False, mnext := None, mprev := None, mptr := None\<rparr>))"

lemma neighbours_at:
  assumes B: "block_list b e h (us @ a # c # vs)"
  obtains n k where "h a = Some n" "mnext n = Some c" "mprev n = final us" "mptr n = Some (a + HDR)"
    and "h c = Some k" "mnext k = first vs" "mprev k = Some a" "mptr k = Some (c + HDR)"
    and "c = a + HDR + msize n" "tiles (fld msize h) b us a" "tiles (fld msize h) (c + HDR + msize k) vs e"
proof -
  obtain n where n: "h a = Some n" "mnext n = Some c" "mprev n = final us" "mptr n = Some (a + HDR)"
    using block_list_at[OF B] by (metis first.simps(2))
  obtain k where k: "h c = Some k" "mnext k = first vs" "mprev k = Some a" "mptr k = Some (c + HDR)"
    using block_list_at[of b e h "us @ [a]" c vs] B by auto
  have "tiles (fld msize h) b (us @ a # c # vs) e" using B by (simp add: block_list_def)
  then have "tiles (fld msize h) b us a" "c = a + HDR + msize n" "tiles (fld msize h) (c + HDR + msize k) vs e"
    using n k by (auto simp: tiles_append fld_at)
  then show ?thesis using that n k by blast
qed

lemma block_list_live:
  assumes "block_list b e h as"
  shows "distinct as" and "x \<in> set as \<Longrightarrow> \<exists>m. h x = Some m"
  using assms by (auto simp: block_list_def intro: tiles_distinct)

lemma merge_fields:
  assumes B: "block_list b e h (us @ a # c # vs)"
  defines "h' \<equiv> merge_heap h a c vs"
  shows "dom h' = dom h" and "fld msize h' a = fld msize h a + HDR + fld msize h c"
    and "x \<noteq> a \<Longrightarrow> x \<noteq> c \<Longrightarrow> fld msize h' x = fld msize h x" and "x \<noteq> c \<Longrightarrow> fld mfree h' x = fld mfree h x"
    and "fld mnextfree h' = fld mnextfree h" and "fld mprevfree h' = fld mprevfree h"
proof -
  obtain n k where n: "h a = Some n" and k: "h c = Some k" by (rule neighbours_at[OF B])
  note ds = block_list_live(1)[OF B] and v = block_list_live(2)[OF B, of "hd vs"]
  show "dom h' = dom h" "fld msize h' a = fld msize h a + HDR + fld msize h c"
    "x \<noteq> a \<Longrightarrow> x \<noteq> c \<Longrightarrow> fld msize h' x = fld msize h x" "x \<noteq> c \<Longrightarrow> fld mfree h' x = fld mfree h x"
    "fld mnextfree h' = fld mnextfree h" "fld mprevfree h' = fld mprevfree h"
    using n k v ds by (cases vs; auto simp: h'_def merge_heap_def Let_def fld_def fun_eq_iff)+
qed

lemma merge_links:
  assumes B: "block_list b e h (us @ a # c # vs)"
  defines "h' \<equiv> merge_heap h a c vs" and "as \<equiv> us @ a # vs"
  shows "links (fld mnext h') (fld mprev h') None as None" and "tiles (fld msize h') b as e"
    and "\<forall>x \<in> set as. fld mptr h' x = Some (x + HDR)"
proof -
  obtain n k where n: "h a = Some n" "mnext n = Some c" "mprev n = final us" "mptr n = Some (a + HDR)"
    and k: "h c = Some k" "mnext k = first vs" "mprev k = Some a" "mptr k = Some (c + HDR)"
    and i: "c = a + HDR + msize n" "tiles (fld msize h) b us a" "tiles (fld msize h) (c + HDR + msize k) vs e"
    by (rule neighbours_at[OF B])
  note ds = block_list_live(1)[OF B] and v = block_list_live(2)[OF B, of "hd vs"]
  show "links (fld mnext h') (fld mprev h') None as None"
    using B n k ds v by (cases vs; auto simp: h'_def as_def merge_heap_def Let_def block_list_def fld_at heado_None lasto_None)
  have "fld msize h' x = fld msize h x" if "x \<in> set us \<union> set vs" for x
    unfolding h'_def by (rule merge_fields(3)[OF B]) (use that ds in auto)
  then have eq: "tiles (fld msize h') p us q = tiles (fld msize h) p us q"
    "tiles (fld msize h') p vs q = tiles (fld msize h) p vs q" for p q
    by (auto intro!: tiles_cong)
  have "a + HDR + fld msize h' a = c + HDR + msize k" using merge_fields(2)[OF B] i(1) n k by (simp add: h'_def fld_at)
  then have "tiles (fld msize h') b us a" "tiles (fld msize h') (a + HDR + fld msize h' a) vs e"
    using eq i(2,3) by metis+
  then show "tiles (fld msize h') b as e" by (auto simp: as_def tiles_append)
  show "\<forall>x \<in> set as. fld mptr h' x = Some (x + HDR)"
    using B n ds v by (cases vs; auto simp: h'_def as_def merge_heap_def Let_def block_list_def fld_at)
qed

lemma block_list_unlinked:
  \<comment> \<open>a block that is no longer linked may go\<close>
  assumes "links (fld mnext h) (fld mprev h) None as None" and "tiles (fld msize h) b as e"
    and "\<forall>x \<in> set as. fld mptr h x = Some (x + HDR)" and "same_core h h'" and "dom h = insert c (set as)" and "c \<notin> set as"
  shows "block_list b e (h'(c := None)) as"
proof -
  have "fld f (h'(c := None)) x = fld f h' x" if "x \<in> set as" for x and f :: "memory_list \<Rightarrow> 'z"
    using that assms(6) by (auto simp: fld_def)
  then have keep: "fld f (h'(c := None)) x = fld f h x" if "x \<in> set as" "fld f h' = fld f h" for x and f :: "memory_list \<Rightarrow> 'z"
    using that by metis
  have core: "fld msize h' = fld msize h" "fld mnext h' = fld mnext h" "fld mprev h' = fld mprev h" "fld mptr h' = fld mptr h"
    "dom h' = dom h" using assms(4) by (simp_all add: same_core_def)
  have "tiles (fld msize (h'(c := None))) b as e"
    using tiles_cong[of as "fld msize (h'(c := None))" "fld msize h"] keep core assms(2) by metis
  moreover have "links (fld mnext (h'(c := None))) (fld mprev (h'(c := None))) None as None"
    using links_cong[of as "fld mnext (h'(c := None))" "fld mnext h" "fld mprev (h'(c := None))" "fld mprev h"] keep core assms(1) by metis
  moreover have "\<forall>x \<in> set as. fld mptr (h'(c := None)) x = Some (x + HDR)" using keep core(4) assms(3) by metis
  ultimately show ?thesis using core(5) assms(5,6) by (auto simp: block_list_def)
qed

lemma free_list_drop:
  assumes "free_list h fs" and "c \<notin> set fs"
  shows "free_list (h(c := None)) fs"
proof (rule free_list_core[OF assms(1)])
  show "set fs \<subseteq> dom (h(c := None))" using assms by (auto simp: free_list_def)
qed (use assms(2) in \<open>auto simp: fld_def\<close>)

lemma block_merge_run:
  assumes B: "block_list b e (blocks st) (us @ a # c # vs)" and t: "atail st = final (us @ a # c # vs)" and lim: "e < 2 ^ 64"
  shows "block_merge st (Some a)
    = rbind (remove_node (st\<lparr>blocks := merge_heap (blocks st) a c vs, atail := final (us @ a # vs)\<rparr>) (Some c))
        (\<lambda>s5. Inr (s5\<lparr>blocks := (blocks s5)(c := None)\<rparr>))"
proof -
  let ?h = "blocks st"
  obtain n k where n: "?h a = Some n" "mnext n = Some c" "mprev n = final us" "mptr n = Some (a + HDR)"
    and k: "?h c = Some k" "mnext k = first vs" "mprev k = Some a" "mptr k = Some (c + HDR)"
    and i: "c = a + HDR + msize n" "tiles (fld msize ?h) (c + HDR + msize k) vs e"
    by (rule neighbours_at[OF B])
  note ds = block_list_live(1)[OF B] and v = block_list_live(2)[OF B]
  have w: "wrap64 (msize n + msize k + HDR) = msize n + msize k + HDR"
    using tiles_le[OF i(2)] i(1) lim by simp
  have tl: "Some c = atail st \<longleftrightarrow> vs = []" using t ds by (auto simp: final_append final_def)
  have fin: "final (us @ a # vs) = (if vs = [] then Some a else atail st)" using t by (simp add: final_append)
  show ?thesis
  proof (cases vs)
    case Nil
    then have "atail st = Some c" using tl by simp
    then show ?thesis using n k ds w Nil
      by (simp add: block_merge_def merge_heap_def Let_def fin final_append atail_blocks)
  next
    case (Cons x vs')
    obtain m where "?h x = Some m" using v[of x] Cons by auto
    then show ?thesis using n k ds w tl Cons fin
      by (simp add: block_merge_def merge_heap_def Let_def)
  qed
qed

lemma block_merge_ok:
  assumes B: "block_list b e (blocks st) (us @ a # c # vs)" and F: "free_list (blocks st) (xs @ c # ys)"
    and e: "emhead st = first (xs @ c # ys)" and t: "atail st = final (us @ a # c # vs)"
    and lim: "e < 2 ^ 64"
  shows "\<exists>h. block_merge st (Some a) = Inr
             (st\<lparr>blocks := h, emhead := first (xs @ ys), atail := final (us @ a # vs)\<rparr>)
     \<and> block_list b e h (us @ a # vs) \<and> free_list h (xs @ ys)
     \<and> fld msize h a = fld msize (blocks st) a + HDR + fld msize (blocks st) c
     \<and> (\<forall>x. x \<noteq> a \<longrightarrow> x \<noteq> c \<longrightarrow> fld msize h x = fld msize (blocks st) x)
     \<and> (\<forall>x. x \<noteq> c \<longrightarrow> fld mfree h x = fld mfree (blocks st) x)"
proof -
  let ?h = "blocks st"
  define h3 where "h3 = merge_heap ?h a c vs"
  note fd = merge_fields[OF B, folded h3_def]
  define st3 where "st3 = st\<lparr>blocks := h3, atail := final (us @ a # vs)\<rparr>"
  have "free_list h3 (xs @ c # ys)" using F fd by (simp add: free_list_def)
  then obtain h4 where h4: "remove_node st3 (Some c) = Inr (st3\<lparr>blocks := h4, emhead := first (xs @ ys)\<rparr>)"
    "same_core h3 h4" "free_list h4 (xs @ ys)"
    using remove_node_ok[of st3 xs c ys] e unfolding st3_def by auto
  have ds: "distinct (us @ a # c # vs)" and D: "dom ?h = set (us @ a # c # vs)"
    using block_list_live(1)[OF B] B by (simp_all add: block_list_def)
  have "block_list b e (h4(c := None)) (us @ a # vs)"
    using merge_links[OF B, folded h3_def] h4(2) fd(1) ds D by (intro block_list_unlinked[of h3]) auto
  moreover have "free_list (h4(c := None)) (xs @ ys)" using F by (intro free_list_drop[OF h4(3)]) (simp add: free_list_def)
  moreover have "block_merge st (Some a) = rbind (remove_node st3 (Some c)) (\<lambda>s5. Inr (s5\<lparr>blocks := (blocks s5)(c := None)\<rparr>))"
    unfolding st3_def h3_def by (rule block_merge_run[OF B t lim])
  moreover have "fld msize (h4(c := None)) x = fld msize h3 x" "fld mfree (h4(c := None)) x = fld mfree h3 x" if "x \<noteq> c" for x
    using that h4(2) by (simp_all add: same_core_def fld_def fun_eq_iff)
  ultimately show ?thesis using h4(1) fd(2-4) ds by (auto simp: st3_def intro!: exI[of _ "h4(c := None)"])
qed

subsection \<open>The allocated blocks\<close>

definition live :: "alloc \<Rightarrow> addr \<Rightarrow> nat option" where
  \<comment> \<open>the abstract state: the sizes of the allocated payloads, by their address\<close>
  "live st p = (if HDR \<le> p then (case blocks st (p - HDR) of
       None \<Rightarrow> None | Some n \<Rightarrow> if mfree n then None else Some (msize n)) else None)"

lemma live_fld: "live st p = (if HDR \<le> p \<and> p - HDR \<in> dom (blocks st) \<and> \<not> fld mfree (blocks st) (p - HDR)
    then Some (fld msize (blocks st) (p - HDR)) else None)"
  by (auto simp: live_def fld_def split: option.splits)

lemma apart_Cons: "apart fr (a # vs) \<longleftrightarrow> apart fr vs \<and> (vs \<noteq> [] \<longrightarrow> \<not> (fr a \<and> fr (hd vs)))"
  by (cases vs) auto

lemma apart_mid: "apart fr (us @ a # vs) \<longleftrightarrow> apart fr us \<and> apart fr vs
    \<and> (us \<noteq> [] \<longrightarrow> \<not> (fr (last us) \<and> fr a)) \<and> (vs \<noteq> [] \<longrightarrow> \<not> (fr a \<and> fr (hd vs)))"
proof (induction us)
  case Nil
  show ?case by (cases vs) auto
next
  case (Cons x us)
  then show ?case by (cases us) (auto simp: apart_Cons)
qed

lemma apart_weaken: "apart fr as \<Longrightarrow> (\<And>x. x \<in> set as \<Longrightarrow> fr' x \<Longrightarrow> fr x) \<Longrightarrow> apart fr' as"
  by (induction fr as rule: apart.induct) auto

lemma alloc_live:
  assumes "alloc_ok b st as fs"
  shows "live st p = Some s \<longleftrightarrow> (\<exists>a \<in> set as. a \<notin> set fs \<and> p = a + HDR \<and> s = fld msize (blocks st) a)"
  using assms by (auto simp: alloc_ok_def alloc_wf_def live_fld block_list_def intro!: bexI[of _ "p - HDR"])

text \<open>Allocated payloads lie between the base and the break, and no two overlap.\<close>

lemma alloc_ok_disjoint:
  assumes ok: "alloc_ok b st as fs" and p: "live st p = Some s" and q: "live st q = Some r"
  shows "b + HDR \<le> p \<and> p + s \<le> brk st" and "p \<noteq> q \<Longrightarrow> p + s \<le> q \<or> q + r \<le> p"
proof -
  have T: "tiles (fld msize (blocks st)) b as (brk st)"
    using ok by (simp add: alloc_ok_def alloc_wf_def block_list_def)
  obtain x where x: "x \<in> set as" "p = x + HDR" "s = fld msize (blocks st) x"
    using p alloc_live[OF ok] by auto
  obtain y where y: "y \<in> set as" "q = y + HDR" "r = fld msize (blocks st) y"
    using q alloc_live[OF ok] by auto
  show "b + HDR \<le> p \<and> p + s \<le> brk st" using tiles_bounds[OF T x(1)] x by simp
  assume "p \<noteq> q"
  then have "x < y \<or> y < x" using x y by auto
  then show "p + s \<le> q \<or> q + r \<le> p"
    using tiles_disjoint[OF T x(1) y(1)] tiles_disjoint[OF T y(1) x(1)] x y by auto
qed

subsection \<open>malloc\<close>

lemma malloc_find_ok:
  assumes "links (fld mnextfree (blocks st)) pv l fs None" and "set fs \<subseteq> dom (blocks st)"
    and "length fs < k"
  shows "malloc_find k st (first fs) sz = Inr (find (\<lambda>a. sz \<le> fld msize (blocks st) a) fs)"
  using assms
proof (induction fs arbitrary: l k)
  case Nil
  then show ?case by (cases k) auto
next
  case (Cons a fs)
  then obtain n j where n: "blocks st a = Some n" "k = Suc j" by (cases k) auto
  with Cons.prems have "mnextfree n = first fs" by (simp add: fld_at heado_None)
  with Cons.IH[of "Some a" j] Cons.prems n show ?case by (simp add: fld_at)
qed

lemma take_finish:
  assumes B: "block_list b e (blocks st) as" and F: "free_list (blocks st) fs"
    and e: "emhead st = first fs" and a: "a \<in> set fs" "a \<in> set as"
  shows "\<exists>h fs'. rbind (remove_node st (Some a)) (\<lambda>st3.
           rbind (put st3 (Some a) (\<lambda>m. m\<lparr>mfree := False\<rparr>)) (\<lambda>st4.
           rbind (ld (blocks st4) (Some a)) (\<lambda>m. Inr (mptr m, st4))))
         = Inr (Some (a + HDR), st\<lparr>blocks := h, emhead := first fs'\<rparr>)
     \<and> block_list b e h as \<and> free_list h fs' \<and> set fs' = set fs - {a}
     \<and> fld msize h = fld msize (blocks st) \<and> fld mfree h = (fld mfree (blocks st))(a := False)"
proof -
  obtain xs ys where fs: "fs = xs @ a # ys" using a(1) by (meson split_list)
  obtain h where h: "remove_node st (Some a) = Inr (st\<lparr>blocks := h, emhead := first (xs @ ys)\<rparr>)"
    "same_core (blocks st) h" "free_list h (xs @ ys)"
    using remove_node_ok F e unfolding fs by blast
  have Bh: "block_list b e h as" by (rule block_list_core[OF B h(2)])
  then obtain n where n: "h a = Some n" "mptr n = Some (a + HDR)"
    using a(2) by (fastforce simp: block_list_def fld_def)
  let ?h = "h(a \<mapsto> n\<lparr>mfree := False\<rparr>)"
  have "dom ?h = dom h" using n by auto
  then have "block_list b e ?h as" "free_list ?h (xs @ ys)"
    using Bh h(3) n by (simp_all add: block_list_def free_list_def)
  moreover have "fld msize ?h = fld msize h" "fld mfree ?h = (fld mfree h)(a := False)"
    using n by simp_all
  moreover have "set (xs @ ys) = set fs - {a}" using F fs by (auto simp: free_list_def)
  ultimately show ?thesis using h n
    by (auto simp: same_core_def simp del: fld_upd intro!: exI[of _ ?h] exI[of _ "xs @ ys"])
qed

lemma live_upd:
  assumes "\<And>x. x \<in> dom (blocks st') \<and> \<not> fld mfree (blocks st') x \<longleftrightarrow>
      x = a \<or> x \<in> dom (blocks st) \<and> \<not> fld mfree (blocks st) x"
    and "fld msize (blocks st') a = s"
    and "\<And>x. x \<noteq> a \<Longrightarrow> x \<in> dom (blocks st) \<Longrightarrow> \<not> fld mfree (blocks st) x
      \<Longrightarrow> fld msize (blocks st') x = fld msize (blocks st) x"
  shows "live st' = (live st)(a + HDR \<mapsto> s)"
proof
  fix p
  show "live st' p = ((live st)(a + HDR \<mapsto> s)) p"
  proof (cases "HDR \<le> p")
    case True
    then obtain x where x: "p = x + HDR" by (metis add.commute le_Suc_ex)
    then show ?thesis using assms(1)[of x] assms(2) assms(3)[of x] by (auto simp: live_fld)
  qed (auto simp: live_fld)
qed

lemma alloc_ok_parts:
  assumes "alloc_ok b st as fs"
  shows "block_list b (brk st) (blocks st) as" and "free_list (blocks st) fs" and "emhead st = first fs"
    and "atail st = final as" and "ahead st = first as" and "apart (fld mfree (blocks st)) as" and "brk st < 2 ^ 63"
    and "dom (blocks st) = set as" and "\<And>x. x \<in> set as \<Longrightarrow> x \<in> set fs \<longleftrightarrow> fld mfree (blocks st) x"
  using assms by (simp_all add: alloc_ok_def alloc_wf_def block_list_def)

lemma free_block_at:
  assumes ok: "alloc_ok b st as fs" and a: "a \<in> set fs"
  obtains us vs n where "as = us @ a # vs" and "a \<in> set as" and "blocks st a = Some n" and "mnext n = first vs"
    and "fld mfree (blocks st) a" and "live st (a + HDR) = None"
proof -
  note p = alloc_ok_parts[OF ok]
  have aas: "a \<in> set as" using a p(2,8) by (auto simp: free_list_def)
  then obtain us vs where as: "as = us @ a # vs" by (meson split_list)
  obtain n where n: "blocks st a = Some n" "mnext n = first vs" by (rule block_list_at[OF p(1)[unfolded as]])
  have fa: "fld mfree (blocks st) a" using p(9) a aas by simp
  then have "live st (a + HDR) = None" by (simp add: live_fld)
  then show ?thesis using that as aas n fa by blast
qed

lemma malloc_take_whole:
  assumes ok: "alloc_ok b st as fs" and a: "a \<in> set fs" and fit: "fld msize (blocks st) a - sz \<le> 64 + HDR"
  shows "\<exists>st' fs'. malloc_take st (Some a) sz = Inr (Some (a + HDR), st')
     \<and> alloc_ok b st' as fs' \<and> live st' = (live st)(a + HDR \<mapsto> fld msize (blocks st) a) \<and> bytes st' = bytes st \<and> brk st' = brk st"
proof -
  let ?h = "blocks st"
  note p = alloc_ok_parts[OF ok]
  obtain n where n: "a \<in> set as" "?h a = Some n" by (rule free_block_at[OF ok a])
  obtain h fs' where h: "malloc_take st (Some a) sz = Inr (Some (a + HDR), st\<lparr>blocks := h, emhead := first fs'\<rparr>)"
    "block_list b (brk st) h as" "free_list h fs'" "set fs' = set fs - {a}"
    "fld msize h = fld msize ?h" "fld mfree h = (fld mfree ?h)(a := False)"
    using take_finish[OF p(1-3) a n(1)] fit n(2) by (auto simp: malloc_take_def fld_at)
  let ?st' = "st\<lparr>blocks := h, emhead := first fs'\<rparr>"
  have Dh: "dom h = set as" using h(2) by (simp add: block_list_def)
  have "apart (fld mfree h) as" by (rule apart_weaken[OF p(6)]) (simp add: h(6) split: if_splits)
  then have "alloc_ok b ?st' as fs'" using h(2-6) p(4,5,7,9) by (auto simp: alloc_ok_def alloc_wf_def)
  moreover have "live ?st' = (live st)(a + HDR \<mapsto> fld msize ?h a)"
    by (rule live_upd) (use h(5,6) p(8) Dh n(1) in auto)
  ultimately show ?thesis using h(1) by (intro exI[of _ ?st'] exI[of _ fs']) simp
qed

lemma take_split_run:
  \<comment> \<open>the rest of a split block keeps its right neighbour, which is in use\<close>
  assumes ok: "alloc_ok b st (us @ a # vs) fs" and a: "a \<in> set fs" and big: "fld msize (blocks st) a - sz > 64 + HDR"
  defines "new \<equiv> a + HDR + sz"
  shows "\<exists>h fs'. malloc_take st (Some a) sz = Inr (Some (a + HDR),
        st\<lparr>blocks := h, emhead := first fs', atail := final (us @ a # new # vs)\<rparr>)
     \<and> block_list b (brk st) h (us @ a # new # vs) \<and> free_list h fs' \<and> set fs' = set (new # fs) - {a}
     \<and> fld msize h a = sz \<and> (\<forall>x. x \<noteq> a \<longrightarrow> x \<noteq> new \<longrightarrow> fld msize h x = fld msize (blocks st) x)
     \<and> fld mfree h = (fld mfree (blocks st))(new := True, a := False) \<and> new \<notin> set (us @ a # vs)"
proof -
  let ?h = "blocks st"
  note p = alloc_ok_parts[OF ok]
  obtain n where n: "?h a = Some n" and fa: "fld mfree ?h a" by (rule free_block_at[OF ok a])
  have room: "sz + HDR < fld msize ?h a" using big by simp
  have e64: "brk st < 2 ^ 64" using p(7) by simp
  obtain h1 where h1: "block_split st (Some a) sz = Inr (Some new,
           st\<lparr>blocks := h1, emhead := Some new, atail := final (us @ a # new # vs)\<rparr>)"
    "block_list b (brk st) h1 (us @ a # new # vs)" "free_list h1 (new # fs)"
    "fld msize h1 = (fld msize ?h)(a := sz, new := fld msize ?h a - sz - HDR)"
    "fld mfree h1 = (fld mfree ?h)(new := True)" "new \<notin> dom ?h"
    using block_split_ok[OF p(1-4) room e64] unfolding new_def by blast
  define st1 where "st1 = st\<lparr>blocks := h1, emhead := Some new, atail := final (us @ a # new # vs)\<rparr>"
  have nas: "new \<notin> set (us @ a # vs)" using h1(6) p(8) by simp
  obtain m where m: "h1 new = Some m" "mnext m = first vs"
    using block_list_at[of b "brk st" h1 "us @ [a]" new vs] h1(2) by auto
  have nomerge: "\<exists>k. h1 v = Some k \<and> \<not> mfree k" if "vs = v # vs'" for v vs'
  proof -
    have "v \<in> dom h1" using h1(2) that by (auto simp: block_list_def)
    moreover have "\<not> fld mfree h1 v" using p(6) fa that h1(5) nas by (auto simp: apart_mid)
    ultimately show ?thesis by (auto simp: fld_def)
  qed
  have fin: "block_list b (brk st) (blocks st1) (us @ a # new # vs)" "free_list (blocks st1) (new # fs)"
    "emhead st1 = first (new # fs)" "a \<in> set (new # fs)" "a \<in> set (us @ a # new # vs)"
    using h1 a by (simp_all add: st1_def)
  from take_finish[OF fin] obtain h fs' where h:
    "malloc_take st (Some a) sz = Inr (Some (a + HDR), st1\<lparr>blocks := h, emhead := first fs'\<rparr>)"
    "block_list b (brk st) h (us @ a # new # vs)" "free_list h fs'" "set fs' = set (new # fs) - {a}"
    "fld msize h = fld msize h1" "fld mfree h = (fld mfree h1)(a := False)"
    using big n h1(1) m nomerge by (cases vs) (auto simp: malloc_take_def st1_def fld_at)
  have "a \<noteq> new" using nas by auto
  then show ?thesis using h h1(4,5) nas by (intro exI[of _ h] exI[of _ fs']) (simp add: st1_def)
qed

lemma malloc_take_split:
  assumes ok: "alloc_ok b st as fs" and a: "a \<in> set fs" and big: "fld msize (blocks st) a - sz > 64 + HDR"
  shows "\<exists>st' as' fs'. malloc_take st (Some a) sz = Inr (Some (a + HDR), st')
     \<and> alloc_ok b st' as' fs' \<and> live st' = (live st)(a + HDR \<mapsto> sz) \<and> bytes st' = bytes st \<and> brk st' = brk st"
proof -
  let ?h = "blocks st"
  obtain us vs where as: "as = us @ a # vs" and fa: "fld mfree ?h a" by (rule free_block_at[OF ok a])
  note p = alloc_ok_parts[OF ok[unfolded as]]
  define new where "new = a + HDR + sz"
  let ?as = "us @ a # new # vs"
  from take_split_run[OF ok[unfolded as] a big, folded new_def] obtain h fs' where h:
    "malloc_take st (Some a) sz = Inr (Some (a + HDR), st\<lparr>blocks := h, emhead := first fs', atail := final ?as\<rparr>)"
    "block_list b (brk st) h ?as" "free_list h fs'" "set fs' = set (new # fs) - {a}" "fld msize h a = sz"
    "\<And>x. x \<noteq> a \<Longrightarrow> x \<noteq> new \<Longrightarrow> fld msize h x = fld msize ?h x"
    "fld mfree h = (fld mfree ?h)(new := True, a := False)" "new \<notin> set (us @ a # vs)"
    by blast
  let ?st' = "st\<lparr>blocks := h, emhead := first fs', atail := final ?as\<rparr>"
  have Dh: "dom h = set ?as" using h(2) by (simp add: block_list_def)
  have an: "a \<noteq> new" using h(8) by auto
  have fre: "fld mfree h x = (x = new \<or> x \<noteq> a \<and> fld mfree ?h x)" for x using h(7) an by auto
  have "apart (fld mfree h) ?as"
    using p(6) fa h(8) an
    by (auto simp: apart_mid apart_Cons fre simp del: apart.simps(1) elim!: apart_weaken)
  moreover have "first ?as = first (us @ a # vs)" by (cases us) auto
  ultimately have "alloc_ok b ?st' ?as fs'"
    using h(2-4,8) p(5,7,9) fre an by (auto simp: alloc_ok_def alloc_wf_def)
  moreover have "live ?st' = (live st)(a + HDR \<mapsto> sz)"
    by (rule live_upd) (use fre p(8) Dh an h(5,6,8) in auto)
  ultimately show ?thesis using h(1) by (intro exI[of _ ?st'] exI[of _ ?as] exI[of _ fs']) simp
qed

lemma malloc_take_ok:
  assumes ok: "alloc_ok b st as fs" and a: "a \<in> set fs" and sz: "sz \<le> fld msize (blocks st) a"
  shows "\<exists>s st' as' fs'. malloc_take st (Some a) sz = Inr (Some (a + HDR), st')
     \<and> alloc_ok b st' as' fs' \<and> live st (a + HDR) = None \<and> live st' = (live st)(a + HDR \<mapsto> s)
     \<and> sz \<le> s \<and> s \<le> sz + 64 + HDR \<and> bytes st' = bytes st \<and> brk st' = brk st"
proof -
  have dead: "live st (a + HDR) = None" by (rule free_block_at[OF ok a])
  show ?thesis
  proof (cases "fld msize (blocks st) a - sz > 64 + HDR")
    case True
    from malloc_take_split[OF ok a True] dead show ?thesis by (intro exI[of _ sz]) simp
  next
    case False
    then have "fld msize (blocks st) a - sz \<le> 64 + HDR" by simp
    from malloc_take_whole[OF ok a this] obtain st' fs' where "malloc_take st (Some a) sz = Inr (Some (a + HDR), st')"
      "alloc_ok b st' as fs'" "live st' = (live st)(a + HDR \<mapsto> fld msize (blocks st) a)" "bytes st' = bytes st" "brk st' = brk st"
      by blast
    moreover have "fld msize (blocks st) a \<le> sz + 64 + HDR" using False by linarith
    ultimately show ?thesis using dead sz by blast
  qed
qed

subsection \<open>free\<close>

lemma block_list_distinct: "block_list b e h as \<Longrightarrow> distinct as"
  unfolding block_list_def by (blast dest: tiles_distinct)

lemma wf_distinct: "alloc_wf b st as fs \<Longrightarrow> distinct as"
  unfolding alloc_wf_def by (blast dest: block_list_distinct)

lemma merge_wf:
  assumes wf: "alloc_wf b st (us @ a # c # vs) fs" and a: "a \<in> set fs" and c: "c \<in> set fs"
  shows "\<exists>st' fs'. block_merge st (Some a) = Inr st' \<and> alloc_wf b st' (us @ a # vs) fs'
     \<and> set fs' = set fs - {c} \<and> live st' = live st \<and> brk st' = brk st \<and> bytes st' = bytes st"
proof -
  let ?h = "blocks st"
  obtain xs ys where fs: "fs = xs @ c # ys" using c by (meson split_list)
  have w: "block_list b (brk st) ?h (us @ a # c # vs)" "free_list ?h (xs @ c # ys)"
    "emhead st = first (xs @ c # ys)" "atail st = final (us @ a # c # vs)" "brk st < 2 ^ 64"
    using wf fs by (simp_all add: alloc_wf_def)
  have fr: "x \<in> set fs \<longleftrightarrow> fld mfree ?h x" if "x \<in> set (us @ a # c # vs)" for x
    using wf that unfolding alloc_wf_def by blast
  obtain h where h: "block_merge st (Some a) = Inr
             (st\<lparr>blocks := h, emhead := first (xs @ ys), atail := final (us @ a # vs)\<rparr>)"
     "block_list b (brk st) h (us @ a # vs)" "free_list h (xs @ ys)"
     "\<And>x. x \<noteq> a \<Longrightarrow> x \<noteq> c \<Longrightarrow> fld msize h x = fld msize ?h x"
     "\<And>x. x \<noteq> c \<Longrightarrow> fld mfree h x = fld mfree ?h x"
    using block_merge_ok[OF w] by blast
  let ?st' = "st\<lparr>blocks := h, emhead := first (xs @ ys), atail := final (us @ a # vs)\<rparr>"
  have ds: "distinct (us @ a # c # vs)"
    by (rule block_list_distinct[OF w(1)])
  have sf: "set (xs @ ys) = set fs - {c}" using w(2) fs by (auto simp: free_list_def)
  have "\<forall>x \<in> set (us @ a # vs). x \<in> set (xs @ ys) \<longleftrightarrow> fld mfree h x"
  proof
    fix x
    assume x: "x \<in> set (us @ a # vs)"
    then have "x \<noteq> c" using ds by auto
    moreover have "x \<in> set fs \<longleftrightarrow> fld mfree ?h x" by (rule fr) (use x in auto)
    ultimately show "x \<in> set (xs @ ys) \<longleftrightarrow> fld mfree h x" using h(5)[of x] sf by blast
  qed
  moreover have "first (us @ a # vs) = first (us @ a # c # vs)" by (cases us) auto
  ultimately have wf': "alloc_wf b ?st' (us @ a # vs) (xs @ ys)"
    using wf h(2,3) by (simp add: alloc_wf_def)
  have D: "dom ?h = set (us @ a # c # vs)" "dom h = set (us @ a # vs)"
    using w(1) h(2) by (simp_all add: block_list_def)
  have fc: "fld mfree ?h c" "fld mfree ?h a" using fr a c by auto
  have "live ?st' = live st"
  proof
    fix p
    show "live ?st' p = live st p"
      using fc D h(4)[of "p - HDR"] h(5)[of "p - HDR"] ds by (auto simp: live_fld)
  qed
  then show ?thesis using h(1) wf' sf by (intro exI[of _ ?st'] exI[of _ "xs @ ys"]) simp
qed

lemma apart_cong: "(\<And>x. x \<in> set as \<Longrightarrow> fr' x = fr x) \<Longrightarrow> apart fr' as = apart fr as"
  by (induction fr as rule: apart.induct) auto

lemma alloc_ok_iff: "alloc_ok b st as fs \<longleftrightarrow> alloc_wf b st as fs \<and> apart (\<lambda>x. x \<in> set fs) as"
  unfolding alloc_ok_def using apart_cong[of as "fld mfree (blocks st)" "\<lambda>x. x \<in> set fs"]
  by (auto simp: alloc_wf_def)

lemma wf_at:
  assumes "alloc_wf b st (us @ a # vs) fs"
  obtains n where "blocks st a = Some n" and "mnext n = first vs" and "mprev n = final us"
    and "mptr n = Some (a + HDR)" and "mfree n \<longleftrightarrow> a \<in> set fs"
proof -
  have B: "block_list b (brk st) (blocks st) (us @ a # vs)"
    and f: "a \<in> set fs \<longleftrightarrow> fld mfree (blocks st) a" using assms by (simp_all add: alloc_wf_def)
  obtain n where n: "blocks st a = Some n" "mnext n = first vs" "mprev n = final us"
    "mptr n = Some (a + HDR)" by (rule block_list_at[OF B])
  show ?thesis by (rule that[OF n]) (use f n(1) in \<open>simp add: fld_at\<close>)
qed

text \<open>The three parts of \<open>free\<close>: the block joins the free list, it is merged into a free block on its left, and with one on its right.\<close>

lemma free_marks:
  assumes ok: "alloc_ok b st as fs" and a: "a \<in> set as" "a \<notin> set fs" and n: "blocks st a = Some n"
  obtains h where "push_free (st\<lparr>blocks := (blocks st)(a \<mapsto> n\<lparr>mfree := True\<rparr>)\<rparr>) (Some a)
      = Inr (st\<lparr>blocks := h, emhead := Some a\<rparr>)"
    and "alloc_wf b (st\<lparr>blocks := h, emhead := Some a\<rparr>) as (a # fs)"
    and "live (st\<lparr>blocks := h, emhead := Some a\<rparr>) = (live st)(a + HDR := None)"
proof -
  have wf: "alloc_wf b st as fs" using ok by (auto simp: alloc_ok_iff)
  define h1 where "h1 = (blocks st)(a \<mapsto> n\<lparr>mfree := True\<rparr>)"
  have D: "dom (blocks st) = set as" using wf by (simp add: alloc_wf_def block_list_def)
  have D1: "dom h1 = dom (blocks st)" using n by (auto simp: h1_def)
  have f1: "fld msize h1 = fld msize (blocks st)" "fld mnext h1 = fld mnext (blocks st)"
    "fld mprev h1 = fld mprev (blocks st)" "fld mptr h1 = fld mptr (blocks st)"
    "fld mnextfree h1 = fld mnextfree (blocks st)" "fld mprevfree h1 = fld mprevfree (blocks st)"
    "fld mfree h1 = (fld mfree (blocks st))(a := True)" using n by (simp_all add: h1_def)
  have B1: "block_list b (brk st) h1 as" "free_list h1 fs"
    using wf D1 f1 unfolding alloc_wf_def block_list_def free_list_def by metis+
  obtain h2 where h2: "push_free (st\<lparr>blocks := h1\<rparr>) (Some a) = Inr (st\<lparr>blocks := h2, emhead := Some a\<rparr>)"
    "same_core h1 h2" "free_list h2 (a # fs)"
    using push_free_ok[of "st\<lparr>blocks := h1\<rparr>" fs a] B1 wf a D D1 by (auto simp: alloc_wf_def)
  let ?st2 = "st\<lparr>blocks := h2, emhead := Some a\<rparr>"
  have c2: "fld mfree h2 = (fld mfree (blocks st))(a := True)" "dom h2 = dom (blocks st)"
    "fld msize h2 = fld msize (blocks st)" using h2(2) f1 D1 by (simp_all add: same_core_def)
  have "alloc_wf b ?st2 as (a # fs)"
    using wf block_list_core[OF B1(1) h2(2)] h2(3) c2(1) a unfolding alloc_wf_def by auto
  moreover have "live ?st2 = (live st)(a + HDR := None)"
  proof
    show "live ?st2 q = ((live st)(a + HDR := None)) q" for q using c2 by (auto simp: live_fld)
  qed
  ultimately show ?thesis using that h2(1) unfolding h1_def by blast
qed

lemma free_merges_left:
  assumes wf: "alloc_wf b st (us @ a # vs) (a # fs)" and a: "a \<notin> set fs" and ap: "apart (\<lambda>x. x \<in> set fs) us"
    and n: "mprev n = final us"
  shows "\<exists>ws x st' fs'. (if mprev n = None then Inr (Some a, st)
         else rbind (ld (blocks st) (mprev n)) (\<lambda>pn.
              if mfree pn then rbind (block_merge st (mprev n)) (\<lambda>st3. Inr (mprev n, st3))
              else Inr (Some a, st))) = Inr (Some x, st')
     \<and> alloc_wf b st' (ws @ x # vs) fs' \<and> x \<in> set fs'
     \<and> apart (\<lambda>y. y \<in> set fs') (ws @ [x]) \<and> (\<forall>y \<in> set vs. y \<in> set fs' \<longleftrightarrow> y \<in> set fs)
     \<and> live st' = live st \<and> brk st' = brk st \<and> bytes st' = bytes st"
proof (cases us rule: rev_cases)
  case Nil
  then show ?thesis using n wf wf_distinct[OF wf]
    by (intro exI[of _ "[]"] exI[of _ a] exI[of _ st] exI[of _ "a # fs"]) auto
next
  case (snoc us' u)
  have ds: "distinct (us @ a # vs)" by (rule wf_distinct[OF wf])
  have wfu: "alloc_wf b st (us' @ u # a # vs) (a # fs)" using wf snoc by simp
  obtain k where k: "blocks st u = Some k" "mfree k \<longleftrightarrow> u \<in> set (a # fs)"
    by (rule wf_at[OF wfu])
  have ua: "u \<noteq> a" using ds snoc by auto
  show ?thesis
  proof (cases "u \<in> set fs")
    case True
    from merge_wf[OF wfu] True obtain st3 fs3 where m: "block_merge st (Some u) = Inr st3"
      "alloc_wf b st3 (us' @ u # vs) fs3" "set fs3 = set (a # fs) - {a}"
      "live st3 = live st" "brk st3 = brk st" "bytes st3 = bytes st" by auto
    have "set fs3 = set fs" using m(3) a by auto
    then show ?thesis using n k True m snoc ap
      by (intro exI[of _ us'] exI[of _ u] exI[of _ st3] exI[of _ fs3]) simp
  next
    case False
    have "apart (\<lambda>x. x \<in> set (a # fs)) us" using ap ds by (auto elim!: apart_weaken)
    then have "apart (\<lambda>x. x \<in> set (a # fs)) (us @ [a])"
      using False ua snoc by (auto simp: apart_mid)
    then show ?thesis using n k False ua wf snoc ds
      by (intro exI[of _ us] exI[of _ a] exI[of _ st] exI[of _ "a # fs"]) auto
  qed
qed

lemma free_merges_right:
  assumes wf: "alloc_wf b st (ws @ x # vs) fs" and x: "x \<in> set fs"
    and ap: "apart (\<lambda>y. y \<in> set fs) (ws @ [x])" "apart (\<lambda>y. y \<in> set fs) vs" and n: "mnext n = first vs"
  shows "\<exists>st' as' fs'. (if mnext n = None then Inr st
      else rbind (ld (blocks st) (mnext n)) (\<lambda>nn. if mfree nn then block_merge st (Some x) else Inr st)) = Inr st'
     \<and> alloc_ok b st' as' fs' \<and> live st' = live st \<and> brk st' = brk st \<and> bytes st' = bytes st"
proof (cases "vs = [] \<or> hd vs \<notin> set fs")
  case True
  have "alloc_ok b st (ws @ x # vs) fs" using wf ap True by (auto simp: alloc_ok_iff apart_mid)
  moreover have "(if mnext n = None then Inr st
      else rbind (ld (blocks st) (mnext n)) (\<lambda>nn. if mfree nn then block_merge st (Some x) else Inr st)) = Inr st"
  proof (cases vs)
    case Nil
    then show ?thesis using n by simp
  next
    case (Cons v vs')
    obtain k where "blocks st v = Some k" "mfree k \<longleftrightarrow> v \<in> set fs"
      using wf_at[of b st "ws @ [x]" v vs' fs] wf Cons by auto
    then show ?thesis using n Cons True by simp
  qed
  ultimately show ?thesis by blast
next
  case False
  then obtain v vs' where vs: "vs = v # vs'" "v \<in> set fs" by (cases vs) auto
  obtain k where k: "blocks st v = Some k" "mfree k \<longleftrightarrow> v \<in> set fs"
    using wf_at[of b st "ws @ [x]" v vs' fs] wf vs by auto
  from merge_wf[of b st ws x v vs' fs] wf x vs obtain st4 fs4 where
    m: "block_merge st (Some x) = Inr st4" "alloc_wf b st4 (ws @ x # vs') fs4"
    "set fs4 = set fs - {v}" "live st4 = live st" "brk st4 = brk st" "bytes st4 = bytes st"
    by auto
  have "apart (\<lambda>y. y \<in> set fs4) (ws @ [x])" by (rule apart_weaken[OF ap(1)]) (use m(3) in auto)
  moreover have "apart (\<lambda>y. y \<in> set fs4) vs'"
    by (rule apart_weaken[of "\<lambda>y. y \<in> set fs"]) (use ap(2) vs m(3) in \<open>auto simp: apart_Cons\<close>)
  moreover have "vs' \<noteq> [] \<Longrightarrow> hd vs' \<notin> set fs4"
    using ap(2) vs m(3) by (auto simp: apart_Cons)
  ultimately have "alloc_ok b st4 (ws @ x # vs') fs4"
    using m(2) by (auto simp: alloc_ok_iff apart_mid)
  then show ?thesis using n k vs m
    by (intro exI[of _ st4] exI[of _ "ws @ x # vs'"] exI[of _ fs4]) simp
qed

lemma free_ok:
  assumes ok: "alloc_ok b st as fs" and p: "live st p = Some s"
  shows "\<exists>st' as' fs'. free junk st (Some p) = Inr st' \<and> alloc_ok b st' as' fs'
     \<and> live st' = (live st)(p := None) \<and> bytes st' = bytes st \<and> brk st' = brk st"
proof -
  have ap: "apart (\<lambda>x. x \<in> set fs) as" using ok by (simp add: alloc_ok_iff)
  obtain a where a: "a \<in> set as" "a \<notin> set fs" "p = a + HDR" using p alloc_live[OF ok] by auto
  then obtain us vs where as: "as = us @ a # vs" by (meson split_list)
  obtain n where n: "blocks st a = Some n" "mptr n = Some (a + HDR)"
    using wf_at[of b st us a vs fs] ok as by (auto simp: alloc_ok_iff)
  obtain h where h: "push_free (st\<lparr>blocks := (blocks st)(a \<mapsto> n\<lparr>mfree := True\<rparr>)\<rparr>) (Some a)
      = Inr (st\<lparr>blocks := h, emhead := Some a\<rparr>)"
    "alloc_wf b (st\<lparr>blocks := h, emhead := Some a\<rparr>) as (a # fs)"
    "live (st\<lparr>blocks := h, emhead := Some a\<rparr>) = (live st)(a + HDR := None)"
    by (rule free_marks[OF ok a(1,2) n(1)])
  let ?st2 = "st\<lparr>blocks := h, emhead := Some a\<rparr>"
  obtain n2 where n2: "blocks ?st2 a = Some n2" "mnext n2 = first vs" "mprev n2 = final us"
    by (rule wf_at[OF h(2)[unfolded as]])
  have apart: "apart (\<lambda>x. x \<in> set fs) us" "apart (\<lambda>x. x \<in> set fs) vs" using ap unfolding as by (simp_all add: apart_mid)
  obtain ws x st3 fs3 where s3: "(if mprev n2 = None then Inr (Some a, ?st2)
         else rbind (ld (blocks ?st2) (mprev n2)) (\<lambda>pn.
              if mfree pn then rbind (block_merge ?st2 (mprev n2)) (\<lambda>st3. Inr (mprev n2, st3))
              else Inr (Some a, ?st2))) = Inr (Some x, st3)"
    "alloc_wf b st3 (ws @ x # vs) fs3" "x \<in> set fs3" "apart (\<lambda>y. y \<in> set fs3) (ws @ [x])"
    "\<forall>y \<in> set vs. y \<in> set fs3 \<longleftrightarrow> y \<in> set fs"
    "live st3 = live ?st2" "brk st3 = brk ?st2" "bytes st3 = bytes ?st2"
    using free_merges_left[OF h(2)[unfolded as] a(2) apart(1) n2(3)] by blast
  have "apart (\<lambda>y. y \<in> set fs3) vs"
    using apart_cong[of vs "\<lambda>y. y \<in> set fs3" "\<lambda>y. y \<in> set fs"] s3(5) apart(2) by simp
  from free_merges_right[OF s3(2-4) this n2(2)] obtain st' as' fs' where
    m: "(if mnext n2 = None then Inr st3
      else rbind (ld (blocks st3) (mnext n2)) (\<lambda>nn. if mfree nn then block_merge st3 (Some x) else Inr st3)) = Inr st'"
    "alloc_ok b st' as' fs'" "live st' = live st3" "brk st' = brk st3" "bytes st' = bytes st3" by blast
  have "free junk st (Some p) = Inr st'"
    using n a(3) n2(1) s3(1) h(1) m(1) by (simp add: free_def header_of_def Let_def)
  then show ?thesis using m s3(6-8) h(3) a(3) by (intro exI[of _ st'] exI[of _ as'] exI[of _ fs']) simp
qed

subsection \<open>malloc and programs\<close>

definition kernel_ok :: "(nat \<Rightarrow> int \<Rightarrow> bool) \<Rightarrow> bool" where
  \<comment> \<open>the break stays inside the user half of the address space\<close>
  "kernel_ok grants \<longleftrightarrow> (\<forall>b d. grants b d \<longrightarrow> 0 \<le> int b + d \<and> int b + d < 2 ^ 63)"

definition room_for :: "(nat \<Rightarrow> int \<Rightarrow> bool) \<Rightarrow> alloc \<Rightarrow> nat \<Rightarrow> bool" where
  \<comment> \<open>the kernel grants both \<open>sbrk\<close> calls of \<open>add_node_to_tail\<close>\<close>
  "room_for grants st sz \<longleftrightarrow> grants (brk st) (int HDR) \<and> grants (brk st + HDR) (int sz)"

definition appended :: "alloc \<Rightarrow> nat \<Rightarrow> memory_list heap" where
  \<comment> \<open>the headers with a new last block at the break\<close>
  "appended st sz =
     (let a = brk st;
          h = (blocks st)(a \<mapsto> \<lparr>mptr = Some (a + HDR), msize = sz, mfree = False, mnext = None,
                            mprev = atail st, mnextfree = None, mprevfree = None\<rparr>)
      in case atail st of None \<Rightarrow> h | Some t \<Rightarrow> h(t \<mapsto> (the (blocks st t))\<lparr>mnext := Some a\<rparr>))"

lemma break_not_block: "alloc_ok b st as fs \<Longrightarrow> brk st \<notin> set as"
  using tiles_bounds[of "fld msize (blocks st)" b as "brk st" "brk st"] alloc_ok_parts(1)
  by (fastforce simp: block_list_def HDR_def)

lemma last_block:
  assumes ok: "alloc_ok b st as fs" and t: "atail st = Some t"
  shows "brk st \<noteq> t" and "\<exists>m. blocks st t = Some m" and "t \<in> set as"
proof -
  show t: "t \<in> set as" using t alloc_ok_parts(4)[OF ok] by (auto simp: final_def split: if_splits)
  then show "brk st \<noteq> t" using break_not_block[OF ok] by auto
  show "\<exists>m. blocks st t = Some m" using t alloc_ok_parts(8)[OF ok] by auto
qed

lemma appended_fields:
  fixes sz :: nat
  assumes ok: "alloc_ok b st as fs"
  defines "h \<equiv> appended st sz"
  shows "fld msize h = (fld msize (blocks st))(brk st := sz)" and "fld mfree h = (fld mfree (blocks st))(brk st := False)"
    and "fld mptr h = (fld mptr (blocks st))(brk st := Some (brk st + HDR))" and "dom h = insert (brk st) (set as)"
    and "x \<noteq> brk st \<Longrightarrow> fld mnextfree h x = fld mnextfree (blocks st) x"
    and "x \<noteq> brk st \<Longrightarrow> fld mprevfree h x = fld mprevfree (blocks st) x"
    and "\<exists>n. h (brk st) = Some n \<and> mptr n = Some (brk st + HDR)"
  using last_block[OF ok] alloc_ok_parts(8)[OF ok]
  by (auto simp: h_def appended_def Let_def fld_def fun_eq_iff split: option.splits)

lemma appended_block_list:
  assumes ok: "alloc_ok b st as fs"
  shows "block_list b (brk st + HDR + sz) (appended st sz) (as @ [brk st])"
proof -
  note p = alloc_ok_parts[OF ok] and f = appended_fields[OF ok, where sz = sz] and na = break_not_block[OF ok]
  have "links (fld mnext (appended st sz)) (fld mprev (appended st sz)) None (as @ [brk st]) None"
  proof (cases as rule: rev_cases)
    case Nil
    then show ?thesis using p(4) by (simp add: appended_def Let_def fld_def)
  next
    case (snoc as' t)
    then have t: "atail st = Some t" using p(4) by simp
    moreover obtain m where "blocks st t = Some m" using last_block(2)[OF ok t] by auto
    moreover have "distinct as" by (rule block_list_live(1)[OF p(1)])
    ultimately show ?thesis using p(1) na last_block(1)[OF ok t] snoc
      by (auto simp: appended_def Let_def block_list_def fld_at)
  qed
  moreover have "tiles (fld msize (appended st sz)) b (as @ [brk st]) (brk st + HDR + sz)"
    using p(1) na f(1) by (auto simp: tiles_append block_list_def)
  ultimately show ?thesis using f(3,4) p(1) by (auto simp: block_list_def)
qed

lemma add_node_run:
  assumes ok: "alloc_ok b st as fs" and r: "room_for grants st sz" and sz: "sz < 2 ^ 63"
  shows "add_node_to_tail grants st sz = Inr (Some (brk st),
    st\<lparr>blocks := appended st sz, ahead := first (as @ [brk st]), atail := Some (brk st), brk := brk st + HDR + sz\<rparr>)"
proof -
  note p = alloc_ok_parts[OF ok]
  have s: "sbrk grants st HDR = Some (st\<lparr>brk := brk st + HDR\<rparr>)"
    "sbrk grants (st\<lparr>brk := brk st + HDR\<rparr>) sz = Some (st\<lparr>brk := brk st + HDR + sz\<rparr>)"
    using r sz by (simp_all add: sbrk_def room_for_def HDR_def Let_def flip: of_nat_add)
  show ?thesis
  proof (cases as rule: rev_cases)
    case Nil
    then show ?thesis using s p(4,5) by (simp add: add_node_to_tail_def appended_def Let_def)
  next
    case (snoc as' t)
    then have t: "atail st = Some t" using p(4) by simp
    moreover obtain m where "blocks st t = Some m" using last_block(2)[OF ok t] by auto
    moreover have "first (as @ [brk st]) = ahead st" using snoc p(5) by (cases as') auto
    ultimately show ?thesis using s last_block(1)[OF ok t]
      by (auto simp: add_node_to_tail_def appended_def Let_def)
  qed
qed

lemma add_node_ok:
  assumes ok: "alloc_ok b st as fs" and k: "kernel_ok grants" and r: "room_for grants st sz"
    and sz: "sz < 2 ^ 63"
  shows "\<exists>st'. rbind (add_node_to_tail grants st sz) (\<lambda>(newnode, st1).
           rbind (ld (blocks st1) newnode) (\<lambda>n. Inr (mptr n, st1))) = Inr (Some (brk st + HDR), st')
     \<and> alloc_ok b st' (as @ [brk st]) fs \<and> live st (brk st + HDR) = None
     \<and> live st' = (live st)(brk st + HDR \<mapsto> sz) \<and> bytes st' = bytes st"
proof -
  let ?a = "brk st" and ?h = "appended st sz"
  let ?st' = "st\<lparr>blocks := ?h, ahead := first (as @ [?a]), atail := Some ?a, brk := ?a + HDR + sz\<rparr>"
  note p = alloc_ok_parts[OF ok] and f = appended_fields[OF ok, where sz = sz] and na = break_not_block[OF ok]
  have sub: "set fs \<subseteq> set as" using p(2,8) by (simp add: free_list_def)
  then have nf: "?a \<notin> set fs" using na by blast
  have lim: "?a + HDR + sz < 2 ^ 63"
    using k r unfolding kernel_ok_def room_for_def by (metis of_nat_add of_nat_less_iff of_nat_numeral of_nat_power)
  have F: "free_list ?h fs"
  proof (rule free_list_core[OF p(2)])
    show "set fs \<subseteq> dom ?h" using sub f(4) by blast
    show "fld mnextfree ?h x = fld mnextfree (blocks st) x" if "x \<in> set fs" for x by (rule f(5)) (use that nf in blast)
    show "fld mprevfree ?h x = fld mprevfree (blocks st) x" if "x \<in> set fs" for x by (rule f(6)) (use that nf in blast)
  qed
  have "apart (fld mfree ?h) as" by (rule apart_weaken[OF p(6)]) (simp add: f(2) split: if_splits)
  then have "apart (fld mfree ?h) (as @ [?a])" by (auto simp: apart_mid f(2))
  then have ok': "alloc_ok b ?st' (as @ [?a]) fs"
    using appended_block_list[OF ok] F p(3,9) f(2) na nf lim by (auto simp: alloc_ok_def alloc_wf_def)
  have lv: "live ?st' = (live st)(?a + HDR \<mapsto> sz)"
    by (rule live_upd) (use f(1,2,4) p(8) na in auto)
  have "live st (?a + HDR) = None" using na p(8) by (auto simp: live_fld)
  then show ?thesis using add_node_run[OF ok r sz] f(7) ok' lv by auto
qed

lemma free_list_length:
  assumes "alloc_ok b st as fs"
  shows "length fs \<le> card (dom (blocks st))"
proof -
  have "distinct fs" "set fs \<subseteq> dom (blocks st)" "dom (blocks st) = set as"
    using assms unfolding alloc_ok_def alloc_wf_def free_list_def block_list_def by blast+
  then show ?thesis by (metis List.finite_set card_mono distinct_card)
qed

lemma malloc_ok:
  assumes ok: "alloc_ok b st as fs" and k: "kernel_ok grants" and r: "room_for grants st sz"
    and sz: "sz < 2 ^ 63" and fuel: "card (dom (blocks st)) < fuel"
  shows "\<exists>p s st' as' fs'. malloc grants fuel st sz = Inr (Some p, st') \<and> alloc_ok b st' as' fs'
     \<and> live st p = None \<and> live st' = (live st)(p \<mapsto> s) \<and> sz \<le> s \<and> s \<le> sz + 64 + HDR
     \<and> bytes st' = bytes st"
proof -
  have fs: "emhead st = first fs" "links (fld mnextfree (blocks st)) (fld mprevfree (blocks st)) None fs None"
    "set fs \<subseteq> dom (blocks st)" using ok by (simp_all add: alloc_ok_def alloc_wf_def free_list_def)
  have fd: "malloc_find fuel st (emhead st) sz = Inr (find (\<lambda>a. sz \<le> fld msize (blocks st) a) fs)"
    unfolding fs(1) by (rule malloc_find_ok[OF fs(2,3)]) (use free_list_length[OF ok] fuel in simp)
  show ?thesis
  proof (cases "find (\<lambda>a. sz \<le> fld msize (blocks st) a) fs")
    case None
    have "malloc grants fuel st sz = rbind (add_node_to_tail grants st sz) (\<lambda>(newnode, st1).
           rbind (ld (blocks st1) newnode) (\<lambda>n. Inr (mptr n, st1)))"
      using fd None by (simp add: malloc_def)
    then show ?thesis using add_node_ok[OF ok k r sz] by fastforce
  next
    case (Some a)
    then have "a \<in> set fs" "sz \<le> fld msize (blocks st) a"
      by (auto simp: find_Some_iff)
    from malloc_take_ok[OF ok this] show ?thesis using fd Some by (fastforce simp: malloc_def)
  qed
qed

inductive alloc_reach :: "(nat \<Rightarrow> int \<Rightarrow> bool) \<Rightarrow> (addr \<Rightarrow> addr option) \<Rightarrow> nat \<Rightarrow> (addr \<Rightarrow> 8 word) \<Rightarrow> alloc \<Rightarrow> bool"
  for grants junk b m where
  \<comment> \<open>the states a program reaches that calls \<open>malloc\<close>, \<open>calloc\<close> and \<open>free\<close> (with \<open>NULL\<close> or a
     pointer it holds) and writes to its memory\<close>
  start: "b < 2 ^ 63 \<Longrightarrow> alloc_reach grants junk b m (alloc_start b m)"
| malloc: "alloc_reach grants junk b m st \<Longrightarrow> sz < 2 ^ 63 \<Longrightarrow> room_for grants st sz
    \<Longrightarrow> card (dom (blocks st)) < fuel \<Longrightarrow> malloc grants fuel st sz = Inr (p, st')
    \<Longrightarrow> alloc_reach grants junk b m st'"
| calloc: "alloc_reach grants junk b m st \<Longrightarrow> wrap64 (n * sz) < 2 ^ 63 \<Longrightarrow> room_for grants st (wrap64 (n * sz))
    \<Longrightarrow> card (dom (blocks st)) < fuel \<Longrightarrow> calloc grants fuel st n sz = Inr (p, st')
    \<Longrightarrow> alloc_reach grants junk b m st'"
| free: "alloc_reach grants junk b m st \<Longrightarrow> p = None \<or> live st (the p) \<noteq> None
    \<Longrightarrow> free junk st p = Inr st' \<Longrightarrow> alloc_reach grants junk b m st'"
| store: "alloc_reach grants junk b m st \<Longrightarrow> alloc_reach grants junk b m (st\<lparr>bytes := m'\<rparr>)"

lemma alloc_ok_bytes [simp]: "alloc_ok b (st\<lparr>bytes := m\<rparr>) as fs = alloc_ok b st as fs"
  by (simp add: alloc_ok_def alloc_wf_def)

lemma live_bytes [simp]: "live (st\<lparr>bytes := m\<rparr>) = live st"
  by (simp add: live_def fun_eq_iff)

lemma alloc_reach_ok:
  assumes "alloc_reach grants junk b m st" and "kernel_ok grants"
  shows "\<exists>as fs. alloc_ok b st as fs"
  using assms(1)
proof (induction rule: alloc_reach.induct)
  case start
  then show ?case
    by (intro exI[of _ "[]"]) (simp add: alloc_ok_def alloc_wf_def alloc_start_def block_list_def free_list_def)
next
  case (malloc st sz fuel p st')
  from malloc.IH obtain as fs where "alloc_ok b st as fs" by blast
  from malloc_ok[OF this assms(2) malloc.hyps(3,2,4)] malloc.hyps(5) show ?case by auto
next
  case (calloc st n sz fuel p st')
  from calloc.IH obtain as fs where "alloc_ok b st as fs" by blast
  from malloc_ok[OF this assms(2) calloc.hyps(3,2,4)] calloc.hyps(5) show ?case
    by (fastforce simp: calloc_def)
next
  case (free st p st')
  from free.IH obtain as fs where ok: "alloc_ok b st as fs" by blast
  show ?case
  proof (cases p)
    case None
    then show ?thesis using free.hyps(3) ok by (auto simp: free_def)
  next
    case (Some a)
    then obtain s where "live st a = Some s" using free.hyps(2) by auto
    from free_ok[OF ok this, of junk] show ?thesis using free.hyps(3) Some by auto
  qed
qed auto

section \<open>Properties\<close>


definition demo_kernel :: "nat \<Rightarrow> int \<Rightarrow> bool" where
  \<comment> \<open>a kernel that moves the break anywhere below \<open>2 ^ 40\<close>\<close>
  "demo_kernel b d \<longleftrightarrow> 0 \<le> int b + d \<and> int b + d < 2 ^ 40"

lemma demo_kernel_ok: "kernel_ok demo_kernel"
  by (auto simp: kernel_ok_def demo_kernel_def)


text \<open>
  C5: \<open>malloc\<close> of a reachable state, when the kernel grants the memory, ends and returns a
  pointer to a new payload of at least the requested size and at most \<open>120\<close> bytes more, that
  lies between the base and the break and overlaps no allocated payload; all other
  allocations are untouched. The search loop takes at most one test per block and one more.
\<close>

theorem malloc_correct:
  assumes "alloc_reach grants junk b m st" and "kernel_ok grants" and "room_for grants st sz"
    and "sz < 2 ^ 63" and "card (dom (blocks st)) < fuel"
  shows "\<exists>p s st'. malloc grants fuel st sz = Inr (Some p, st')
     \<and> live st p = None \<and> live st' = (live st)(p \<mapsto> s) \<and> sz \<le> s \<and> s \<le> sz + 120
     \<and> b + HDR \<le> p \<and> p + s \<le> brk st'
     \<and> (\<forall>q r. live st q = Some r \<longrightarrow> p + s \<le> q \<or> q + r \<le> p) \<and> bytes st' = bytes st"
proof -
  obtain as fs where ok: "alloc_ok b st as fs" using alloc_reach_ok[OF assms(1,2)] by blast
  from malloc_ok[OF ok assms(2-5)] obtain p s st' as' fs' where
    m: "malloc grants fuel st sz = Inr (Some p, st')" "alloc_ok b st' as' fs'" "live st p = None"
    "live st' = (live st)(p \<mapsto> s)" "sz \<le> s" "s \<le> sz + 64 + HDR" "bytes st' = bytes st" by blast
  have p: "live st' p = Some s" using m(4) by simp
  have "p + s \<le> q \<or> q + r \<le> p" if "live st q = Some r" for q r
  proof -
    have "p \<noteq> q" and "live st' q = Some r" using that m(3,4) by auto
    then show ?thesis using alloc_ok_disjoint(2)[OF m(2) p] by blast
  qed
  then show ?thesis using m alloc_ok_disjoint(1)[OF m(2) p p]
    by (intro exI[of _ p] exI[of _ s] exI[of _ st']) (simp add: HDR_def)
qed

theorem malloc_correct_witness:
  "\<exists>p s st'. malloc demo_kernel 1 (alloc_start 4096 (\<lambda>_. 0)) 100 = Inr (Some p, st')
     \<and> live st' p = Some s \<and> 100 \<le> s \<and> p + s \<le> brk st'"
  using malloc_correct[OF alloc_reach.start demo_kernel_ok, of 4096 "\<lambda>_. 0" 100 1]
  by (fastforce simp: alloc_start_def room_for_def demo_kernel_def HDR_def)

text \<open>
  C6: \<open>free\<close> of a pointer a program holds, in a reachable state, succeeds and removes exactly
  this allocation: no other payload moves, changes its size or its contents.
\<close>

theorem free_correct:
  assumes "alloc_reach grants junk b m st" and "kernel_ok grants" and "live st p = Some s"
  shows "\<exists>st'. free junk st (Some p) = Inr st' \<and> live st' = (live st)(p := None)
     \<and> bytes st' = bytes st \<and> brk st' = brk st"
proof -
  obtain as fs where ok: "alloc_ok b st as fs" using alloc_reach_ok[OF assms(1,2)] by blast
  from free_ok[OF ok assms(3), of junk] show ?thesis by blast
qed

definition demo_alloc :: alloc where
  \<comment> \<open>after two calls of \<open>malloc\<close>, for 8 and 16 bytes\<close>
  "demo_alloc = (alloc_start 4096 (\<lambda>_. 0))\<lparr>
     blocks := [4160 \<mapsto> \<lparr>mptr = Some 4216, msize = 16, mfree = False, mnext = None, mprev = Some 4096,
                        mnextfree = None, mprevfree = None\<rparr>,
                4096 \<mapsto> \<lparr>mptr = Some 4152, msize = 8, mfree = False, mnext = Some 4160, mprev = None,
                        mnextfree = None, mprevfree = None\<rparr>],
     ahead := Some 4096, atail := Some 4160, brk := 4232\<rparr>"

lemma demo_alloc_reach: "alloc_reach demo_kernel (\<lambda>_. None) 4096 (\<lambda>_. 0) demo_alloc"
proof -
  let ?s0 = "alloc_start 4096 (\<lambda>_. 0)"
  let ?s1 = "?s0\<lparr>blocks := [4096 \<mapsto> \<lparr>mptr = Some 4152, msize = 8, mfree = False, mnext = None, mprev = None,
                        mnextfree = None, mprevfree = None\<rparr>], ahead := Some 4096, atail := Some 4096, brk := 4160\<rparr>"
  note eval = malloc_def add_node_to_tail_def sbrk_def demo_kernel_def alloc_start_def HDR_def
    put_def Let_def room_for_def
  have m: "malloc demo_kernel (Suc (Suc 0)) ?s0 8 = Inr (Some 4152, ?s1)"
    "malloc demo_kernel (Suc (Suc 0)) ?s1 16 = Inr (Some 4216, demo_alloc)"
    by (simp_all add: eval demo_alloc_def)
  have 1: "alloc_reach demo_kernel (\<lambda>_. None) 4096 (\<lambda>_. 0) ?s1"
    by (rule alloc_reach.malloc[OF alloc_reach.start _ _ _ m(1)]) (simp_all add: eval)
  show ?thesis
    by (rule alloc_reach.malloc[OF 1 _ _ _ m(2)]) (simp_all add: eval)
qed

lemma demo_live: "live demo_alloc 4152 = Some 8" "live demo_alloc 4216 = Some 16"
  by (simp_all add: live_def demo_alloc_def HDR_def)

theorem free_correct_witness:
  "\<exists>st'. free (\<lambda>_. None) demo_alloc (Some 4152) = Inr st' \<and> live st' 4152 = None \<and> live st' 4216 = Some 16"
  using free_correct[OF demo_alloc_reach demo_kernel_ok demo_live(1)] demo_live(2)
  by auto

text \<open>
  \<open>realloc\<close> that has to move a block never frees the old one: it passes the header, not
  the payload, to \<open>free\<close>, which reads a bogus header in front of it and returns. The contents
  are copied and the caller gets a large enough payload, but the old payload stays allocated
  although no pointer to it is left: a leak on every moving \<open>realloc\<close> (unless the memory
  \<open>112\<close> bytes before the old payload happens to hold the address of its header).
\<close>

theorem realloc_leaks_moved_block:
  assumes "alloc_reach grants junk b m st" and "kernel_ok grants" and "room_for grants st sz"
    and "sz < 2 ^ 63" and "card (dom (blocks st)) < fuel"
    and "live st p = Some s" and "s < sz" and "atail st \<noteq> Some (p - HDR)"
    and "malloc grants fuel st sz = Inr (q, st1)" and "header_of junk st1 (p - HDR) \<noteq> Some (p - HDR)"
  shows "\<exists>a s' st'. realloc grants junk fuel st (Some p) sz = Inr (Some a, st') \<and> sz \<le> s' \<and> a \<noteq> p
     \<and> live st' = (live st)(a \<mapsto> s') \<and> live st' p = Some s
     \<and> (\<forall>i < s. bytes st' (a + i) = bytes st (p + i))"
proof -
  obtain as fs where ok: "alloc_ok b st as fs" using alloc_reach_ok[OF assms(1,2)] by blast
  from malloc_ok[OF ok assms(2-5)] assms(9) obtain a s' as' fs' where
    m: "q = Some a" "alloc_ok b st1 as' fs'" "live st a = None"
    "live st1 = (live st)(a \<mapsto> s')" "sz \<le> s'" "bytes st1 = bytes st" by auto
  have hdr: "\<exists>n. blocks t (p - HDR) = Some n \<and> msize n = s \<and> mptr n = Some p" "HDR \<le> p"
    if t: "alloc_ok b t xs ys" "live t p = Some s" for t xs ys
  proof -
    show "HDR \<le> p" using t(2) by (simp add: live_def split: if_splits)
    moreover obtain n where "blocks t (p - HDR) = Some n" "msize n = s"
      using t(2) by (auto simp: live_def split: if_splits option.splits)
    moreover from this have "p - HDR \<in> set xs" "\<forall>a \<in> set xs. fld mptr (blocks t) a = Some (a + HDR)"
      using t(1) unfolding alloc_ok_def alloc_wf_def block_list_def by blast+
    ultimately show "\<exists>n. blocks t (p - HDR) = Some n \<and> msize n = s \<and> mptr n = Some p"
      by (fastforce simp: fld_at)
  qed
  have ne: "a \<noteq> p" using m(3) assms(6) by auto
  have l1: "live st1 p = Some s" using m(4) ne assms(6) by simp
  obtain n where n: "blocks st (p - HDR) = Some n" "msize n = s" "mptr n = Some p"
    using hdr(1)[OF ok assms(6)] by blast
  obtain n1 where n1: "blocks st1 (p - HDR) = Some n1" "msize n1 = s" "mptr n1 = Some p"
    using hdr(1)[OF m(2) l1] by blast
  let ?st2 = "st1\<lparr>bytes := (\<lambda>b. if a \<le> b \<and> b < a + s then bytes st1 (p + (b - a)) else bytes st1 b)\<rparr>"
  have "header_of junk ?st2 (p - HDR) = header_of junk st1 (p - HDR)" by (simp add: header_of_def)
  then have f: "free junk ?st2 (Some (p - HDR)) = Inr ?st2" using assms(10) by (simp add: free_def)
  have "header_of junk st p = Some p" using n hdr(2)[OF ok assms(6)] by (simp add: header_of_def)
  moreover have "Some (p - HDR) \<noteq> atail st" using assms(8) by metis
  ultimately have "realloc grants junk fuel st (Some p) sz = Inr (Some a, ?st2)"
    using assms(7,9) n n1 f m(1) by (simp add: realloc_def Let_def)
  then show ?thesis using m ne l1
    by (intro exI[of _ a] exI[of _ s'] exI[of _ ?st2]) simp
qed

theorem realloc_leaks_moved_block_witness:
  "\<exists>a st'. realloc demo_kernel (\<lambda>_. None) (Suc (Suc (Suc 0))) demo_alloc (Some 4152) 64 = Inr (Some a, st')
     \<and> a \<noteq> 4152 \<and> live st' 4152 = Some 8"
proof -
  note l = demo_live(1)
  have r: "room_for demo_kernel demo_alloc 64" by (simp add: room_for_def demo_kernel_def demo_alloc_def HDR_def)
  have c: "card (dom (blocks demo_alloc)) < Suc (Suc (Suc 0))" by (simp add: demo_alloc_def alloc_start_def)
  obtain b as fs where ok: "alloc_ok b demo_alloc as fs"
    using alloc_reach_ok[OF demo_alloc_reach demo_kernel_ok] by blast
  obtain q st1 where m: "malloc demo_kernel (Suc (Suc (Suc 0))) demo_alloc 64 = Inr (q, st1)"
    using malloc_ok[OF ok demo_kernel_ok r _ c] by auto
  have "header_of (\<lambda>_. None) st1 (4152 - HDR) \<noteq> Some (4152 - HDR)" using m
    by (auto simp: malloc_def demo_alloc_def alloc_start_def add_node_to_tail_def sbrk_def
        demo_kernel_def HDR_def Let_def header_of_def put_def)
  moreover have "atail demo_alloc \<noteq> Some (4152 - HDR)" by (simp add: demo_alloc_def HDR_def)
  ultimately show ?thesis
    using realloc_leaks_moved_block[OF demo_alloc_reach demo_kernel_ok r _ c l _ _ m] by auto
qed

text \<open>
  When no free block is large enough and the kernel refuses more memory, \<open>malloc\<close> does not
  return \<open>NULL\<close> as documented but dereferences the null pointer from \<open>add_node_to_tail\<close>.
\<close>

theorem malloc_out_of_memory_crashes:
  assumes "alloc_reach grants junk b m st" and "kernel_ok grants"
    and "\<And>a. fld mfree (blocks st) a \<Longrightarrow> a \<in> dom (blocks st) \<Longrightarrow> fld msize (blocks st) a < sz"
    and "\<not> room_for grants st sz" and "sz < 2 ^ 63" and "card (dom (blocks st)) < fuel"
  shows "malloc grants fuel st sz = Inl Null_Deref"
proof -
  obtain as fs where ok: "alloc_ok b st as fs" using alloc_reach_ok[OF assms(1,2)] by blast
  have fs: "emhead st = first fs" "links (fld mnextfree (blocks st)) (fld mprevfree (blocks st)) None fs None"
    "set fs \<subseteq> dom (blocks st)" using ok by (simp_all add: alloc_ok_def alloc_wf_def free_list_def)
  have "fld mfree (blocks st) a" if "a \<in> set fs" for a
    using ok that fs(3) unfolding alloc_ok_def alloc_wf_def block_list_def by blast
  then have "find (\<lambda>a. sz \<le> fld msize (blocks st) a) fs = None"
    using assms(3) fs(3) by (fastforce simp: find_None_iff)
  then have "malloc_find fuel st (emhead st) sz = Inr None"
    using malloc_find_ok[OF fs(2,3), of fuel sz] free_list_length[OF ok] assms(6) fs(1) by simp
  moreover have "add_node_to_tail grants st sz = Inr (None, st)
      \<or> (\<exists>st1. add_node_to_tail grants st sz = Inr (None, st1))"
    using assms(4,5) by (auto simp: add_node_to_tail_def sbrk_def room_for_def Let_def HDR_def nat_add_distrib
        split: option.splits)
  ultimately show ?thesis by (auto simp: malloc_def)
qed

theorem malloc_out_of_memory_crashes_witness:
  "malloc demo_kernel 1 (alloc_start 4096 (\<lambda>_. 0)) (2 ^ 41) = Inl Null_Deref"
  by (rule malloc_out_of_memory_crashes[OF alloc_reach.start demo_kernel_ok])
    (simp_all add: alloc_start_def room_for_def demo_kernel_def)

text \<open>
  \<open>calloc\<close> multiplies without checking for overflow: when \<open>num * size\<close> exceeds \<open>size_t\<close> it
  still returns a pointer, to a payload smaller than the array it was asked for. When the
  product fits, all requested bytes are zero.
\<close>

theorem calloc_zeroes_and_wraps:
  assumes "alloc_reach grants junk b m st" and "kernel_ok grants"
    and "room_for grants st (wrap64 (n * k))" and "wrap64 (n * k) < 2 ^ 63"
    and "card (dom (blocks st)) < fuel"
  shows "\<exists>p s st'. calloc grants fuel st n k = Inr (Some p, st')
     \<and> live st p = None \<and> live st' = (live st)(p \<mapsto> s)
     \<and> (n * k < 2 ^ 64 \<longrightarrow> n * k \<le> s \<and> (\<forall>i < n * k. bytes st' (p + i) = 0))
     \<and> (2 ^ 64 \<le> n * k \<longrightarrow> s < n * k)"
proof -
  obtain as fs where ok: "alloc_ok b st as fs" using alloc_reach_ok[OF assms(1,2)] by blast
  from malloc_ok[OF ok assms(2-5)] obtain p s st' as' fs' where
    m: "malloc grants fuel st (wrap64 (n * k)) = Inr (Some p, st')" "live st p = None"
    "live st' = (live st)(p \<mapsto> s)" "wrap64 (n * k) \<le> s" "s \<le> wrap64 (n * k) + 64 + HDR" by blast
  have "s < 2 ^ 64" using m(5) assms(4) by (simp add: HDR_def)
  then show ?thesis using m by (auto simp: calloc_def)
qed

theorem calloc_zeroes_and_wraps_witness:
  "\<exists>p s st'. calloc demo_kernel 1 (alloc_start 4096 (\<lambda>_. 0)) (2 ^ 32) (2 ^ 32) = Inr (Some p, st')
     \<and> live st' p = Some s \<and> s < 2 ^ 64"
  using calloc_zeroes_and_wraps[OF alloc_reach.start demo_kernel_ok, of 4096 "\<lambda>_. 0" "2 ^ 32" "2 ^ 32" 1]
  by (fastforce simp: alloc_start_def room_for_def demo_kernel_def HDR_def wrap64_def)

end
