(* ===== verification/Monitor.thy ===== *)
theory Monitor
  imports Prelude
begin

text \<open>
  Threads sharing a structure protected by one \<open>pthread_mutex_t\<close> and one \<open>pthread_cond_t\<close>, as
  the queue, the semaphore and the barrier of \<^verbatim>\<open>critical_concurrency\<close> use them. Every
  operation there has the same shape: lock; some code (\<open>enter\<close>); a loop
  \<open>while (not ready) pthread_cond_wait\<close>; some code (\<open>leave\<close>); unlock. The three parts are
  parameters of the step relation; the flag they return says whether the code broadcasts.
  Waking is simultaneous with the update that broadcasts: both happen under the mutex, so no
  other thread can act between them. A sleeping thread may also wake spuriously, as POSIX
  allows, and a woken thread has to take the mutex again before it tests its condition.
\<close>

section \<open>Steps\<close>

datatype ('o, 'l, 'r) phase =
    Idle
  | Locking 'o
  | Entering 'o
  | Testing 'l
  | Sleeping 'l
  | Relocking 'l
  | Unlocking 'r

record ('s, 'o, 'l, 'r) mon =
  owner :: "nat option"
  phase :: "nat \<Rightarrow> ('o, 'l, 'r) phase"
  shared :: 's

definition mon_init :: "'s \<Rightarrow> ('s, 'o, 'l, 'r) mon" where
  "mon_init s = \<lparr>owner = None, phase = (\<lambda>_. Idle), shared = s\<rparr>"

fun awake :: "('o, 'l, 'r) phase \<Rightarrow> ('o, 'l, 'r) phase" where
  "awake (Sleeping l) = Relocking l"
| "awake p = p"

definition wake :: "bool \<Rightarrow> (nat \<Rightarrow> ('o, 'l, 'r) phase) \<Rightarrow> nat \<Rightarrow> ('o, 'l, 'r) phase" where
  \<comment> \<open>\<open>pthread_cond_broadcast\<close>, when the code calls it\<close>
  "wake b ph t = (if b then awake (ph t) else ph t)"

inductive mon_step ::
  "('o \<Rightarrow> 's \<Rightarrow> 's \<Rightarrow> 'l \<Rightarrow> bool \<Rightarrow> bool) \<Rightarrow> ('l \<Rightarrow> 's \<Rightarrow> bool)
   \<Rightarrow> ('l \<Rightarrow> 's \<Rightarrow> 's \<Rightarrow> 'r \<Rightarrow> bool \<Rightarrow> bool)
   \<Rightarrow> ('s, 'o, 'l, 'r) mon \<Rightarrow> ('s, 'o, 'l, 'r) mon \<Rightarrow> bool"
  for enter ready leave where
  call: "phase m t = Idle \<Longrightarrow>
     mon_step enter ready leave m (m\<lparr>phase := (phase m)(t := Locking p)\<rparr>)"
| acquire: "phase m t = Locking p \<Longrightarrow> owner m = None \<Longrightarrow>
     mon_step enter ready leave m (m\<lparr>owner := Some t, phase := (phase m)(t := Entering p)\<rparr>)"
| enter: "phase m t = Entering p \<Longrightarrow> enter p (shared m) s l b \<Longrightarrow>
     mon_step enter ready leave m
       (m\<lparr>shared := s, phase := (wake b (phase m))(t := Testing l)\<rparr>)"
| sleep: "phase m t = Testing l \<Longrightarrow> \<not> ready l (shared m) \<Longrightarrow>
     mon_step enter ready leave m (m\<lparr>owner := None, phase := (phase m)(t := Sleeping l)\<rparr>)"
| spurious: "phase m t = Sleeping l \<Longrightarrow>
     mon_step enter ready leave m (m\<lparr>phase := (phase m)(t := Relocking l)\<rparr>)"
| reacquire: "phase m t = Relocking l \<Longrightarrow> owner m = None \<Longrightarrow>
     mon_step enter ready leave m (m\<lparr>owner := Some t, phase := (phase m)(t := Testing l)\<rparr>)"
| leave: "phase m t = Testing l \<Longrightarrow> ready l (shared m) \<Longrightarrow> leave l (shared m) s r b \<Longrightarrow>
     mon_step enter ready leave m
       (m\<lparr>shared := s, phase := (wake b (phase m))(t := Unlocking r)\<rparr>)"
| unlock: "phase m t = Unlocking r \<Longrightarrow>
     mon_step enter ready leave m (m\<lparr>owner := None, phase := (phase m)(t := Idle)\<rparr>)"

inductive mon_reach ::
  "('o \<Rightarrow> 's \<Rightarrow> 's \<Rightarrow> 'l \<Rightarrow> bool \<Rightarrow> bool) \<Rightarrow> ('l \<Rightarrow> 's \<Rightarrow> bool)
   \<Rightarrow> ('l \<Rightarrow> 's \<Rightarrow> 's \<Rightarrow> 'r \<Rightarrow> bool \<Rightarrow> bool)
   \<Rightarrow> 's \<Rightarrow> ('s, 'o, 'l, 'r) mon \<Rightarrow> bool"
  for enter ready leave s0 where
  start: "mon_reach enter ready leave s0 (mon_init s0)"
| step: "mon_reach enter ready leave s0 m \<Longrightarrow> mon_step enter ready leave m m' \<Longrightarrow>
     mon_reach enter ready leave s0 m'"

definition destroy_monitor :: "nat list \<Rightarrow> ('s, 'o, 'l, 'r) mon \<Rightarrow> unit res" where
  \<comment> \<open>\<open>pthread_mutex_destroy\<close> and \<open>pthread_cond_destroy\<close> while a thread is inside a call: undefined\<close>
  "destroy_monitor threads m =
     (if list_all (\<lambda>t. case phase m t of Idle \<Rightarrow> True | _ \<Rightarrow> False) threads then Inr () else Inl Dangling)"

section \<open>The monitor invariant\<close>

fun holding :: "('o, 'l, 'r) phase \<Rightarrow> bool" where
  "holding (Entering p) = True"
| "holding (Testing l) = True"
| "holding (Unlocking r) = True"
| "holding p = False"

fun waiting :: "('o, 'l, 'r) phase \<Rightarrow> 'l option" where
  \<comment> \<open>the local state of a thread inside its waiting loop\<close>
  "waiting (Testing l) = Some l"
| "waiting (Sleeping l) = Some l"
| "waiting (Relocking l) = Some l"
| "waiting p = None"

lemma holding_awake [simp]: "holding (awake p) = holding p"
  by (cases p) auto

lemma waiting_awake [simp]: "waiting (awake p) = waiting p"
  by (cases p) auto

lemma awake_not_Sleeping [simp]: "awake p \<noteq> Sleeping l"
  by (cases p) auto

lemma holding_wake [simp]: "holding (wake b ph t) = holding (ph t)"
  by (simp add: wake_def)

lemma waiting_wake [simp]: "waiting (wake b ph t) = waiting (ph t)"
  by (simp add: wake_def)

lemma wake_False [simp]: "wake False ph = ph"
  by (simp add: wake_def fun_eq_iff)

lemma wake_Sleeping [simp]: "wake b ph t = Sleeping l \<longleftrightarrow> \<not> b \<and> ph t = Sleeping l"
  by (simp add: wake_def)

definition mon_inv ::
  "('s \<Rightarrow> bool) \<Rightarrow> ('l \<Rightarrow> 's \<Rightarrow> bool) \<Rightarrow> ('l \<Rightarrow> 's \<Rightarrow> bool) \<Rightarrow> ('s, 'o, 'l, 'r) mon \<Rightarrow> bool" where
  "mon_inv shared_ok local_ok ready m \<longleftrightarrow>
     (\<forall>t. holding (phase m t) \<longleftrightarrow> owner m = Some t)
     \<and> shared_ok (shared m)
     \<and> (\<forall>t l. waiting (phase m t) = Some l \<longrightarrow> local_ok l (shared m))
     \<and> (\<forall>t l. phase m t = Sleeping l \<longrightarrow> \<not> ready l (shared m))"

lemma mon_reach_sleeper:
  \<comment> \<open>one call by one thread, up to its first \<open>pthread_cond_wait\<close>\<close>
  assumes e: "enter p s0 s1 l False" and r: "\<not> ready l s1"
  shows "mon_reach enter ready leave s0
     \<lparr>owner = None, phase = (\<lambda>_. Idle)(t := Sleeping l), shared = s1\<rparr>"
proof -
  let ?m = "\<lambda>w p s. \<lparr>owner = w, phase = (\<lambda>_. Idle)(t := p), shared = s\<rparr>"
  have "mon_step enter ready leave (mon_init s0) (?m None (Locking p) s0)"
    using mon_step.call[of "mon_init s0" t enter ready leave p] by (simp add: mon_init_def)
  then have 1: "mon_reach enter ready leave s0 (?m None (Locking p) s0)"
    by (rule mon_reach.step[OF mon_reach.start])
  have "mon_step enter ready leave (?m None (Locking p) s0) (?m (Some t) (Entering p) s0)"
    using mon_step.acquire[of "?m None (Locking p) s0" t p enter ready leave] by simp
  then have 2: "mon_reach enter ready leave s0 (?m (Some t) (Entering p) s0)"
    by (rule mon_reach.step[OF 1])
  have "mon_step enter ready leave (?m (Some t) (Entering p) s0) (?m (Some t) (Testing l) s1)"
    using mon_step.enter[of "?m (Some t) (Entering p) s0" t p enter s1 l False ready leave] e by simp
  then have 3: "mon_reach enter ready leave s0 (?m (Some t) (Testing l) s1)"
    by (rule mon_reach.step[OF 2])
  have "mon_step enter ready leave (?m (Some t) (Testing l) s1) (?m None (Sleeping l) s1)"
    using mon_step.sleep[of "?m (Some t) (Testing l) s1" t l ready enter leave] r by simp
  then show ?thesis by (rule mon_reach.step[OF 3])
qed

lemma mon_reach_passer:
  \<comment> \<open>one call by one thread that does not wait, from lock to unlock\<close>
  assumes m: "mon_reach enter ready leave s0 m" and free: "owner m = None" "phase m t = Idle"
    and e: "enter p (shared m) s1 l b" and l: "ready l s1" "leave l s1 s1 r False"
  shows "mon_reach enter ready leave s0 \<lparr>owner = None, phase = (wake b (phase m))(t := Idle), shared = s1\<rparr>"
proof -
  let ?m = "\<lambda>w p b s. \<lparr>owner = w, phase = (wake b (phase m))(t := p), shared = s\<rparr>"
  have a: "wake b ((wake False (phase m))(t := q)) = (wake b (phase m))(t := if b then awake q else q)" for q
    by (auto simp: wake_def fun_eq_iff)
  have "mon_step enter ready leave m (?m None (Locking p) False (shared m))"
    using mon_step.call[OF free(2), of enter ready leave p] free(1) by (cases m) simp
  then have 1: "mon_reach enter ready leave s0 (?m None (Locking p) False (shared m))" by (rule mon_reach.step[OF m])
  have "mon_step enter ready leave (?m None (Locking p) False (shared m)) (?m (Some t) (Entering p) False (shared m))"
    using mon_step.acquire[of "?m None (Locking p) False (shared m)" t p enter ready leave] by simp
  then have 2: "mon_reach enter ready leave s0 (?m (Some t) (Entering p) False (shared m))" by (rule mon_reach.step[OF 1])
  have "mon_step enter ready leave (?m (Some t) (Entering p) False (shared m)) (?m (Some t) (Testing l) b s1)"
    using mon_step.enter[of "?m (Some t) (Entering p) False (shared m)" t p enter s1 l b ready leave] e a by simp
  then have 3: "mon_reach enter ready leave s0 (?m (Some t) (Testing l) b s1)" by (rule mon_reach.step[OF 2])
  have "mon_step enter ready leave (?m (Some t) (Testing l) b s1) (?m (Some t) (Unlocking r) b s1)"
    using mon_step.leave[of "?m (Some t) (Testing l) b s1" t l ready leave s1 r False enter] l by simp
  then have 4: "mon_reach enter ready leave s0 (?m (Some t) (Unlocking r) b s1)" by (rule mon_reach.step[OF 3])
  have "mon_step enter ready leave (?m (Some t) (Unlocking r) b s1) (?m None Idle b s1)"
    using mon_step.unlock[of "?m (Some t) (Unlocking r) b s1" t r enter ready leave] by simp
  then show ?thesis by (rule mon_reach.step[OF 4])
qed

text \<open>
  The interface of a monitor: its code keeps the invariant of the shared structure and the
  facts waiting threads rely on, and whenever it makes some waiting condition true it
  broadcasts. The client lemma is that in every reachable state no thread sleeps although its
  condition holds: no wake-up is lost.
\<close>

locale monitor =
  fixes enter :: "'o \<Rightarrow> 's \<Rightarrow> 's \<Rightarrow> 'l \<Rightarrow> bool \<Rightarrow> bool"
    and ready :: "'l \<Rightarrow> 's \<Rightarrow> bool"
    and leave :: "'l \<Rightarrow> 's \<Rightarrow> 's \<Rightarrow> 'r \<Rightarrow> bool \<Rightarrow> bool"
    and shared_ok :: "'s \<Rightarrow> bool"
    and local_ok :: "'l \<Rightarrow> 's \<Rightarrow> bool"
  assumes enter_inv: "shared_ok s \<Longrightarrow> enter p s s' l b \<Longrightarrow> shared_ok s' \<and> local_ok l s'"
    and enter_stable: "shared_ok s \<Longrightarrow> enter p s s' l b \<Longrightarrow> local_ok k s \<Longrightarrow> local_ok k s'"
    and enter_notifies: "shared_ok s \<Longrightarrow> enter p s s' l b \<Longrightarrow> local_ok k s \<Longrightarrow> \<not> ready k s \<Longrightarrow> ready k s' \<Longrightarrow> b"
    and leave_inv: "shared_ok s \<Longrightarrow> local_ok l s \<Longrightarrow> ready l s \<Longrightarrow> leave l s s' r b \<Longrightarrow> shared_ok s'"
    and leave_stable: "shared_ok s \<Longrightarrow> local_ok l s \<Longrightarrow> ready l s \<Longrightarrow> leave l s s' r b \<Longrightarrow> local_ok k s \<Longrightarrow> local_ok k s'"
    and leave_notifies: "shared_ok s \<Longrightarrow> local_ok l s \<Longrightarrow> ready l s \<Longrightarrow> leave l s s' r b \<Longrightarrow> local_ok k s
      \<Longrightarrow> \<not> ready k s \<Longrightarrow> ready k s' \<Longrightarrow> b"
begin

lemma init_inv: "shared_ok s0 \<Longrightarrow> mon_inv shared_ok local_ok ready (mon_init s0)"
  by (simp add: mon_inv_def mon_init_def)

lemma holder: "mon_inv shared_ok local_ok ready m \<Longrightarrow> holding (phase m t) = (owner m = Some t)"
  by (simp add: mon_inv_def)

lemma waiter: "mon_inv shared_ok local_ok ready m \<Longrightarrow> waiting (phase m t) = Some l \<Longrightarrow>
    local_ok l (shared m)"
  by (auto simp: mon_inv_def)

lemma step_inv:
  assumes "mon_step enter ready leave m m'" and "mon_inv shared_ok local_ok ready m"
  shows "mon_inv shared_ok local_ok ready m'"
  using assms
proof (induction rule: mon_step.induct)
  case (enter m t p s l b)
  note I = enter.prems[unfolded mon_inv_def]
  have own: "owner m = Some t" using holder[OF enter.prems, of t] enter.hyps(1) by simp
  have s: "shared_ok s" "local_ok l s" using enter_inv[OF _ enter.hyps(2)] I by auto
  have "local_ok k s" if "waiting (phase m u) = Some k" for u k
    using enter_stable[OF _ enter.hyps(2)] I that by blast
  moreover have "\<not> ready k s" if "\<not> b" "phase m u = Sleeping k" for u k
  proof -
    have "waiting (phase m u) = Some k" using that(2) by simp
    then show ?thesis using enter_notifies[OF _ enter.hyps(2)] I that by blast
  qed
  ultimately show ?case using I own s by (auto simp: mon_inv_def)
next
  case (leave m t l s r b)
  note I = leave.prems[unfolded mon_inv_def]
  have own: "owner m = Some t" using holder[OF leave.prems, of t] leave.hyps(1) by simp
  have l: "local_ok l (shared m)" using waiter[OF leave.prems, of t l] leave.hyps(1) by simp
  have s: "shared_ok s" using leave_inv[OF _ l leave.hyps(2,3)] I by auto
  have "local_ok k s" if "waiting (phase m u) = Some k" for u k
    using leave_stable[OF _ l leave.hyps(2,3)] I that by blast
  moreover have "\<not> ready k s" if "\<not> b" "phase m u = Sleeping k" for u k
  proof -
    have "waiting (phase m u) = Some k" using that(2) by simp
    then show ?thesis using leave_notifies[OF _ l leave.hyps(2,3)] I that by blast
  qed
  ultimately show ?case using I own s by (auto simp: mon_inv_def)
next
  case (call m t p)
  with holder[OF call.prems, of t] show ?case by (auto simp: mon_inv_def)
next
  case (acquire m t p)
  with holder[OF acquire.prems, of t] show ?case by (auto simp: mon_inv_def)
next
  case (sleep m t l)
  with holder[OF sleep.prems, of t] waiter[OF sleep.prems, of t l] show ?case
    by (auto simp: mon_inv_def)
next
  case (spurious m t l)
  with holder[OF spurious.prems, of t] waiter[OF spurious.prems, of t l] show ?case
    by (auto simp: mon_inv_def)
next
  case (reacquire m t l)
  with holder[OF reacquire.prems, of t] waiter[OF reacquire.prems, of t l] show ?case
    by (auto simp: mon_inv_def)
next
  case (unlock m t r)
  with holder[OF unlock.prems, of t] show ?case by (auto simp: mon_inv_def)
qed

lemma reach_inv:
  assumes "mon_reach enter ready leave s0 m" and "shared_ok s0"
  shows "mon_inv shared_ok local_ok ready m"
  using assms(1)
proof (induction rule: mon_reach.induct)
  case start
  show ?case by (rule init_inv[OF assms(2)])
next
  case (step m m')
  then show ?case by (blast intro: step_inv)
qed

lemma no_lost_wakeup:
  assumes "mon_reach enter ready leave s0 m" and "shared_ok s0" and "phase m t = Sleeping l"
  shows "\<not> ready l (shared m)"
  using reach_inv[OF assms(1,2)] assms(3) by (auto simp: mon_inv_def)

lemma shared_inv:
  assumes "mon_reach enter ready leave s0 m" and "shared_ok s0"
  shows "shared_ok (shared m)"
  using reach_inv[OF assms] by (auto simp: mon_inv_def)

lemma mutual_exclusion:
  assumes "mon_reach enter ready leave s0 m" and "shared_ok s0"
    and "holding (phase m t)" and "holding (phase m u)"
  shows "t = u"
  using reach_inv[OF assms(1,2)] assms(3,4) by (auto simp: mon_inv_def)

lemma leaving_ok:
  assumes "mon_reach enter ready leave s0 m" and "shared_ok s0" and "waiting (phase m t) = Some l"
  shows "local_ok l (shared m)"
  using reach_inv[OF assms(1,2)] assms(3) by (auto simp: mon_inv_def)

end

end
