(* ===== verification/Sync_Queue.thy ===== *)
theory Sync_Queue
  imports Monitor Heap
begin

text \<open>
  The thread-safe queue of \<^verbatim>\<open>critical_concurrency/queue.c\<close>: a linked list of nodes on the heap
  with head and tail pointers, bounded when \<open>max_size\<close> is positive. The ghost fields \<open>pushed\<close>
  and \<open>pulled\<close> record the data in the order the completed operations handled it and are read
  by no code. \<open>malloc\<close> may return any address that is not live; its failure is the null
  pointer, which the code dereferences.
\<close>

record 'd queue_node =
  qdata :: 'd
  qnext :: "addr option"

record 'd queue =
  head :: "addr option"
  tail :: "addr option"
  qsize :: int
  max_size :: int
  nodes :: "'d queue_node heap"
  pushed :: "'d list"
  pulled :: "'d list"

datatype 'd queue_op = Push 'd | Pull

definition queue_create :: "int \<Rightarrow> 'd queue" where
  "queue_create mx = \<lparr>head = None, tail = None, qsize = 0, max_size = mx, nodes = Map.empty,
     pushed = [], pulled = []\<rparr>"

definition queue_push_body :: "'d queue \<Rightarrow> 'd \<Rightarrow> addr option \<Rightarrow> ('d queue \<times> bool) res" where
  \<comment> \<open>\<open>queue_push\<close> after its waiting loop; \<open>node\<close> is what \<open>malloc\<close> returned\<close>
  "queue_push_body s d node = rbind (deref node) (\<lambda>a.
     let h = (nodes s)(a \<mapsto> \<lparr>qdata = d, qnext = None\<rparr>);
         s1 = s\<lparr>nodes := h\<rparr>
     in rbind (if head s = None then Inr (s1\<lparr>head := node, tail := node\<rparr>)
               else rbind (upd h (tail s) (\<lambda>n. n\<lparr>qnext := node\<rparr>))
                      (\<lambda>h. Inr (s1\<lparr>nodes := h, tail := node\<rparr>)))
          (\<lambda>s2. let s3 = s2\<lparr>qsize := qsize s2 + 1, pushed := pushed s2 @ [d]\<rparr>
                in Inr (s3, qsize s3 \<noteq> 0)))"

definition queue_pull_body :: "'d queue \<Rightarrow> ('d queue \<times> 'd \<times> bool) res" where
  \<comment> \<open>\<open>queue_pull\<close> after its waiting loop\<close>
  "queue_pull_body s = rbind (ld (nodes s) (head s)) (\<lambda>n.
     rbind (release (nodes s) (head s)) (\<lambda>h.
     let s1 = (if qsize s = 1 then s\<lparr>nodes := h, head := None, tail := None\<rparr>
               else s\<lparr>nodes := h, head := qnext n\<rparr>);
         s2 = s1\<lparr>qsize := qsize s1 - 1, pulled := pulled s1 @ [qdata n]\<rparr>
     in Inr (s2, qdata n, max_size s2 > 0 \<and> qsize s2 \<noteq> max_size s2)))"

fun queue_blocked :: "'d queue_op \<Rightarrow> 'd queue \<Rightarrow> bool" where
  \<comment> \<open>the conditions of the two waiting loops\<close>
  "queue_blocked (Push d) s = (max_size s > 0 \<and> qsize s = max_size s)"
| "queue_blocked Pull s = (qsize s = 0)"

fun queue_destroy_loop :: "nat \<Rightarrow> 'd queue_node heap \<Rightarrow> addr option \<Rightarrow> addr option \<Rightarrow> 'd queue_node heap res" where
  \<comment> \<open>the loop of \<open>queue_destroy\<close>, with at most the given number of tests of its condition\<close>
  "queue_destroy_loop 0 h cur temp = Inl Diverges"
| "queue_destroy_loop (Suc k) h cur temp =
     (if cur \<noteq> None
      then rbind (ld h cur) (\<lambda>n. rbind (release h temp) (\<lambda>h.
             queue_destroy_loop k h (qnext n) (qnext n)))
      else Inr h)"

definition queue_destroy :: "nat \<Rightarrow> 'd queue \<Rightarrow> 'd queue_node heap res" where
  "queue_destroy fuel s = queue_destroy_loop fuel (nodes s) (head s) (head s)"

definition queue_enter ::
  "'d queue_op \<Rightarrow> 'd queue \<Rightarrow> 'd queue \<Rightarrow> 'd queue_op \<Rightarrow> bool \<Rightarrow> bool" where
  "queue_enter p s s' l b \<longleftrightarrow> s' = s \<and> l = p \<and> \<not> b"

definition queue_ready :: "'d queue_op \<Rightarrow> 'd queue \<Rightarrow> bool" where
  "queue_ready l s \<longleftrightarrow> \<not> queue_blocked l s"

fun queue_leave ::
  "'d queue_op \<Rightarrow> 'd queue \<Rightarrow> 'd queue \<Rightarrow> 'd option \<Rightarrow> bool \<Rightarrow> bool" where
  "queue_leave (Push d) s s' r b =
     (r = None \<and> (\<exists>a. nodes s a = None \<and> queue_push_body s d (Some a) = Inr (s', b)))"
| "queue_leave Pull s s' r b = (\<exists>d. r = Some d \<and> queue_pull_body s = Inr (s', d, b))"

section \<open>The queue as a list\<close>

definition qvals :: "'d queue_node heap \<Rightarrow> addr list \<Rightarrow> 'd list" where
  "qvals h as = map (\<lambda>a. qdata (the (h a))) as"

definition queue_holds :: "'d queue \<Rightarrow> addr list \<Rightarrow> bool" where
  \<comment> \<open>the queue consists of exactly the nodes at the listed addresses\<close>
  "queue_holds s as \<longleftrightarrow> chain qnext (nodes s) (head s) as \<and> dom (nodes s) = set as
     \<and> tail s = final as \<and> qsize s = int (length as)"

definition queue_inv :: "int \<Rightarrow> 'd queue \<Rightarrow> bool" where
  "queue_inv mx s \<longleftrightarrow> max_size s = mx \<and> (0 < mx \<longrightarrow> qsize s \<le> mx)
     \<and> (\<exists>as. queue_holds s as \<and> pushed s = pulled s @ qvals (nodes s) as)"

lemma qvals_Nil [simp]: "qvals h [] = []"
  by (simp add: qvals_def)

lemma qvals_other [simp]: "a \<notin> set as \<Longrightarrow> qvals (h(a := v)) as = qvals h as"
  by (auto simp: qvals_def)

lemma qvals_relink [simp]:
  "h b = Some n \<Longrightarrow> qvals (h(b \<mapsto> n\<lparr>qnext := q\<rparr>)) as = qvals h as"
  by (auto simp: qvals_def)

lemma queue_push_body_ok:
  assumes q: "queue_holds s as" and a: "nodes s a = None"
  shows "\<exists>s'. queue_push_body s d (Some a) = Inr (s', True)
     \<and> queue_holds s' (as @ [a]) \<and> qvals (nodes s') (as @ [a]) = qvals (nodes s) as @ [d]
     \<and> max_size s' = max_size s \<and> qsize s' = qsize s + 1
     \<and> pushed s' = pushed s @ [d] \<and> pulled s' = pulled s"
proof (cases "as = []")
  case True
  then have e: "head s = None" "nodes s = Map.empty" "qsize s = 0" using q by (auto simp: queue_holds_def)
  show ?thesis using True e by (auto simp: queue_push_body_def queue_holds_def qvals_def Let_def)
next
  case False
  have c: "chain qnext (nodes s) (head s) as" "dom (nodes s) = set as" "tail s = Some (last as)"
    "qsize s = int (length as)" using q False by (auto simp: queue_holds_def final_def)
  have na: "a \<notin> set as" using a c(2) by auto
  have hd: "head s \<noteq> None" using chain_first[OF c(1)] False by simp
  obtain n where n: "nodes s (last as) = Some n" using chain_last_null[OF c(1) False] by blast
  have ne: "last as \<noteq> a" using na False by (metis last_in_set)
  let ?v = "\<lparr>qdata = d, qnext = None\<rparr>"
  let ?h = "((nodes s)(last as \<mapsto> n\<lparr>qnext := Some a\<rparr>))(a \<mapsto> ?v)"
  have h: "(nodes s)(a \<mapsto> ?v, last as \<mapsto> n\<lparr>qnext := Some a\<rparr>) = ?h"
    using ne by (simp add: fun_upd_twist)
  have ch: "chain qnext ?h (head s) (as @ [a])"
    using chain_snoc[OF c(1) False na, where g = "\<lambda>n. n\<lparr>qnext := Some a\<rparr>" and n = ?v] n by simp
  have dm: "dom ?h = set (as @ [a])" using c(2) False by auto
  have qv: "qvals ?h (as @ [a]) = qvals (nodes s) as @ [d]"
    using na n by (simp add: qvals_def) auto
  have "queue_push_body s d (Some a)
      = Inr (s\<lparr>nodes := ?h, tail := Some a, qsize := qsize s + 1, pushed := pushed s @ [d]\<rparr>, True)"
    using hd c(3,4) n ne by (auto simp: queue_push_body_def Let_def h)
  then show ?thesis using c(4) by (simp add: queue_holds_def ch qv dm del: set_append dom_fun_upd)
qed

lemma queue_pull_body_ok:
  assumes q: "queue_holds s (a # as)"
  shows "\<exists>s'. queue_pull_body s = Inr (s', qdata (the (nodes s a)),
              max_size s > 0 \<and> qsize s - 1 \<noteq> max_size s)
     \<and> queue_holds s' as \<and> qvals (nodes s') as = qvals (nodes s) as
     \<and> max_size s' = max_size s \<and> qsize s' = qsize s - 1
     \<and> pulled s' = pulled s @ [qdata (the (nodes s a))] \<and> pushed s' = pushed s"
proof -
  have c: "chain qnext (nodes s) (head s) (a # as)" "dom (nodes s) = set (a # as)"
    "tail s = final (a # as)" "qsize s = int (Suc (length as))" using q by (auto simp: queue_holds_def)
  then obtain n where n: "head s = Some a" "nodes s a = Some n" "chain qnext (nodes s) (qnext n) as"
    by auto
  have na: "a \<notin> set as" using chain_distinct[OF c(1)] by simp
  have dm: "dom ((nodes s)(a := None)) = set as" using c(2) na by auto
  have em: "(nodes s)(a := None) = Map.empty" if "as = []"
    using dm that unfolding dom_eq_empty_conv[symmetric] by simp
  show ?thesis using n c(3,4) na dm em
    by (cases "as = []") (simp_all add: queue_pull_body_def queue_holds_def Let_def chain_upd_other)
qed

lemma queue_destroy_loop_ok:
  assumes "chain qnext h p as" and "dom h = set as" and "length as < k"
  shows "queue_destroy_loop k h p p = Inr Map.empty"
  using assms
proof (induction as arbitrary: h p k)
  case Nil
  then show ?case by (cases k) auto
next
  case (Cons a as)
  then obtain n j where n: "p = Some a" "h a = Some n" "chain qnext h (qnext n) as" "k = Suc j"
    by (cases k) auto
  have na: "a \<notin> set as" using chain_distinct[OF Cons.prems(1)] by simp
  have "queue_destroy_loop j (h(a := None)) (qnext n) (qnext n) = Inr Map.empty"
  proof (rule Cons.IH)
    show "chain qnext (h(a := None)) (qnext n) as" using n(3) unfolding chain_upd_other[OF na].
    show "dom (h(a := None)) = set as" using na Cons.prems(2) by (simp add: insert_absorb)
    show "length as < j" using Cons.prems(3) n(4) by simp
  qed
  then show ?case using n by simp
qed

section \<open>The queue as a monitor\<close>

lemma queue_leave_inv:
  assumes I: "queue_inv mx s" and r: "queue_ready l s" and lv: "queue_leave l s s' v b"
  shows "queue_inv mx s' \<and> (\<forall>k. \<not> queue_ready k s \<longrightarrow> queue_ready k s' \<longrightarrow> b)"
proof (cases l)
  case (Push d)
  from I obtain as where as: "queue_holds s as" "pushed s = pulled s @ qvals (nodes s) as"
    "max_size s = mx" "0 < mx \<longrightarrow> qsize s \<le> mx" by (auto simp: queue_inv_def)
  from lv Push obtain a where a: "nodes s a = None" "queue_push_body s d (Some a) = Inr (s', b)" by auto
  from queue_push_body_ok[OF as(1) a(1), of d] a(2)
  have s': "b" "queue_holds s' (as @ [a])" "qvals (nodes s') (as @ [a]) = qvals (nodes s) as @ [d]"
    "max_size s' = max_size s" "qsize s' = qsize s + 1" "pushed s' = pushed s @ [d]"
    "pulled s' = pulled s" by auto
  have "pushed s' = pulled s' @ qvals (nodes s') (as @ [a])" using s' as(2) by simp
  moreover have "0 < mx \<longrightarrow> qsize s' \<le> mx" using s' as r Push by (auto simp: queue_ready_def)
  ultimately show ?thesis using s'(1,2,4) as(3) unfolding queue_inv_def by auto
next
  case Pull
  from I obtain as where as: "queue_holds s as" "pushed s = pulled s @ qvals (nodes s) as"
    "max_size s = mx" "0 < mx \<longrightarrow> qsize s \<le> mx" by (auto simp: queue_inv_def)
  then obtain a bs where ab: "as = a # bs" using r Pull
    by (cases as) (auto simp: queue_ready_def queue_holds_def)
  from lv Pull queue_pull_body_ok[of s a bs] as(1) ab
  have s': "b = (max_size s > 0 \<and> qsize s - 1 \<noteq> max_size s)" "queue_holds s' bs"
    "qvals (nodes s') bs = qvals (nodes s) bs" "max_size s' = max_size s" "qsize s' = qsize s - 1"
    "pulled s' = pulled s @ [qdata (the (nodes s a))]" "pushed s' = pushed s" by auto
  have p: "pushed s' = pulled s' @ qvals (nodes s') bs" using s' as(2) ab by (simp add: qvals_def)
  have b: "b" if "\<not> queue_ready k s" "queue_ready k s'" for k
    using that s' r Pull by (cases k) (auto simp: queue_ready_def)
  show ?thesis using s'(2,4,5) as(3,4) p b unfolding queue_inv_def by auto
qed

interpretation q:
  monitor queue_enter queue_ready queue_leave "queue_inv mx" "\<lambda>_ _. True"
  using queue_leave_inv by unfold_locales (auto simp: queue_enter_def, blast+)

text \<open>
  C7: in every state any number of threads can reach by calling \<open>queue_push\<close> and \<open>queue_pull\<close>
  on a queue made by \<open>queue_create\<close>: the data pushed so far is the data pulled so far, in the
  same order, followed by the data in the linked list, which holds exactly the live nodes; a
  bounded queue never holds more than \<open>max_size\<close> elements; and a thread sleeps in \<open>queue_pull\<close>
  only while the queue is empty and in \<open>queue_push\<close> only while it is full, so no wake-up is lost.
\<close>

theorem queue_fifo:
  assumes "mon_reach queue_enter queue_ready queue_leave (queue_create mx) m"
  shows "(\<exists>as. queue_holds (shared m) as
              \<and> pushed (shared m) = pulled (shared m) @ qvals (nodes (shared m)) as)
     \<and> (0 < mx \<longrightarrow> qsize (shared m) \<le> mx)
     \<and> (phase m t = Sleeping Pull \<longrightarrow> head (shared m) = None)
     \<and> (phase m t = Sleeping (Push d) \<longrightarrow> 0 < mx \<and> qsize (shared m) = mx)"
proof -
  have i: "queue_inv mx (queue_create mx)"
    by (auto simp: queue_inv_def queue_create_def queue_holds_def intro!: exI[of _ "[]"])
  have s: "queue_inv mx (shared m)" by (rule q.shared_inv[OF assms i])
  have b: "queue_blocked l (shared m)" if "phase m t = Sleeping l" for l
    using q.no_lost_wakeup[OF assms i that] by (simp add: queue_ready_def)
  have "qsize (shared m) = 0 \<Longrightarrow> head (shared m) = None"
    using s by (auto simp: queue_inv_def queue_holds_def)
  then show ?thesis using s b[of Pull] b[of "Push d"] by (auto simp: queue_inv_def)
qed

theorem queue_fifo_witness:
  "head (queue_create 3 :: nat queue) = None \<and> qsize (queue_create 3 :: nat queue) \<le> 3"
proof -
  have "mon_reach queue_enter queue_ready queue_leave (queue_create 3)
      \<lparr>owner = None, phase = (\<lambda>_. Idle)(1 := Sleeping Pull), shared = (queue_create 3 :: nat queue)\<rparr>"
    by (rule mon_reach_sleeper[where p = Pull])
      (simp_all add: queue_enter_def queue_ready_def queue_create_def)
  from queue_fifo[OF this, of 1] show ?thesis by simp
qed

text \<open>
  No operation faults on a queue in a reachable state: once a thread is past its waiting
  loop, \<open>queue_push\<close> with memory from \<open>malloc\<close> and \<open>queue_pull\<close> complete without a null or
  dangling access, the pull returns the oldest element not yet pulled, and \<open>queue_destroy\<close>
  ends and frees every node.
\<close>

theorem queue_operations_complete:
  assumes "mon_reach queue_enter queue_ready queue_leave (queue_create mx) m"
  shows "(nodes (shared m) a = None \<longrightarrow> (\<exists>r. queue_push_body (shared m) d (Some a) = Inr r))
     \<and> (queue_ready Pull (shared m) \<longrightarrow>
          (\<exists>s' b. queue_pull_body (shared m)
             = Inr (s', pushed (shared m) ! length (pulled (shared m)), b)))
     \<and> (\<exists>n. \<forall>fuel \<ge> n. queue_destroy fuel (shared m) = Inr Map.empty)"
proof -
  let ?s = "shared m"
  have i: "queue_inv mx (queue_create mx)"
    by (auto simp: queue_inv_def queue_create_def queue_holds_def intro!: exI[of _ "[]"])
  have "queue_inv mx ?s" by (rule q.shared_inv[OF assms i])
  then obtain as where as: "queue_holds ?s as" "pushed ?s = pulled ?s @ qvals (nodes ?s) as"
    by (auto simp: queue_inv_def)
  have 1: "\<exists>r. queue_push_body ?s d (Some a) = Inr r" if "nodes ?s a = None"
    using queue_push_body_ok[OF as(1) that, of d] by blast
  have 2: "\<exists>s' b. queue_pull_body ?s = Inr (s', pushed ?s ! length (pulled ?s), b)"
    if r: "queue_ready Pull ?s"
  proof -
    obtain x xs where x: "as = x # xs" using r as(1)
      by (cases as) (auto simp: queue_ready_def queue_holds_def)
    then have "pushed ?s ! length (pulled ?s) = qdata (the (nodes ?s x))"
      using as(2) by (simp add: qvals_def)
    then show ?thesis using queue_pull_body_ok[of ?s x xs] as(1) x by force
  qed
  have 3: "queue_destroy fuel ?s = Inr Map.empty" if "Suc (length as) \<le> fuel" for fuel
    using queue_destroy_loop_ok[of "nodes ?s" "head ?s" as fuel] as(1) that
    by (simp add: queue_destroy_def queue_holds_def)
  show ?thesis using 1 2 3 by blast
qed

theorem queue_operations_complete_witness:
  "\<exists>r. queue_push_body (queue_create 0 :: nat queue) 5 (Some 9) = Inr r"
proof -
  have "mon_reach queue_enter queue_ready queue_leave (queue_create 0) (mon_init (queue_create 0 :: nat queue))"
    by (rule mon_reach.start)
  from queue_operations_complete[OF this, of 9 5] show ?thesis
    by (simp add: mon_init_def queue_create_def)
qed

end
