(* ===== verification/Semamore.thy ===== *)
theory Semamore
  imports Monitor
begin

text \<open>
  The bounded counting semaphore of \<^verbatim>\<open>critical_concurrency/semamore.c\<close>: \<open>semm_wait\<close> blocks at
  0, \<open>semm_post\<close> blocks at \<open>max_val\<close>. The fields \<open>waits\<close> and \<open>posts\<close> count the completed
  operations and are read by no code.
\<close>

record semamore =
  sem_value :: int
  max_val :: int
  waits :: nat
  posts :: nat

datatype semm_op = Wait | Post

definition semm_init :: "int \<Rightarrow> int \<Rightarrow> semamore" where
  "semm_init v mx = \<lparr>sem_value = v, max_val = mx, waits = 0, posts = 0\<rparr>"

definition semm_wait_body :: "semamore \<Rightarrow> semamore \<times> bool" where
  "semm_wait_body s =
     (let s' = s\<lparr>sem_value := sem_value s - 1, waits := Suc (waits s)\<rparr>
      in (s', sem_value s' = max_val s' - 1))"

definition semm_post_body :: "semamore \<Rightarrow> semamore \<times> bool" where
  "semm_post_body s =
     (let s' = s\<lparr>sem_value := sem_value s + 1, posts := Suc (posts s)\<rparr>
      in (s', sem_value s' = 1))"

definition semm_destroy :: "nat list \<Rightarrow> (semamore, 'o, 'l, 'r) mon \<Rightarrow> unit res" where
  "semm_destroy threads m = destroy_monitor threads m"

fun semm_blocked :: "semm_op \<Rightarrow> semamore \<Rightarrow> bool" where
  \<comment> \<open>the conditions of the two \<open>while\<close> loops\<close>
  "semm_blocked Wait s = (sem_value s = 0)"
| "semm_blocked Post s = (sem_value s = max_val s)"

fun semm_body :: "semm_op \<Rightarrow> semamore \<Rightarrow> semamore \<times> bool" where
  "semm_body Wait s = semm_wait_body s"
| "semm_body Post s = semm_post_body s"

definition semm_enter :: "semm_op \<Rightarrow> semamore \<Rightarrow> semamore \<Rightarrow> semm_op \<Rightarrow> bool \<Rightarrow> bool" where
  "semm_enter p s s' l b \<longleftrightarrow> s' = s \<and> l = p \<and> \<not> b"

definition semm_ready :: "semm_op \<Rightarrow> semamore \<Rightarrow> bool" where
  "semm_ready l s \<longleftrightarrow> \<not> semm_blocked l s"

definition semm_leave :: "semm_op \<Rightarrow> semamore \<Rightarrow> semamore \<Rightarrow> unit \<Rightarrow> bool \<Rightarrow> bool" where
  "semm_leave l s s' r b \<longleftrightarrow> semm_body l s = (s', b)"

definition semm_inv :: "int \<Rightarrow> int \<Rightarrow> semamore \<Rightarrow> bool" where
  "semm_inv v0 mx s \<longleftrightarrow> max_val s = mx \<and> 0 \<le> sem_value s \<and> sem_value s \<le> mx
     \<and> sem_value s = v0 + int (posts s) - int (waits s)"

lemmas semm_defs = semm_enter_def semm_ready_def semm_leave_def semm_inv_def
  semm_wait_body_def semm_post_body_def Let_def

interpretation sem:
  monitor semm_enter semm_ready semm_leave "semm_inv v0 mx" "\<lambda>_ _. True"
proof unfold_locales
  fix s s' :: semamore and l k :: semm_op and r :: unit and b
  assume "semm_inv v0 mx s" and r: "semm_ready l s" and lv: "semm_leave l s s' r b"
  then show "semm_inv v0 mx s'" by (cases l) (auto simp: semm_defs)
  assume "\<not> semm_ready k s" and "semm_ready k s'"
  then show b using r lv by (cases l; cases k) (auto simp: semm_defs)
qed (auto simp: semm_defs)

text \<open>
  C8: in every state any number of threads can reach by calling \<open>semm_wait\<close> and \<open>semm_post\<close>
  on a semaphore initialised with \<open>0 \<le> v0 \<le> mx\<close>: the value stays between 0 and \<open>mx\<close> and is
  \<open>v0\<close> plus the completed posts minus the completed waits; a thread sleeps in \<open>semm_wait\<close> only
  while the value is 0 and in \<open>semm_post\<close> only while it is \<open>mx\<close>, so no wake-up is lost; and at
  most one thread is inside the critical section.
\<close>

theorem semm_correct:
  assumes "mon_reach semm_enter semm_ready semm_leave (semm_init v0 mx) m"
    and "0 \<le> v0" and "v0 \<le> mx"
  shows "0 \<le> sem_value (shared m) \<and> sem_value (shared m) \<le> mx
     \<and> sem_value (shared m) = v0 + int (posts (shared m)) - int (waits (shared m))
     \<and> (phase m t = Sleeping Wait \<longrightarrow> sem_value (shared m) = 0)
     \<and> (phase m t = Sleeping Post \<longrightarrow> sem_value (shared m) = mx)
     \<and> (holding (phase m t) \<and> holding (phase m u) \<longrightarrow> t = u)"
proof -
  have i: "semm_inv v0 mx (semm_init v0 mx)"
    using assms(2,3) by (simp add: semm_inv_def semm_init_def)
  have s: "semm_inv v0 mx (shared m)" by (rule sem.shared_inv[OF assms(1) i])
  have "\<not> semm_ready l (shared m)" if "phase m t = Sleeping l" for l
    by (rule sem.no_lost_wakeup[OF assms(1) i that])
  then have w: "phase m t = Sleeping Wait \<longrightarrow> sem_value (shared m) = 0"
    "phase m t = Sleeping Post \<longrightarrow> sem_value (shared m) = max_val (shared m)"
    by (auto simp: semm_ready_def)
  show ?thesis
    using s w sem.mutual_exclusion[OF assms(1) i] by (auto simp: semm_inv_def)
qed

lemma semm_sleeper_reachable:
  "mon_reach semm_enter semm_ready semm_leave (semm_init 0 2)
     \<lparr>owner = None, phase = (\<lambda>_. Idle)(7 := Sleeping Wait), shared = semm_init 0 2\<rparr>"
  by (rule mon_reach_sleeper[where p = Wait])
    (simp_all add: semm_enter_def semm_ready_def semm_init_def)

theorem semm_correct_witness:
  "0 \<le> sem_value (semm_init 0 2) \<and> sem_value (semm_init 0 2) \<le> 2
     \<and> sem_value (semm_init 0 2) = 0 + int (posts (semm_init 0 2)) - int (waits (semm_init 0 2))
     \<and> sem_value (semm_init 0 2) = 0"
  using semm_correct[OF semm_sleeper_reachable, of 7 7] by simp

end
