(* ===== verification/Barrier.thy ===== *)
theory Barrier
  imports Monitor
begin

text \<open>
  The reusable barrier of \<^verbatim>\<open>critical_concurrency/barrier.c\<close>. All fields are \<open>unsigned int\<close>. The
  ghost fields \<open>arrivals\<close> and \<open>rounds\<close> count the calls of \<open>barrier_wait\<close> that have passed the
  mutex and the resets of \<open>count\<close>; a waiting thread carries its arrival number and the value of
  \<open>times_used\<close> it saved, if it is not the last of its round.
\<close>

record barrier =
  n_threads :: "32 word"
  count :: "32 word"
  times_used :: "32 word"
  arrivals :: nat
  rounds :: nat

definition barrier_init :: "32 word \<Rightarrow> barrier" where
  "barrier_init n = \<lparr>n_threads = n, count = 0, times_used = 0, arrivals = 0, rounds = 0\<rparr>"

definition barrier_arrive :: "barrier \<Rightarrow> barrier \<times> 32 word option \<times> bool" where
  \<comment> \<open>\<open>barrier_wait\<close> up to the waiting loop: the new state, the saved \<open>times_used\<close> (none for
     the last thread), and whether it broadcasts\<close>
  "barrier_arrive s =
     (let s1 = (if count s = n_threads s
                then s\<lparr>count := 0, times_used := times_used s + 1, rounds := Suc (rounds s)\<rparr>
                else s);
          s2 = s1\<lparr>count := count s1 + 1, arrivals := Suc (arrivals s1)\<rparr>
      in if count s2 = n_threads s2 then (s2, None, True) else (s2, Some (times_used s2), False))"

fun barrier_blocked :: "32 word option \<Rightarrow> barrier \<Rightarrow> bool" where
  \<comment> \<open>the condition of the \<open>while\<close> loop; the last thread of a round does not enter it\<close>
  "barrier_blocked None s = False"
| "barrier_blocked (Some old) s = (old = times_used s \<and> count s \<noteq> n_threads s)"

definition barrier_destroy :: "nat list \<Rightarrow> (barrier, 'o, 'l, 'r) mon \<Rightarrow> int res" where
  "barrier_destroy threads m = rbind (destroy_monitor threads m) (\<lambda>_. Inr 0)"

type_synonym ticket = "nat \<times> 32 word option"

definition barrier_enter :: "unit \<Rightarrow> barrier \<Rightarrow> barrier \<Rightarrow> ticket \<Rightarrow> bool \<Rightarrow> bool" where
  "barrier_enter p s s' l b \<longleftrightarrow> (\<exists>old. barrier_arrive s = (s', old, b) \<and> l = (arrivals s', old))"

definition barrier_ready :: "ticket \<Rightarrow> barrier \<Rightarrow> bool" where
  "barrier_ready l s \<longleftrightarrow> \<not> barrier_blocked (snd l) s"

definition barrier_leave :: "ticket \<Rightarrow> barrier \<Rightarrow> barrier \<Rightarrow> nat \<Rightarrow> bool \<Rightarrow> bool" where
  "barrier_leave l s s' r b \<longleftrightarrow> s' = s \<and> r = fst l \<and> \<not> b"

definition barrier_inv :: "32 word \<Rightarrow> barrier \<Rightarrow> bool" where
  "barrier_inv n s \<longleftrightarrow> n_threads s = n \<and> 0 < n \<and> count s \<le> n
     \<and> arrivals s = unat n * rounds s + unat (count s)
     \<and> times_used s = word_of_nat (rounds s)"

definition ticket_ok :: "32 word \<Rightarrow> ticket \<Rightarrow> barrier \<Rightarrow> bool" where
  \<comment> \<open>the thread arrived in round \<open>k\<close>, as number \<open>fst l\<close> over all rounds\<close>
  "ticket_ok n l s \<longleftrightarrow>
     (\<exists>k \<le> rounds s. unat n * k < fst l \<and> fst l \<le> unat n * Suc k \<and> fst l \<le> arrivals s
        \<and> (case snd l of None \<Rightarrow> fst l = unat n * Suc k | Some old \<Rightarrow> old = word_of_nat k))"

lemma unat_count_inc:
  assumes "(c :: 32 word) < n"
  shows "unat (c + 1) = Suc (unat c)" and "c + 1 \<le> n"
proof -
  have "unat c < unat n" "unat n < 2 ^ 32"
    using assms unsigned_less[of n, where ?'a = nat] by (simp_all add: word_less_nat_alt)
  then show u: "unat (c + 1) = Suc (unat c)" by (simp add: unat_word_ariths)
  show "c + 1 \<le> n" using assms u by (simp add: word_le_nat_alt word_less_nat_alt)
qed

lemma barrier_arrive_inv:
  assumes I: "barrier_inv n s" and a: "barrier_arrive s = (s', old, b)"
  shows "barrier_inv n s' \<and> rounds s \<le> rounds s' \<and> arrivals s' = Suc (arrivals s)
     \<and> ticket_ok n (arrivals s', old) s'"
proof (cases "count s = n")
  case True
  have "0 < n" using I by (simp add: barrier_inv_def)
  then have c: "unat (0 + 1 :: 32 word) = Suc 0" "(1::32 word) \<le> n" "0 < unat n"
    by (auto simp: word_le_nat_alt word_less_nat_alt)
  have "unat n = Suc 0" if "n = 1" using that by simp
  then show ?thesis using I a True c
    by (auto simp: barrier_inv_def barrier_arrive_def ticket_ok_def Let_def split: if_splits
        intro!: exI[of _ "Suc (rounds s)"])
next
  case False
  then have lt: "count s < n" using I by (auto simp: barrier_inv_def)
  note u = unat_count_inc[OF lt]
  have le: "Suc (unat (count s)) \<le> unat n" using lt by (simp add: word_less_nat_alt)
  have eq: "Suc (unat (count s)) = unat n" if "count s + 1 = n" using that u(1) by simp
  show ?thesis using I a False u le eq
    by (auto simp: barrier_inv_def barrier_arrive_def ticket_ok_def Let_def split: if_splits
        intro!: exI[of _ "rounds s"])
qed

lemma ticket_ok_mono:
  "ticket_ok n k s \<Longrightarrow> rounds s \<le> rounds s' \<Longrightarrow> arrivals s \<le> arrivals s' \<Longrightarrow> ticket_ok n k s'"
  unfolding ticket_ok_def by (meson le_trans)

interpretation bar:
  monitor barrier_enter barrier_ready barrier_leave "barrier_inv n" "ticket_ok n"
proof unfold_locales
  fix p s s' l b k
  assume I: "barrier_inv n s" and e: "barrier_enter p s s' l b"
  then obtain old where a: "barrier_arrive s = (s', old, b)" "l = (arrivals s', old)"
    by (auto simp: barrier_enter_def)
  note ai = barrier_arrive_inv[OF I a(1)]
  show "barrier_inv n s' \<and> ticket_ok n l s'" using ai unfolding a(2) by blast
  assume k: "ticket_ok n k s"
  show "ticket_ok n k s'" by (rule ticket_ok_mono[OF k]) (use ai in simp_all)
  assume "\<not> barrier_ready k s" and "barrier_ready k s'"
  then show b using a(1)
    by (cases "snd k") (auto simp: barrier_ready_def barrier_arrive_def Let_def split: if_splits)
qed (auto simp: barrier_leave_def)

lemma ticket_round:
  assumes "unat n * k < i" and "i \<le> unat n * Suc k"
  shows "(i + unat n - 1) div unat n = Suc k"
proof -
  from assms(1) obtain j where i: "i = Suc (unat n * k + j)" by (blast dest: less_imp_Suc_add)
  have j: "i = unat n * k + Suc j" "Suc j \<le> unat n" using assms(2) i by simp_all
  have "i + unat n - 1 = j + unat n * Suc k" using j by simp
  moreover have "j div unat n = 0" and "0 < unat n" using j(2) by simp_all
  ultimately show ?thesis by (metis add.right_neutral add.commute div_mult_self2 nat_less_le)
qed

definition round_end :: "32 word \<Rightarrow> nat \<Rightarrow> nat" where
  \<comment> \<open>the number of the last arrival in the round of the \<open>i\<close>-th arrival\<close>
  "round_end n i = unat n * ((i + unat n - 1) div unat n)"

text \<open>
  C9: in every state any number of threads can reach by calling \<open>barrier_wait\<close> on a barrier
  for \<open>n > 0\<close> threads, a thread is past the waiting loop only when all \<open>n\<close> threads of its own
  round have arrived, also when the threads of the next round are already arriving; and a
  thread sleeps only while its round is incomplete (for the first \<open>2 ^ 32\<close> rounds, after which
  \<open>times_used\<close> wraps), so a complete round is released as a whole.
\<close>

theorem barrier_wait_correct:
  assumes "mon_reach barrier_enter barrier_ready barrier_leave (barrier_init n) m" and "0 < n"
  shows "(phase m t = Testing l \<and> barrier_ready l (shared m)
            \<longrightarrow> round_end n (fst l) \<le> arrivals (shared m))
     \<and> (phase m t = Sleeping l \<and> rounds (shared m) < 2 ^ 32
            \<longrightarrow> arrivals (shared m) < round_end n (fst l))"
proof -
  have i: "barrier_inv n (barrier_init n)" using assms(2) by (simp add: barrier_inv_def barrier_init_def)
  have s: "barrier_inv n (shared m)" by (rule bar.shared_inv[OF assms(1) i])
  let ?s = "shared m"
  have tk: "\<exists>k \<le> rounds ?s. round_end n (fst l) = unat n * Suc k \<and> fst l \<le> arrivals ?s
       \<and> (case snd l of None \<Rightarrow> fst l = unat n * Suc k | Some old \<Rightarrow> old = word_of_nat k)"
    if "waiting (phase m t) = Some l"
    using bar.leaving_ok[OF assms(1) i that] unfolding ticket_ok_def round_end_def
    by (metis ticket_round)
  show ?thesis
  proof (intro conjI impI; elim conjE)
    assume p: "phase m t = Testing l" and r: "barrier_ready l ?s"
    from tk p obtain k where k: "k \<le> rounds ?s" "round_end n (fst l) = unat n * Suc k"
      "fst l \<le> arrivals ?s"
      "case snd l of None \<Rightarrow> fst l = unat n * Suc k | Some old \<Rightarrow> old = word_of_nat k" by auto
    have "unat n * Suc k \<le> unat n * rounds ?s" if "k < rounds ?s" using that by (intro mult_le_mono) auto
    then show "round_end n (fst l) \<le> arrivals ?s" using k r s
      by (cases "snd l"; cases "k = rounds ?s") (auto simp: barrier_ready_def barrier_inv_def)
  next
    assume p: "phase m t = Sleeping l" and w: "rounds ?s < 2 ^ 32"
    from bar.no_lost_wakeup[OF assms(1) i p] obtain old where
      old: "snd l = Some old" "old = times_used ?s" "count ?s \<noteq> n_threads ?s"
      by (cases "snd l") (auto simp: barrier_ready_def)
    from tk p old obtain k where k: "k \<le> rounds ?s" "round_end n (fst l) = unat n * Suc k"
      "times_used ?s = word_of_nat k" by auto
    have "word_of_nat (rounds ?s) = (word_of_nat k :: 32 word)" using k(3) s by (simp add: barrier_inv_def)
    then have "rounds ?s mod 2 ^ 32 = k mod 2 ^ 32"
      using unat_of_nat[of "rounds ?s", where 'a = 32] unat_of_nat[of k, where 'a = 32]
      by (simp only: len_num0 len_num1 len_bit0 len_bit1 mult_1 mult_1_right) simp
    then have "k = rounds ?s" using k(1) w by (metis le_less_trans mod_less)
    moreover have "unat (count ?s) < unat n" using s old(3)
      by (auto simp: barrier_inv_def word_less_nat_alt[symmetric])
    ultimately show "arrivals ?s < round_end n (fst l)" using k s by (simp add: barrier_inv_def)
  qed
qed

lemma barrier_sleeper_reachable:
  "mon_reach barrier_enter barrier_ready barrier_leave (barrier_init 2)
     \<lparr>owner = None, phase = (\<lambda>_. Idle)(4 := Sleeping (1, Some 0)),
      shared = (barrier_init 2)\<lparr>count := 1, arrivals := 1\<rparr>\<rparr>"
  by (rule mon_reach_sleeper[where p = "()"])
    (simp_all add: barrier_enter_def barrier_arrive_def barrier_init_def barrier_ready_def Let_def)

theorem barrier_wait_correct_witness:
  "arrivals ((barrier_init 2)\<lparr>count := 1, arrivals := 1\<rparr>) < round_end 2 1"
  using barrier_wait_correct[OF barrier_sleeper_reachable, of 4 "(1, Some 0)"]
  by (simp add: barrier_init_def)

text \<open>
  A barrier cannot be destroyed by the thread that returns first: the others of its round may still be
  inside \<open>pthread_cond_wait\<close>.
\<close>

lemma barrier_destroy_after_wait_faults:
  "\<exists>m. mon_reach barrier_enter barrier_ready barrier_leave (barrier_init 2) m
     \<and> phase m 5 = Idle \<and> arrivals (shared m) = 2 \<and> barrier_destroy [4, 5] m = Inl Dangling"
proof -
  let ?m = "\<lparr>owner = None, phase = (\<lambda>_. Idle)(4 := Sleeping (1, Some 0)),
      shared = (barrier_init 2)\<lparr>count := 1, arrivals := 1\<rparr>\<rparr> :: (barrier, unit, ticket, nat) mon"
  let ?s = "(barrier_init 2)\<lparr>count := 2, arrivals := 2\<rparr>"
  have e: "barrier_enter () (shared ?m) ?s (2, None) True"
    by (simp add: barrier_enter_def barrier_arrive_def barrier_init_def Let_def)
  have l: "barrier_ready (2, None) ?s" "barrier_leave (2, None) ?s ?s 2 False"
    by (simp_all add: barrier_ready_def barrier_leave_def)
  have idle: "owner ?m = None" "phase ?m 5 = Idle" by simp_all
  have "mon_reach barrier_enter barrier_ready barrier_leave (barrier_init 2)
      \<lparr>owner = None, phase = (wake True (phase ?m))(5 := Idle), shared = ?s\<rparr>"
    using mon_reach_passer[where m = ?m and t = 5 and p = "()" and ?s1.0 = ?s and l = "(2, None)" and r = 2 and b = True,
        OF barrier_sleeper_reachable idle e l] .
  moreover have "barrier_destroy [4, 5] \<lparr>owner = None, phase = (wake True (phase ?m))(5 := Idle), shared = ?s\<rparr> = Inl Dangling"
    by (simp add: barrier_destroy_def destroy_monitor_def wake_def)
  ultimately show ?thesis by (intro exI conjI) (assumption | simp)+
qed

end
