(* ===== verification/Rendezvous.thy ===== *)
theory Rendezvous
  imports Prelude
begin

text \<open>
  The rendezvous of \<^verbatim>\<open>critical_concurrency/rendezvous_sol.c\<close>: two threads decode one quote each
  in place, post their semaphore, wait for the other's and print the other's quote. The two
  thread functions are the same code with A and B exchanged, so both are indexed by \<open>bool\<close>:
  thread \<open>t\<close> decodes \<open>quote t\<close> and prints \<open>quote (\<not> t)\<close>. Each step is one access to shared
  memory or one semaphore call.
\<close>

datatype rv_pc = Decoding nat | At_Wait | At_Print | Finished

record rv =
  quote :: "bool \<Rightarrow> 8 word list"
  sem :: "bool \<Rightarrow> nat"
  pc :: "bool \<Rightarrow> rv_pc"
  printed :: "bool \<Rightarrow> 8 word list option"

definition rv_main :: "(bool \<Rightarrow> 8 word list) \<Rightarrow> rv" where
  "rv_main cs = \<lparr>quote = (\<lambda>t. cs t @ [0]), sem = (\<lambda>_. 0), pc = (\<lambda>_. Decoding 0), printed = (\<lambda>_. None)\<rparr>"

inductive rv_step :: "rv \<Rightarrow> rv \<Rightarrow> bool" where
  decode: "pc s t = Decoding i \<Longrightarrow> i < length (quote s t) \<Longrightarrow> quote s t ! i \<noteq> 0 \<Longrightarrow>
     rv_step s (s\<lparr>quote := (quote s)(t := (quote s t)[i := quote s t ! i - 1]),
                  pc := (pc s)(t := Decoding (Suc i))\<rparr>)"
| post: "pc s t = Decoding i \<Longrightarrow> i < length (quote s t) \<Longrightarrow> quote s t ! i = 0 \<Longrightarrow>
     rv_step s (s\<lparr>sem := (sem s)(t := Suc (sem s t)), pc := (pc s)(t := At_Wait)\<rparr>)"
| wait: "pc s t = At_Wait \<Longrightarrow> 0 < sem s (\<not> t) \<Longrightarrow>
     rv_step s (s\<lparr>sem := (sem s)((\<not> t) := sem s (\<not> t) - 1), pc := (pc s)(t := At_Print)\<rparr>)"
| print: "pc s t = At_Print \<Longrightarrow>
     rv_step s (s\<lparr>printed := (printed s)(t := Some (takeWhile (\<lambda>c. c \<noteq> 0) (quote s (\<not> t)))),
                  pc := (pc s)(t := Finished)\<rparr>)"

inductive rv_reach :: "nat \<Rightarrow> rv \<Rightarrow> rv \<Rightarrow> bool" where
  \<comment> \<open>reachable in a number of steps\<close>
  zero: "rv_reach 0 s s"
| suc: "rv_reach n s s' \<Longrightarrow> rv_step s' s'' \<Longrightarrow> rv_reach (Suc n) s s''"

section \<open>Invariant\<close>

definition decoded :: "8 word list \<Rightarrow> 8 word list" where
  "decoded cs = map (\<lambda>c. c - 1) cs"

fun rv_done :: "rv_pc \<Rightarrow> bool" where
  "rv_done (Decoding i) = False"
| "rv_done p = True"

fun rv_passed :: "rv_pc \<Rightarrow> bool" where
  "rv_passed At_Print = True"
| "rv_passed Finished = True"
| "rv_passed p = False"

fun quote_ok :: "8 word list \<Rightarrow> rv_pc \<Rightarrow> 8 word list \<Rightarrow> bool" where
  "quote_ok c (Decoding i) q = (i \<le> length c \<and> q = decoded (take i c) @ drop i c @ [0])"
| "quote_ok c p q = (q = decoded c @ [0])"

definition rv_ok :: "(bool \<Rightarrow> 8 word list) \<Rightarrow> rv \<Rightarrow> bool \<Rightarrow> bool" where
  "rv_ok cs s t \<longleftrightarrow> quote_ok (cs t) (pc s t) (quote s t)
     \<and> sem s t + of_bool (rv_passed (pc s (\<not> t))) = of_bool (rv_done (pc s t))
     \<and> (pc s t = Finished \<longleftrightarrow> printed s t \<noteq> None)
     \<and> (\<forall>x. printed s t = Some x \<longrightarrow> x = takeWhile (\<lambda>c. c \<noteq> 0) (decoded (cs (\<not> t))))"

definition rv_inv :: "(bool \<Rightarrow> 8 word list) \<Rightarrow> rv \<Rightarrow> bool" where
  "rv_inv cs s \<longleftrightarrow> (\<forall>t. rv_ok cs s t)"

lemma rv_invI: "rv_ok cs s t \<Longrightarrow> rv_ok cs s (\<not> t) \<Longrightarrow> rv_inv cs s"
  unfolding rv_inv_def
proof
  fix u
  assume "rv_ok cs s t" and "rv_ok cs s (\<not> t)"
  moreover have "u = t \<or> u = (\<not> t)" by blast
  ultimately show "rv_ok cs s u" by blast
qed

lemma takeWhile_decoded: "takeWhile (\<lambda>c. c \<noteq> 0) (decoded cs @ [0]) = takeWhile (\<lambda>c. c \<noteq> 0) (decoded cs)"
  by (induction cs) (simp_all add: decoded_def)

lemma rv_inv_at:
  "rv_inv cs s \<Longrightarrow> pc s t = Decoding i \<Longrightarrow>
     i \<le> length (cs t) \<and> quote s t = decoded (take i (cs t)) @ drop i (cs t) @ [0]"
  unfolding rv_inv_def rv_ok_def by (drule spec[of _ t]) simp

lemma rv_inv_done: "rv_inv cs s \<Longrightarrow> rv_done (pc s t) \<Longrightarrow> quote s t = decoded (cs t) @ [0]"
  unfolding rv_inv_def rv_ok_def by (drule spec[of _ t]) (cases "pc s t"; simp)

lemma rv_inv_sem:
  "rv_inv cs s \<Longrightarrow> sem s t + of_bool (rv_passed (pc s (\<not> t))) = of_bool (rv_done (pc s t))"
  unfolding rv_inv_def rv_ok_def by (drule spec[of _ t]) simp

lemma decode_step:
  assumes "i < length cs"
  shows "(decoded (take i cs) @ drop i cs @ [0])[i := cs ! i - 1]
     = decoded (take (Suc i) cs) @ drop (Suc i) cs @ [0]"
proof -
  have "drop i cs = cs ! i # drop (Suc i) cs" using assms by (simp add: Cons_nth_drop_Suc)
  then show ?thesis using assms by (simp add: decoded_def take_Suc_conv_app_nth list_update_append)
qed

lemma rv_step_inv:
  assumes "rv_step s s'" and I: "rv_inv cs s" and nz: "\<forall>t. 0 \<notin> set (cs t)"
  shows "rv_inv cs s'"
proof -
  have ok: "rv_ok cs s t" "rv_ok cs s (\<not> t)" for t using I by (simp_all add: rv_inv_def)
  from assms(1) show ?thesis
  proof cases
    case (decode t i)
    from rv_inv_at[OF I decode(2)] have q: "i \<le> length (cs t)"
      "quote s t = decoded (take i (cs t)) @ drop i (cs t) @ [0]" by simp_all
    have i: "i < length (cs t)" using decode(3,4) q by (cases "i = length (cs t)") (auto simp: decoded_def nth_append)
    then have v: "quote s t ! i = cs t ! i" using q by (simp add: nth_append decoded_def)
    have "(quote s t)[i := quote s t ! i - 1] = decoded (take (Suc i) (cs t)) @ drop (Suc i) (cs t) @ [0]"
      unfolding v unfolding q(2) by (rule decode_step[OF i])
    then show ?thesis using ok[of t] i decode(1,2)
      by (intro rv_invI[of cs s' t]) (auto simp: rv_ok_def)
  next
    case (post t i)
    from rv_inv_at[OF I post(2)] have q: "i \<le> length (cs t)"
      "quote s t = decoded (take i (cs t)) @ drop i (cs t) @ [0]" by simp_all
    have "i = length (cs t)"
    proof (rule ccontr)
      assume "i \<noteq> length (cs t)"
      with q have "i < length (cs t)" "quote s t ! i = cs t ! i" by (simp_all add: nth_append decoded_def)
      then show False using post(4) nz nth_mem by metis
    qed
    then have "quote s t = decoded (cs t) @ [0]" using q by simp
    then show ?thesis using ok[of t] post(1,2)
      by (intro rv_invI[of cs s' t]) (auto simp: rv_ok_def)
  next
    case (wait t)
    have "pc s (\<not> t) \<noteq> Decoding i" for i using wait(3) rv_inv_sem[OF I, of "\<not> t"] by auto
    then show ?thesis using ok[of t] wait
      by (intro rv_invI[of cs s' t]) (auto simp: rv_ok_def)
  next
    case (print t)
    have "rv_done (pc s (\<not> t))" using print(2) rv_inv_sem[OF I, of "\<not> t"]
      by (cases "rv_done (pc s (\<not> t))") auto
    from rv_inv_done[OF I this] show ?thesis using ok[of t] print
      by (intro rv_invI[of cs s' t]) (auto simp: rv_ok_def takeWhile_decoded)
  qed
qed

lemma rv_reach_inv:
  assumes "rv_reach n (rv_main cs) s" and "\<forall>t. 0 \<notin> set (cs t)"
  shows "rv_inv cs s"
  using assms(1)
proof (induction n "rv_main cs" s rule: rv_reach.induct)
  case zero
  show ?case by (simp add: rv_inv_def rv_ok_def rv_main_def decoded_def)
next
  case (suc n s' s'')
  then show ?case using rv_step_inv assms(2) by blast
qed

section \<open>Progress\<close>

fun rv_left :: "8 word list \<Rightarrow> rv_pc \<Rightarrow> nat" where
  \<comment> \<open>the steps a thread still has to take\<close>
  "rv_left c (Decoding i) = length c - i + 3"
| "rv_left c At_Wait = 2"
| "rv_left c At_Print = 1"
| "rv_left c Finished = 0"

definition rv_total :: "(bool \<Rightarrow> 8 word list) \<Rightarrow> rv \<Rightarrow> nat" where
  "rv_total cs s = rv_left (cs True) (pc s True) + rv_left (cs False) (pc s False)"

lemma rv_total_upd:
  "rv_left (cs t) (pc s t) = Suc (rv_left (cs t) p) \<Longrightarrow> pc s' = (pc s)(t := p)
     \<Longrightarrow> rv_total cs s = Suc (rv_total cs s')"
  by (cases t) (simp_all add: rv_total_def)

lemma rv_step_total:
  assumes "rv_step s s'" and I: "rv_inv cs s" and nz: "\<forall>t. 0 \<notin> set (cs t)"
  shows "rv_total cs s = Suc (rv_total cs s')"
  using assms(1)
proof cases
  case (decode t i)
  have I': "rv_inv cs s'" by (rule rv_step_inv[OF assms])
  have "pc s' t = Decoding (Suc i)" using decode(1) by simp
  from rv_inv_at[OF I' this] have "Suc i \<le> length (cs t)" by simp
  then show ?thesis using decode by (intro rv_total_upd[where t = t]) auto
next
  case (post t i)
  have I': "rv_inv cs s'" by (rule rv_step_inv[OF assms])
  have "quote s t = decoded (cs t) @ [0]" using rv_inv_done[OF I', of t] post(1) by simp
  moreover note rv_inv_at[OF I post(2)]
  moreover have "i = length (cs t)"
  proof (rule ccontr)
    assume "i \<noteq> length (cs t)"
    with rv_inv_at[OF I post(2)] have "i < length (cs t)" "quote s t ! i = cs t ! i"
      by (simp_all add: nth_append decoded_def)
    then show False using post(4) nz nth_mem by metis
  qed
  ultimately show ?thesis using post by (intro rv_total_upd[where t = t]) auto
qed (rule rv_total_upd; auto)+

lemma rv_progress:
  assumes I: "rv_inv cs s" and "pc s t \<noteq> Finished"
  shows "\<exists>s'. rv_step s s'"
proof (cases "\<exists>u i. pc s u = Decoding i")
  case True
  then obtain u i where u: "pc s u = Decoding i" by blast
  from rv_inv_at[OF I u] have "i < length (quote s u)" by (simp add: decoded_def)
  then show ?thesis using u rv_step.decode rv_step.post by (cases "quote s u ! i = 0") blast+
next
  case False
  then have d: "rv_done (pc s u)" for u by (cases "pc s u") auto
  show ?thesis
  proof (cases "pc s t = At_Print")
    case True
    then show ?thesis using rv_step.print by blast
  next
    case no: False
    then have w: "pc s t = At_Wait" using assms(2) d[of t] by (cases "pc s t") auto
    have "sem s (\<not> t) > 0" using rv_inv_sem[OF I, of "\<not> t"] d[of "\<not> t"] w by simp
    then show ?thesis using w rv_step.wait by blast
  qed
qed

text \<open>
  C10: for all quotes and in all interleavings of the two threads: a thread that prints, prints
  the fully decoded quote the other thread was working on; the program cannot deadlock: as
  long as a thread has not finished, some thread has a step; and every run ends, after exactly
  \<open>|A| + |B| + 6\<close> steps.
\<close>

theorem rendezvous_correct:
  assumes "rv_reach n (rv_main cs) s" and "\<forall>t. 0 \<notin> set (cs t)"
  shows "(\<forall>x. printed s t = Some x \<longrightarrow> x = takeWhile (\<lambda>c. c \<noteq> 0) (decoded (cs (\<not> t))))
     \<and> (pc s t \<noteq> Finished \<longrightarrow> (\<exists>s'. rv_step s s'))
     \<and> n \<le> length (cs True) + length (cs False) + 6
     \<and> (n = length (cs True) + length (cs False) + 6 \<longrightarrow> pc s t = Finished \<and> printed s t \<noteq> None)"
proof -
  have I: "rv_inv cs s" by (rule rv_reach_inv[OF assms])
  have "n + rv_total cs s = length (cs True) + length (cs False) + 6"
    using assms(1)
  proof (induction n "rv_main cs" s rule: rv_reach.induct)
    case zero
    show ?case by (simp add: rv_total_def rv_main_def)
  next
    case (suc n s' s'')
    then show ?case using rv_step_total[OF suc(3) rv_reach_inv[OF suc(1) assms(2)] assms(2)] by simp
  qed
  moreover have "pc s t = Finished" if "rv_total cs s = 0"
    using that by (cases t; cases "pc s t") (auto simp: rv_total_def)
  moreover have "rv_ok cs s t" using I by (simp add: rv_inv_def)
  ultimately show ?thesis using rv_progress[OF I, of t] unfolding rv_ok_def by auto
qed

theorem rendezvous_correct_witness:
  "\<exists>s'. rv_step (rv_main (\<lambda>t. if t then [75, 33] else [86])) s'"
  using rendezvous_correct[OF rv_reach.zero, of "\<lambda>t. if t then [75, 33] else [86]" True]
  by (simp add: rv_main_def)

end
