(* ===== verification/Memcheck.thy ===== *)
theory Memcheck
  imports Heap
begin

text \<open>
  The allocation tracker of \<^verbatim>\<open>mini_memcheck/mini_memcheck.c\<close>: every allocation of the program is
  preceded by a \<open>meta_data\<close> node; the nodes of the live allocations form a singly linked list,
  and three counters of type \<open>size_t\<close> hold the bytes requested, the bytes freed and the calls
  with a bad address. \<open>malloc\<close> and \<open>realloc\<close> of the C library are outside: each operation takes
  the address they answer with (\<open>None\<close> for \<open>NULL\<close>). The size of a node, declared in a header that
  is not part of the repository, is the parameter \<open>ms\<close>.
\<close>

record meta_data =
  nxt :: "addr option"
  request_size :: "64 word"
  filename :: nat
  instruction :: nat

record memcheck =
  mhead :: "addr option"
  metas :: "meta_data heap"
  total_memory_requested :: "64 word"
  total_memory_freed :: "64 word"
  invalid_addresses :: "64 word"

definition memcheck_start :: memcheck where
  "memcheck_start = \<lparr>mhead = None, metas = Map.empty, total_memory_requested = 0,
     total_memory_freed = 0, invalid_addresses = 0\<rparr>"

section \<open>Operations\<close>

definition new_node :: "memcheck \<Rightarrow> 64 word \<Rightarrow> nat \<Rightarrow> nat \<Rightarrow> addr \<Rightarrow> memcheck" where
  \<comment> \<open>fill in a node and put it in front of the list\<close>
  "new_node st n fn ins a = st\<lparr>
     metas := (metas st)(a \<mapsto> \<lparr>nxt = mhead st, request_size = n, filename = fn, instruction = ins\<rparr>),
     mhead := Some a\<rparr>"

definition mini_malloc ::
  "nat \<Rightarrow> memcheck \<Rightarrow> 64 word \<Rightarrow> nat \<Rightarrow> nat \<Rightarrow> addr option \<Rightarrow> addr option \<times> memcheck" where
  "mini_malloc ms st n fn ins node =
     (if n = 0 then (None, st)
      else case node of None \<Rightarrow> (None, st)
      | Some a \<Rightarrow> (Some (a + ms), (new_node st n fn ins a)
          \<lparr>total_memory_requested := total_memory_requested st + n\<rparr>))"

definition mini_calloc ::
  "nat \<Rightarrow> memcheck \<Rightarrow> 64 word \<Rightarrow> 64 word \<Rightarrow> nat \<Rightarrow> nat \<Rightarrow> addr option \<Rightarrow> addr option \<times> memcheck" where
  "mini_calloc ms st num el fn ins node =
     (if num = 0 \<or> el = 0 then (None, st)
      else case node of None \<Rightarrow> (None, st)
      | Some a \<Rightarrow> (Some (a + ms), (new_node st (el * num) fn ins a)
          \<lparr>total_memory_requested := total_memory_requested st + el * num\<rparr>))"

fun mc_search ::
  "nat \<Rightarrow> nat \<Rightarrow> meta_data heap \<Rightarrow> addr \<Rightarrow> addr option \<Rightarrow> addr option
     \<Rightarrow> (addr option + addr \<times> addr) res" where
  \<comment> \<open>the search loop of \<open>mini_realloc\<close> and \<open>mini_free\<close>, with at most the given number of tests
     of its condition: \<open>Inr (prev, cur)\<close> when \<open>cur\<close> is the node of the payload, \<open>Inl prev\<close> when
     the loop ends\<close>
  "mc_search 0 ms h payload prev cur = Inl Diverges"
| "mc_search (Suc k) ms h payload prev cur =
     (case (prev, cur) of
        (Some p, Some c) \<Rightarrow>
          if payload = c + ms then Inr (Inr (p, c))
          else rbind (ld h prev) (\<lambda>pn. rbind (ld h cur) (\<lambda>cn.
               mc_search k ms h payload (nxt pn) (nxt cn)))
      | _ \<Rightarrow> Inr (Inl prev))"

definition mset :: "memcheck \<Rightarrow> addr \<Rightarrow> (meta_data \<Rightarrow> meta_data) \<Rightarrow> memcheck res" where
  "mset st a f = rbind (upd (metas st) (Some a) f) (\<lambda>h. Inr (st\<lparr>metas := h\<rparr>))"

definition bad_address :: "memcheck \<Rightarrow> memcheck" where
  "bad_address st = st\<lparr>invalid_addresses := invalid_addresses st + 1\<rparr>"

definition count_freed :: "memcheck \<Rightarrow> 64 word \<Rightarrow> memcheck" where
  "count_freed st n = st\<lparr>total_memory_freed := total_memory_freed st + n\<rparr>"

definition mini_free :: "nat \<Rightarrow> nat \<Rightarrow> memcheck \<Rightarrow> addr option \<Rightarrow> memcheck res" where
  "mini_free ms fuel st payload =
     (case payload of None \<Rightarrow> Inr st | Some p \<Rightarrow>
      case mhead st of None \<Rightarrow> Inr (bad_address st) | Some hp \<Rightarrow>
      rbind (ld (metas st) (Some hp)) (\<lambda>hn.
      rbind (mc_search fuel ms (metas st) p (Some hp) (nxt hn)) (\<lambda>r.
      case r of
        Inr (prev, cur) \<Rightarrow>
          rbind (ld (metas st) (Some cur)) (\<lambda>cn.
          rbind (mset (count_freed st (request_size cn)) prev (\<lambda>m. m\<lparr>nxt := nxt cn\<rparr>)) (\<lambda>st1.
          rbind (mset st1 cur (\<lambda>m. m\<lparr>nxt := None\<rparr>)) (\<lambda>st2.
          rbind (release (metas st2) (Some cur)) (\<lambda>h. Inr (st2\<lparr>metas := h\<rparr>)))))
      | Inl prev \<Rightarrow>
          if prev = None then Inr (bad_address st)
          else if p = hp + ms then
            rbind (ld (metas st) (Some hp)) (\<lambda>hn.
            rbind (mset (count_freed st (request_size hn)) hp (\<lambda>m. m\<lparr>nxt := None\<rparr>)) (\<lambda>st1.
            rbind (release (metas st1) (Some hp)) (\<lambda>h.
            Inr (st1\<lparr>metas := h, mhead := nxt hn\<rparr>))))
          else Inr (bad_address st))))"

definition mini_realloc ::
  "nat \<Rightarrow> nat \<Rightarrow> memcheck \<Rightarrow> addr option \<Rightarrow> 64 word \<Rightarrow> nat \<Rightarrow> nat \<Rightarrow> addr option
     \<Rightarrow> (addr option \<times> memcheck) res" where
  "mini_realloc ms fuel st payload n fn ins ans =
     (case payload of
        None \<Rightarrow> if n \<noteq> 0 then Inr (mini_malloc ms st n fn ins ans) else Inr (None, st)
      | Some p \<Rightarrow>
        if n = 0 then rbind (mini_free ms fuel st payload) (\<lambda>st. Inr (None, st))
        else case mhead st of None \<Rightarrow> Inr (None, bad_address st) | Some hp \<Rightarrow>
        rbind (ld (metas st) (Some hp)) (\<lambda>hn.
        rbind (mc_search fuel ms (metas st) p (Some hp) (nxt hn)) (\<lambda>r.
        case r of
          Inr (prev, cur) \<Rightarrow>
            rbind (ld (metas st) (Some cur)) (\<lambda>cn.
            if request_size cn < n then
              rbind (mset (st\<lparr>total_memory_requested := total_memory_requested st + (n - request_size cn)\<rparr>)
                       prev (\<lambda>m. m\<lparr>nxt := nxt cn\<rparr>)) (\<lambda>st1.
              rbind (mset st1 cur (\<lambda>m. m\<lparr>nxt := None\<rparr>)) (\<lambda>st2.
              case ans of None \<Rightarrow> Inr (None, st2)
              | Some a \<Rightarrow> rbind (release (metas st2) (Some cur)) (\<lambda>h.
                  Inr (Some (a + ms), new_node (st2\<lparr>metas := h\<rparr>) n fn ins a))))
            else if request_size cn > n then
              rbind (mset (count_freed st (request_size cn - n)) cur
                       (\<lambda>m. m\<lparr>request_size := n, instruction := ins, filename := fn\<rparr>)) (\<lambda>st1.
              Inr (payload, st1))
            else Inr (payload, st))
        | Inl prev \<Rightarrow>
            if prev = None then Inr (None, bad_address st)
            else if p = hp + ms then
              rbind (ld (metas st) (Some hp)) (\<lambda>hn.
              if request_size hn < n then
                rbind (mset (st\<lparr>total_memory_requested := total_memory_requested st + (n - request_size hn)\<rparr>)
                         hp (\<lambda>m. m\<lparr>nxt := None\<rparr>)) (\<lambda>st1.
                case ans of None \<Rightarrow> Inr (None, st1\<lparr>mhead := None\<rparr>)
                | Some a \<Rightarrow> rbind (release (metas st1) (Some hp)) (\<lambda>h.
                    Inr (Some (a + ms), st1\<lparr>metas := h(a \<mapsto> \<lparr>nxt = nxt hn, request_size = n,
                           filename = fn, instruction = ins\<rparr>), mhead := Some a\<rparr>)))
              else if request_size hn > n then
                rbind (mset (count_freed st (request_size hn - n)) hp
                         (\<lambda>m. m\<lparr>request_size := n, instruction := ins, filename := fn\<rparr>)) (\<lambda>st1.
                Inr (payload, st1))
              else Inr (payload, st))
            else Inr (None, bad_address st))))"

section \<open>The tracked allocations\<close>

definition mc_wf :: "memcheck \<Rightarrow> addr list \<Rightarrow> bool" where
  "mc_wf st as \<longleftrightarrow> mhead st = first as \<and> dom (metas st) = set as \<and> distinct as
     \<and> slinks (fld nxt (metas st)) as None"

definition live_bytes :: "memcheck \<Rightarrow> addr list \<Rightarrow> 64 word" where
  "live_bytes st as = sum_list (map (fld request_size (metas st)) as)"

definition mc_ok :: "memcheck \<Rightarrow> addr list \<Rightarrow> bool" where
  "mc_ok st as \<longleftrightarrow> mc_wf st as
     \<and> total_memory_requested st - total_memory_freed st = live_bytes st as"

lemma mset_ok [simp]: "metas st a = Some n \<Longrightarrow> mset st a f = Inr (st\<lparr>metas := (metas st)(a \<mapsto> f n)\<rparr>)"
  by (simp add: mset_def)

lemma count_freed_simps [simp]:
  "metas (count_freed st n) = metas st" "mhead (count_freed st n) = mhead st"
  "total_memory_requested (count_freed st n) = total_memory_requested st"
  "total_memory_freed (count_freed st n) = total_memory_freed st + n"
  "invalid_addresses (count_freed st n) = invalid_addresses st"
  by (simp_all add: count_freed_def)

lemma mc_search_ok:
  assumes "slinks (fld nxt h) (u # vs) None" and "set (u # vs) \<subseteq> dom h" and "length vs < k"
  shows "payload \<notin> (\<lambda>a. a + ms) ` set vs \<Longrightarrow>
      mc_search k ms h payload (Some u) (first vs) = Inr (Inl (Some (last (u # vs))))"
    and "vs = xs @ c # ys \<Longrightarrow> c \<notin> set xs \<Longrightarrow> payload = c + ms \<Longrightarrow>
      mc_search k ms h payload (Some u) (first vs) = Inr (Inr (last (u # xs), c))"
  using assms
proof (induction vs arbitrary: u k xs)
  case Nil
  {
    case 1
    then show ?case by (cases k) auto
  next
    case 2
    then show ?case by simp
  }
next
  case (Cons v vs)
  {
    case 1
    then obtain n m j where n: "h u = Some n" "h v = Some m" "k = Suc j" by (cases k) auto
    then have "nxt n = Some v" "nxt m = first vs" using 1 by (simp_all add: fld_at heado_None)
    then show ?case using Cons.IH(1)[of v j] 1 n by (simp add: image_iff)
  next
    case 2
    have "u \<in> dom h" "v \<in> dom h" "k \<noteq> 0" using 2(4-6) by auto
    then obtain n m j where n: "h u = Some n" "h v = Some m" "k = Suc j"
      by (metis domD not0_implies_Suc)
    moreover have "slinks (fld nxt h) (u # v # vs) None" by (rule 2)
    ultimately have nx: "nxt n = Some v" "nxt m = first vs" by (simp_all add: fld_at heado_None)
    show ?case
    proof (cases xs)
      case Nil
      then show ?thesis using 2 n by simp
    next
      case (Cons x xs')
      then have "v \<noteq> c" and vs: "vs = xs' @ c # ys" using 2 by auto
      then show ?thesis using Cons.IH(2)[OF vs, of v j] 2 n nx Cons by simp
    qed
  }
qed

text \<open>Taking the node \<open>c\<close> out of the list.\<close>

lemma mc_unlink:
  assumes wf: "mc_wf st (us @ u # c # vs)" and "h = (metas st)(u \<mapsto> (the (metas st u))\<lparr>nxt := fld nxt (metas st) c\<rparr>)"
  shows "mc_wf (st\<lparr>metas := h(c := None)\<rparr>) (us @ u # vs)"
    and "x \<noteq> c \<Longrightarrow> fld request_size (h(c := None)) x = fld request_size (metas st) x"
proof -
  let ?h = "metas st"
  have "u \<in> dom ?h" using wf by (simp add: mc_wf_def)
  then obtain n where n: "?h u = Some n" by blast
  have "slinks (fld nxt (h(c := None))) (us @ u # vs) None = slinks (fld nxt h) (us @ u # vs) None"
  proof (rule slinks_cong)
    fix a
    assume "a \<in> set (us @ u # vs)"
    then have "a \<noteq> c" using wf by (auto simp: mc_wf_def)
    then show "fld nxt (h(c := None)) a = fld nxt h a" by (rule fld_del)
  qed
  moreover have "slinks (fld nxt h) (us @ u # vs) None"
    using wf n assms(2) by (auto simp: mc_wf_def)
  moreover have "dom (h(c := None)) = set (us @ u # vs)" using wf n assms(2) by (auto simp: mc_wf_def)
  moreover have "first (us @ u # vs) = first (us @ u # c # vs)" by (cases us) auto
  ultimately show "mc_wf (st\<lparr>metas := h(c := None)\<rparr>) (us @ u # vs)" using wf by (simp add: mc_wf_def)
  show "x \<noteq> c \<Longrightarrow> fld request_size (h(c := None)) x = fld request_size ?h x"
    using n assms(2) by (simp add: fld_def)
qed

definition tracked :: "nat \<Rightarrow> memcheck \<Rightarrow> addr \<Rightarrow> 64 word option" where
  \<comment> \<open>the abstract state: the sizes of the tracked payloads, by their address\<close>
  "tracked ms st p = (if ms \<le> p then map_option request_size (metas st (p - ms)) else None)"

lemma trackedE:
  assumes "tracked ms st p = Some n" and "mc_wf st as"
  obtains c where "p = c + ms" and "c \<in> set as" and "fld request_size (metas st) c = n"
proof -
  obtain m where m: "ms \<le> p" "metas st (p - ms) = Some m" "request_size m = n"
    using assms(1) by (auto simp: tracked_def split: if_splits)
  then have "p - ms \<in> set as" using assms(2) by (auto simp: mc_wf_def)
  then show ?thesis using that[of "p - ms"] m by (simp add: fld_at)
qed

lemma tracked_NoneD:
  assumes "tracked ms st p = None" and "mc_wf st as"
  shows "p \<notin> (\<lambda>a. a + ms) ` set as"
proof
  assume "p \<in> (\<lambda>a. a + ms) ` set as"
  then obtain a where a: "p = a + ms" "a \<in> dom (metas st)" using assms(2) by (auto simp: mc_wf_def)
  then show False using assms(1) by (auto simp: tracked_def)
qed

lemma tracked_upd:
  assumes "\<And>x. map_option request_size (metas st' x) =
      ((\<lambda>y. map_option request_size (metas st y))(c := v)) x"
  shows "tracked ms st' = (tracked ms st)(c + ms := v)"
proof
  fix p
  show "tracked ms st' p = ((tracked ms st)(c + ms := v)) p"
    using assms[of "p - ms"] by (auto simp: tracked_def)
qed

lemma tracked_cong: "metas st' = metas st \<Longrightarrow> tracked ms st' = tracked ms st"
  by (simp add: tracked_def fun_eq_iff)

lemma mc_wf_card: "mc_wf st as \<Longrightarrow> card (dom (metas st)) = length as"
  by (simp add: mc_wf_def distinct_card)

lemma live_bytes_cong:
  "(\<And>x. x \<in> set as \<Longrightarrow> fld request_size (metas st') x = fld request_size (metas st) x)
    \<Longrightarrow> live_bytes st' as = live_bytes st as"
  by (simp add: live_bytes_def cong: map_cong)

lemma live_bytes_append [simp]: "live_bytes st (as @ bs) = live_bytes st as + live_bytes st bs"
  by (simp add: live_bytes_def)

lemma live_bytes_Cons [simp]: "live_bytes st (a # as) = fld request_size (metas st) a + live_bytes st as"
  by (simp add: live_bytes_def)

lemma live_bytes_Nil [simp]: "live_bytes st [] = 0"
  by (simp add: live_bytes_def)

text \<open>What the search finds for a tracked and an unknown payload.\<close>

lemma mc_search_head:
  assumes wf: "mc_wf st (u # vs)" and k: "length vs < k"
  obtains n where "metas st u = Some n" and "nxt n = first vs" and "mhead st = Some u"
    and "p \<notin> (\<lambda>a. a + ms) ` set vs \<Longrightarrow>
      mc_search k ms (metas st) p (Some u) (nxt n) = Inr (Inl (Some (last (u # vs))))"
    and "\<And>xs c ys. vs = xs @ c # ys \<Longrightarrow> p = c + ms \<Longrightarrow>
      mc_search k ms (metas st) p (Some u) (nxt n) = Inr (Inr (last (u # xs), c))"
proof -
  have d: "slinks (fld nxt (metas st)) (u # vs) None" "set (u # vs) \<subseteq> dom (metas st)" "distinct (u # vs)"
    using wf by (simp_all add: mc_wf_def)
  then obtain n where n: "metas st u = Some n" by auto
  then have nx: "nxt n = first vs" using d(1) by (simp add: fld_at heado_None)
  show ?thesis
  proof (rule that[OF n nx])
    show "mhead st = Some u" using wf by (simp add: mc_wf_def)
    show "mc_search k ms (metas st) p (Some u) (nxt n) = Inr (Inl (Some (last (u # vs))))"
      if "p \<notin> (\<lambda>a. a + ms) ` set vs"
      unfolding nx by (rule mc_search_ok(1)[OF d(1,2) k that])
    show "mc_search k ms (metas st) p (Some u) (nxt n) = Inr (Inr (last (u # xs), c))"
      if "vs = xs @ c # ys" "p = c + ms" for xs c ys
      unfolding nx by (rule mc_search_ok(2)[OF d(1,2) k that(1) _ that(2)]) (use d(3) that in auto)
  qed
qed

subsection \<open>mini_free\<close>

lemma mc_found:
  \<comment> \<open>where the search finds a tracked payload: at the head, or behind another node\<close>
  assumes wf: "mc_wf st as" and t: "tracked ms st p = Some n" and k: "length as < k"
  obtains (head) c vs m where "as = c # vs" and "p = c + ms" and "mhead st = Some c" and "metas st c = Some m"
      and "request_size m = n" and "nxt m = first vs"
      and "mc_search k ms (metas st) p (Some c) (nxt m) = Inr (Inl (Some (last (c # vs))))"
    | (inner) us v c ys u m mv mc where "as = us @ v # c # ys" and "p = c + ms" and "mhead st = Some u"
      and "metas st u = Some m" and "metas st v = Some mv" and "metas st c = Some mc" and "request_size mc = n"
      and "c \<noteq> v" and "mc_search k ms (metas st) p (Some u) (nxt m) = Inr (Inr (v, c))"
proof -
  obtain c where c: "p = c + ms" "c \<in> set as" "fld request_size (metas st) c = n"
    by (rule trackedE[OF t wf])
  then obtain u vs where as: "as = u # vs" by (cases as) auto
  have kv: "length vs < k" using k as by simp
  obtain m where m: "metas st u = Some m" "nxt m = first vs" "mhead st = Some u"
    "p \<notin> (\<lambda>a. a + ms) ` set vs \<Longrightarrow>
      mc_search k ms (metas st) p (Some u) (nxt m) = Inr (Inl (Some (last (u # vs))))"
    "\<And>xs c ys. vs = xs @ c # ys \<Longrightarrow> p = c + ms \<Longrightarrow>
      mc_search k ms (metas st) p (Some u) (nxt m) = Inr (Inr (last (u # xs), c))"
    by (rule mc_search_head[OF wf[unfolded as] kv]) blast
  have ds: "distinct (u # vs)" using wf as by (simp add: mc_wf_def)
  show thesis
  proof (cases "c = u")
    case True
    then have "p \<notin> (\<lambda>a. a + ms) ` set vs" using c(1) ds by auto
    then show thesis using head[OF as _ m(3,1) _ m(2) m(4)] c m(1) True by (simp add: fld_at)
  next
    case False
    then obtain xs ys where vs: "vs = xs @ c # ys" using c(2) as by (auto dest: split_list)
    define v us where "v = last (u # xs)" and "us = butlast (u # xs)"
    have "us @ [v] = u # xs" by (simp add: v_def us_def)
    then have split: "as = us @ v # c # ys" using as vs by (metis append_Cons append_assoc append_Nil)
    have "v \<in> dom (metas st)" "c \<in> dom (metas st)" using wf by (simp_all add: mc_wf_def split)
    then obtain mv mc where mv: "metas st v = Some mv" "metas st c = Some mc" by blast
    have "c \<noteq> v" using wf split by (auto simp: mc_wf_def)
    then show thesis
      using inner[OF split c(1) m(3,1) mv] m(5)[OF vs c(1), folded v_def] mv(2) c(3) by (simp add: fld_at)
  qed
qed

lemma mc_unlink_head:
  assumes "mc_wf st (c # vs)"
  shows "mc_wf (st\<lparr>metas := (metas st)(c := None), mhead := first vs\<rparr>) vs"
    and "x \<in> set vs \<Longrightarrow> fld request_size ((metas st)(c := None)) x = fld request_size (metas st) x"
proof -
  have ds: "distinct (c # vs)" using assms by (simp add: mc_wf_def)
  have "slinks (fld nxt ((metas st)(c := None))) vs None = slinks (fld nxt (metas st)) vs None"
    by (intro slinks_cong) (use ds in \<open>auto intro: fld_del\<close>)
  then show "mc_wf (st\<lparr>metas := (metas st)(c := None), mhead := first vs\<rparr>) vs" using assms ds by (auto simp: mc_wf_def)
  show "x \<in> set vs \<Longrightarrow> fld request_size ((metas st)(c := None)) x = fld request_size (metas st) x"
    using ds by (auto intro: fld_del)
qed

lemma mc_unlink_inner:
  assumes wf: "mc_wf st (us @ v # c # ys)"
  defines "h \<equiv> ((metas st)(v \<mapsto> (the (metas st v))\<lparr>nxt := fld nxt (metas st) c\<rparr>))(c := None)"
  shows "mc_wf (st\<lparr>metas := h\<rparr>) ((us @ [v]) @ ys)"
    and "x \<in> set ((us @ [v]) @ ys) \<Longrightarrow> fld request_size h x = fld request_size (metas st) x"
proof -
  show "mc_wf (st\<lparr>metas := h\<rparr>) ((us @ [v]) @ ys)" using mc_unlink(1)[OF wf refl] by (simp add: h_def)
  assume "x \<in> set ((us @ [v]) @ ys)"
  then have "x \<noteq> c" using wf by (auto simp: mc_wf_def)
  then show "fld request_size h x = fld request_size (metas st) x"
    unfolding h_def using mc_unlink(2)[OF wf refl] by blast
qed

lemma removed_tracked:
  assumes wf: "mc_wf st (us @ c # vs)" and wf1: "mc_wf st1 (us @ vs)"
    and sz: "\<And>x. x \<in> set (us @ vs) \<Longrightarrow> fld request_size (metas st1) x = fld request_size (metas st) x"
  shows "tracked ms st1 = (tracked ms st)(c + ms := None)"
proof (rule tracked_upd)
  fix x
  have d: "dom (metas st) = set (us @ c # vs)" "dom (metas st1) = set (us @ vs)" "c \<notin> set (us @ vs)"
    using wf wf1 by (auto simp: mc_wf_def)
  show "map_option request_size (metas st1 x) = ((\<lambda>y. map_option request_size (metas st y))(c := None)) x"
  proof (cases "x \<in> set (us @ vs)")
    case True
    then obtain k1 k where "metas st1 x = Some k1" "metas st x = Some k" "x \<noteq> c"
      using d by (metis domD in_set_conv_decomp Un_iff set_append list.set_intros(2))
    then show ?thesis using sz[OF True] by (simp add: fld_at)
  next
    case False
    then have "metas st1 x = None" "x \<noteq> c \<Longrightarrow> metas st x = None" using d by auto
    then show ?thesis by auto
  qed
qed

lemma removed_ok:
  assumes ok: "mc_ok st (us @ c # vs)" and wf: "mc_wf st1 (us @ vs)"
    and sz: "\<And>x. x \<in> set (us @ vs) \<Longrightarrow> fld request_size (metas st1) x = fld request_size (metas st) x"
    and tot: "total_memory_requested st1 = total_memory_requested st"
      "total_memory_freed st1 = total_memory_freed st + fld request_size (metas st) c"
  shows "mc_ok st1 (us @ vs)"
proof -
  have "live_bytes st1 (us @ vs) = live_bytes st (us @ vs)" by (rule live_bytes_cong) (rule sz)
  then show ?thesis using ok wf tot by (simp add: mc_ok_def algebra_simps)
qed

lemma mini_free_ok:
  assumes ok: "mc_ok st as" and t: "tracked ms st p = Some n" and k: "length as < k"
  shows "\<exists>st' as'. mini_free ms k st (Some p) = Inr st' \<and> mc_ok st' as'
     \<and> tracked ms st' = (tracked ms st)(p := None)
     \<and> total_memory_requested st' = total_memory_requested st
     \<and> total_memory_freed st' = total_memory_freed st + n
     \<and> invalid_addresses st' = invalid_addresses st"
proof -
  have wf: "mc_wf st as" using ok by (simp add: mc_ok_def)
  have finish: ?thesis if "mini_free ms k st (Some p) = Inr st1" "as = us @ c # vs" "p = c + ms" "mc_wf st1 (us @ vs)"
      "\<And>x. x \<in> set (us @ vs) \<Longrightarrow> fld request_size (metas st1) x = fld request_size (metas st) x"
      "total_memory_requested st1 = total_memory_requested st" "total_memory_freed st1 = total_memory_freed st + n"
      "invalid_addresses st1 = invalid_addresses st" "fld request_size (metas st) c = n" for st1 us c vs
    using that removed_ok[OF ok[unfolded that(2)] that(4,5,6)] removed_tracked[OF wf[unfolded that(2)] that(4,5)] by auto
  show ?thesis
  proof (cases rule: mc_found[OF wf t k, case_names head inner])
    case (head c vs m)
    let ?st' = "(count_freed st n)\<lparr>metas := (metas st)(c := None), mhead := first vs\<rparr>"
    note u = mc_unlink_head[OF wf[unfolded head(1)]]
    have "mini_free ms k st (Some p) = Inr ?st'" using head by (simp add: mini_free_def)
    moreover have "mc_wf ?st' vs" using u(1) by (simp add: mc_wf_def)
    ultimately show ?thesis using head u(2) by (intro finish[of ?st' "[]" c vs]) (simp_all add: fld_at)
  next
    case (inner us v c ys u m mv mc)
    let ?h = "((metas st)(v \<mapsto> (the (metas st v))\<lparr>nxt := fld nxt (metas st) c\<rparr>))(c := None)"
    let ?st' = "(count_freed st n)\<lparr>metas := ?h\<rparr>"
    note w = mc_unlink_inner[OF wf[unfolded inner(1)]]
    have "mini_free ms k st (Some p) = Inr ?st'" using inner by (simp add: mini_free_def fld_at)
    moreover have "mc_wf ?st' ((us @ [v]) @ ys)" using w(1) by (simp add: mc_wf_def)
    ultimately show ?thesis using inner w(2) by (intro finish[of ?st' "us @ [v]" c ys]) (simp_all add: fld_at)
  qed
qed

lemma mini_free_unknown:
  assumes wf: "mc_wf st as" and t: "tracked ms st p = None" and k: "length as < k"
  shows "mini_free ms k st (Some p) = Inr (bad_address st)"
proof (cases as)
  case Nil
  then show ?thesis using wf by (simp add: mini_free_def mc_wf_def)
next
  case (Cons u vs)
  note np = tracked_NoneD[OF t wf]
  have kv: "length vs < k" using k Cons by simp
  show ?thesis
    by (rule mc_search_head[OF wf[unfolded Cons] kv, where p = p and ms = ms])
      (use np Cons in \<open>auto simp: mini_free_def\<close>)
qed

subsection \<open>mini_malloc, mini_calloc and mini_realloc\<close>

lemma new_node_wf:
  assumes "mc_wf st as" and "a \<notin> set as"
  shows "mc_wf (new_node st n fn ins a) (a # as)"
    and "live_bytes (new_node st n fn ins a) (a # as) = n + live_bytes st as"
    and "tracked ms (new_node st n fn ins a) = (tracked ms st)(a + ms \<mapsto> n)"
proof -
  show "mc_wf (new_node st n fn ins a) (a # as)"
    using assms by (auto simp: mc_wf_def new_node_def heado_None)
  have "live_bytes (new_node st n fn ins a) as = live_bytes st as"
    by (rule live_bytes_cong) (use assms in \<open>auto simp: new_node_def\<close>)
  then show "live_bytes (new_node st n fn ins a) (a # as) = n + live_bytes st as"
    by (simp add: new_node_def)
  show "tracked ms (new_node st n fn ins a) = (tracked ms st)(a + ms \<mapsto> n)"
    by (rule tracked_upd) (simp add: new_node_def)
qed

lemma mini_malloc_ok:
  assumes ok: "mc_ok st as" and a: "metas st a = None" and n: "n \<noteq> 0"
  shows "\<exists>st' as'. mini_malloc ms st n fn ins (Some a) = (Some (a + ms), st') \<and> mc_ok st' as'
     \<and> tracked ms st' = (tracked ms st)(a + ms \<mapsto> n)
     \<and> total_memory_requested st' = total_memory_requested st + n
     \<and> total_memory_freed st' = total_memory_freed st \<and> invalid_addresses st' = invalid_addresses st"
proof -
  have wf: "mc_wf st as" "a \<notin> set as" using ok a by (auto simp: mc_ok_def mc_wf_def)
  let ?st' = "(new_node st n fn ins a)\<lparr>total_memory_requested := total_memory_requested st + n\<rparr>"
  note nn = new_node_wf[OF wf, where n = n and fn = fn and ins = ins]
  have w: "mc_wf ?st' (a # as)" using nn(1) by (simp add: mc_wf_def)
  have l: "live_bytes ?st' (a # as) = n + live_bytes st as" using nn(2) by (simp add: live_bytes_def)
  have t: "tracked ms ?st' = (tracked ms st)(a + ms \<mapsto> n)" using nn(3)[of ms] tracked_cong[of ?st' "new_node st n fn ins a" ms] by simp
  have s: "total_memory_freed ?st' = total_memory_freed st" "invalid_addresses ?st' = invalid_addresses st"
    by (simp_all add: new_node_def)
  have "mc_ok ?st' (a # as)" using ok w l s(1) by (simp add: mc_ok_def algebra_simps)
  then show ?thesis using n t s
    by (intro exI[of _ ?st'] exI[of _ "a # as"]) (simp add: mini_malloc_def)
qed

lemma mini_realloc_unknown:
  assumes wf: "mc_wf st as" and t: "tracked ms st p = None" and k: "length as < k" and n: "n \<noteq> 0"
  shows "mini_realloc ms k st (Some p) n fn ins ans = Inr (None, bad_address st)"
proof (cases as)
  case Nil
  then show ?thesis using wf n by (simp add: mini_realloc_def mc_wf_def)
next
  case (Cons u vs)
  note np = tracked_NoneD[OF t wf]
  have kv: "length vs < k" using k Cons by simp
  show ?thesis
    by (rule mc_search_head[OF wf[unfolded Cons] kv, where p = p and ms = ms])
      (use np Cons n in \<open>auto simp: mini_realloc_def\<close>)
qed

text \<open>Shrinking in place, for any node of the list.\<close>

lemma shrink_ok:
  fixes n :: "64 word" and fn ins :: nat
  assumes ok: "mc_ok st as" and c: "c \<in> set as" and m: "metas st c = Some m"
  defines "st' \<equiv> (count_freed st (request_size m - n))
      \<lparr>metas := (metas st)(c \<mapsto> m\<lparr>request_size := n, instruction := ins, filename := fn\<rparr>)\<rparr>"
  shows "mc_ok st' as" and "tracked ms st' = (tracked ms st)(c + ms \<mapsto> n)"
proof -
  obtain us vs where as: "as = us @ c # vs" using c by (meson split_list)
  have wf: "mc_wf st as" using ok by (simp add: mc_ok_def)
  have d: "c \<notin> set us" "c \<notin> set vs" using wf as by (auto simp: mc_wf_def)
  have "live_bytes st' us = live_bytes st us" "live_bytes st' vs = live_bytes st vs"
    by (rule live_bytes_cong; use d in \<open>auto simp: st'_def\<close>)+
  then have l: "live_bytes st' as + (request_size m - n) = live_bytes st as"
    using m by (simp add: as st'_def fld_at)
  have "dom (metas st') = dom (metas st)" using m by (auto simp: st'_def)
  then have w: "mc_wf st' as" using wf m by (simp add: mc_wf_def st'_def)
  have "total_memory_requested st' - total_memory_freed st' = live_bytes st' as"
    using ok l by (simp add: mc_ok_def st'_def algebra_simps)
  with w show "mc_ok st' as" by (simp add: mc_ok_def)
  show "tracked ms st' = (tracked ms st)(c + ms \<mapsto> n)"
    by (rule tracked_upd) (simp add: st'_def)
qed

text \<open>A node \<open>c\<close> is taken out of the list and comes back in front, at \<open>a\<close>, with a new size.\<close>

lemma regrow_ok:
  assumes ok: "mc_ok st as" and split: "as = us @ c # vs" and m: "metas st c = Some m"
    and st1: "mc_wf st1 (us @ vs)" "\<And>x. x \<in> set (us @ vs) \<Longrightarrow> fld request_size (metas st1) x = fld request_size (metas st) x"
      "total_memory_requested st1 = total_memory_requested st + (n - request_size m)"
      "total_memory_freed st1 = total_memory_freed st"
    and a: "a = c \<or> metas st a = None"
  shows "mc_ok (new_node st1 n fn ins a) (a # us @ vs)"
    and "tracked ms (new_node st1 n fn ins a) = (tracked ms st)(c + ms := None, a + ms \<mapsto> n)"
proof -
  have wf: "mc_wf st as" using ok by (simp add: mc_ok_def)
  then have na: "a \<notin> set (us @ vs)" using a split by (auto simp: mc_wf_def)
  note nn = new_node_wf[OF st1(1) na, where n = n and fn = fn and ins = ins]
  have "live_bytes st1 (us @ vs) = live_bytes st (us @ vs)" by (rule live_bytes_cong) (rule st1(2))
  then have l: "live_bytes st1 (us @ vs) = live_bytes st as - request_size m"
    using m split by (simp add: fld_at)
  have "live_bytes st as = total_memory_requested st - total_memory_freed st" using ok by (simp add: mc_ok_def)
  then have "total_memory_requested st1 - total_memory_freed st1 = n + live_bytes st1 (us @ vs)"
    unfolding l st1(3,4) by simp
  moreover have "total_memory_requested (new_node st1 n fn ins a) = total_memory_requested st1"
    "total_memory_freed (new_node st1 n fn ins a) = total_memory_freed st1" by (simp_all add: new_node_def)
  ultimately show "mc_ok (new_node st1 n fn ins a) (a # us @ vs)"
    using nn(1,2) by (simp only: mc_ok_def)
  have "tracked ms st1 = (tracked ms st)(c + ms := None)"
    by (rule removed_tracked[OF wf[unfolded split] st1(1,2)])
  then show "tracked ms (new_node st1 n fn ins a) = (tracked ms st)(c + ms := None, a + ms \<mapsto> n)"
    using nn(3)[of ms] by simp
qed

lemma realloc_in_place:
  assumes wf: "mc_wf st as" and t: "tracked ms st p = Some old" and k: "length as < k" and n: "n \<noteq> 0" "n \<le> old"
  obtains c mc where "p = c + ms" and "c \<in> set as" and "metas st c = Some mc" and "request_size mc = old"
    and "mini_realloc ms k st (Some p) n fn ins ans = Inr (Some p, if n = old then st
      else (count_freed st (old - n))\<lparr>metas := (metas st)(c \<mapsto> mc\<lparr>request_size := n, instruction := ins, filename := fn\<rparr>)\<rparr>)"
proof (cases rule: mc_found[OF wf t k, case_names head inner])
  case (head c vs m)
  then show thesis using n by (intro that[of c m]) (auto simp: mini_realloc_def)
next
  case (inner us v c ys u m mv mc)
  then show thesis using n by (intro that[of c mc]) (auto simp: mini_realloc_def)
qed

lemma realloc_unlinks:
  assumes wf: "mc_wf st as" and t: "tracked ms st p = Some old" and k: "length as < k" and n: "n \<noteq> 0" "old < n"
  obtains st1 xs c mc ys where "as = xs @ c # ys" and "p = c + ms" and "metas st c = Some mc" and "request_size mc = old"
    and "mc_wf st1 (xs @ ys)"
    and "\<And>x. x \<in> set (xs @ ys) \<Longrightarrow> fld request_size (metas st1) x = fld request_size (metas st) x"
    and "total_memory_requested st1 = total_memory_requested st + (n - old)"
    and "total_memory_freed st1 = total_memory_freed st" and "invalid_addresses st1 = invalid_addresses st"
    and "mini_realloc ms k st (Some p) n fn ins (Some a) = Inr (Some (a + ms), new_node st1 n fn ins a)"
proof (cases rule: mc_found[OF wf t k, case_names head inner])
  case (head c vs m)
  let ?s1 = "st\<lparr>total_memory_requested := total_memory_requested st + (n - old), metas := (metas st)(c := None), mhead := first vs\<rparr>"
  note u = mc_unlink_head[OF wf[unfolded head(1)]]
  have "mini_realloc ms k st (Some p) n fn ins (Some a) = Inr (Some (a + ms), new_node ?s1 n fn ins a)"
    using head n by (simp add: mini_realloc_def new_node_def)
  moreover have "mc_wf ?s1 ([] @ vs)" using u(1) by (simp add: mc_wf_def)
  ultimately show thesis using head u(2) by (intro that[of "[]" c vs m ?s1]) simp_all
next
  case (inner us v c ys u m mv mc)
  let ?h = "((metas st)(v \<mapsto> (the (metas st v))\<lparr>nxt := fld nxt (metas st) c\<rparr>))(c := None)"
  let ?s1 = "st\<lparr>total_memory_requested := total_memory_requested st + (n - old), metas := ?h\<rparr>"
  note w = mc_unlink_inner[OF wf[unfolded inner(1)]]
  have "mini_realloc ms k st (Some p) n fn ins (Some a) = Inr (Some (a + ms), new_node ?s1 n fn ins a)"
    using inner n by (simp add: mini_realloc_def new_node_def fld_at)
  moreover have "mc_wf ?s1 ((us @ [v]) @ ys)" using w(1) by (simp add: mc_wf_def)
  ultimately show thesis using inner w(2) by (intro that[of "us @ [v]" c ys mc ?s1]) simp_all
qed

lemma mini_realloc_ok:
  assumes ok: "mc_ok st as" and t: "tracked ms st p = Some old" and k: "length as < k" and n: "n \<noteq> 0"
    and a: "a + ms = p \<or> metas st a = None"
  shows "\<exists>st' as' q. mini_realloc ms k st (Some p) n fn ins (Some a) = Inr (Some q, st') \<and> mc_ok st' as'
     \<and> q = (if old < n then a + ms else p) \<and> tracked ms st' = (tracked ms st)(p := None, q \<mapsto> n)
     \<and> invalid_addresses st' = invalid_addresses st"
proof (cases "old < n")
  case False
  have wf: "mc_wf st as" using ok by (simp add: mc_ok_def)
  obtain c mc where c: "p = c + ms" "c \<in> set as" "metas st c = Some mc" "request_size mc = old"
    "mini_realloc ms k st (Some p) n fn ins (Some a) = Inr (Some p, if n = old then st
      else (count_freed st (old - n))\<lparr>metas := (metas st)(c \<mapsto> mc\<lparr>request_size := n, instruction := ins, filename := fn\<rparr>)\<rparr>)"
    using realloc_in_place[OF wf t k n] False by (metis not_less)
  note small = shrink_ok[OF ok c(2,3), where n = n and ins = ins and fn = fn, unfolded c(4)]
  show ?thesis
  proof (cases "n = old")
    case True
    then show ?thesis using c(5) ok t by (intro exI[of _ st] exI[of _ as] exI[of _ p]) (auto simp: fun_upd_idem_iff)
  next
    case ne: False
    then show ?thesis using c(1,5) False small(1) small(2)[of ms]
      by (intro exI[of _ "(count_freed st (old - n))\<lparr>metas := (metas st)(c \<mapsto> mc\<lparr>request_size := n, instruction := ins, filename := fn\<rparr>)\<rparr>"]
          exI[of _ as] exI[of _ p]) (auto simp: fun_upd_idem_iff)
  qed
next
  case True
  have wf: "mc_wf st as" using ok by (simp add: mc_ok_def)
  obtain st1 xs c mc ys where u: "as = xs @ c # ys" "p = c + ms" "metas st c = Some mc" "request_size mc = old"
    "mc_wf st1 (xs @ ys)"
    "\<And>x. x \<in> set (xs @ ys) \<Longrightarrow> fld request_size (metas st1) x = fld request_size (metas st) x"
    "total_memory_requested st1 = total_memory_requested st + (n - old)"
    "total_memory_freed st1 = total_memory_freed st" "invalid_addresses st1 = invalid_addresses st"
    "mini_realloc ms k st (Some p) n fn ins (Some a) = Inr (Some (a + ms), new_node st1 n fn ins a)"
    by (rule realloc_unlinks[OF wf t k n True]) blast
  have ac: "a = c \<or> metas st a = None" using a u(2) by auto
  have "invalid_addresses (new_node st1 n fn ins a) = invalid_addresses st" using u(9) by (simp add: new_node_def)
  then show ?thesis
    using regrow_ok[OF ok u(1,3,5,6) _ u(8) ac, where n = n and fn = fn and ins = ins] u(2,4,7,10) True by auto
qed

section \<open>Properties\<close>

inductive mc_reach :: "nat \<Rightarrow> memcheck \<Rightarrow> bool" for ms where
  \<comment> \<open>the states a program reaches by calls with any addresses, while \<open>malloc\<close> and \<open>realloc\<close>
     succeed with fresh addresses (\<open>realloc\<close> may also keep the old one)\<close>
  start: "mc_reach ms memcheck_start"
| malloc: "mc_reach ms st \<Longrightarrow> metas st a = None \<Longrightarrow> mini_malloc ms st n fn ins (Some a) = (p, st')
    \<Longrightarrow> mc_reach ms st'"
| calloc: "mc_reach ms st \<Longrightarrow> metas st a = None \<Longrightarrow> el * num \<noteq> 0
    \<Longrightarrow> mini_calloc ms st num el fn ins (Some a) = (p, st') \<Longrightarrow> mc_reach ms st'"
| realloc: "mc_reach ms st \<Longrightarrow> Some (a + ms) = p \<or> metas st a = None \<Longrightarrow> card (dom (metas st)) < k
    \<Longrightarrow> mini_realloc ms k st p n fn ins (Some a) = Inr (q, st') \<Longrightarrow> mc_reach ms st'"
| free: "mc_reach ms st \<Longrightarrow> card (dom (metas st)) < k \<Longrightarrow> mini_free ms k st p = Inr st' \<Longrightarrow> mc_reach ms st'"

lemma bad_address_ok [simp]: "mc_ok (bad_address st) as = mc_ok st as"
  by (simp add: bad_address_def mc_ok_def mc_wf_def live_bytes_def)

lemma mc_free_any:
  assumes ok: "mc_ok st as" and k: "length as < k"
  shows "\<exists>st' as'. mini_free ms k st p = Inr st' \<and> mc_ok st' as'"
proof (cases p)
  case None
  then show ?thesis using ok by (auto simp: mini_free_def)
next
  case (Some a)
  have wf: "mc_wf st as" using ok by (simp add: mc_ok_def)
  show ?thesis
  proof (cases "tracked ms st a")
    case None
    then show ?thesis using mini_free_unknown[OF wf None k] ok Some by auto
  next
    case t: (Some n)
    then show ?thesis using mini_free_ok[OF ok t k] Some by blast
  qed
qed

lemma mini_calloc_malloc:
  assumes "num \<noteq> 0" and "el \<noteq> 0" and "el * num \<noteq> 0"
  shows "mini_calloc ms st num el fn ins ans = mini_malloc ms st (el * num) fn ins ans"
  using assms by (simp add: mini_calloc_def mini_malloc_def)

lemma mc_realloc_any:
  assumes ok: "mc_ok st as" and k: "length as < k" and a: "Some (a + ms) = p \<or> metas st a = None"
  shows "\<exists>q st' as'. mini_realloc ms k st p n fn ins (Some a) = Inr (q, st') \<and> mc_ok st' as'"
proof (cases "p = None \<or> n = 0")
  case True
  have "\<exists>st' as'. mini_malloc ms st n fn ins (Some a) = (Some (a + ms), st') \<and> mc_ok st' as'"
    if "n \<noteq> 0" "p = None"
    using mini_malloc_ok[OF ok _ that(1), of a ms fn ins] a that(2) by auto
  then show ?thesis using True ok mc_free_any[OF ok k, of ms p]
    by (cases p; cases "n = 0") (auto simp: mini_realloc_def)
next
  case False
  then obtain b where p: "p = Some b" and n: "n \<noteq> 0" by auto
  have wf: "mc_wf st as" using ok by (simp add: mc_ok_def)
  show ?thesis
  proof (cases "tracked ms st b")
    case None
    then show ?thesis using mini_realloc_unknown[OF wf None k n] ok p by auto
  next
    case t: (Some old)
    then show ?thesis using mini_realloc_ok[OF ok t k n, of a fn ins] a p by fastforce
  qed
qed

lemma mc_reach_ok: "mc_reach ms st \<Longrightarrow> \<exists>as. mc_ok st as"
proof (induction rule: mc_reach.induct)
  case start
  show ?case by (intro exI[of _ "[]"]) (simp add: mc_ok_def mc_wf_def memcheck_start_def)
next
  case (malloc st a n fn ins p st')
  then obtain as where ok: "mc_ok st as" by blast
  show ?case
  proof (cases "n = 0")
    case True
    then show ?thesis using malloc.hyps(3) ok by (auto simp: mini_malloc_def)
  next
    case False
    then show ?thesis using mini_malloc_ok[OF ok malloc.hyps(2) False, of ms fn ins] malloc.hyps(3) by auto
  qed
next
  case (calloc st a el num fn ins p st')
  then obtain as where ok: "mc_ok st as" by blast
  have "num \<noteq> 0" "el \<noteq> 0" using calloc.hyps(3) by auto
  then show ?case using mini_malloc_ok[OF ok calloc.hyps(2,3), of ms fn ins] calloc.hyps(3,4)
    by (auto simp: mini_calloc_malloc)
next
  case (realloc st a p k n fn ins q st')
  then obtain as where ok: "mc_ok st as" by blast
  then have "length as < k" using realloc.hyps(3) mc_wf_card[of st as] by (simp add: mc_ok_def)
  from mc_realloc_any[OF ok this realloc.hyps(2), of n fn ins] realloc.hyps(4) show ?case by auto
next
  case (free st k p st')
  then obtain as where ok: "mc_ok st as" by blast
  then have "length as < k" using free.hyps(2) mc_wf_card[of st as] by (simp add: mc_ok_def)
  from mc_free_any[OF ok this, of ms p] free.hyps(3) show ?case by auto
qed

lemma mc_reachE:
  assumes "mc_reach ms st" and "card (dom (metas st)) < k"
  obtains as where "mc_ok st as" and "mc_wf st as" and "length as < k"
proof -
  obtain as where "mc_ok st as" using mc_reach_ok[OF assms(1)] by blast
  then show ?thesis using that[of as] mc_wf_card[of st as] assms(2) by (simp add: mc_ok_def)
qed


definition demo_memcheck :: memcheck where
  \<comment> \<open>after \<open>malloc(10)\<close> and \<open>malloc(20)\<close>, with nodes at 100 and 200\<close>
  "demo_memcheck = snd (mini_malloc 32 (snd (mini_malloc 32 memcheck_start 10 0 0 (Some 100))) 20 0 0 (Some 200))"

lemma demo_memcheck_reach: "mc_reach 32 demo_memcheck"
  unfolding demo_memcheck_def
proof (rule mc_reach.malloc[where a = 200])
  let ?s1 = "snd (mini_malloc 32 memcheck_start 10 0 0 (Some 100))"
  show "mc_reach 32 ?s1"
    by (rule mc_reach.malloc[OF mc_reach.start, where a = 100 and n = 10 and fn = 0 and ins = 0])
      (simp_all add: memcheck_start_def prod_eq_iff)
  show "metas ?s1 200 = None" by (simp add: mini_malloc_def new_node_def memcheck_start_def)
  show "mini_malloc 32 ?s1 20 0 0 (Some 200)
      = (fst (mini_malloc 32 ?s1 20 0 0 (Some 200)), snd (mini_malloc 32 ?s1 20 0 0 (Some 200)))" by simp
qed

lemmas demo_memcheck_eval = demo_memcheck_def mini_malloc_def new_node_def memcheck_start_def tracked_def


text \<open>
  \<open>mini_free\<close> of a live payload removes exactly this allocation and counts its bytes as
  freed; \<open>NULL\<close> is ignored; any other address, in particular one that was freed before, changes
  nothing but the count of invalid addresses. The search always ends.
\<close>

theorem mini_free_correct:
  assumes "mc_reach ms st" and "card (dom (metas st)) < k"
  shows "mini_free ms k st None = Inr st
     \<and> (tracked ms st p = None \<longrightarrow> mini_free ms k st (Some p)
          = Inr (st\<lparr>invalid_addresses := invalid_addresses st + 1\<rparr>))
     \<and> (\<forall>n. tracked ms st p = Some n \<longrightarrow> (\<exists>st'. mini_free ms k st (Some p) = Inr st'
          \<and> tracked ms st' = (tracked ms st)(p := None)
          \<and> total_memory_freed st' = total_memory_freed st + n
          \<and> total_memory_requested st' = total_memory_requested st
          \<and> invalid_addresses st' = invalid_addresses st))"
proof -
  obtain as where as: "mc_ok st as" "mc_wf st as" "length as < k" by (rule mc_reachE[OF assms])
  show ?thesis
    using mini_free_unknown[OF as(2) _ as(3), of ms p] mini_free_ok[OF as(1) _ as(3), of ms p]
    by (auto simp: mini_free_def[of ms k st None] bad_address_def)
qed

theorem mini_free_correct_witness:
  "\<exists>st'. mini_free 32 3 demo_memcheck (Some 132) = Inr st' \<and> tracked 32 st' 132 = None
     \<and> tracked 32 st' 232 = Some 20 \<and> total_memory_freed st' = 10"
proof -
  have "card (dom (metas demo_memcheck)) < 3" by (simp add: demo_memcheck_eval)
  from mini_free_correct[OF demo_memcheck_reach this, of 132] show ?thesis
    by (fastforce simp: demo_memcheck_eval)
qed

text \<open>
  \<open>mini_realloc\<close> of a live payload to a positive size, when the library's \<open>realloc\<close>
  succeeds, keeps the payload in place when it does not grow and otherwise tracks the new
  address instead of the old one; the tracked size is the new one, no other allocation changes,
  and an unknown address is counted as invalid.
\<close>

theorem mini_realloc_correct:
  assumes "mc_reach ms st" and "card (dom (metas st)) < k" and "n \<noteq> 0"
    and "a + ms = p \<or> metas st a = None"
  shows "(tracked ms st p = None \<longrightarrow> mini_realloc ms k st (Some p) n fn ins (Some a)
          = Inr (None, st\<lparr>invalid_addresses := invalid_addresses st + 1\<rparr>))
     \<and> (\<forall>old. tracked ms st p = Some old \<longrightarrow> (\<exists>st'.
          mini_realloc ms k st (Some p) n fn ins (Some a) = Inr (Some (if old < n then a + ms else p), st')
          \<and> tracked ms st' = (tracked ms st)(p := None, (if old < n then a + ms else p) \<mapsto> n)
          \<and> invalid_addresses st' = invalid_addresses st))"
proof -
  obtain as where as: "mc_ok st as" "mc_wf st as" "length as < k" by (rule mc_reachE[OF assms(1,2)])
  show ?thesis
    using mini_realloc_unknown[OF as(2) _ as(3) assms(3), of ms p fn ins "Some a"]
      mini_realloc_ok[OF as(1) _ as(3) assms(3,4), where fn = fn and ins = ins]
    by (fastforce simp: bad_address_def)
qed

theorem mini_realloc_correct_witness:
  "\<exists>st'. mini_realloc 32 3 demo_memcheck (Some 132) 50 1 1 (Some 300) = Inr (Some 332, st')
     \<and> tracked 32 st' 132 = None \<and> tracked 32 st' 332 = Some 50 \<and> tracked 32 st' 232 = Some 20"
proof -
  have c: "card (dom (metas demo_memcheck)) < 3" by (simp add: demo_memcheck_eval)
  have f: "(300::nat) + 32 = 132 \<or> metas demo_memcheck 300 = None" by (simp add: demo_memcheck_eval)
  have t: "tracked 32 demo_memcheck 132 = Some 10" "tracked 32 demo_memcheck 232 = Some 20"
    by (simp_all add: demo_memcheck_eval)
  have lt: "(10::64 word) < 50" by simp
  from mini_realloc_correct[OF demo_memcheck_reach c _ f, of 50 1 1] t lt show ?thesis
    by auto
qed

text \<open>
  When the library's \<open>realloc\<close> cannot grow the newest allocation, \<open>mini_realloc\<close> overwrites
  the head of the list with \<open>NULL\<close>: although \<open>realloc\<close> left the old block allocated, every
  tracked allocation is lost. The bytes of the failed growth are counted as requested, and from
  then on freeing any live payload counts as an invalid address.
\<close>

theorem failed_realloc_loses_all:
  assumes "mc_reach ms st" and "card (dom (metas st)) < k" and "mhead st = Some u"
    and "tracked ms st (u + ms) = Some old" and "old < n"
  shows "\<exists>st'. mini_realloc ms k st (Some (u + ms)) n fn ins None = Inr (None, st') \<and> mhead st' = None
     \<and> total_memory_requested st' = total_memory_requested st + (n - old)
     \<and> total_memory_freed st' = total_memory_freed st
     \<and> (\<forall>j q. mini_free ms j st' (Some q) = Inr (bad_address st'))"
proof -
  obtain as where as: "mc_ok st as" "mc_wf st as" "length as < k" by (rule mc_reachE[OF assms(1,2)])
  then obtain vs where vs: "as = u # vs" using assms(3) by (cases as) (auto simp: mc_wf_def)
  have n: "n \<noteq> 0" using assms(5) by auto
  have kv: "length vs < k" using as(3) vs by simp
  have np: "u + ms \<notin> (\<lambda>a. a + ms) ` set vs" using as(2) vs by (auto simp: mc_wf_def)
  show ?thesis
  proof (rule mc_search_head[OF as(2)[unfolded vs] kv, where p = "u + ms" and ms = ms])
    fix m
    assume m: "metas st u = Some m" "nxt m = first vs" "mhead st = Some u"
      "u + ms \<notin> (\<lambda>a. a + ms) ` set vs \<Longrightarrow>
        mc_search k ms (metas st) (u + ms) (Some u) (nxt m) = Inr (Inl (Some (last (u # vs))))"
    have "request_size m = old" using assms(4) m(1) by (simp add: tracked_def)
    then show ?thesis using m n np assms(5)
      by (auto simp: mini_realloc_def mini_free_def bad_address_def)
  qed
qed

theorem failed_realloc_loses_all_witness:
  "\<exists>st'. mini_realloc 32 3 demo_memcheck (Some 232) 50 1 1 None = Inr (None, st')
     \<and> mini_free 32 3 st' (Some 132) = Inr (bad_address st')"
proof -
  have "card (dom (metas demo_memcheck)) < 3" "mhead demo_memcheck = Some 200"
    "tracked 32 demo_memcheck (200 + 32) = Some 20" "(20::64 word) < 50"
    by (simp_all add: demo_memcheck_eval)
  from failed_realloc_loses_all[OF demo_memcheck_reach this, of 1 1] show ?thesis by auto
qed

end
