(* ===== verification/Digraph.thy ===== *)
theory Digraph
  imports Prelude
begin

text \<open>
  The cycle test two programs of the repository share, with the marks on the current path kept
  in the vertices of the graph: \<open>isCyclic\<close> of \<^verbatim>\<open>deadlock_demolition/libdrm.c\<close> and \<open>isCycle\<close> of
  \<^verbatim>\<open>parallel_make/parmake.c\<close>. The graph library is outside the repository: what the test
  needs of it is the interface \<open>marked_graph\<close>.
\<close>

section \<open>The loop over the neighbours\<close>

primrec scan :: "('g \<Rightarrow> 'v \<Rightarrow> (bool \<times> 'g) res) \<Rightarrow> 'v list \<Rightarrow> bool \<Rightarrow> 'g \<Rightarrow> (bool \<times> 'g) res" where
  \<comment> \<open>\<open>for (...) res = res || f(v[i])\<close>: no call any more once \<open>res\<close> is set\<close>
  "scan f [] r g = Inr (r, g)"
| "scan f (v # vs) r g =
     (if r then scan f vs r g else rbind (f g v) (\<lambda>(r', g'). scan f vs r' g'))"

primrec path_search ::
  "nat \<Rightarrow> ('g \<Rightarrow> 'v \<Rightarrow> 'v list) \<Rightarrow> ('g \<Rightarrow> 'v \<Rightarrow> bool) \<Rightarrow> ('g \<Rightarrow> 'v \<Rightarrow> 'g) \<Rightarrow> ('g \<Rightarrow> 'v \<Rightarrow> 'g)
     \<Rightarrow> 'g \<Rightarrow> 'v \<Rightarrow> (bool \<times> 'g) res" where
  \<comment> \<open>the recursion both functions have, for recursion depth less than the fuel\<close>
  "path_search 0 nb marked mark unmark g key = Inl Diverges"
| "path_search (Suc k) nb marked mark unmark g key =
     (if marked g key then Inr (True, unmark g key)
      else if nb g key = [] then Inr (False, g)
      else rbind (scan (path_search k nb marked mark unmark) (nb g key) False (mark g key))
             (\<lambda>(r, g'). Inr (r, unmark g' key)))"

section \<open>Reachability\<close>

definition edges :: "('v \<Rightarrow> 'v list) \<Rightarrow> ('v \<times> 'v) set" where
  "edges nb = {(v, w). w \<in> set (nb v)}"

definition reaches_cycle :: "('v \<Rightarrow> 'v list) \<Rightarrow> 'v \<Rightarrow> bool" where
  "reaches_cycle nb key \<longleftrightarrow> (\<exists>v. (key, v) \<in> (edges nb)\<^sup>* \<and> (v, v) \<in> (edges nb)\<^sup>+)"

lemma reaches_step:
  assumes "key \<notin> P"
  shows "(\<exists>v. (key, v) \<in> (edges nb)\<^sup>* \<and> (v \<in> P \<or> (v, v) \<in> (edges nb)\<^sup>+)) \<longleftrightarrow>
     (\<exists>w \<in> set (nb key). \<exists>v. (w, v) \<in> (edges nb)\<^sup>* \<and> (v \<in> insert key P \<or> (v, v) \<in> (edges nb)\<^sup>+))"
  (is "?L \<longleftrightarrow> ?R")
proof
  assume ?L
  then obtain v where v: "(key, v) \<in> (edges nb)\<^sup>*" "v \<in> P \<or> (v, v) \<in> (edges nb)\<^sup>+" by blast
  show ?R
  proof (cases "v = key")
    case True
    then have "(key, key) \<in> (edges nb)\<^sup>+" using v(2) assms by blast
    then obtain w where "(key, w) \<in> edges nb" "(w, key) \<in> (edges nb)\<^sup>*" by (meson tranclD)
    then show ?thesis by (auto simp: edges_def)
  next
    case False
    then obtain w where "(key, w) \<in> edges nb" "(w, v) \<in> (edges nb)\<^sup>*"
      using v(1) by (metis converse_rtranclE)
    then show ?thesis using v(2) by (auto simp: edges_def)
  qed
next
  assume ?R
  then obtain w v where w: "(key, w) \<in> edges nb" "(w, v) \<in> (edges nb)\<^sup>*"
    "v \<in> insert key P \<or> (v, v) \<in> (edges nb)\<^sup>+" by (auto simp: edges_def)
  then have "(key, v) \<in> (edges nb)\<^sup>+" by (meson rtrancl_into_trancl2)
  then show ?L using w(3) by (metis insertE trancl_into_rtrancl rtrancl.rtrancl_refl)
qed

section \<open>The answer of a search\<close>

definition search_answer ::
  "('g \<Rightarrow> 'v \<Rightarrow> 'v list) \<Rightarrow> ('g \<Rightarrow> 'v \<Rightarrow> bool) \<Rightarrow> ('g \<Rightarrow> 'v \<Rightarrow> bool) \<Rightarrow> 'g \<Rightarrow> bool \<Rightarrow> (bool \<times> 'g) res \<Rightarrow> bool" where
  \<comment> \<open>the answer is \<open>hit\<close>, the edges are kept, no mark is new, and without a hit none is lost\<close>
  "search_answer nb vertex marked g hit R \<longleftrightarrow>
     (\<exists>g'. R = Inr (hit, g') \<and> nb g' = nb g \<and> vertex g' = vertex g
        \<and> (\<forall>v. marked g' v \<longrightarrow> marked g v) \<and> (\<not> hit \<longrightarrow> marked g' = marked g))"

lemma scan_done: "scan f vs True g = Inr (True, g)"
  by (induction vs) simp_all

lemma scan_answers:
  assumes once: "\<And>h w. \<lbrakk>nb h = nb g; vertex h = vertex g; marked h = marked g; w \<in> V\<rbrakk>
      \<Longrightarrow> search_answer nb vertex marked g (hit w) (f h w)"
  shows "\<lbrakk>nb h = nb g; vertex h = vertex g; marked h = marked g; set vs \<subseteq> V\<rbrakk>
    \<Longrightarrow> search_answer nb vertex marked g (\<exists>w \<in> set vs. hit w) (scan f vs False h)"
proof (induction vs arbitrary: h)
  case Nil
  then show ?case by (simp add: search_answer_def)
next
  case (Cons w vs)
  then have "search_answer nb vertex marked g (hit w) (f h w)" by (intro once) simp_all
  then obtain g' where w: "f h w = Inr (hit w, g')" "nb g' = nb g" "vertex g' = vertex g"
    "\<forall>v. marked g' v \<longrightarrow> marked g v" "\<not> hit w \<longrightarrow> marked g' = marked g"
    by (auto simp: search_answer_def)
  show ?case
  proof (cases "hit w")
    case True
    then show ?thesis using w by (simp add: search_answer_def scan_done)
  next
    case False
    then have "search_answer nb vertex marked g (\<exists>x \<in> set vs. hit x) (scan f vs False g')"
      using Cons.prems(4) w by (intro Cons.IH) simp_all
    then show ?thesis using False w(1) by (simp add: search_answer_def)
  qed
qed

section \<open>The interface\<close>

text \<open>
  The graph keeps a mark per vertex; marking changes no edge. Then the search, from a vertex of
  a finite set closed under the neighbours, decides whether a marked vertex or a cycle can be
  reached; it needs a recursion depth of at most the number of unmarked vertices plus one,
  restores all marks when it answers no, and never leaves a new mark.
\<close>

locale marked_graph =
  fixes vertex :: "'g \<Rightarrow> 'v \<Rightarrow> bool" and nb :: "'g \<Rightarrow> 'v \<Rightarrow> 'v list" and marked :: "'g \<Rightarrow> 'v \<Rightarrow> bool"
    and mark :: "'g \<Rightarrow> 'v \<Rightarrow> 'g" and unmark :: "'g \<Rightarrow> 'v \<Rightarrow> 'g"
  assumes marked_mark: "vertex g v \<Longrightarrow> marked (mark g v) = (marked g)(v := True)"
    and marked_unmark: "vertex g v \<Longrightarrow> marked (unmark g v) = (marked g)(v := False)"
    and nb_mark: "vertex g v \<Longrightarrow> nb (mark g v) = nb g \<and> vertex (mark g v) = vertex g"
    and nb_unmark: "vertex g v \<Longrightarrow> nb (unmark g v) = nb g \<and> vertex (unmark g v) = vertex g"
begin

lemma expand_answers:
  \<comment> \<open>a vertex without a mark: its neighbours are searched with it marked, then the mark is removed\<close>
  assumes "vertex g key" and "\<not> marked g key" and "nb g key \<noteq> []"
    and "search_answer nb vertex marked (mark g key) hit (scan (path_search k nb marked mark unmark) (nb g key) False (mark g key))"
  shows "search_answer nb vertex marked g hit (path_search (Suc k) nb marked mark unmark g key)"
proof -
  note mk = marked_mark[OF assms(1)] and nm = nb_mark[OF assms(1)]
  obtain g' where s: "scan (path_search k nb marked mark unmark) (nb g key) False (mark g key) = Inr (hit, g')"
    "nb g' = nb g" "vertex g' = vertex g" "\<forall>v. marked g' v \<longrightarrow> v = key \<or> marked g v"
    "\<not> hit \<longrightarrow> marked g' = (marked g)(key := True)"
    using assms(4) nm by (auto simp: search_answer_def mk split: if_splits)
  have v: "vertex g' key" using s(3) assms(1) by simp
  have "path_search (Suc k) nb marked mark unmark g key = Inr (hit, unmark g' key)" using assms(2,3) s(1) by simp
  moreover have "marked g = (marked g)(key := False)" using assms(2) by (simp add: fun_upd_idem)
  ultimately show ?thesis using s(2-5) nb_unmark[OF v] by (auto simp: search_answer_def marked_unmark[OF v])
qed

lemma path_search_answers:
  assumes "finite V" and "\<And>v. v \<in> V \<Longrightarrow> vertex g v \<and> set (nb g v) \<subseteq> V" and "key \<in> V"
    and "card (V - {v. marked g v}) < k"
  shows "search_answer nb vertex marked g
    (\<exists>v. (key, v) \<in> (edges (nb g))\<^sup>* \<and> (marked g v \<or> (v, v) \<in> (edges (nb g))\<^sup>+)) (path_search k nb marked mark unmark g key)"
  using assms
proof (induction k arbitrary: g key)
  case (Suc k)
  let ?E = "edges (nb g)"
  have vk: "vertex g key" "set (nb g key) \<subseteq> V" using Suc.prems(2,3) by blast+
  note mk = marked_mark[OF vk(1)] and um = marked_unmark[OF vk(1)] and nm = nb_mark[OF vk(1)] nb_unmark[OF vk(1)]
  consider "marked g key" | "\<not> marked g key" "nb g key = []" | "\<not> marked g key" "nb g key \<noteq> []" by blast
  then show ?case
  proof cases
    case 1
    then have "\<exists>v. (key, v) \<in> ?E\<^sup>* \<and> (marked g v \<or> (v, v) \<in> ?E\<^sup>+)" by blast
    then show ?thesis using 1 by (auto simp: search_answer_def um nm)
  next
    case 2
    have "(key, v) \<in> ?E\<^sup>* \<Longrightarrow> v = key" for v using 2 by (auto simp: edges_def elim: converse_rtranclE)
    moreover have "(key, key) \<notin> ?E\<^sup>+" using 2 by (auto simp: edges_def dest: tranclD)
    ultimately show ?thesis using 2 by (auto simp: search_answer_def)
  next
    case 3
    let ?g = "mark g key" and ?hit = "\<lambda>w. \<exists>v. (w, v) \<in> ?E\<^sup>* \<and> (v \<in> insert key {v. marked g v} \<or> (v, v) \<in> ?E\<^sup>+)"
    have m: "marked ?g v \<longleftrightarrow> v \<in> insert key {v. marked g v}" for v by (simp add: mk)
    have "V - {v. marked ?g v} = V - {v. marked g v} - {key}" by (auto simp: mk)
    then have card: "card (V - {v. marked ?g v}) < k"
      using Suc.prems(1,3,4) 3(1) card_Diff1_less[of "V - {v. marked g v}" key] by auto
    have once: "search_answer nb vertex marked ?g (?hit w) (path_search k nb marked mark unmark h w)"
      if h: "nb h = nb ?g" "vertex h = vertex ?g" "marked h = marked ?g" and w: "w \<in> V" for h w
    proof -
      have "card (V - {v. marked h v}) < k" using card h(3) by simp
      from Suc.IH[OF Suc.prems(1) _ w this] Suc.prems(2) h nm show ?thesis by (simp add: search_answer_def m)
    qed
    have "search_answer nb vertex marked ?g (\<exists>w \<in> set (nb g key). ?hit w)
        (scan (path_search k nb marked mark unmark) (nb g key) False ?g)"
      using vk(2) once by (intro scan_answers[where V = V]) simp_all
    moreover have "(\<exists>v. (key, v) \<in> ?E\<^sup>* \<and> (marked g v \<or> (v, v) \<in> ?E\<^sup>+)) \<longleftrightarrow> (\<exists>w \<in> set (nb g key). ?hit w)"
      using reaches_step[of key "{v. marked g v}" "nb g"] 3(1) by simp
    ultimately show ?thesis using expand_answers[OF vk(1) 3] by simp
  qed
qed simp

lemma path_search_correct:
  assumes "finite V" and "\<And>v. v \<in> V \<Longrightarrow> vertex g v \<and> set (nb g v) \<subseteq> V" and "key \<in> V"
    and "card (V - {v. marked g v}) < k"
  shows "\<exists>r g'. path_search k nb marked mark unmark g key = Inr (r, g')
     \<and> (r \<longleftrightarrow> (\<exists>v. (key, v) \<in> (edges (nb g))\<^sup>* \<and> (marked g v \<or> (v, v) \<in> (edges (nb g))\<^sup>+)))
     \<and> nb g' = nb g \<and> vertex g' = vertex g \<and> (\<forall>v. marked g' v \<longrightarrow> marked g v) \<and> (\<not> r \<longrightarrow> marked g' = marked g)"
  using path_search_answers[OF assms] by (simp add: search_answer_def)

lemma cycle_test:
  assumes "finite V" and "\<And>v. v \<in> V \<Longrightarrow> vertex g v \<and> set (nb g v) \<subseteq> V" and "key \<in> V"
    and "card V < k" and "\<And>v. \<not> marked g v"
  shows "\<exists>g'. path_search k nb marked mark unmark g key = Inr (reaches_cycle (nb g) key, g')
     \<and> nb g' = nb g \<and> vertex g' = vertex g \<and> (\<forall>v. \<not> marked g' v)"
  using path_search_correct[OF assms(1-3), of k] assms(4,5) by (auto simp: reaches_cycle_def)

end

end
