(* ===== verification/Drm.thy ===== *)
theory Drm
  imports Digraph
begin

text \<open>
  The deadlock-resistant mutex of \<^verbatim>\<open>deadlock_demolition/libdrm.c\<close>: a resource allocation graph
  with an edge from a resource to its owner and from a waiting thread to the resource it waits
  for; \<open>drm_wait\<close> refuses to wait when this would close a cycle. The graph library is outside
  the repository: it is a record of functions, with its documented behaviour as \<open>graph_lib_ok\<close>.
  One function call is one critical section of the global mutex \<open>mtx\<close>; a call that finds
  \<open>mtx\<close> taken does not return (\<open>None\<close>).
\<close>

record ('g, 'v) graph_lib =
  neighbors :: "'g \<Rightarrow> 'v \<Rightarrow> 'v list"
  antineighbors :: "'g \<Rightarrow> 'v \<Rightarrow> 'v list"
  contains_vertex :: "'g \<Rightarrow> 'v \<Rightarrow> bool"
  add_vertex :: "'g \<Rightarrow> 'v \<Rightarrow> 'g"
  add_edge :: "'g \<Rightarrow> 'v \<Rightarrow> 'v \<Rightarrow> 'g"
  remove_edge :: "'g \<Rightarrow> 'v \<Rightarrow> 'v \<Rightarrow> 'g"
  get_vertex_value :: "'g \<Rightarrow> 'v \<Rightarrow> int"
  set_vertex_value :: "'g \<Rightarrow> 'v \<Rightarrow> int \<Rightarrow> 'g"

abbreviation edge_set :: "('g, 'v) graph_lib \<Rightarrow> 'g \<Rightarrow> ('v \<times> 'v) set" where
  "edge_set L g \<equiv> edges (neighbors L g)"

definition graph_lib_ok :: "('g, 'v) graph_lib \<Rightarrow> bool" where
  \<comment> \<open>what the code relies on: the library keeps a set of vertices with a value each and a set of
     edges between vertices\<close>
  "graph_lib_ok L \<longleftrightarrow> (\<forall>g u v.
     (\<forall>w. w \<in> set (antineighbors L g v) \<longleftrightarrow> (w, v) \<in> edge_set L g)
     \<and> contains_vertex L (add_vertex L g v) = (contains_vertex L g)(v := True)
     \<and> (\<not> contains_vertex L g v \<longrightarrow> edge_set L (add_vertex L g v) = edge_set L g
          \<and> (\<forall>x. x \<noteq> v \<longrightarrow> get_vertex_value L (add_vertex L g v) x = get_vertex_value L g x))
     \<and> (contains_vertex L g u \<longrightarrow> contains_vertex L g v \<longrightarrow>
          edge_set L (add_edge L g u v) = insert (u, v) (edge_set L g)
          \<and> edge_set L (remove_edge L g u v) = edge_set L g - {(u, v)}
          \<and> contains_vertex L (add_edge L g u v) = contains_vertex L g
          \<and> contains_vertex L (remove_edge L g u v) = contains_vertex L g
          \<and> get_vertex_value L (add_edge L g u v) = get_vertex_value L g
          \<and> get_vertex_value L (remove_edge L g u v) = get_vertex_value L g)
     \<and> (\<forall>i. contains_vertex L g v \<longrightarrow>
          get_vertex_value L (set_vertex_value L g v i) = (get_vertex_value L g)(v := i)
          \<and> neighbors L (set_vertex_value L g v i) = neighbors L g
          \<and> contains_vertex L (set_vertex_value L g v i) = contains_vertex L g))"

section \<open>isCyclic\<close>

primrec isCyclic :: "nat \<Rightarrow> ('g, 'v) graph_lib \<Rightarrow> 'g \<Rightarrow> 'v \<Rightarrow> (bool \<times> 'g) res" where
  \<comment> \<open>for recursion depth less than the fuel\<close>
  "isCyclic 0 L g startkey = Inl Diverges"
| "isCyclic (Suc k) L g startkey =
     (if get_vertex_value L g startkey = 1
      then Inr (True, set_vertex_value L g startkey 0)
      else
        let v = neighbors L g startkey
        in if v = [] then Inr (False, g)
           else rbind (scan (isCyclic k L) v False (set_vertex_value L g startkey 1))
                  (\<lambda>(r, g'). Inr (r, set_vertex_value L g' startkey 0)))"

lemma isCyclic_search:
  "isCyclic k L = path_search k (neighbors L) (\<lambda>g v. get_vertex_value L g v = 1)
     (\<lambda>g v. set_vertex_value L g v 1) (\<lambda>g v. set_vertex_value L g v 0)"
proof (induction k)
  case 0
  show ?case by (intro ext) simp
next
  case (Suc k)
  show ?case by (intro ext) (simp add: Suc Let_def)
qed

lemma lib_marked_graph:
  assumes "graph_lib_ok L"
  shows "marked_graph (contains_vertex L) (neighbors L) (\<lambda>g v. get_vertex_value L g v = 1)
     (\<lambda>g v. set_vertex_value L g v 1) (\<lambda>g v. set_vertex_value L g v 0)"
  using assms by unfold_locales (auto simp: graph_lib_ok_def fun_eq_iff)

section \<open>The mutex operations\<close>

record 'g drm_state =
  graph :: 'g
  mtx :: bool

datatype outcome =
    Returns int
  | Locks_then_returns_1 \<comment> \<open>\<open>pthread_mutex_lock(&(drm->m))\<close>, then \<open>return 1\<close>\<close>
  | Unlocks_and_returns_1 \<comment> \<open>\<open>pthread_mutex_unlock(&(drm->m))\<close>, then \<open>return 1\<close>\<close>

definition drm_init :: "('g, 'v) graph_lib \<Rightarrow> 'g drm_state \<Rightarrow> 'v \<Rightarrow> 'g drm_state option" where
  \<comment> \<open>with the address of the new structure; the graph has been created\<close>
  "drm_init L st mydrm =
     (if mtx st then None
      else Some (st\<lparr>graph := set_vertex_value L (add_vertex L (graph st) mydrm) mydrm 0\<rparr>))"

definition drm_post ::
  "('g, 'v) graph_lib \<Rightarrow> 'g drm_state \<Rightarrow> 'v \<Rightarrow> 'v \<Rightarrow> (outcome \<times> 'g drm_state) option" where
  "drm_post L st drm thread_id =
     (if mtx st then None
      else
        let g = graph st; v1 = neighbors L g drm
        in if contains_vertex L g thread_id \<and> v1 \<noteq> [] \<and> hd v1 = thread_id
           then
             let v2 = antineighbors L g drm;
                 g1 = remove_edge L g drm thread_id;
                 g2 = (if v2 \<noteq> [] then remove_edge L (add_edge L g1 drm (hd v2)) (hd v2) drm else g1)
             in Some (Unlocks_and_returns_1, st\<lparr>graph := g2\<rparr>)
           else Some (Returns 0, st))"

definition drm_wait ::
  "('g, 'v) graph_lib \<Rightarrow> nat \<Rightarrow> 'g drm_state \<Rightarrow> 'v \<Rightarrow> 'v \<Rightarrow> (outcome \<times> 'g drm_state) option res" where
  "drm_wait L fuel st drm thread_id =
     (if mtx st then Inr None
      else
        let g = graph st; v1 = neighbors L g drm
        in if v1 \<noteq> [] \<and> thread_id = hd v1 then Inr (Some (Returns 0, st\<lparr>mtx := True\<rparr>))
           else
             let g1 = (if \<not> contains_vertex L g thread_id
                       then set_vertex_value L (add_vertex L g thread_id) thread_id 0 else g)
             in if v1 = []
                then Inr (Some (Locks_then_returns_1, st\<lparr>graph := add_edge L g1 drm thread_id\<rparr>))
                else rbind (isCyclic fuel L (add_edge L g1 thread_id drm) thread_id) (\<lambda>(r, g2).
                     if r then Inr (Some (Returns 0, st\<lparr>graph := remove_edge L g2 thread_id drm\<rparr>))
                     else Inr (Some (Locks_then_returns_1, st\<lparr>graph := g2\<rparr>))))"

section \<open>The allocation graph\<close>

definition graph_ok :: "('g, 'v) graph_lib \<Rightarrow> 'g \<Rightarrow> 'v set \<Rightarrow> bool" where
  \<comment> \<open>the vertices are the finite set \<open>V\<close>, no vertex is marked\<close>
  "graph_ok L g V \<longleftrightarrow> finite V \<and> (\<forall>v. contains_vertex L g v \<longleftrightarrow> v \<in> V)
     \<and> edge_set L g \<subseteq> V \<times> V \<and> (\<forall>v \<in> V. get_vertex_value L g v \<noteq> 1)"

lemma isCyclic_ok:
  assumes L: "graph_lib_ok L" and g: "graph_ok L g V" and key: "key \<in> V" and k: "card V < k"
  shows "\<exists>g'. isCyclic k L g key = Inr (reaches_cycle (neighbors L g) key, g')
     \<and> neighbors L g' = neighbors L g \<and> graph_ok L g' V"
proof -
  let ?m = "\<lambda>g v. get_vertex_value L g v = 1"
  have V: "finite V" "\<And>v. v \<in> V \<Longrightarrow> contains_vertex L g v \<and> set (neighbors L g v) \<subseteq> V"
    using g by (auto simp: graph_ok_def edges_def)
  have "card (V - {v. ?m g v}) \<le> card V" by (rule card_mono[OF V(1)]) auto
  then have "card (V - {v. ?m g v}) < k" using k by simp
  from marked_graph.path_search_correct[OF lib_marked_graph[OF L] V key this] obtain r g' where
    s: "isCyclic k L g key = Inr (r, g')" "r \<longleftrightarrow> (\<exists>v. (key, v) \<in> (edge_set L g)\<^sup>* \<and> (?m g v \<or> (v, v) \<in> (edge_set L g)\<^sup>+))"
    "neighbors L g' = neighbors L g" "contains_vertex L g' = contains_vertex L g" "\<forall>v. ?m g' v \<longrightarrow> ?m g v"
    by (auto simp: isCyclic_search)
  have "v \<in> V" if "(key, v) \<in> (edge_set L g)\<^sup>*" for v
    using that by (induction rule: rtrancl_induct) (use key g in \<open>auto simp: graph_ok_def\<close>)
  then have "r = reaches_cycle (neighbors L g) key"
    using s(2) g unfolding reaches_cycle_def graph_ok_def by blast
  moreover have "graph_ok L g' V" using g s(3-5) unfolding graph_ok_def by metis
  ultimately show ?thesis using s(1,3) by blast
qed

lemma reaches_cycle_iff:
  \<comment> \<open>in an acyclic graph, a new edge closes a cycle exactly when its source is reachable from its target\<close>
  assumes "acyclic E" and "edges nb = insert (t, d) E"
  shows "reaches_cycle nb t \<longleftrightarrow> (d, t) \<in> E\<^sup>*" and "acyclic (edges nb) \<longleftrightarrow> (d, t) \<notin> E\<^sup>*"
proof -
  show *: "acyclic (edges nb) \<longleftrightarrow> (d, t) \<notin> E\<^sup>*" using assms by (simp add: acyclic_insert)
  show "reaches_cycle nb t \<longleftrightarrow> (d, t) \<in> E\<^sup>*"
  proof
    assume "reaches_cycle nb t"
    then show "(d, t) \<in> E\<^sup>*" using * by (auto simp: reaches_cycle_def acyclic_def)
  next
    assume "(d, t) \<in> E\<^sup>*"
    then have "(d, t) \<in> (edges nb)\<^sup>*" using assms(2) rtrancl_mono[of E "edges nb"] by auto
    moreover have "(t, d) \<in> edges nb" using assms(2) by simp
    ultimately have "(t, t) \<in> (edges nb)\<^sup>+" by (meson rtrancl_into_trancl2)
    then show "reaches_cycle nb t" unfolding reaches_cycle_def by blast
  qed
qed


section \<open>A graph library\<close>

type_synonym list_graph = "nat list \<times> (nat \<times> nat) list \<times> (nat \<Rightarrow> int)"

definition list_lib :: "(list_graph, nat) graph_lib" where
  \<comment> \<open>vertices and edges as lists: the contract of the library is satisfiable\<close>
  "list_lib = \<lparr>
     neighbors = (\<lambda>(vs, es, f) v. map snd (filter (\<lambda>e. fst e = v) es)),
     antineighbors = (\<lambda>(vs, es, f) v. map fst (filter (\<lambda>e. snd e = v) es)),
     contains_vertex = (\<lambda>(vs, es, f) v. v \<in> set vs),
     add_vertex = (\<lambda>(vs, es, f) v. (v # vs, es, f)),
     add_edge = (\<lambda>(vs, es, f) u v. (vs, List.insert (u, v) es, f)),
     remove_edge = (\<lambda>(vs, es, f) u v. (vs, removeAll (u, v) es, f)),
     get_vertex_value = (\<lambda>(vs, es, f) v. f v),
     set_vertex_value = (\<lambda>(vs, es, f) v i. (vs, es, f(v := i)))\<rparr>"

lemma list_lib_edges: "edge_set list_lib (vs, es, f) = set es"
  by (auto simp: edges_def list_lib_def image_iff)

lemma list_lib_simps:
  "antineighbors list_lib (vs, es, f) v = map fst (filter (\<lambda>e. snd e = v) es)"
  "contains_vertex list_lib (vs, es, f) = (\<lambda>v. v \<in> set vs)"
  "add_vertex list_lib (vs, es, f) v = (v # vs, es, f)"
  "add_edge list_lib (vs, es, f) u v = (vs, List.insert (u, v) es, f)"
  "remove_edge list_lib (vs, es, f) u v = (vs, removeAll (u, v) es, f)"
  "get_vertex_value list_lib (vs, es, f) = f"
  "set_vertex_value list_lib (vs, es, f) v i = (vs, es, f(v := i))"
  "neighbors list_lib (vs, es, f(v := i)) = neighbors list_lib (vs, es, f)"
  by (simp_all add: list_lib_def fun_eq_iff)

lemma list_lib_ok: "graph_lib_ok list_lib"
  by (auto simp: graph_lib_ok_def list_lib_simps list_lib_edges fun_eq_iff image_iff)

definition demo_graph :: list_graph where
  \<comment> \<open>resource 1 is owned by thread 10, resource 2 by thread 20, and 10 waits for 2\<close>
  "demo_graph = ([1, 2, 10, 20], [(1, 10), (2, 20), (10, 2)], (\<lambda>_. 0))"

lemma demo_graph_ok: "graph_ok list_lib demo_graph {1, 2, 10, 20}"
  by (auto simp: graph_ok_def demo_graph_def list_lib_edges) (auto simp: list_lib_def)


section \<open>Waiting and posting\<close>

definition drm_inv :: "('g, 'v) graph_lib \<Rightarrow> 'g drm_state \<Rightarrow> 'v set \<Rightarrow> 'v set \<Rightarrow> bool" where
  \<comment> \<open>between calls: \<open>mtx\<close> is free, the graph over the vertices \<open>V\<close> is acyclic, and nobody waits
     for a free resource (the resources are \<open>D\<close>)\<close>
  "drm_inv L st V D \<longleftrightarrow> \<not> mtx st \<and> graph_ok L (graph st) V \<and> acyclic (edge_set L (graph st)) \<and> D \<subseteq> V
     \<and> (\<forall>d \<in> D. neighbors L (graph st) d = [] \<longrightarrow> (\<forall>x. (x, d) \<notin> edge_set L (graph st)))"

lemma neighbors_nil: "neighbors L g d = [] \<longleftrightarrow> (\<forall>x. (d, x) \<notin> edge_set L g)"
  by (auto simp: edges_def)

lemma lib_add_vertex:
  fixes t :: 'v
  assumes "graph_lib_ok L" and "graph_ok L g V"
  defines "g1 \<equiv> (if \<not> contains_vertex L g t then set_vertex_value L (add_vertex L g t) t 0 else g)"
  shows "graph_ok L g1 (insert t V) \<and> edge_set L g1 = edge_set L g"
proof (cases "contains_vertex L g t")
  case True
  then show ?thesis using assms(2) by (auto simp: g1_def graph_ok_def insert_absorb)
next
  case False
  let ?a = "add_vertex L g t"
  have a: "contains_vertex L ?a = (contains_vertex L g)(t := True)" "edge_set L ?a = edge_set L g"
    "\<And>x. x \<noteq> t \<Longrightarrow> get_vertex_value L ?a x = get_vertex_value L g x"
    using assms(1) False unfolding graph_lib_ok_def by blast+
  then have "contains_vertex L ?a t" by simp
  then have b: "get_vertex_value L (set_vertex_value L ?a t 0) = (get_vertex_value L ?a)(t := 0)"
    "neighbors L (set_vertex_value L ?a t 0) = neighbors L ?a"
    "contains_vertex L (set_vertex_value L ?a t 0) = contains_vertex L ?a"
    using assms(1) unfolding graph_lib_ok_def by blast+
  show ?thesis using assms(2) a b False unfolding g1_def graph_ok_def by auto
qed

lemma lib_add_edge:
  assumes "graph_lib_ok L" and "graph_ok L g V" and "u \<in> V" and "v \<in> V"
  shows "graph_ok L (add_edge L g u v) V" and "edge_set L (add_edge L g u v) = insert (u, v) (edge_set L g)"
    and "graph_ok L (remove_edge L g u v) V" and "edge_set L (remove_edge L g u v) = edge_set L g - {(u, v)}"
proof -
  have "contains_vertex L g u" "contains_vertex L g v" using assms(2-4) by (simp_all add: graph_ok_def)
  then have *: "edge_set L (add_edge L g u v) = insert (u, v) (edge_set L g)"
    "edge_set L (remove_edge L g u v) = edge_set L g - {(u, v)}"
    "contains_vertex L (add_edge L g u v) = contains_vertex L g"
    "contains_vertex L (remove_edge L g u v) = contains_vertex L g"
    "get_vertex_value L (add_edge L g u v) = get_vertex_value L g"
    "get_vertex_value L (remove_edge L g u v) = get_vertex_value L g"
    using assms(1) unfolding graph_lib_ok_def by blast+
  show "edge_set L (add_edge L g u v) = insert (u, v) (edge_set L g)"
    "edge_set L (remove_edge L g u v) = edge_set L g - {(u, v)}" by (rule *)+
  show "graph_ok L (add_edge L g u v) V" "graph_ok L (remove_edge L g u v) V"
    using assms(2-4) * by (auto simp: graph_ok_def)
qed

lemma drm_invD:
  assumes "drm_inv L st V D"
  shows "\<not> mtx st" and "graph_ok L (graph st) V" and "acyclic (edge_set L (graph st))" and "D \<subseteq> V"
    and "d \<in> D \<Longrightarrow> neighbors L (graph st) d = [] \<Longrightarrow> (x, d) \<notin> edge_set L (graph st)"
  using assms by (auto simp: drm_inv_def)

lemma drm_wait_vertex:
  \<comment> \<open>the graph once the thread is known to it\<close>
  assumes L: "graph_lib_ok L" and I: "drm_inv L st V D" and d: "drm \<in> D"
  obtains g1 where "g1 = (if \<not> contains_vertex L (graph st) t then set_vertex_value L (add_vertex L (graph st) t) t 0
        else graph st)"
    and "graph_ok L g1 (insert t V)" and "edge_set L g1 = edge_set L (graph st)" and "drm \<in> insert t V"
  using lib_add_vertex[OF L drm_invD(2)[OF I], of t] drm_invD(4)[OF I] d by (intro that[OF refl]) auto

lemma drm_wait_free:
  assumes L: "graph_lib_ok L" and I: "drm_inv L st V D" and d: "drm \<in> D" and t: "t \<notin> D"
    and free: "neighbors L (graph st) drm = []"
  defines "E \<equiv> edge_set L (graph st)"
  shows "\<exists>st'. drm_wait L k st drm t = Inr (Some (Locks_then_returns_1, st'))
     \<and> edge_set L (graph st') = insert (drm, t) E \<and> drm_inv L st' (insert t V) D"
proof -
  note i = drm_invD[OF I, folded E_def]
  obtain g1 where g1: "g1 = (if \<not> contains_vertex L (graph st) t
        then set_vertex_value L (add_vertex L (graph st) t) t 0 else graph st)"
    "graph_ok L g1 (insert t V)" "edge_set L g1 = E" "drm \<in> insert t V"
    using drm_wait_vertex[OF L I d] unfolding E_def .
  let ?st' = "st\<lparr>graph := add_edge L g1 drm t\<rparr>"
  note a = lib_add_edge[OF L g1(2) g1(4) insertI1]
  have "(x, drm) \<notin> E" for x using i(5)[OF d free] .
  then have "(t, drm) \<notin> E\<^sup>*" using t d by (metis rtranclE)
  then have ac: "acyclic (insert (drm, t) E)" using i(3) by (simp add: acyclic_insert)
  have "(x, c) \<notin> insert (drm, t) E" if c: "c \<in> D" and n: "\<And>y. (c, y) \<notin> insert (drm, t) E" for x c
  proof -
    have "neighbors L (graph st) c = []" using n by (auto simp: neighbors_nil E_def)
    then show ?thesis using i(5)[OF c] c t by auto
  qed
  then have "drm_inv L ?st' (insert t V) D"
    using i(1,4) a(1,2) g1(3) ac by (auto simp: drm_inv_def neighbors_nil)
  moreover have "drm_wait L k st drm t = Inr (Some (Locks_then_returns_1, ?st'))"
    using free i(1) by (simp add: drm_wait_def Let_def g1(1))
  ultimately show ?thesis using a(2) g1(3) by auto
qed

lemma drm_wait_owned:
  assumes L: "graph_lib_ok L" and I: "drm_inv L st V D" and d: "drm \<in> D" and k: "card V + 1 < k"
    and own: "neighbors L (graph st) drm \<noteq> []" "hd (neighbors L (graph st) drm) \<noteq> t"
  defines "E \<equiv> edge_set L (graph st)"
  obtains g3 where "drm_wait L k st drm t = (if (drm, t) \<in> E\<^sup>*
          then Inr (Some (Returns 0, st\<lparr>graph := remove_edge L g3 t drm\<rparr>))
          else Inr (Some (Locks_then_returns_1, st\<lparr>graph := g3\<rparr>)))"
    and "edge_set L g3 = insert (t, drm) E" and "graph_ok L g3 (insert t V)" and "drm \<in> insert t V"
    and "(drm, t) \<notin> E\<^sup>* \<Longrightarrow> acyclic (edge_set L g3)"
proof -
  note i = drm_invD[OF I, folded E_def]
  obtain g1 where g1: "g1 = (if \<not> contains_vertex L (graph st) t
        then set_vertex_value L (add_vertex L (graph st) t) t 0 else graph st)"
    "graph_ok L g1 (insert t V)" "edge_set L g1 = E" "drm \<in> insert t V"
    using drm_wait_vertex[OF L I d] unfolding E_def .
  note a = lib_add_edge[OF L g1(2) insertI1 g1(4)]
  have fin: "finite V" using i(2) by (simp add: graph_ok_def)
  then have "card (insert t V) < k" using k by (simp add: card_insert_if)
  from isCyclic_ok[OF L a(1) insertI1 this] obtain g3 where
    c: "isCyclic k L (add_edge L g1 t drm) t = Inr (reaches_cycle (neighbors L (add_edge L g1 t drm)) t, g3)"
      "neighbors L g3 = neighbors L (add_edge L g1 t drm)" "graph_ok L g3 (insert t V)" by blast
  have e2: "edge_set L (add_edge L g1 t drm) = insert (t, drm) E" using a(2) g1(3) by simp
  note rc = reaches_cycle_iff[OF i(3) e2]
  have "drm_wait L k st drm t = (if (drm, t) \<in> E\<^sup>*
          then Inr (Some (Returns 0, st\<lparr>graph := remove_edge L g3 t drm\<rparr>))
          else Inr (Some (Locks_then_returns_1, st\<lparr>graph := g3\<rparr>)))"
    using own i(1) c(1) rc(1) unfolding drm_wait_def Let_def g1(1)[symmetric] by auto
  moreover have "edge_set L g3 = insert (t, drm) E" using c(2) e2 by simp
  moreover have "(drm, t) \<notin> E\<^sup>* \<Longrightarrow> acyclic (edge_set L g3)" using rc(2) c(2) by simp
  ultimately show ?thesis using that[of g3] c(3) g1(4) by blast
qed

lemma drm_wait_refused:
  assumes L: "graph_lib_ok L" and I: "drm_inv L st V D" and c: "(drm, t) \<in> (edge_set L (graph st))\<^sup>*"
    and g: "edge_set L g3 = insert (t, drm) (edge_set L (graph st))" "graph_ok L g3 (insert t V)" "drm \<in> insert t V"
  shows "edge_set L (remove_edge L g3 t drm) = edge_set L (graph st)"
    and "drm_inv L (st\<lparr>graph := remove_edge L g3 t drm\<rparr>) (insert t V) D"
proof -
  note i = drm_invD[OF I] and r = lib_add_edge(3,4)[OF L g(2) insertI1 g(3)]
  have "(t, drm) \<notin> edge_set L (graph st)" using c i(3) by (meson acyclic_def rtrancl_into_trancl2)
  then show e: "edge_set L (remove_edge L g3 t drm) = edge_set L (graph st)" using r(2) g(1) by auto
  show "drm_inv L (st\<lparr>graph := remove_edge L g3 t drm\<rparr>) (insert t V) D"
    using i r(1) e by (auto simp: drm_inv_def neighbors_nil)
qed

lemma drm_wait_recorded:
  assumes I: "drm_inv L st V D" and own: "neighbors L (graph st) drm \<noteq> []"
    and g: "edge_set L g3 = insert (t, drm) (edge_set L (graph st))" "graph_ok L g3 (insert t V)" "acyclic (edge_set L g3)"
  shows "drm_inv L (st\<lparr>graph := g3\<rparr>) (insert t V) D"
proof -
  note i = drm_invD[OF I]
  have "(x, q) \<notin> edge_set L g3" if q: "q \<in> D" and n: "\<And>y. (q, y) \<notin> edge_set L g3" for x q
  proof -
    have "neighbors L (graph st) q = []" using n by (auto simp: neighbors_nil g(1))
    then show ?thesis using i(5)[OF q] own n by (auto simp: g(1) neighbors_nil)
  qed
  then show ?thesis using i(1,4) g by (auto simp: drm_inv_def neighbors_nil)
qed

lemma drm_wait_ok:
  assumes L: "graph_lib_ok L" and I: "drm_inv L st V D" and d: "drm \<in> D" and t: "t \<notin> D"
    and k: "card V + 1 < k"
  defines "E \<equiv> edge_set L (graph st)" and "owner \<equiv> neighbors L (graph st) drm"
  shows "\<exists>out st'. drm_wait L k st drm t = Inr (Some (out, st'))
     \<and> (owner = [] \<longrightarrow> out = Locks_then_returns_1 \<and> edge_set L (graph st') = insert (drm, t) E
          \<and> drm_inv L st' (insert t V) D)
     \<and> (owner \<noteq> [] \<and> hd owner \<noteq> t \<and> (drm, t) \<in> E\<^sup>* \<longrightarrow> out = Returns 0 \<and> edge_set L (graph st') = E
          \<and> drm_inv L st' (insert t V) D)
     \<and> (owner \<noteq> [] \<and> hd owner \<noteq> t \<and> (drm, t) \<notin> E\<^sup>* \<longrightarrow> out = Locks_then_returns_1
          \<and> edge_set L (graph st') = insert (t, drm) E \<and> drm_inv L st' (insert t V) D)
     \<and> (owner \<noteq> [] \<and> hd owner = t \<longrightarrow> out = Returns 0 \<and> mtx st'
          \<and> (\<forall>j x y. drm_wait L j st' x y = Inr None \<and> drm_post L st' x y = None \<and> drm_init L st' x = None))"
proof -
  consider "owner = []" | "owner \<noteq> []" "hd owner = t" | "owner \<noteq> []" "hd owner \<noteq> t" by blast
  then show ?thesis
  proof cases
    case 1
    then show ?thesis using drm_wait_free[OF L I d t, of k] unfolding E_def owner_def by blast
  next
    case 2
    then have "drm_wait L k st drm t = Inr (Some (Returns 0, st\<lparr>mtx := True\<rparr>))"
      using drm_invD(1)[OF I] by (simp add: drm_wait_def Let_def owner_def)
    then show ?thesis using 2
      by (intro exI[of _ "Returns 0"] exI[of _ "st\<lparr>mtx := True\<rparr>"]) (simp add: drm_wait_def drm_post_def drm_init_def)
  next
    case 3
    note own = 3[unfolded owner_def]
    obtain g3 where w: "drm_wait L k st drm t = (if (drm, t) \<in> E\<^sup>*
          then Inr (Some (Returns 0, st\<lparr>graph := remove_edge L g3 t drm\<rparr>))
          else Inr (Some (Locks_then_returns_1, st\<lparr>graph := g3\<rparr>)))"
      "edge_set L g3 = insert (t, drm) E" "graph_ok L g3 (insert t V)" "drm \<in> insert t V"
      "(drm, t) \<notin> E\<^sup>* \<Longrightarrow> acyclic (edge_set L g3)"
      using drm_wait_owned[OF L I d k own] unfolding E_def by blast
    show ?thesis
    proof (cases "(drm, t) \<in> E\<^sup>*")
      case True
      then show ?thesis
        using w(1) 3 drm_wait_refused[OF L I _ w(2,3,4)[unfolded E_def]] unfolding E_def by simp
    next
      case False
      then show ?thesis
        using w(1,2) 3 drm_wait_recorded[OF I own(1) w(2,3)[unfolded E_def] w(5)] unfolding E_def by simp
    qed
  qed
qed


interpretation lib:
  marked_graph "contains_vertex list_lib" "neighbors list_lib" "\<lambda>g v. get_vertex_value list_lib g v = 1"
    "\<lambda>g v. set_vertex_value list_lib g v 1" "\<lambda>g v. set_vertex_value list_lib g v 0"
  by (rule lib_marked_graph[OF list_lib_ok])

definition demo_drm :: "list_graph drm_state" where
  "demo_drm = \<lparr>graph = demo_graph, mtx = False\<rparr>"

lemma demo_drm_inv: "drm_inv list_lib demo_drm {1, 2, 10, 20} {1, 2}"
proof -
  have "acyclic {(1::nat, 10), (2, 20), (10, 2)}"
    by (rule wf_acyclic[OF wf_subset[of "measure (\<lambda>n. if n = 1 then 0 else if n = 10 then 1 else n)"]]) auto
  then show ?thesis using demo_graph_ok unfolding drm_inv_def neighbors_nil demo_drm_def demo_graph_def
    by (simp add: list_lib_edges)
qed


lemma drm_post_free:
  assumes L: "graph_lib_ok L" and I: "drm_inv L st V D" and E: "E = edge_set L (graph st)" and dt: "(drm, t) \<in> E"
    and alone: "\<And>x. (x, drm) \<notin> E"
  shows "edge_set L (remove_edge L (graph st) drm t) = E - {(drm, t)}"
    and "drm_inv L (st\<lparr>graph := remove_edge L (graph st) drm t\<rparr>) V D"
proof -
  note i = drm_invD[OF I, folded E]
  have V: "drm \<in> V" "t \<in> V" using dt i(2) by (auto simp: graph_ok_def E)
  note r = lib_add_edge(3,4)[OF L i(2) V, folded E]
  show "edge_set L (remove_edge L (graph st) drm t) = E - {(drm, t)}" by (rule r(2))
  have "acyclic (E - {(drm, t)})" using i(3) by (rule acyclic_subset) auto
  moreover have "(x, c) \<notin> E - {(drm, t)}" if c: "c \<in> D" "\<And>x. (c, x) \<notin> E - {(drm, t)}" for x c
  proof (cases "c = drm")
    case False
    then have "neighbors L (graph st) c = []" using c(2) by (auto simp: neighbors_nil E)
    then show ?thesis using i(5)[OF c(1)] by blast
  qed (use alone in simp)
  ultimately show "drm_inv L (st\<lparr>graph := remove_edge L (graph st) drm t\<rparr>) V D"
    using i(1,4) r by (auto simp: drm_inv_def neighbors_nil)
qed

lemma acyclic_hand_over:
  \<comment> \<open>an edge from \<open>w\<close> to \<open>d\<close> is turned round, \<open>w\<close> has no other\<close>
  assumes "acyclic E" and "\<And>x. (w, x) \<in> E \<Longrightarrow> x = d" and "w \<noteq> d"
  shows "acyclic (insert (d, w) (E - {(d, t)}) - {(w, d)})"
proof -
  let ?F = "E - {(d, t)} - {(w, d)}"
  have "acyclic ?F" using assms(1) by (rule acyclic_subset) auto
  moreover have "(w, d) \<notin> ?F\<^sup>*"
  proof
    assume "(w, d) \<in> ?F\<^sup>*"
    then show False by (rule converse_rtranclE) (use assms(2,3) in auto)
  qed
  ultimately have "acyclic (insert (d, w) ?F)" by (simp add: acyclic_insert)
  then show ?thesis by (rule acyclic_subset) auto
qed

lemma drm_post_hand_over:
  assumes L: "graph_lib_ok L" and I: "drm_inv L st V D" and E: "E = edge_set L (graph st)" and dt: "(drm, t) \<in> E"
    and w: "(w, drm) \<in> E" "\<And>x. (w, x) \<in> E \<Longrightarrow> x = drm" "w \<notin> D"
  defines "g2 \<equiv> remove_edge L (add_edge L (remove_edge L (graph st) drm t) drm w) w drm"
  shows "edge_set L g2 = insert (drm, w) (E - {(drm, t)}) - {(w, drm)}" and "drm_inv L (st\<lparr>graph := g2\<rparr>) V D"
proof -
  note i = drm_invD[OF I, folded E]
  have V: "drm \<in> V" "t \<in> V" "w \<in> V" using dt w(1) i(2) by (auto simp: graph_ok_def E)
  have wd: "w \<noteq> drm" using w(1) i(3) by (auto simp: acyclic_def)
  note r = lib_add_edge(3,4)[OF L i(2) V(1,2), folded E]
  note a = lib_add_edge(1,2)[OF L r(1) V(1,3)]
  note b = lib_add_edge(3,4)[OF L a(1) V(3,1)]
  let ?E' = "insert (drm, w) (E - {(drm, t)}) - {(w, drm)}"
  show e: "edge_set L g2 = ?E'" using b(2) a(2) r(2) by (simp add: g2_def)
  have "(x, c) \<notin> ?E'" if c: "c \<in> D" "\<And>x. (c, x) \<notin> ?E'" for x c
  proof -
    have "c \<noteq> drm" using c(2)[of w] wd by auto
    moreover have "c \<noteq> w" using c(1) w(3) by blast
    ultimately have "neighbors L (graph st) c = []" using c(2) by (auto simp: neighbors_nil E)
    then show ?thesis using i(5)[OF c(1)] \<open>c \<noteq> w\<close> by auto
  qed
  then show "drm_inv L (st\<lparr>graph := g2\<rparr>) V D"
    using i(1,4) b(1) acyclic_hand_over[OF i(3) w(2) wd] e by (auto simp: drm_inv_def neighbors_nil g2_def)
qed

text \<open>
  \<open>drm_post\<close> by a thread that does not own the resource returns 0 and changes nothing; by the
  owner it passes the ownership to the first waiting thread, or frees the resource when nobody
  waits. The graph stays acyclic when the thread that gets the resource waits for nothing else.
\<close>

theorem drm_post_correct:
  assumes L: "graph_lib_ok L" and I: "drm_inv L st V D" and d: "drm \<in> D"
    and o: "neighbors L (graph st) drm = owner" and w: "antineighbors L (graph st) drm = ws"
    and one: "set owner \<subseteq> {hd owner}"
    and only: "\<And>x. ws \<noteq> [] \<Longrightarrow> (hd ws, x) \<in> edge_set L (graph st) \<Longrightarrow> x = drm"
    and ws: "set ws \<inter> D = {}"
  shows "(owner = [] \<or> hd owner \<noteq> t \<longrightarrow> drm_post L st drm t = Some (Returns 0, st))
     \<and> (owner \<noteq> [] \<and> hd owner = t \<longrightarrow> (\<exists>st'. drm_post L st drm t = Some (Unlocks_and_returns_1, st')
          \<and> edge_set L (graph st') = (edge_set L (graph st) - {(drm, t)})
              \<union> (if ws = [] then {} else {(drm, hd ws)}) - (if ws = [] then {} else {(hd ws, drm)})
          \<and> drm_inv L st' V D))"
proof (cases "owner \<noteq> [] \<and> hd owner = t")
  case False
  then show ?thesis using I o by (auto simp: drm_post_def drm_inv_def Let_def)
next
  case True
  let ?E = "edge_set L (graph st)"
  note i = drm_invD[OF I]
  have dt: "(drm, t) \<in> ?E" using True o by (auto simp: edges_def)
  then have ct: "contains_vertex L (graph st) t" using i(2) by (auto simp: graph_ok_def)
  have anti: "x \<in> set ws \<longleftrightarrow> (x, drm) \<in> ?E" for x
    using L w unfolding graph_lib_ok_def by blast
  show ?thesis
  proof (cases "ws = []")
    case ws0: True
    have "drm_post L st drm t = Some (Unlocks_and_returns_1, st\<lparr>graph := remove_edge L (graph st) drm t\<rparr>)"
      using True o w ws0 ct i(1) by (simp add: drm_post_def Let_def)
    then show ?thesis using True ws0 drm_post_free[OF L I refl dt] anti by simp
  next
    case False
    let ?g2 = "remove_edge L (add_edge L (remove_edge L (graph st) drm t) drm (hd ws)) (hd ws) drm"
    have "(hd ws, drm) \<in> ?E" "hd ws \<notin> D" using anti False ws hd_in_set[OF False] by auto
    note h = drm_post_hand_over[OF L I refl dt this(1) only[OF False] this(2)]
    have "drm_post L st drm t = Some (Unlocks_and_returns_1, st\<lparr>graph := ?g2\<rparr>)"
      using True o w False ct i(1) by (simp add: drm_post_def Let_def)
    then show ?thesis using True False h by auto
  qed
qed

theorem drm_post_correct_witness:
  "\<exists>st'. drm_post list_lib demo_drm 2 20 = Some (Unlocks_and_returns_1, st')
     \<and> edge_set list_lib (graph st') = {(1, 10), (2, 10)}"
proof -
  have E: "edge_set list_lib (graph demo_drm) = {(1, 10), (2, 20), (10, 2)}"
    by (simp add: demo_drm_def demo_graph_def list_lib_edges)
  have n: "neighbors list_lib (graph demo_drm) 2 = [20]" "antineighbors list_lib (graph demo_drm) 2 = [10]"
    by (simp_all add: demo_drm_def demo_graph_def list_lib_def)
  have only: "(hd [10], x) \<in> edge_set list_lib (graph demo_drm) \<Longrightarrow> x = 2" for x unfolding E by simp
  have "\<exists>st'. drm_post list_lib demo_drm 2 20 = Some (Unlocks_and_returns_1, st')
      \<and> edge_set list_lib (graph st') = edge_set list_lib (graph demo_drm) - {(2, 20)} \<union> {(2, 10)} - {(10, 2)}"
    using drm_post_correct[OF list_lib_ok demo_drm_inv _ n _ only, of 20] by fastforce
  then obtain st' where s: "drm_post list_lib demo_drm 2 20 = Some (Unlocks_and_returns_1, st')"
    "edge_set list_lib (graph st') = edge_set list_lib (graph demo_drm) - {(2, 20)} \<union> {(2, 10)} - {(10, 2)}"
    by blast
  have "edge_set list_lib (graph st') = {(1, 10), (2, 10)}"
    unfolding s(2) E by (simp add: insert_Diff_if insert_commute)
  with s(1) show ?thesis by blast
qed

end
