(* ===== verification/Parmake.thy ===== *)
theory Parmake
  imports Digraph
begin

text \<open>
  The parallel make of \<^verbatim>\<open>parallel_make/parmake.c\<close>: the cycle test of the goals, the collection of
  the rules in dependency order and a worker that satisfies them. The dependency graph is read
  by the parser and never changed: it is the function \<open>nb\<close> (\<open>graph_neighbors\<close>); the rules
  attached to its vertices are the state. The file system and \<open>system\<close> are parameters that act
  on a world.
\<close>

record 'c rule_t =
  state :: int
  data :: bool \<comment> \<open>\<open>data\<close> is not \<open>NULL\<close>\<close>
  commands :: "'c list"

type_synonym ('v, 'c) rules = "'v \<Rightarrow> 'c rule_t"

definition set_data :: "('v, 'c) rules \<Rightarrow> 'v \<Rightarrow> bool \<Rightarrow> ('v, 'c) rules" where
  "set_data rl v b = rl(v := (rl v)\<lparr>data := b\<rparr>)"

definition set_state :: "('v, 'c) rules \<Rightarrow> 'v \<Rightarrow> int \<Rightarrow> ('v, 'c) rules" where
  "set_state rl v i = rl(v := (rl v)\<lparr>state := i\<rparr>)"

section \<open>Cycles\<close>

primrec isCycle :: "nat \<Rightarrow> ('v \<Rightarrow> 'v list) \<Rightarrow> ('v, 'c) rules \<Rightarrow> 'v \<Rightarrow> (bool \<times> ('v, 'c) rules) res" where
  \<comment> \<open>for recursion depth less than the fuel\<close>
  "isCycle 0 nb rl key = Inl Diverges"
| "isCycle (Suc k) nb rl key =
     (if data (rl key) then Inr (True, set_data rl key False)
      else if nb key = [] then Inr (False, rl)
      else rbind (scan (isCycle k nb) (nb key) False (set_data rl key True))
             (\<lambda>(r, rl'). Inr (r, set_data rl' key False)))"

interpretation rules:
  marked_graph "\<lambda>rl v. True" "\<lambda>rl. nb" "\<lambda>rl v. data (rl v)"
    "\<lambda>rl v. set_data rl v True" "\<lambda>rl v. set_data rl v False"
  for nb :: "'v \<Rightarrow> 'v list"
  by unfold_locales (auto simp: set_data_def fun_eq_iff)

lemma isCycle_search:
  "isCycle k nb = path_search k (\<lambda>rl. nb) (\<lambda>rl v. data (rl v))
     (\<lambda>rl v. set_data rl v True) (\<lambda>rl v. set_data rl v False)"
proof (induction k)
  case 0
  show ?case by (intro ext) simp
next
  case (Suc k)
  show ?case by (intro ext) (simp add: Suc)
qed

section \<open>Collecting the rules\<close>

primrec each :: "('v \<Rightarrow> 's \<Rightarrow> 's res) \<Rightarrow> 'v list \<Rightarrow> 's \<Rightarrow> 's res" where
  \<comment> \<open>a loop over a vector\<close>
  "each f [] s = Inr s"
| "each f (v # vs) s = rbind (f v s) (each f vs)"

primrec collect_rules ::
  "nat \<Rightarrow> ('v \<Rightarrow> 'v list) \<Rightarrow> 'v \<Rightarrow> ('v, 'c) rules \<times> 'v list \<Rightarrow> (('v, 'c) rules \<times> 'v list) res" where
  \<comment> \<open>with the queue \<open>rules\<close>, for recursion depth less than the fuel\<close>
  "collect_rules 0 nb goal s = Inl Diverges"
| "collect_rules (Suc k) nb goal s =
     rbind (each (collect_rules k nb) (nb goal) s) (\<lambda>(rl, q).
       if state (rl goal) = 0 then Inr (set_state rl goal (- 1), q @ [goal]) else Inr (rl, q))"

definition collect_goal ::
  "nat \<Rightarrow> ('v \<Rightarrow> 'v list) \<Rightarrow> 'v \<Rightarrow> ('v, 'c) rules \<times> 'v list \<Rightarrow> (('v, 'c) rules \<times> 'v list) res" where
  \<comment> \<open>the body of the loop of \<open>parmake\<close> over the goals\<close>
  "collect_goal fuel nb goal s =
     (case s of (rl, q) \<Rightarrow> rbind (isCycle fuel nb rl goal) (\<lambda>(r, rl').
        if r then Inr (set_state rl' goal 2, q) else collect_rules fuel nb goal (rl', q)))"

definition parmake_collect ::
  "nat \<Rightarrow> ('v \<Rightarrow> 'v list) \<Rightarrow> 'v list \<Rightarrow> ('v, 'c) rules \<Rightarrow> (('v, 'c) rules \<times> 'v list) res" where
  "parmake_collect fuel nb goals rl = each (collect_goal fuel nb) goals (rl, [])"

section \<open>The worker\<close>

definition need_to_run_command ::
  "('v \<Rightarrow> 'v list) \<Rightarrow> ('w \<Rightarrow> 'v \<Rightarrow> int option) \<Rightarrow> 'w \<Rightarrow> 'v \<Rightarrow> bool" where
  \<comment> \<open>\<open>mtime w f\<close> is \<open>None\<close> when \<open>stat\<close> fails\<close>
  "need_to_run_command nb mtime w goal =
     (case mtime w goal of None \<Rightarrow> True
      | Some t1 \<Rightarrow> list_ex (\<lambda>v. case mtime w v of None \<Rightarrow> True | Some t2 \<Rightarrow> t1 - t2 < 0) (nb goal))"

fun check_neighbors :: "('v, 'c) rules \<Rightarrow> 'v list \<Rightarrow> bool res" where
  \<comment> \<open>the loop over the dependencies: a lone worker that has to wait waits for ever; otherwise
     whether one of them failed\<close>
  "check_neighbors rl [] = Inr False"
| "check_neighbors rl (v # vs) =
     (if state (rl v) = - 1 \<or> state (rl v) = 3 then Inl Diverges
      else if state (rl v) = 2 then Inr True
      else check_neighbors rl vs)"

fun run_commands :: "('w \<Rightarrow> 'c \<Rightarrow> int \<times> 'w) \<Rightarrow> 'c list \<Rightarrow> 'w \<Rightarrow> bool \<times> 'w" where
  \<comment> \<open>up to the first command that fails; \<open>success\<close>\<close>
  "run_commands system [] w = (True, w)"
| "run_commands system (c # cs) w =
     (case system w c of (i, w') \<Rightarrow> if i \<noteq> 0 then (False, w') else run_commands system cs w')"

definition satisfy_rule ::
  "('v \<Rightarrow> 'v list) \<Rightarrow> ('w \<Rightarrow> 'v \<Rightarrow> int option) \<Rightarrow> ('w \<Rightarrow> 'c \<Rightarrow> int \<times> 'w) \<Rightarrow> 'v
     \<Rightarrow> ('v, 'c) rules \<times> 'w \<Rightarrow> (('v, 'c) rules \<times> 'w) res" where
  \<comment> \<open>one turn of the loop of \<open>satisfy_rule\<close>, by a worker that runs alone\<close>
  "satisfy_rule nb mtime system target s =
     (case s of (rl, w) \<Rightarrow>
      if state (rl target) \<noteq> - 1 then Inr s
      else rbind (check_neighbors rl (nb target)) (\<lambda>next.
        if next then Inr (set_state rl target 2, w)
        else
          let need_run = need_to_run_command nb mtime w target;
              rl3 = set_state rl target 3;
              (success, w') = (if need_run then run_commands system (commands (rl3 target)) w else (True, w))
          in Inr (set_state rl3 target (if success then 1 else 2), w')))"

definition parmake ::
  "nat \<Rightarrow> ('v \<Rightarrow> 'v list) \<Rightarrow> ('w \<Rightarrow> 'v \<Rightarrow> int option) \<Rightarrow> ('w \<Rightarrow> 'c \<Rightarrow> int \<times> 'w) \<Rightarrow> 'v list
     \<Rightarrow> ('v, 'c) rules \<Rightarrow> 'w \<Rightarrow> (('v, 'c) rules \<times> 'w) res" where
  \<comment> \<open>with one worker thread, which pulls the rules from the queue in order\<close>
  "parmake fuel nb mtime system goals rl w =
     rbind (parmake_collect fuel nb goals rl) (\<lambda>(rl', q). each (satisfy_rule nb mtime system) q (rl', w))"

section \<open>The queue is in dependency order\<close>

definition below :: "('v \<Rightarrow> 'v list) \<Rightarrow> 'v \<Rightarrow> 'v set" where
  \<comment> \<open>a target and everything it depends on\<close>
  "below nb g = {v. (g, v) \<in> (edges nb)\<^sup>*}"

definition ordered :: "('v \<Rightarrow> 'v list) \<Rightarrow> 'v list \<Rightarrow> bool" where
  \<comment> \<open>every target comes after its dependencies\<close>
  "ordered nb q \<longleftrightarrow> (\<forall>us v vs. q = us @ v # vs \<longrightarrow> set (nb v) \<subseteq> set us)"

definition queue_ok :: "('v \<Rightarrow> 'v list) \<Rightarrow> ('v, 'c) rules \<times> 'v list \<Rightarrow> bool" where
  "queue_ok nb s \<longleftrightarrow> (case s of (rl, q) \<Rightarrow>
     distinct q \<and> ordered nb q \<and> (\<forall>v. state (rl v) = - 1 \<longleftrightarrow> v \<in> set q))"

lemma ordered_Nil [simp]: "ordered nb []"
  by (simp add: ordered_def)

lemma ordered_snoc: "ordered nb (q @ [g]) \<longleftrightarrow> ordered nb q \<and> set (nb g) \<subseteq> set q"
proof
  assume o: "ordered nb (q @ [g])"
  then have "set (nb g) \<subseteq> set q" unfolding ordered_def by blast
  moreover have "set (nb v) \<subseteq> set us" if "q = us @ v # vs" for us v vs
    using o that unfolding ordered_def by (metis append.assoc append_Cons)
  ultimately show "ordered nb q \<and> set (nb g) \<subseteq> set q" unfolding ordered_def by blast
next
  assume "ordered nb q \<and> set (nb g) \<subseteq> set q"
  then show "ordered nb (q @ [g])" unfolding ordered_def
    by (auto simp: append_eq_append_conv2 append_eq_Cons_conv Cons_eq_append_conv)
qed

lemma below_unfold: "below nb g = insert g (\<Union>w \<in> set (nb g). below nb w)"
proof -
  have "(g, v) \<in> (edges nb)\<^sup>* \<longleftrightarrow> v = g \<or> (\<exists>w \<in> set (nb g). (w, v) \<in> (edges nb)\<^sup>*)" for v
  proof
    assume "(g, v) \<in> (edges nb)\<^sup>*"
    then show "v = g \<or> (\<exists>w \<in> set (nb g). (w, v) \<in> (edges nb)\<^sup>*)"
      by (cases rule: converse_rtranclE) (auto simp: edges_def)
  next
    assume "v = g \<or> (\<exists>w \<in> set (nb g). (w, v) \<in> (edges nb)\<^sup>*)"
    then show "(g, v) \<in> (edges nb)\<^sup>*" by (auto simp: edges_def intro: converse_rtrancl_into_rtrancl)
  qed
  then show ?thesis by (auto simp: below_def)
qed

lemma reaches_cycle_below: "v \<in> below nb g \<Longrightarrow> reaches_cycle nb v \<Longrightarrow> reaches_cycle nb g"
  unfolding below_def reaches_cycle_def by (blast intro: rtrancl_trans)

lemma below_decreases:
  assumes "\<not> reaches_cycle nb g" and "w \<in> set (nb g)"
  shows "g \<notin> below nb w" and "\<not> reaches_cycle nb w"
proof -
  have gw: "(g, w) \<in> edges nb" using assms(2) by (simp add: edges_def)
  show "g \<notin> below nb w"
    using assms(1) gw unfolding below_def reaches_cycle_def by (blast intro: rtrancl_into_trancl2)
  show "\<not> reaches_cycle nb w" using assms(1) reaches_cycle_below[of w nb g] gw by (auto simp: below_def)
qed

lemma set_state_simps [simp]:
  "state (set_state rl v i u) = (if u = v then i else state (rl u))"
  "commands (set_state rl v i u) = commands (rl u)" "data (set_state rl v i u) = data (rl u)"
  by (simp_all add: set_state_def)

lemma set_state_other [simp]: "u \<noteq> v \<Longrightarrow> set_state rl v i u = rl u"
  by (simp add: set_state_def)

definition gathered :: "('v \<Rightarrow> 'v list) \<Rightarrow> ('v, 'c) rules \<times> 'v list \<Rightarrow> 'v set \<Rightarrow> ('v, 'c) rules \<times> 'v list \<Rightarrow> bool" where
  \<comment> \<open>from the first rules and queue to the second, exactly the rules in \<open>S\<close> have been queued\<close>
  "gathered nb = (\<lambda>(rl, q) S (rl', q'). queue_ok nb (rl', q') \<and> set q' = set q \<union> S \<and> (\<exists>new. q' = q @ new)
     \<and> (\<forall>v. commands (rl' v) = commands (rl v) \<and> data (rl' v) = data (rl v))
     \<and> (\<forall>v. v \<notin> S \<longrightarrow> state (rl' v) = state (rl v)))"

lemma gathered_trans:
  "gathered nb s S s1 \<Longrightarrow> gathered nb s1 T s2 \<Longrightarrow> gathered nb s (S \<union> T) s2"
  by (auto simp: gathered_def split: prod.splits)

definition fresh_below :: "('v \<Rightarrow> 'v list) \<Rightarrow> ('v, 'c) rules \<Rightarrow> 'v \<Rightarrow> bool" where
  "fresh_below nb rl w \<longleftrightarrow> (\<forall>v \<in> below nb w. state (rl v) \<in> {0, - 1})"

lemma fresh_after:
  assumes "gathered nb (rl, q) S (rl1, q1)" and "fresh_below nb rl x"
  shows "fresh_below nb rl1 x"
proof -
  have "state (rl1 v) \<in> {0, - 1}" if "v \<in> below nb x" for v
    using assms that by (cases "v \<in> S") (auto simp: gathered_def fresh_below_def queue_ok_def)
  then show ?thesis by (simp add: fresh_below_def)
qed

lemma collect_each_ok:
  fixes rl :: "('v, 'c) rules"
  assumes nc: "\<not> reaches_cycle nb g" and fin: "finite (below nb g)" and card: "card (below nb g) \<le> Suc k"
    and IH: "\<And>w (rl :: ('v, 'c) rules) q. \<lbrakk>queue_ok nb (rl, q); \<not> reaches_cycle nb w; finite (below nb w); card (below nb w) \<le> k;
        fresh_below nb rl w\<rbrakk> \<Longrightarrow> \<exists>s'. collect_rules k nb w (rl, q) = Inr s' \<and> gathered nb (rl, q) (below nb w) s'"
  shows "\<lbrakk>set ws \<subseteq> set (nb g); queue_ok nb (rl, q); \<forall>w \<in> set ws. fresh_below nb rl w\<rbrakk>
    \<Longrightarrow> \<exists>s'. each (collect_rules k nb) ws (rl, q) = Inr s' \<and> gathered nb (rl, q) (\<Union>w \<in> set ws. below nb w) s'"
proof (induction ws arbitrary: rl q)
  case Nil
  then show ?case by (simp add: gathered_def)
next
  case (Cons w ws)
  have w: "w \<in> set (nb g)" using Cons.prems(1) by simp
  note bd = below_decreases[OF nc w]
  have sub: "below nb w \<subset> below nb g" using below_unfold[of nb g] w bd(1) by auto
  then have fw: "finite (below nb w)" and "card (below nb w) < card (below nb g)"
    using fin by (auto intro: finite_subset psubset_card_mono)
  then have cw: "card (below nb w) \<le> k" using card by simp
  have fr: "fresh_below nb rl w" using Cons.prems(3) by simp
  obtain rl1 q1 where 1: "collect_rules k nb w (rl, q) = Inr (rl1, q1)" "gathered nb (rl, q) (below nb w) (rl1, q1)"
    using IH[OF Cons.prems(2) bd(2) fw cw fr] by auto
  have ws: "set ws \<subseteq> set (nb g)" using Cons.prems(1) by simp
  have q1: "queue_ok nb (rl1, q1)" using 1(2) by (simp add: gathered_def)
  have "\<forall>x \<in> set ws. fresh_below nb rl1 x" using fresh_after[OF 1(2)] Cons.prems(3) by simp
  then obtain s2 where "each (collect_rules k nb) ws (rl1, q1) = Inr s2"
      "gathered nb (rl1, q1) (\<Union>x \<in> set ws. below nb x) s2"
    using Cons.IH[OF ws q1] by blast
  then show ?case using 1 gathered_trans[OF 1(2)] by auto
qed

lemma collect_rules_collects:
  "\<lbrakk>queue_ok nb (rl, q); \<not> reaches_cycle nb g; finite (below nb g); card (below nb g) \<le> k; fresh_below nb rl g\<rbrakk>
    \<Longrightarrow> \<exists>s'. collect_rules k nb g (rl, q) = Inr s' \<and> gathered nb (rl, q) (below nb g) s'"
proof (induction k arbitrary: g rl q)
  case 0
  then have "below nb g = {}" by simp
  then show ?case by (auto simp: below_def)
next
  case (Suc k)
  have "fresh_below nb rl w" if "w \<in> set (nb g)" for w
    using Suc.prems(5) below_unfold[of nb g] that by (auto simp: fresh_below_def)
  then have "\<forall>w \<in> set (nb g). fresh_below nb rl w" by blast
  then have "\<exists>s'. each (collect_rules k nb) (nb g) (rl, q) = Inr s'
      \<and> gathered nb (rl, q) (\<Union>x \<in> set (nb g). below nb x) s'"
    by (intro collect_each_ok[OF Suc.prems(2-4) _ subset_refl Suc.prems(1)] Suc.IH)
  then obtain rl1 q1 where 1: "each (collect_rules k nb) (nb g) (rl, q) = Inr (rl1, q1)"
      "gathered nb (rl, q) (\<Union>x \<in> set (nb g). below nb x) (rl1, q1)"
    by (metis surj_pair)
  have gb: "g \<notin> (\<Union>x \<in> set (nb g). below nb x)" using below_decreases(1)[OF Suc.prems(2)] by blast
  then have sg: "state (rl1 g) = state (rl g)" using 1(2) by (simp add: gathered_def)
  have nbq: "set (nb g) \<subseteq> set q1" using 1(2) by (auto simp: below_def gathered_def)
  have q1: "queue_ok nb (rl1, q1)" using 1(2) by (simp add: gathered_def)
  show ?case
  proof (cases "state (rl g) = 0")
    case True
    then have "state (rl1 g) \<noteq> - 1" using sg by simp
    then have ng: "g \<notin> set q1" using q1 unfolding queue_ok_def by blast
    let ?s = "(set_state rl1 g (- 1), q1 @ [g])"
    have "collect_rules (Suc k) nb g (rl, q) = Inr ?s" using 1(1) sg True by simp
    moreover have "queue_ok nb ?s" using q1 ng nbq by (auto simp: queue_ok_def ordered_snoc)
    then have "gathered nb (rl, q) (below nb g) ?s"
      using 1(2) below_unfold[of nb g] by (auto simp: gathered_def)
    ultimately show ?thesis by blast
  next
    case False
    then have "state (rl1 g) = - 1" using sg Suc.prems(5) by (auto simp: fresh_below_def below_def)
    then have "g \<in> set q1" using q1 by (simp add: queue_ok_def)
    then have "gathered nb (rl, q) (below nb g) (rl1, q1)"
      using 1(2) below_unfold[of nb g] by (auto simp: gathered_def)
    moreover have "collect_rules (Suc k) nb g (rl, q) = Inr (rl1, q1)" using 1(1) sg False by simp
    ultimately show ?thesis by blast
  qed
qed

lemma collect_rules_ok:
  fixes rl :: "('v, 'c) rules"
  assumes "queue_ok nb (rl, q)" and "\<not> reaches_cycle nb g" and "finite (below nb g)"
    and "card (below nb g) \<le> k" and "\<And>v. v \<in> below nb g \<Longrightarrow> state (rl v) \<in> {0, - 1}"
  shows "\<exists>rl' q'. collect_rules k nb g (rl, q) = Inr (rl', q') \<and> queue_ok nb (rl', q')
     \<and> set q' = set q \<union> below nb g \<and> (\<exists>new. q' = q @ new)
     \<and> (\<forall>v. commands (rl' v) = commands (rl v) \<and> data (rl' v) = data (rl v))
     \<and> (\<forall>v. v \<notin> below nb g \<longrightarrow> state (rl' v) = state (rl v))"
  using collect_rules_collects[OF assms(1-4)] assms(5) by (auto simp: gathered_def fresh_below_def)

definition closed :: "('v \<Rightarrow> 'v list) \<Rightarrow> 'v set \<Rightarrow> bool" where
  \<comment> \<open>a finite set of targets with all their dependencies\<close>
  "closed nb V \<longleftrightarrow> finite V \<and> (\<forall>v \<in> V. set (nb v) \<subseteq> V)"

lemma below_closed:
  assumes "closed nb V" and "g \<in> V"
  shows "below nb g \<subseteq> V"
proof
  fix v
  assume "v \<in> below nb g"
  then have "(g, v) \<in> (edges nb)\<^sup>*" by (simp add: below_def)
  then show "v \<in> V" by (induction rule: rtrancl_induct) (use assms in \<open>auto simp: closed_def edges_def\<close>)
qed

definition collect_inv :: "('v \<Rightarrow> 'v list) \<Rightarrow> 'v set \<Rightarrow> ('v, 'c) rules \<times> 'v list \<Rightarrow> bool" where
  \<comment> \<open>after the goals in \<open>G\<close>: queued are exactly the targets below the goals that reach no cycle;
     the other goals are marked as failed\<close>
  "collect_inv nb G s \<longleftrightarrow> queue_ok nb s \<and> (case s of (rl, q) \<Rightarrow>
     set q = (\<Union>g \<in> {g \<in> G. \<not> reaches_cycle nb g}. below nb g)
     \<and> (\<forall>v. \<not> data (rl v)) \<and> (\<forall>v. state (rl v) \<in> {0, - 1, 2})
     \<and> (\<forall>v. state (rl v) = 2 \<longleftrightarrow> v \<in> G \<and> reaches_cycle nb v))"

lemma path_search_values:
  \<comment> \<open>the cycle test changes only the marks\<close>
  fixes rl rl' :: "('v, 'c) rules"
  shows "isCycle k nb rl key = Inr (r, rl') \<Longrightarrow> state (rl' v) = state (rl v) \<and> commands (rl' v) = commands (rl v)"
proof (induction k arbitrary: rl key r rl' v)
  case 0
  then show ?case by simp
next
  case (Suc k)
  have "scan (isCycle k nb) vs r0 rl0 = Inr (r1, rl1) \<Longrightarrow>
      state (rl1 v) = state (rl0 v) \<and> commands (rl1 v) = commands (rl0 v)" for vs r0 r1 and rl0 rl1 :: "('v, 'c) rules"
  proof (induction vs arbitrary: r0 rl0)
    case Nil
    then show ?case by simp
  next
    case (Cons w vs)
    show ?case
    proof (cases r0)
      case True
      then show ?thesis using Cons.IH[of r0 rl0] Cons.prems by simp
    next
      case False
      then obtain r' rl' where w: "isCycle k nb rl0 w = Inr (r', rl')" "scan (isCycle k nb) vs r' rl' = Inr (r1, rl1)"
        using Cons.prems by (auto simp: rbind_Inr_iff)
      from Suc.IH[OF w(1)] Cons.IH[OF w(2)] show ?thesis by simp
    qed
  qed
  note loop = this
  show ?case
  proof (cases "data (rl key) \<or> nb key = []")
    case True
    then show ?thesis using Suc.prems by (auto simp: set_data_def split: if_splits)
  next
    case False
    then obtain rl1 where "scan (isCycle k nb) (nb key) False (set_data rl key True) = Inr (r, rl1)"
      "rl' = set_data rl1 key False" using Suc.prems by (auto simp: rbind_Inr_iff)
    with loop[OF this(1)] show ?thesis by (cases "v = key") (simp_all add: set_data_def)
  qed
qed

lemma collect_goal_ok:
  fixes rl :: "('v, 'c) rules"
  assumes I: "collect_inv nb G (rl, q)" and V: "closed nb V" "g \<in> V" and k: "card V < k"
  shows "\<exists>rl' q'. collect_goal k nb g (rl, q) = Inr (rl', q') \<and> collect_inv nb (insert g G) (rl', q')
     \<and> (\<forall>v. commands (rl' v) = commands (rl v))"
proof -
  have i: "queue_ok nb (rl, q)" "set q = (\<Union>g \<in> {g \<in> G. \<not> reaches_cycle nb g}. below nb g)"
    "\<And>v. \<not> data (rl v)" "\<And>v. state (rl v) \<in> {0, - 1, 2}"
    "\<And>v. state (rl v) = 2 \<longleftrightarrow> v \<in> G \<and> reaches_cycle nb v" using I by (auto simp: collect_inv_def)
  have Vf: "finite V" "\<And>v. v \<in> V \<Longrightarrow> True \<and> set (nb v) \<subseteq> V" using V(1) by (auto simp: closed_def)
  from rules.cycle_test[of V nb g k rl, OF Vf V(2) k i(3)] obtain rl1 where
    c: "isCycle k nb rl g = Inr (reaches_cycle nb g, rl1)" "\<And>v. \<not> data (rl1 v)"
    by (auto simp: isCycle_search)
  have v1: "state (rl1 v) = state (rl v)" "commands (rl1 v) = commands (rl v)" for v
    using path_search_values[OF c(1)] by simp_all
  have q1: "queue_ok nb (rl1, q)" using i(1) v1 by (simp add: queue_ok_def)
  show ?thesis
  proof (cases "reaches_cycle nb g")
    case True
    have nq: "g \<notin> set q" using True i(2) reaches_cycle_below[of g nb] by auto
    let ?rl = "set_state rl1 g 2"
    have "queue_ok nb (?rl, q)" using q1 nq by (auto simp: queue_ok_def)
    moreover have "{x \<in> insert g G. \<not> reaches_cycle nb x} = {x \<in> G. \<not> reaches_cycle nb x}"
      using True by auto
    ultimately have "collect_inv nb (insert g G) (?rl, q)"
      using i(2,4,5) c(2) v1 True by (simp add: collect_inv_def)
    then show ?thesis using c(1) True v1 by (simp add: collect_goal_def)
  next
    case False
    have sub: "below nb g \<subseteq> V" by (rule below_closed[OF V])
    then have fin: "finite (below nb g)" and "card (below nb g) \<le> k"
      using Vf(1) k card_mono[OF Vf(1) sub] by (auto intro: finite_subset)
    moreover have "state (rl1 v) \<in> {0, - 1}" if "v \<in> below nb g" for v
      using i(4,5)[of v] v1 reaches_cycle_below[OF that] False by auto
    ultimately obtain rl2 q2 where
      2: "collect_rules k nb g (rl1, q) = Inr (rl2, q2)" "queue_ok nb (rl2, q2)"
      "set q2 = set q \<union> below nb g"
      "\<forall>v. commands (rl2 v) = commands (rl1 v) \<and> data (rl2 v) = data (rl1 v)"
      "\<forall>v. v \<notin> below nb g \<longrightarrow> state (rl2 v) = state (rl1 v)"
      using collect_rules_ok[OF q1 False, of k] by blast
    have s2: "state (rl2 v) = - 1" if "v \<in> below nb g" for v using 2(2,3) that by (simp add: queue_ok_def)
    have "{x \<in> insert g G. \<not> reaches_cycle nb x} = insert g {x \<in> G. \<not> reaches_cycle nb x}"
      using False by auto
    moreover have "state (rl2 v) \<in> {0, - 1, 2} \<and> (state (rl2 v) = 2 \<longleftrightarrow> v \<in> insert g G \<and> reaches_cycle nb v)" for v
      using s2[of v] 2(5) v1 i(4,5)[of v] False reaches_cycle_below[of v nb g]
      by (cases "v \<in> below nb g") auto
    ultimately have "collect_inv nb (insert g G) (rl2, q2)"
      using 2(2-4) i(2) c(2) by (auto simp: collect_inv_def)
    then show ?thesis using c(1) False 2(1,4) v1 by (simp add: collect_goal_def)
  qed
qed

lemma each_collect_ok:
  fixes rl :: "('v, 'c) rules"
  assumes "collect_inv nb G (rl, q)" and "closed nb V" and "set goals \<subseteq> V" and "card V < k"
  shows "\<exists>rl' q'. each (collect_goal k nb) goals (rl, q) = Inr (rl', q')
     \<and> collect_inv nb (set goals \<union> G) (rl', q') \<and> (\<forall>v. commands (rl' v) = commands (rl v))"
  using assms
proof (induction goals arbitrary: G rl q)
  case Nil
  then show ?case by simp
next
  case (Cons g goals)
  then have "g \<in> V" "set goals \<subseteq> V" by simp_all
  from collect_goal_ok[OF Cons.prems(1,2) this(1) Cons.prems(4)] obtain rl1 q1 where
    1: "collect_goal k nb g (rl, q) = Inr (rl1, q1)" "collect_inv nb (insert g G) (rl1, q1)"
    "\<forall>v. commands (rl1 v) = commands (rl v)" by blast
  from Cons.IH[OF 1(2) Cons.prems(2) \<open>set goals \<subseteq> V\<close> Cons.prems(4)] 1 show ?case by auto
qed

definition fresh_rules :: "('v, 'c) rules \<Rightarrow> bool" where
  \<comment> \<open>as the parser makes them\<close>
  "fresh_rules rl \<longleftrightarrow> (\<forall>v. state (rl v) = 0 \<and> \<not> data (rl v))"

lemma parmake_collect_ok:
  assumes "fresh_rules rl" and "closed nb V" and "set goals \<subseteq> V" and "card V < k"
  shows "\<exists>rl' q. parmake_collect k nb goals rl = Inr (rl', q) \<and> collect_inv nb (set goals) (rl', q)
     \<and> (\<forall>v. commands (rl' v) = commands (rl v))"
proof -
  have "collect_inv nb {} (rl, [])"
    using assms(1) by (auto simp: collect_inv_def queue_ok_def fresh_rules_def)
  from each_collect_ok[OF this assms(2-4)] show ?thesis by (simp add: parmake_collect_def)
qed

text \<open>
  C19: for every makefile, also with cycles: the collection of the goals ends, within a
  recursion depth of the number of targets plus one; a goal from which a cycle can be reached
  is marked as failed (state 2) and nothing below it is queued on its account; the queue holds
  every target below the other goals exactly once, each after all its dependencies.
\<close>

theorem parmake_collects_in_order:
  assumes "fresh_rules rl" and "closed nb V" and "set goals \<subseteq> V" and "card V < k"
  shows "\<exists>rl' q. parmake_collect k nb goals rl = Inr (rl', q) \<and> distinct q
     \<and> set q = {v. \<exists>g \<in> set goals. \<not> reaches_cycle nb g \<and> (g, v) \<in> (edges nb)\<^sup>*}
     \<and> (\<forall>us v vs. q = us @ v # vs \<longrightarrow> set (nb v) \<subseteq> set us)
     \<and> (\<forall>v. state (rl' v) = (if v \<in> set q then - 1 else if v \<in> set goals \<and> reaches_cycle nb v then 2 else 0))"
proof -
  obtain rl' q where c: "parmake_collect k nb goals rl = Inr (rl', q)" "collect_inv nb (set goals) (rl', q)"
    using parmake_collect_ok[OF assms] by blast
  have i: "distinct q" "ordered nb q" "\<And>v. state (rl' v) = - 1 \<longleftrightarrow> v \<in> set q"
    "set q = (\<Union>g \<in> {g \<in> set goals. \<not> reaches_cycle nb g}. below nb g)"
    "\<And>v. state (rl' v) \<in> {0, - 1, 2}" "\<And>v. state (rl' v) = 2 \<longleftrightarrow> v \<in> set goals \<and> reaches_cycle nb v"
    using c(2)[unfolded collect_inv_def queue_ok_def prod.case] by blast+
  have "set q = {v. \<exists>g \<in> set goals. \<not> reaches_cycle nb g \<and> (g, v) \<in> (edges nb)\<^sup>*}"
    using i(4) by (auto simp: below_def)
  moreover have "state (rl' v) = (if v \<in> set q then - 1 else if v \<in> set goals \<and> reaches_cycle nb v then 2 else 0)" for v
    using i(3,5,6)[of v] by auto
  ultimately show ?thesis using c(1) i(1,2) unfolding ordered_def by blast
qed

section \<open>The worker on an ordered queue\<close>

lemma check_neighbors_ok:
  assumes "\<And>v. v \<in> set vs \<Longrightarrow> state (rl v) \<in> {1, 2}"
  shows "check_neighbors rl vs = Inr (\<exists>v \<in> set vs. state (rl v) = 2)"
  using assms
proof (induction vs)
  case Nil
  then show ?case by simp
next
  case (Cons v vs)
  have IH: "check_neighbors rl vs = Inr (\<exists>v \<in> set vs. state (rl v) = 2)" using Cons by simp
  have "state (rl v) = 1 \<or> state (rl v) = 2" using Cons.prems[of v] by simp
  then show ?case by (elim disjE) (simp_all add: IH)
qed

definition commands_succeed :: "('w \<Rightarrow> 'c \<Rightarrow> int \<times> 'w) \<Rightarrow> 'c list \<Rightarrow> bool" where
  "commands_succeed system cs \<longleftrightarrow> (\<forall>c \<in> set cs. \<forall>w. fst (system w c) = 0)"

lemma run_commands_succeed: "commands_succeed system cs \<Longrightarrow> fst (run_commands system cs w)"
proof (induction cs arbitrary: w)
  case Nil
  then show ?case by simp
next
  case (Cons c cs)
  then have "fst (system w c) = 0" "commands_succeed system cs" by (auto simp: commands_succeed_def)
  then show ?case using Cons.IH by (cases "system w c") simp
qed

lemma satisfy_rule_ok:
  fixes rl :: "('v, 'c) rules"
  assumes "state (rl t) = - 1" and "\<And>v. v \<in> set (nb t) \<Longrightarrow> state (rl v) \<in> {1, 2}"
  shows "\<exists>i w'. satisfy_rule nb mtime system t (rl, w) = Inr (set_state rl t i, w') \<and> i \<in> {1, 2}
     \<and> ((\<exists>v \<in> set (nb t). state (rl v) = 2) \<longrightarrow> i = 2 \<and> w' = w)
     \<and> ((\<forall>v \<in> set (nb t). state (rl v) = 1) \<and> commands_succeed system (commands (rl t)) \<longrightarrow> i = 1)
     \<and> ((\<forall>v \<in> set (nb t). state (rl v) = 1) \<and> \<not> need_to_run_command nb mtime w t \<longrightarrow> i = 1 \<and> w' = w)"
proof -
  have ss: "set_state (set_state rl t 3) t i = set_state rl t i" for i by (simp add: set_state_def)
  let ?failed = "\<exists>v \<in> set (nb t). state (rl v) = 2"
  have code: "satisfy_rule nb mtime system t (rl, w) =
      (if ?failed then Inr (set_state rl t 2, w)
       else let (success, w') = (if need_to_run_command nb mtime w t then run_commands system (commands (rl t)) w else (True, w))
            in Inr (set_state rl t (if success then 1 else 2), w'))"
    using assms(1) check_neighbors_ok[of "nb t" rl, OF assms(2)] by (simp add: satisfy_rule_def ss Let_def)
  show ?thesis
  proof (cases ?failed)
    case True
    then have "\<not> (\<forall>v \<in> set (nb t). state (rl v) = 1)" by force
    then show ?thesis using code True by (intro exI[of _ 2] exI[of _ w]) auto
  next
    case False
    show ?thesis
    proof (cases "need_to_run_command nb mtime w t")
      case True
      obtain b w' where r: "run_commands system (commands (rl t)) w = (b, w')" by force
      then have "commands_succeed system (commands (rl t)) \<Longrightarrow> b"
        using run_commands_succeed[of system "commands (rl t)" w] by simp
      then show ?thesis using code False True r
        by (intro exI[of _ "if b then 1 else 2"] exI[of _ w']) auto
    next
      case n: False
      then show ?thesis using code False by (intro exI[of _ 1] exI[of _ w]) auto
    qed
  qed
qed

text \<open>While the worker goes through the queue: the targets before the current one are done.\<close>

lemma each_satisfy_ok:
  fixes rl :: "('v, 'c) rules"
  assumes "ordered nb (us @ q)" and "distinct (us @ q)"
    and "\<And>v. v \<in> set q \<Longrightarrow> state (rl v) = - 1"
    and "\<And>v. v \<in> set us \<Longrightarrow> state (rl v) \<in> {1, 2} \<and> ((\<exists>x \<in> set (nb v). state (rl x) = 2) \<longrightarrow> state (rl v) = 2)
      \<and> ((\<forall>x \<in> below nb v. commands_succeed system (commands (rl x))) \<longrightarrow> state (rl v) = 1)"
  shows "\<exists>rl' w'. each (satisfy_rule nb mtime system) q (rl, w) = Inr (rl', w')
     \<and> (\<forall>v. commands (rl' v) = commands (rl v)) \<and> (\<forall>v. v \<notin> set q \<longrightarrow> state (rl' v) = state (rl v))
     \<and> (\<forall>v \<in> set (us @ q). state (rl' v) \<in> {1, 2} \<and> ((\<exists>x \<in> set (nb v). state (rl' x) = 2) \<longrightarrow> state (rl' v) = 2)
          \<and> ((\<forall>x \<in> below nb v. commands_succeed system (commands (rl' x))) \<longrightarrow> state (rl' v) = 1))"
  using assms
proof (induction q arbitrary: us rl w)
  case Nil
  then show ?case by simp
next
  case (Cons t q)
  have nbt: "set (nb t) \<subseteq> set us" using Cons.prems(1) unfolding ordered_def by blast
  have tn: "t \<notin> set us" "t \<notin> set q" using Cons.prems(2) by auto
  have st: "state (rl t) = - 1" using Cons.prems(3) by simp
  have nb12: "\<And>v. v \<in> set (nb t) \<Longrightarrow> state (rl v) \<in> {1, 2}" using Cons.prems(4) nbt by blast
  obtain i w1 where 1: "satisfy_rule nb mtime system t (rl, w) = Inr (set_state rl t i, w1)" "i \<in> {1, 2}"
    "(\<exists>v \<in> set (nb t). state (rl v) = 2) \<longrightarrow> i = 2"
    "(\<forall>v \<in> set (nb t). state (rl v) = 1) \<and> commands_succeed system (commands (rl t)) \<longrightarrow> i = 1"
    using satisfy_rule_ok[of rl t nb mtime system w, OF st nb12] by blast
  let ?rl = "set_state rl t i"
  have succ: "i = 1" if "\<forall>x \<in> below nb t. commands_succeed system (commands (rl x))"
  proof -
    have "state (rl v) = 1" if v: "v \<in> set (nb t)" for v
    proof -
      have "below nb v \<subseteq> below nb t" using below_unfold[of nb t] v by auto
      then show ?thesis using Cons.prems(4)[of v] nbt v \<open>\<forall>x \<in> below nb t. _ x\<close> by blast
    qed
    then show ?thesis using 1(4) that by (auto simp: below_def)
  qed
  have "state (?rl v) \<in> {1, 2} \<and> ((\<exists>x \<in> set (nb v). state (?rl x) = 2) \<longrightarrow> state (?rl v) = 2)
      \<and> ((\<forall>x \<in> below nb v. commands_succeed system (commands (?rl x))) \<longrightarrow> state (?rl v) = 1)"
    if "v \<in> set (us @ [t])" for v
  proof (cases "v = t")
    case True
    then show ?thesis using 1(2,3) succ nbt tn by auto
  next
    case False
    then have v: "v \<in> set us" using that by simp
    then obtain xs ys where "us = xs @ v # ys" by (meson split_list)
    then have "us @ t # q = xs @ v # (ys @ t # q)" by simp
    then have "set (nb v) \<subseteq> set xs" using Cons.prems(1) unfolding ordered_def by blast
    then have "t \<notin> set (nb v)" using tn(1) \<open>us = xs @ v # ys\<close> by auto
    then show ?thesis using Cons.prems(4)[OF v] False by auto
  qed
  moreover have "ordered nb ((us @ [t]) @ q)" "distinct ((us @ [t]) @ q)" using Cons.prems(1,2) by simp_all
  moreover have "\<And>v. v \<in> set q \<Longrightarrow> state (?rl v) = - 1" using Cons.prems(3) tn by auto
  ultimately obtain rl' w' where 2: "each (satisfy_rule nb mtime system) q (?rl, w1) = Inr (rl', w')"
    "\<forall>v. commands (rl' v) = commands (?rl v)" "\<forall>v. v \<notin> set q \<longrightarrow> state (rl' v) = state (?rl v)"
    "\<forall>v \<in> set ((us @ [t]) @ q). state (rl' v) \<in> {1, 2} \<and> ((\<exists>x \<in> set (nb v). state (rl' x) = 2) \<longrightarrow> state (rl' v) = 2)
          \<and> ((\<forall>x \<in> below nb v. commands_succeed system (commands (rl' x))) \<longrightarrow> state (rl' v) = 1)"
    using Cons.IH[of "us @ [t]" ?rl w1] by blast
  then show ?case using 1(1) by (intro exI[of _ rl'] exI[of _ w']) auto
qed

definition demo_nb :: "nat \<Rightarrow> nat list" where
  \<comment> \<open>1 depends on 2 and 3, 2 on 3, and 4 on itself\<close>
  "demo_nb v = (if v = 1 then [2, 3] else if v = 2 then [3] else if v = 4 then [4] else [])"

definition demo_rules :: "(nat, nat) rules" where
  "demo_rules v = \<lparr>state = 0, data = False, commands = [v]\<rparr>"

lemma demo_closed: "closed demo_nb {1, 2, 3, 4}"
  by (simp add: closed_def demo_nb_def)

lemma demo_fresh: "fresh_rules demo_rules"
  by (simp add: fresh_rules_def demo_rules_def)

theorem parmake_collects_in_order_witness:
  "\<exists>rl' q. parmake_collect 5 demo_nb [1, 4] demo_rules = Inr (rl', q) \<and> distinct q
     \<and> (\<forall>us v vs. q = us @ v # vs \<longrightarrow> set (demo_nb v) \<subseteq> set us)"
  using parmake_collects_in_order[OF demo_fresh demo_closed, of "[1, 4]" 5] by auto

text \<open>
  \<open>parmake\<close> with one worker always ends: the worker never has to wait for a dependency.
  Afterwards every target below a goal without cycles is satisfied (state 1) or failed (2);
  one with a failed dependency is failed, and one whose commands and whose dependencies'
  commands all succeed is satisfied. Goals that reach a cycle are failed.
\<close>

theorem parmake_builds:
  assumes "fresh_rules rl" and "closed nb V" and "set goals \<subseteq> V" and "card V < k"
  shows "\<exists>rl' w'. parmake k nb mtime system goals rl w = Inr (rl', w')
     \<and> (\<forall>g \<in> set goals. reaches_cycle nb g \<longrightarrow> state (rl' g) = 2)
     \<and> (\<forall>g \<in> set goals. \<not> reaches_cycle nb g \<longrightarrow> (\<forall>v. (g, v) \<in> (edges nb)\<^sup>* \<longrightarrow>
          state (rl' v) \<in> {1, 2}
          \<and> ((\<exists>x \<in> set (nb v). state (rl' x) = 2) \<longrightarrow> state (rl' v) = 2)
          \<and> ((\<forall>x. (v, x) \<in> (edges nb)\<^sup>* \<longrightarrow> commands_succeed system (commands (rl x))) \<longrightarrow> state (rl' v) = 1)))"
proof -
  obtain rl1 q where c: "parmake_collect k nb goals rl = Inr (rl1, q)" "collect_inv nb (set goals) (rl1, q)"
    "\<forall>v. commands (rl1 v) = commands (rl v)"
    using parmake_collect_ok[OF assms] by blast
  have i: "distinct q" "ordered nb q" "\<And>v. state (rl1 v) = - 1 \<longleftrightarrow> v \<in> set q"
    "set q = (\<Union>g \<in> {g \<in> set goals. \<not> reaches_cycle nb g}. below nb g)"
    "\<And>v. state (rl1 v) = 2 \<longleftrightarrow> v \<in> set goals \<and> reaches_cycle nb v"
    using c(2)[unfolded collect_inv_def queue_ok_def prod.case] by blast+
  have "\<And>v. v \<in> set q \<Longrightarrow> state (rl1 v) = - 1" using i(3) by blast
  with each_satisfy_ok[where us = "[]" and nb = nb and q = q and rl = rl1 and mtime = mtime
      and system = system and w = w] i(1,2) obtain rl2 w2 where
    2: "each (satisfy_rule nb mtime system) q (rl1, w) = Inr (rl2, w2)"
    "\<forall>v. commands (rl2 v) = commands (rl1 v)" "\<forall>v. v \<notin> set q \<longrightarrow> state (rl2 v) = state (rl1 v)"
    "\<forall>v \<in> set q. state (rl2 v) \<in> {1, 2} \<and> ((\<exists>x \<in> set (nb v). state (rl2 x) = 2) \<longrightarrow> state (rl2 v) = 2)
          \<and> ((\<forall>x \<in> below nb v. commands_succeed system (commands (rl2 x))) \<longrightarrow> state (rl2 v) = 1)"
    by (auto simp: append_Nil)
  have "state (rl2 g) = 2" if "g \<in> set goals" "reaches_cycle nb g" for g
  proof -
    have "g \<notin> set q" using that i(4) reaches_cycle_below[of g nb] by auto
    then show ?thesis using 2(3) i(5) that by simp
  qed
  moreover have "v \<in> set q" if "g \<in> set goals" "\<not> reaches_cycle nb g" "(g, v) \<in> (edges nb)\<^sup>*" for g v
    using i(4) that by (auto simp: below_def)
  moreover have "parmake k nb mtime system goals rl w = Inr (rl2, w2)" using c(1) 2(1) by (simp add: parmake_def)
  ultimately show ?thesis using 2(2,4) c(3) unfolding below_def by (intro exI[of _ rl2] exI[of _ w2]) simp
qed

theorem parmake_builds_witness:
  "\<exists>rl' w'. parmake 5 demo_nb (\<lambda>w v. None) (\<lambda>w c. (0, c # w)) [1, 4] demo_rules [] = Inr (rl', w')
     \<and> (reaches_cycle demo_nb 4 \<longrightarrow> state (rl' 4) = 2)"
  using parmake_builds[OF demo_fresh demo_closed, where goals = "[1, 4]" and k = 5 and mtime = "\<lambda>w v. None"
      and system = "\<lambda>w c. (0, c # w)" and w = "[]"]
  by auto

end
