(* ===== verification/Scheduler.thy ===== *)
theory Scheduler
  imports Prelude Complex_Main "HOL-Library.Multiset"
begin

text \<open>
  The scheduler of \<^verbatim>\<open>savvy_scheduler/libscheduler.c\<close>: the comparison functions, the entry of a
  new job, the choice at the end of a quantum and the statistics. Times are \<open>double\<close> in the code
  and exact rational numbers here. A job is an address; its metadata is \<open>None\<close> when the pointer
  is \<open>NULL\<close>. The priority queue is a library outside the repository: a record of functions
  with its contract as \<open>priqueue_ok\<close>.
\<close>

datatype scheme = FCFS | PRI | PPRI | PSRTF | RR | SJF

record job_info =
  job_id :: int
  arrival_time :: rat
  burst_time :: rat
  remain_time :: rat
  start_time :: rat
  last_start_time :: rat
  priority :: int

type_synonym job = nat
type_synonym metadata = "job \<rightharpoonup> job_info"

section \<open>Comparison functions\<close>

definition comparer_fcfs :: "job_info \<Rightarrow> job_info \<Rightarrow> int" where
  "comparer_fcfs a b =
     (if arrival_time a = arrival_time b then 0
      else if arrival_time a > arrival_time b then 1 else - 1)"

definition break_tie :: "job_info \<Rightarrow> job_info \<Rightarrow> int" where
  "break_tie a b = comparer_fcfs a b"

definition comparer_pri :: "job_info \<Rightarrow> job_info \<Rightarrow> int" where
  "comparer_pri a b =
     (if priority a = priority b then break_tie a b
      else if priority a > priority b then 1 else - 1)"

definition comparer_ppri :: "job_info \<Rightarrow> job_info \<Rightarrow> int" where
  "comparer_ppri a b = comparer_pri a b"

definition comparer_psrtf :: "job_info \<Rightarrow> job_info \<Rightarrow> int" where
  "comparer_psrtf a b =
     (if remain_time a = remain_time b then break_tie a b
      else if remain_time a > remain_time b then 1 else - 1)"

definition comparer_rr :: "job_info \<Rightarrow> job_info \<Rightarrow> int" where
  "comparer_rr a b = 1"

definition comparer_sjf :: "job_info \<Rightarrow> job_info \<Rightarrow> int" where
  "comparer_sjf a b =
     (if burst_time a = burst_time b then break_tie a b
      else if burst_time a > burst_time b then 1 else - 1)"

fun comparision_func :: "scheme \<Rightarrow> job_info \<Rightarrow> job_info \<Rightarrow> int" where
  \<comment> \<open>what \<open>scheduler_start_up\<close> selects\<close>
  "comparision_func FCFS = comparer_fcfs"
| "comparision_func PRI = comparer_pri"
| "comparision_func PPRI = comparer_ppri"
| "comparision_func PSRTF = comparer_psrtf"
| "comparision_func RR = comparer_rr"
| "comparision_func SJF = comparer_sjf"

section \<open>The scheduler\<close>

record 'q sched =
  pqueue :: 'q
  pqueue_scheme :: scheme
  meta :: metadata
  waiting_time :: rat
  turnaround_time :: rat
  response_time :: rat
  num_jobs :: nat

record 'q priqueue =
  \<comment> \<open>\<open>offer\<close> gets the comparison of two jobs, which reads their metadata\<close>
  pq_init :: 'q
  offer :: "(job \<Rightarrow> job \<Rightarrow> int) \<Rightarrow> 'q \<Rightarrow> job \<Rightarrow> 'q"
  poll :: "'q \<Rightarrow> job option \<times> 'q"

definition scheduler_start_up :: "'q priqueue \<Rightarrow> scheme \<Rightarrow> 'q sched" where
  "scheduler_start_up Q s = \<lparr>pqueue = pq_init Q, pqueue_scheme = s, meta = Map.empty,
     waiting_time = 0, turnaround_time = 0, response_time = 0, num_jobs = 0\<rparr>"

definition job_cmp :: "'q sched \<Rightarrow> job \<Rightarrow> job \<Rightarrow> int" where
  "job_cmp st a b = comparision_func (pqueue_scheme st) (the (meta st a)) (the (meta st b))"

definition scheduler_new_job ::
  "'q priqueue \<Rightarrow> 'q sched \<Rightarrow> job \<Rightarrow> int \<Rightarrow> rat \<Rightarrow> rat \<Rightarrow> int \<Rightarrow> 'q sched" where
  \<comment> \<open>with the running time and the priority of the \<open>scheduler_info\<close>\<close>
  "scheduler_new_job Q st newjob job_number time running_time prio =
     (let info = \<lparr>job_id = job_number, arrival_time = time, burst_time = running_time,
                  remain_time = running_time, start_time = - 1, last_start_time = - 1, priority = prio\<rparr>;
          st1 = st\<lparr>meta := (meta st)(newjob \<mapsto> info)\<rparr>
      in st1\<lparr>pqueue := offer Q (job_cmp st1) (pqueue st1) newjob, num_jobs := num_jobs st1 + 1\<rparr>)"

definition next_job :: "'q priqueue \<Rightarrow> 'q sched \<Rightarrow> rat \<Rightarrow> (job option \<times> 'q sched) res" where
  \<comment> \<open>the end of \<open>scheduler_quantum_expired\<close>: take a job from the queue\<close>
  "next_job Q st time =
     (case poll Q (pqueue st) of
        (None, q) \<Rightarrow> Inr (None, st\<lparr>pqueue := q\<rparr>)
      | (Some j, q) \<Rightarrow>
          rbind (deref (meta st j)) (\<lambda>info.
          let info1 = (if start_time info = - 1 then info\<lparr>start_time := time\<rparr> else info);
              info2 = info1\<lparr>last_start_time := time\<rparr>
          in Inr (Some j, st\<lparr>pqueue := q, meta := (meta st)(j \<mapsto> info2)\<rparr>)))"

definition scheduler_quantum_expired ::
  "'q priqueue \<Rightarrow> 'q sched \<Rightarrow> job option \<Rightarrow> rat \<Rightarrow> (job option \<times> 'q sched) res" where
  "scheduler_quantum_expired Q st job_evicted time =
     (case job_evicted of
        None \<Rightarrow> next_job Q st time
      | Some j \<Rightarrow>
          rbind (deref (meta st j)) (\<lambda>info.
          if pqueue_scheme st \<in> {PPRI, PSRTF, RR} then
            let info1 = info\<lparr>remain_time := remain_time info - (time - last_start_time info)\<rparr>;
                st1 = st\<lparr>meta := (meta st)(j \<mapsto> info1)\<rparr>
            in next_job Q (if remain_time info1 > 0
                           then st1\<lparr>pqueue := offer Q (job_cmp st1) (pqueue st1) j\<rparr> else st1) time
          else if time - start_time info < burst_time info then Inr (Some j, st)
          else next_job Q st time))"

definition scheduler_job_finished :: "'q sched \<Rightarrow> job \<Rightarrow> rat \<Rightarrow> 'q sched res" where
  "scheduler_job_finished st job_done time =
     rbind (deref (meta st job_done)) (\<lambda>info.
     Inr (st\<lparr>waiting_time := waiting_time st + ((time - arrival_time info) - burst_time info),
             turnaround_time := turnaround_time st + (time - arrival_time info),
             response_time := response_time st + (start_time info - arrival_time info),
             meta := (meta st)(job_done := None)\<rparr>))"

definition scheduler_average_waiting_time :: "'q sched \<Rightarrow> rat option" where
  \<comment> \<open>without a job the quotient is not a number: \<open>None\<close>\<close>
  "scheduler_average_waiting_time st =
     (if num_jobs st = 0 then None else Some (waiting_time st / of_nat (num_jobs st)))"

definition scheduler_average_turnaround_time :: "'q sched \<Rightarrow> rat option" where
  "scheduler_average_turnaround_time st =
     (if num_jobs st = 0 then None else Some (turnaround_time st / of_nat (num_jobs st)))"

definition scheduler_average_response_time :: "'q sched \<Rightarrow> rat option" where
  "scheduler_average_response_time st =
     (if num_jobs st = 0 then None else Some (response_time st / of_nat (num_jobs st)))"

definition print_stats :: "'q sched \<Rightarrow> (string \<times> rat option) list" where
  \<comment> \<open>the printed lines; \<open>None\<close> is the quotient by 0 of \<open>double\<close>, printed as \<open>nan\<close> or \<open>inf\<close>\<close>
  "print_stats st = [(''turnaround'', scheduler_average_turnaround_time st),
     (''total_waiting'', scheduler_average_waiting_time st), (''total_response'', scheduler_average_response_time st)]"

definition scheduler_clean_up :: "'q priqueue \<Rightarrow> 'q sched \<Rightarrow> (string \<times> rat option) list \<times> 'q sched" where
  \<comment> \<open>a destroyed queue holds nothing\<close>
  "scheduler_clean_up Q st = (let st = st\<lparr>pqueue := pq_init Q\<rparr> in (print_stats st, st))"

section \<open>The comparison functions are total preorders\<close>

fun key :: "scheme \<Rightarrow> job_info \<Rightarrow> rat \<times> rat" where
  \<comment> \<open>what a scheme sorts by; ties are broken by the arrival time\<close>
  "key FCFS j = (arrival_time j, 0)"
| "key PRI j = (of_int (priority j), arrival_time j)"
| "key PPRI j = (of_int (priority j), arrival_time j)"
| "key PSRTF j = (remain_time j, arrival_time j)"
| "key RR j = (0, 0)"
| "key SJF j = (burst_time j, arrival_time j)"

definition lex_le :: "rat \<times> rat \<Rightarrow> rat \<times> rat \<Rightarrow> bool" where
  "lex_le x y \<longleftrightarrow> fst x < fst y \<or> fst x = fst y \<and> snd x \<le> snd y"

lemma lex_le_trans: "lex_le x y \<Longrightarrow> lex_le y z \<Longrightarrow> lex_le x z"
  by (auto simp: lex_le_def)

lemma lex_le_total: "lex_le x y \<or> lex_le y x"
  by (auto simp: lex_le_def)

lemma lex_le_refl [simp]: "lex_le x x"
  by (simp add: lex_le_def)

lemmas comparer_defs = comparer_fcfs_def comparer_pri_def comparer_ppri_def comparer_psrtf_def
  comparer_rr_def comparer_sjf_def break_tie_def

lemma cmp_key: "s \<noteq> RR \<Longrightarrow> comparision_func s a b \<le> 0 \<longleftrightarrow> lex_le (key s a) (key s b)"
  by (cases s) (auto simp: comparer_defs lex_le_def)

text \<open>
  Every scheme but round robin compares jobs as a total preorder: by arrival time (FCFS),
  by priority (PRI, PPRI), remaining time (PSRTF) or burst time (SJF), with ties broken by the
  arrival time. The comparison is antisymmetric and transitive and takes the values -1, 0, 1.
  Round robin always answers 1, so a job offered to the queue never goes before another.
\<close>

theorem comparers_are_ordered:
  "(s \<noteq> RR \<longrightarrow>
      (comparision_func s a b \<le> 0 \<longleftrightarrow> lex_le (key s a) (key s b))
      \<and> comparision_func s b a = - comparision_func s a b
      \<and> (comparision_func s a b = 0 \<longleftrightarrow> key s a = key s b)
      \<and> (comparision_func s a b \<le> 0 \<longrightarrow> comparision_func s b c \<le> 0 \<longrightarrow> comparision_func s a c \<le> 0))
   \<and> comparision_func s a b \<in> {- 1, 0, 1} \<and> comparision_func RR a b = 1"
proof (intro conjI impI)
  assume s: "s \<noteq> RR"
  show "comparision_func s a b \<le> 0 \<longleftrightarrow> lex_le (key s a) (key s b)" by (rule cmp_key[OF s])
  show "comparision_func s b a = - comparision_func s a b" using s
    by (cases s) (auto simp: comparer_defs)
  show "comparision_func s a b = 0 \<longleftrightarrow> key s a = key s b" using s
    by (cases s) (auto simp: comparer_defs)
  assume "comparision_func s a b \<le> 0" and "comparision_func s b c \<le> 0"
  then show "comparision_func s a c \<le> 0"
    using lex_le_trans by (auto simp: cmp_key[OF s])
qed (cases s; simp add: comparer_defs)+

theorem comparers_are_ordered_witness:
  "comparision_func PSRTF \<lparr>job_id = 1, arrival_time = 0, burst_time = 5, remain_time = 2, start_time = 0,
       last_start_time = 0, priority = 1\<rparr>
     \<lparr>job_id = 2, arrival_time = 1, burst_time = 2, remain_time = 2, start_time = - 1,
       last_start_time = - 1, priority = 0\<rparr> \<le> 0"
  using comparers_are_ordered[of PSRTF "\<lparr>job_id = 1, arrival_time = 0, burst_time = 5, remain_time = 2,
      start_time = 0, last_start_time = 0, priority = 1\<rparr>"
      "\<lparr>job_id = 2, arrival_time = 1, burst_time = 2, remain_time = 2, start_time = - 1,
       last_start_time = - 1, priority = 0\<rparr>"]
  by (simp add: lex_le_def)

section \<open>Choosing the next job\<close>

definition ordered_by :: "(job \<Rightarrow> job \<Rightarrow> int) \<Rightarrow> job list \<Rightarrow> bool" where
  "ordered_by cmp js \<longleftrightarrow> sorted_wrt (\<lambda>a b. cmp a b \<le> 0) js"

definition priqueue_ok :: "'q priqueue \<Rightarrow> ('q \<Rightarrow> job list) \<Rightarrow> bool" where
  \<comment> \<open>the contract of the queue, whose contents from the front are \<open>elems\<close>: a new queue is empty;
     \<open>offer\<close> adds a job, and keeps the queue in order when it was and the comparison is total and
     transitive; \<open>poll\<close> takes the job at the front\<close>
  "priqueue_ok Q elems \<longleftrightarrow> elems (pq_init Q) = []
     \<and> (\<forall>cmp q j. mset (elems (offer Q cmp q j)) = add_mset j (mset (elems q))
          \<and> (ordered_by cmp (elems q) \<longrightarrow> (\<forall>a b. cmp a b \<le> 0 \<or> cmp b a \<le> 0)
               \<longrightarrow> (\<forall>a b c. cmp a b \<le> 0 \<longrightarrow> cmp b c \<le> 0 \<longrightarrow> cmp a c \<le> 0)
               \<longrightarrow> ordered_by cmp (elems (offer Q cmp q j))))
     \<and> (\<forall>q. elems q = [] \<longrightarrow> fst (poll Q q) = None \<and> elems (snd (poll Q q)) = [])
     \<and> (\<forall>q j js. elems q = j # js \<longrightarrow> fst (poll Q q) = Some j \<and> elems (snd (poll Q q)) = js)"

definition sched_inv :: "('q \<Rightarrow> job list) \<Rightarrow> 'q sched \<Rightarrow> bool" where
  \<comment> \<open>the queued jobs are distinct, have metadata, and are in the order of the scheme\<close>
  "sched_inv elems st \<longleftrightarrow> distinct (elems (pqueue st))
     \<and> (\<forall>j \<in> set (elems (pqueue st)). meta st j \<noteq> None)
     \<and> (pqueue_scheme st \<noteq> RR \<longrightarrow> ordered_by (job_cmp st) (elems (pqueue st)))"

definition job_key :: "'q sched \<Rightarrow> job \<Rightarrow> rat \<times> rat" where
  "job_key st j = key (pqueue_scheme st) (the (meta st j))"

lemma job_cmp_key: "pqueue_scheme st \<noteq> RR \<Longrightarrow> job_cmp st a b \<le> 0 \<longleftrightarrow> lex_le (job_key st a) (job_key st b)"
  by (simp add: job_cmp_def job_key_def cmp_key)

lemma ordered_by_cong:
  "(\<And>j. j \<in> set js \<Longrightarrow> meta st' j = meta st j) \<Longrightarrow> pqueue_scheme st' = pqueue_scheme st
     \<Longrightarrow> ordered_by (job_cmp st) js \<Longrightarrow> ordered_by (job_cmp st') js"
  by (induction js) (auto simp: ordered_by_def job_cmp_def)

lemma offer_inv:
  fixes st :: "'q sched" and info :: job_info and j :: job
  assumes Q: "priqueue_ok Q elems" and I: "sched_inv elems st" and j: "j \<notin> set (elems (pqueue st))"
  defines "st1 \<equiv> st\<lparr>meta := (meta st)(j \<mapsto> info)\<rparr>"
  shows "sched_inv elems (st1\<lparr>pqueue := offer Q (job_cmp st1) (pqueue st1) j\<rparr>)"
    and "mset (elems (offer Q (job_cmp st1) (pqueue st1) j)) = add_mset j (mset (elems (pqueue st)))"
    and "sched_inv elems st1"
proof -
  let ?q = "offer Q (job_cmp st1) (pqueue st1) j"
  show m: "mset (elems ?q) = add_mset j (mset (elems (pqueue st)))"
    using Q unfolding priqueue_ok_def st1_def by simp
  then have set: "set (elems ?q) = insert j (set (elems (pqueue st)))"
    by (metis set_mset_mset set_mset_add_mset_insert)
  have di: "distinct (elems ?q)" using m I j
    by (metis distinct.simps(2) mset.simps(2) mset_eq_imp_distinct_iff sched_inv_def)
  have o1: "ordered_by (job_cmp st1) (elems (pqueue st))" if "pqueue_scheme st \<noteq> RR"
    by (rule ordered_by_cong[of _ st1 st]) (use I j that in \<open>auto simp: st1_def sched_inv_def\<close>)
  then show "sched_inv elems st1" using I by (auto simp: sched_inv_def st1_def)
  have oq: "ordered_by (job_cmp st1) (elems ?q)" if "pqueue_scheme st \<noteq> RR"
  proof -
    have s1: "pqueue_scheme st1 \<noteq> RR" using that by (simp add: st1_def)
    have t: "job_cmp st1 a b \<le> 0 \<or> job_cmp st1 b a \<le> 0"
      "job_cmp st1 a b \<le> 0 \<Longrightarrow> job_cmp st1 b c \<le> 0 \<Longrightarrow> job_cmp st1 a c \<le> 0" for a b c
      using lex_le_total lex_le_trans by (auto simp: job_cmp_key[OF s1])
    have "ordered_by (job_cmp st1) (elems (pqueue st1))" using o1[OF that] by (simp add: st1_def)
    then show ?thesis using Q t unfolding priqueue_ok_def by blast
  qed
  have "job_cmp (st1\<lparr>pqueue := ?q\<rparr>) = job_cmp st1" by (simp add: job_cmp_def fun_eq_iff)
  then show "sched_inv elems (st1\<lparr>pqueue := ?q\<rparr>)"
    using I di oq set by (auto simp: sched_inv_def st1_def)
qed

lemma next_job_ok:
  assumes Q: "priqueue_ok Q elems" and I: "sched_inv elems st"
  shows "elems (pqueue st) = [] \<Longrightarrow> \<exists>st'. next_job Q st time = Inr (None, st') \<and> sched_inv elems st'"
    and "elems (pqueue st) = j # js \<Longrightarrow> \<exists>st' info. next_job Q st time = Inr (Some j, st') \<and> sched_inv elems st'
       \<and> elems (pqueue st') = js \<and> meta st' = (meta st)(j \<mapsto> info)
       \<and> start_time info = (if start_time (the (meta st j)) = - 1 then time else start_time (the (meta st j)))
       \<and> last_start_time info = time
       \<and> (pqueue_scheme st \<noteq> RR \<longrightarrow> (\<forall>k \<in> set js. lex_le (job_key st j) (job_key st k)))"
proof -
  obtain r q where p: "poll Q (pqueue st) = (r, q)" by force
  assume e: "elems (pqueue st) = []"
  then have "r = None" "elems q = []" using Q p unfolding priqueue_ok_def by (metis fst_conv snd_conv)+
  then show "\<exists>st'. next_job Q st time = Inr (None, st') \<and> sched_inv elems st'"
    using p by (simp add: next_job_def sched_inv_def ordered_by_def)
next
  obtain r q where p: "poll Q (pqueue st) = (r, q)" by force
  assume e: "elems (pqueue st) = j # js"
  then have r: "r = Some j" "elems q = js" using Q p unfolding priqueue_ok_def by (metis fst_conv snd_conv)+
  obtain info where i: "meta st j = Some info" using I e by (auto simp: sched_inv_def)
  let ?i1 = "if start_time info = - 1 then info\<lparr>start_time := time\<rparr> else info"
  let ?i2 = "?i1\<lparr>last_start_time := time\<rparr>"
  let ?st' = "st\<lparr>pqueue := q, meta := (meta st)(j \<mapsto> ?i2)\<rparr>"
  have d: "j \<notin> set js" "distinct js" using I e by (auto simp: sched_inv_def)
  have o: "ordered_by (job_cmp st) (j # js)" if "pqueue_scheme st \<noteq> RR" using I e that by (simp add: sched_inv_def)
  have "ordered_by (job_cmp ?st') js" if "pqueue_scheme st \<noteq> RR"
    by (rule ordered_by_cong[of js ?st' st]) (use d o[OF that] in \<open>auto simp: ordered_by_def\<close>)
  then have "sched_inv elems ?st'" using I e r(2) d by (auto simp: sched_inv_def)
  moreover have "\<forall>k \<in> set js. lex_le (job_key st j) (job_key st k)" if "pqueue_scheme st \<noteq> RR"
    using o[OF that] job_cmp_key[OF that] by (simp add: ordered_by_def)
  ultimately show "\<exists>st' info. next_job Q st time = Inr (Some j, st') \<and> sched_inv elems st'
       \<and> elems (pqueue st') = js \<and> meta st' = (meta st)(j \<mapsto> info)
       \<and> start_time info = (if start_time (the (meta st j)) = - 1 then time else start_time (the (meta st j)))
       \<and> last_start_time info = time
       \<and> (pqueue_scheme st \<noteq> RR \<longrightarrow> (\<forall>k \<in> set js. lex_le (job_key st j) (job_key st k)))"
    using p r i by (intro exI[of _ ?st'] exI[of _ ?i2]) (simp add: next_job_def)
qed

definition preemptive :: "scheme \<Rightarrow> bool" where
  "preemptive s \<longleftrightarrow> s \<in> {PPRI, PSRTF, RR}"

definition keeps_running :: "'q sched \<Rightarrow> job option \<Rightarrow> rat \<Rightarrow> bool" where
  \<comment> \<open>a job that a scheme without preemption has not finished\<close>
  "keeps_running st ev time = (case ev of None \<Rightarrow> False
     | Some j \<Rightarrow> \<not> preemptive (pqueue_scheme st)
         \<and> time - start_time (the (meta st j)) < burst_time (the (meta st j)))"

definition charged :: "'q sched \<Rightarrow> job option \<Rightarrow> rat \<Rightarrow> 'q sched" where
  \<comment> \<open>a preemptive scheme takes the time since the last start off the remaining time\<close>
  "charged st ev time = (case ev of None \<Rightarrow> st
     | Some j \<Rightarrow> if preemptive (pqueue_scheme st)
         then st\<lparr>meta := (meta st)(j \<mapsto> (the (meta st j))\<lparr>remain_time :=
                remain_time (the (meta st j)) - (time - last_start_time (the (meta st j)))\<rparr>)\<rparr>
         else st)"

definition candidates :: "('q \<Rightarrow> job list) \<Rightarrow> 'q sched \<Rightarrow> job option \<Rightarrow> rat \<Rightarrow> job set" where
  \<comment> \<open>the queued jobs, and the evicted one when it has time left\<close>
  "candidates elems st ev time = set (elems (pqueue st)) \<union> (case ev of None \<Rightarrow> {}
     | Some j \<Rightarrow> if preemptive (pqueue_scheme st)
            \<and> remain_time (the (meta (charged st ev time) j)) > 0 then {j} else {})"

definition evictable :: "('q \<Rightarrow> job list) \<Rightarrow> 'q sched \<Rightarrow> job option \<Rightarrow> bool" where
  \<comment> \<open>the evicted job is not in the queue and has its metadata\<close>
  "evictable elems st ev = (case ev of None \<Rightarrow> True
     | Some j \<Rightarrow> meta st j \<noteq> None \<and> j \<notin> set (elems (pqueue st)))"

definition queued_state :: "'q priqueue \<Rightarrow> 'q sched \<Rightarrow> job option \<Rightarrow> rat \<Rightarrow> 'q sched" where
  \<comment> \<open>the state from which the next job is taken\<close>
  "queued_state Q st ev time =
     (let st1 = charged st ev time in case ev of None \<Rightarrow> st1
      | Some j \<Rightarrow> if preemptive (pqueue_scheme st) \<and> remain_time (the (meta st1 j)) > 0
          then st1\<lparr>pqueue := offer Q (job_cmp st1) (pqueue st1) j\<rparr> else st1)"

lemma quantum_expired_eq:
  assumes "evictable elems st ev"
  shows "scheduler_quantum_expired Q st ev time =
    (if keeps_running st ev time then Inr (ev, st) else next_job Q (queued_state Q st ev time) time)"
  using assms
  by (auto simp: scheduler_quantum_expired_def evictable_def keeps_running_def queued_state_def
        charged_def preemptive_def Let_def split: option.splits)

lemma queued_state_ok:
  assumes Q: "priqueue_ok Q elems" and I: "sched_inv elems st" and E: "evictable elems st ev"
  shows "sched_inv elems (queued_state Q st ev time)"
    and "set (elems (pqueue (queued_state Q st ev time))) = candidates elems st ev time"
    and "meta (queued_state Q st ev time) = meta (charged st ev time)"
    and "pqueue_scheme (queued_state Q st ev time) = pqueue_scheme st"
proof -
  let ?s = "queued_state Q st ev time"
  have "sched_inv elems ?s \<and> set (elems (pqueue ?s)) = candidates elems st ev time
      \<and> meta ?s = meta (charged st ev time) \<and> pqueue_scheme ?s = pqueue_scheme st"
  proof (cases "\<exists>j. ev = Some j \<and> preemptive (pqueue_scheme st)")
    case False
    then show ?thesis using I
      by (auto simp: queued_state_def charged_def candidates_def split: option.splits)
  next
    case True
    then obtain j where j: "ev = Some j" "preemptive (pqueue_scheme st)" by blast
    then have nj: "j \<notin> set (elems (pqueue st))" using E by (simp add: evictable_def)
    let ?i = "(the (meta st j))\<lparr>remain_time :=
                remain_time (the (meta st j)) - (time - last_start_time (the (meta st j)))\<rparr>"
    note o = offer_inv[OF Q I nj, where info = ?i]
    have "set (elems (offer Q (job_cmp (st\<lparr>meta := (meta st)(j \<mapsto> ?i)\<rparr>)) (pqueue st) j))
        = insert j (set (elems (pqueue st)))"
      using o(2) by (metis (no_types, lifting) set_mset_mset set_mset_add_mset_insert
          sched.select_convs(1) sched.surjective sched.update_convs(3))
    then show ?thesis using o j
      by (simp add: queued_state_def charged_def candidates_def Let_def)
  qed
  then show "sched_inv elems ?s" "set (elems (pqueue ?s)) = candidates elems st ev time"
    "meta ?s = meta (charged st ev time)" "pqueue_scheme ?s = pqueue_scheme st" by blast+
qed

text \<open>
  C20: at the end of a quantum, on a queue that keeps its contract, a scheme without preemption
  lets an unfinished job go on and changes nothing. Otherwise the scheduler chooses among the
  queued jobs and the evicted one, which a preemptive scheme charges for the time it ran and
  queues again only when it has time left. It returns \<open>NULL\<close> exactly when there is no such job;
  otherwise a job that no other one precedes in the order of the scheme, which leaves the queue,
  whose first start time is recorded once and whose last start is now. The queue stays in order.
\<close>

theorem scheduler_quantum_expired_correct:
  assumes Q: "priqueue_ok Q elems" and I: "sched_inv elems st" and E: "evictable elems st ev"
  shows "\<exists>r st'. scheduler_quantum_expired Q st ev time = Inr (r, st') \<and> sched_inv elems st'
    \<and> (if keeps_running st ev time then r = ev \<and> st' = st
       else if candidates elems st ev time = {} then r = None
       else \<exists>j info. r = Some j \<and> j \<in> candidates elems st ev time
         \<and> set (elems (pqueue st')) = candidates elems st ev time - {j}
         \<and> meta st' = (meta (charged st ev time))(j \<mapsto> info)
         \<and> start_time info = (let s = start_time (the (meta (charged st ev time) j))
                             in if s = - 1 then time else s)
         \<and> last_start_time info = time
         \<and> (pqueue_scheme st \<noteq> RR \<longrightarrow> (\<forall>k \<in> candidates elems st ev time.
              lex_le (job_key (charged st ev time) j) (job_key (charged st ev time) k))))"
proof (cases "keeps_running st ev time")
  case True
  then show ?thesis using I quantum_expired_eq[OF E, of Q time] by simp
next
  case False
  let ?s = "queued_state Q st ev time"
  note q = queued_state_ok[OF Q I E, of time]
  note run = quantum_expired_eq[OF E, of Q time] False
  have k: "job_key ?s = job_key (charged st ev time)"
    using q(3,4) by (auto simp: job_key_def charged_def fun_eq_iff split: option.splits)
  show ?thesis
  proof (cases "elems (pqueue ?s)")
    case Nil
    then show ?thesis using next_job_ok(1)[OF Q q(1) Nil, of time] q(2) run by auto
  next
    case (Cons j js)
    have d: "j \<notin> set js" using q(1) Cons by (simp add: sched_inv_def)
    then obtain c: "candidates elems st ev time = insert j (set js)"
      "candidates elems st ev time - {j} = set js" using q(2) Cons by auto
    obtain st' info where n: "next_job Q ?s time = Inr (Some j, st')" "sched_inv elems st'"
      "elems (pqueue st') = js" "meta st' = (meta ?s)(j \<mapsto> info)"
      "start_time info = (if start_time (the (meta ?s j)) = - 1 then time else start_time (the (meta ?s j)))"
      "last_start_time info = time"
      "pqueue_scheme ?s \<noteq> RR \<longrightarrow> (\<forall>k \<in> set js. lex_le (job_key ?s j) (job_key ?s k))"
      using next_job_ok(2)[OF Q q(1) Cons, of time] by blast
    then show ?thesis using run c unfolding q(3,4) k
      by (intro exI[of _ "Some j"] exI[of _ st']) (auto simp: Let_def intro!: exI[of _ info])
  qed
qed

text \<open>The contract is met by a list kept in order by insertion.\<close>

primrec insert_job :: "(job \<Rightarrow> job \<Rightarrow> int) \<Rightarrow> job \<Rightarrow> job list \<Rightarrow> job list" where
  "insert_job cmp j [] = [j]"
| "insert_job cmp j (k # ks) = (if cmp j k \<le> 0 then j # k # ks else k # insert_job cmp j ks)"

definition list_priqueue :: "job list priqueue" where
  "list_priqueue = \<lparr>pq_init = [], offer = \<lambda>cmp q j. insert_job cmp j q,
     poll = \<lambda>q. case q of [] \<Rightarrow> (None, []) | j # js \<Rightarrow> (Some j, js)\<rparr>"

lemma insert_job_mset: "mset (insert_job cmp j q) = add_mset j (mset q)"
  by (induction q) auto

lemma insert_job_ordered:
  assumes "ordered_by cmp q" and t: "\<forall>a b. cmp a b \<le> 0 \<or> cmp b a \<le> 0"
    and tr: "\<forall>a b c. cmp a b \<le> 0 \<longrightarrow> cmp b c \<le> 0 \<longrightarrow> cmp a c \<le> 0"
  shows "ordered_by cmp (insert_job cmp j q)"
  using assms(1)
proof (induction q)
  case Nil
  then show ?case by (simp add: ordered_by_def)
next
  case (Cons k ks)
  have s: "set (insert_job cmp j ks) = insert j (set ks)"
    by (metis insert_job_mset set_mset_mset set_mset_add_mset_insert)
  show ?case using Cons t tr s unfolding ordered_by_def by (auto split: if_splits; blast)
qed

lemma list_priqueue_ok: "priqueue_ok list_priqueue (\<lambda>q. q)"
  unfolding priqueue_ok_def using insert_job_ordered insert_job_mset
  by (simp add: list_priqueue_def)

theorem scheduler_quantum_expired_correct_witness:
  "\<exists>r st'. scheduler_quantum_expired list_priqueue
       (scheduler_new_job list_priqueue (scheduler_start_up list_priqueue SJF) 1 7 0 5 2) None 3
     = Inr (r, st') \<and> r = Some 1"
proof -
  let ?st = "scheduler_new_job list_priqueue (scheduler_start_up list_priqueue SJF) 1 7 0 5 2"
  have I: "sched_inv (\<lambda>q. q) ?st"
    by (simp add: scheduler_new_job_def scheduler_start_up_def list_priqueue_def sched_inv_def ordered_by_def)
  have E: "evictable (\<lambda>q. q) ?st None" by (simp add: evictable_def)
  have c: "candidates (\<lambda>q. q) ?st None 3 = {1}"
    by (simp add: scheduler_new_job_def scheduler_start_up_def list_priqueue_def candidates_def)
  have "\<not> keeps_running ?st None 3" by (simp add: keeps_running_def)
  then show ?thesis
    using scheduler_quantum_expired_correct[OF list_priqueue_ok I E, of 3] c by auto
qed

section \<open>Statistics\<close>

lemma scheduler_job_finished_stats:
  assumes "meta st j = Some info"
  shows "\<exists>st'. scheduler_job_finished st j time = Inr st'
    \<and> waiting_time st' - waiting_time st
        = (turnaround_time st' - turnaround_time st) - burst_time info
    \<and> meta st' j = None \<and> num_jobs st' = num_jobs st"
  using assms by (simp add: scheduler_job_finished_def)

end
