(* ===== verification/Ctype.thy ===== *)
theory Ctype
  imports Cstring
begin

text \<open>
  The functions of \<^verbatim>\<open>ctype.h\<close> and the conversions of \<^verbatim>\<open>stdlib.h\<close> and \<^verbatim>\<open>string.h\<close> that several
  programs call, as the C locale defines them: character classes, \<open>atoi\<close>, the printing of integers, and \<open>strtok\<close> on
  strings without terminators inside.
\<close>

section \<open>Character classes\<close>

definition code :: "char \<Rightarrow> nat" where "code c = of_char c"

definition isalpha :: "char \<Rightarrow> bool" where
  "isalpha c \<longleftrightarrow> 65 \<le> code c \<and> code c \<le> 90 \<or> 97 \<le> code c \<and> code c \<le> 122"

definition isspace :: "char \<Rightarrow> bool" where
  "isspace c \<longleftrightarrow> code c = 32 \<or> 9 \<le> code c \<and> code c \<le> 13"

definition ispunct :: "char \<Rightarrow> bool" where
  "ispunct c \<longleftrightarrow> 33 \<le> code c \<and> code c \<le> 47 \<or> 58 \<le> code c \<and> code c \<le> 64
     \<or> 91 \<le> code c \<and> code c \<le> 96 \<or> 123 \<le> code c \<and> code c \<le> 126"

definition tolower :: "char \<Rightarrow> char" where
  "tolower c = (if 65 \<le> code c \<and> code c \<le> 90 then char_of (code c + 32) else c)"

definition toupper :: "char \<Rightarrow> char" where
  "toupper c = (if 97 \<le> code c \<and> code c \<le> 122 then char_of (code c - 32) else c)"

section \<open>Numbers and tokens\<close>

definition isdigit :: "char \<Rightarrow> bool" where
  "isdigit c \<longleftrightarrow> 48 \<le> code c \<and> code c \<le> 57"

definition digits_value :: "string \<Rightarrow> int" where
  "digits_value s = foldl (\<lambda>n c. 10 * n + (int (code c) - 48)) 0 (takeWhile isdigit s)"

definition atoi :: "string \<Rightarrow> int" where
  \<comment> \<open>white space, a sign, digits; the result is converted to \<open>int\<close>\<close>
  "atoi s = int_of_long (case dropWhile isspace s of
       [] \<Rightarrow> 0
     | c # cs \<Rightarrow> if c = CHR ''-'' then - digits_value cs
                 else if c = CHR ''+'' then digits_value cs else digits_value (c # cs))"

fun strtok_all :: "char \<Rightarrow> string \<Rightarrow> string \<Rightarrow> string list" where
  \<comment> \<open>the tokens of repeated \<open>strtok\<close> calls with a delimiter of one character; the first argument
     after it is the token so far\<close>
  "strtok_all d cur [] = (if cur = [] then [] else [cur])"
| "strtok_all d cur (c # s) =
     (if c = d then (if cur = [] then strtok_all d [] s else cur # strtok_all d [] s)
      else strtok_all d (cur @ [c]) s)"

function decimal :: "nat \<Rightarrow> string" where
  "decimal n = (if n < 10 then [char_of (48 + n)] else decimal (n div 10) @ [char_of (48 + n mod 10)])"
  by auto
termination by (relation "measure id") auto

declare decimal.simps [simp del]

definition show_int :: "int \<Rightarrow> string" where
  \<comment> \<open>the conversion \<open>%zd\<close>\<close>
  "show_int i = (if i < 0 then CHR ''-'' # decimal (nat (- i)) else decimal (nat i))"

lemma strtok_all_tokens:
  "d \<notin> set cur \<Longrightarrow> t \<in> set (strtok_all d cur s) \<Longrightarrow> t \<noteq> [] \<and> d \<notin> set t"
proof (induction s arbitrary: cur)
  case Nil
  then show ?case by (simp split: if_splits)
next
  case (Cons c s)
  then show ?case using Cons.IH[of "[]"] Cons.IH[of "cur @ [c]"]
    by (cases "c = d"; cases "cur = []") auto
qed

lemma strtok_all_concat: "concat (strtok_all d cur s) = cur @ filter (\<lambda>c. c \<noteq> d) s"
  by (induction d cur s rule: strtok_all.induct) auto

lemma NUL_decimal: "NUL \<notin> set (decimal n)"
proof (induction n rule: decimal.induct)
  case (1 n)
  have d: "char_of (48 + k) \<noteq> NUL" if "k < 10" for k :: nat
  proof -
    have "of_char (char_of (48 + k) :: char) = 48 + k" using that by simp
    moreover have "of_char NUL = (0 :: nat)" by (simp add: NUL_def)
    ultimately show ?thesis by (metis add_is_0 zero_neq_numeral)
  qed
  show ?case using 1 d[of n] d[of "n mod 10"] by (subst decimal.simps) auto
qed

lemma decimal_length: "k > 0 \<Longrightarrow> n < 10 ^ k \<Longrightarrow> length (decimal n) \<le> k"
proof (induction n arbitrary: k rule: decimal.induct)
  case (1 n)
  show ?case
  proof (cases "n < 10")
    case True
    then show ?thesis using 1(2) by (subst decimal.simps) simp
  next
    case False
    then obtain j where j: "k = Suc j" "j > 0" using 1(2,3) by (cases k; cases "k = 1") auto
    then have "n div 10 < 10 ^ j" using 1(3) by (simp add: less_mult_imp_div_less mult.commute)
    then have "length (decimal (n div 10)) \<le> j" using 1(1)[OF False j(2)] by simp
    then show ?thesis using False j(1) by (subst decimal.simps) simp
  qed
qed

end
