(* ===== verification/Camel.thy ===== *)
theory Camel
  imports Ctype
begin

text \<open>
  The camelCaser of \<^verbatim>\<open>extreme_edge_cases/camelCaser.c\<close>: the loop over the characters with its
  buffers, as blocks inside the array of results, and \<open>destroy\<close>. The predicates of
  \<^verbatim>\<open>ctype.h\<close> are those of the C locale; \<open>malloc\<close> is the parameter \<open>al\<close>.
\<close>

section \<open>The code\<close>

record camel =
  outbufs :: "block option cell list"
  cur :: nat
  newSen :: bool
  spaceBefore :: bool
  idx :: int
  mallocs :: nat \<comment> \<open>how many buffers were allocated, not a variable of the code\<close>

fun count_punct :: "block \<Rightarrow> int \<Rightarrow> int res" where
  "count_punct [] numPunct = Inl Out_Of_Bounds"
| "count_punct (Uninit # s) numPunct = Inl Uninit_Read"
| "count_punct (Val c # s) numPunct =
     (if c = NUL then Inr numPunct
      else count_punct s (if ispunct c then int_of_long (numPunct + 1) else numPunct))"

definition put_char :: "char \<Rightarrow> camel \<Rightarrow> camel res" where
  \<comment> \<open>\<open>*((*cur)+idx) = c\<close>\<close>
  "put_char c st = rbind (rd (outbufs st) (cur st)) (\<lambda>p. rbind (deref p) (\<lambda>b.
     if idx st < 0 then Inl Out_Of_Bounds
     else rbind (wr b (nat (idx st)) c) (\<lambda>b'. rbind (wr (outbufs st) (cur st) (Some b')) (\<lambda>r.
       Inr (st\<lparr>outbufs := r\<rparr>)))))"

definition new_buffer :: "block \<Rightarrow> camel \<Rightarrow> camel res" where
  \<comment> \<open>\<open>*cur = malloc(\<dots>)\<close>\<close>
  "new_buffer b st = rbind (wr (outbufs st) (cur st) (Some b)) (\<lambda>r.
     Inr (st\<lparr>outbufs := r, mallocs := mallocs st + 1\<rparr>))"

definition bump :: "camel \<Rightarrow> camel" where "bump st = st\<lparr>idx := int_of_long (idx st + 1)\<rparr>"

definition camel_char :: "allocator \<Rightarrow> block \<Rightarrow> char \<Rightarrow> camel \<Rightarrow> camel res" where
  "camel_char al input_str c st =
     (if isalpha c then
        rbind (if newSen st then
                 rbind (c_strlen input_str) (\<lambda>n. rbind (new_buffer (al (n + 1)) st) (\<lambda>st1.
                 rbind (put_char (tolower c) st1) (\<lambda>st2.
                 Inr (st2\<lparr>newSen := False, spaceBefore := False\<rparr>))))
               else if spaceBefore st then
                 rbind (put_char (toupper c) st) (\<lambda>st1. Inr (st1\<lparr>spaceBefore := False\<rparr>))
               else put_char (tolower c) st)
          (\<lambda>st'. Inr (bump st'))
      else if isspace c then Inr (st\<lparr>spaceBefore := True\<rparr>)
      else if ispunct c then
        rbind (if newSen st then rbind (c_strlen input_str) (\<lambda>n. new_buffer (al (n + 1)) st)
               else Inr st) (\<lambda>st1.
        rbind (put_char NUL st1) (\<lambda>st2. Inr (st2\<lparr>newSen := True, idx := 0, cur := cur st2 + 1\<rparr>)))
      else
        rbind (if newSen st then
                 rbind (c_strlen input_str) (\<lambda>n. rbind (new_buffer (al n) st) (\<lambda>st1.
                 Inr (st1\<lparr>newSen := False, spaceBefore := False\<rparr>)))
               else Inr st) (\<lambda>st1. rbind (put_char c st1) (\<lambda>st2. Inr (bump st2))))"

fun camel_loop :: "allocator \<Rightarrow> block \<Rightarrow> camel \<Rightarrow> camel res" where
  "camel_loop al [] st = Inl Out_Of_Bounds"
| "camel_loop al (Uninit # s) st = Inl Uninit_Read"
| "camel_loop al (Val c # s) st =
     (if c = NUL then Inr st else rbind (camel_char al (Val c # s) c st) (camel_loop al s))"

definition camel_start :: "int \<Rightarrow> camel" where
  \<comment> \<open>the array of \<open>numPunct + 1\<close> pointers, not yet written\<close>
  "camel_start numPunct = \<lparr>outbufs = replicate (nat (int_of_long (numPunct + 1))) Uninit, cur = 0,
     newSen = True, spaceBefore = False, idx = 0, mallocs = 0\<rparr>"

definition camel_run :: "allocator \<Rightarrow> block \<Rightarrow> camel res" where
  "camel_run al input_str =
     rbind (count_punct input_str 0) (\<lambda>numPunct.
     rbind (camel_loop al input_str (camel_start numPunct)) (\<lambda>st.
     rbind (wr (outbufs st) (cur st) None) (\<lambda>r. Inr (st\<lparr>outbufs := r\<rparr>))))"

definition camel_caser :: "allocator \<Rightarrow> block option \<Rightarrow> block option cell list option res" where
  "camel_caser al input_str =
     (case input_str of None \<Rightarrow> Inr None
      | Some s \<Rightarrow> rbind (camel_run al s) (\<lambda>st. Inr (Some (outbufs st))))"

fun destroy_loop :: "block option cell list \<Rightarrow> block list res" where
  \<comment> \<open>the buffers that are freed, up to the \<open>NULL\<close> pointer\<close>
  "destroy_loop [] = Inl Out_Of_Bounds"
| "destroy_loop (Uninit # res) = Inl Uninit_Read"
| "destroy_loop (Val None # res) = Inr []"
| "destroy_loop (Val (Some b) # res) = rbind (destroy_loop res) (\<lambda>fs. Inr (b # fs))"

definition destroy :: "block option cell list option \<Rightarrow> block list res" where
  "destroy result = (case result of None \<Rightarrow> Inr [] | Some res \<Rightarrow> destroy_loop res)"

section \<open>What the camelCaser promises\<close>

function sentences :: "string \<Rightarrow> string list" where
  \<comment> \<open>the texts that a punctuation character ends\<close>
  "sentences s = (case dropWhile (\<lambda>c. \<not> ispunct c) s of [] \<Rightarrow> []
     | p # r \<Rightarrow> takeWhile (\<lambda>c. \<not> ispunct c) s # sentences r)"
  by auto
termination
proof (relation "measure length")
  fix s p and r :: string
  assume "dropWhile (\<lambda>c. \<not> ispunct c) s = p # r"
  then have "length (p # r) \<le> length s" by (metis length_dropWhile_le)
  then show "(r, s) \<in> measure length" by simp
qed simp

declare sentences.simps [simp del]

definition unfinished :: "string \<Rightarrow> string" where
  "unfinished s = rev (takeWhile (\<lambda>c. \<not> ispunct c) (rev s))"

function words :: "string \<Rightarrow> string list" where
  \<comment> \<open>the maximal runs without white space\<close>
  "words t = (case dropWhile isspace t of [] \<Rightarrow> []
     | c # r \<Rightarrow> (c # takeWhile (\<lambda>c. \<not> isspace c) r) # words (dropWhile (\<lambda>c. \<not> isspace c) r))"
  by auto
termination
proof (relation "measure length")
  fix t c and r :: string
  assume "dropWhile isspace t = c # r"
  then have "length (c # r) \<le> length t" by (metis length_dropWhile_le)
  then show "(dropWhile (\<lambda>c. \<not> isspace c) r, t) \<in> measure length"
    using length_dropWhile_le[of "\<lambda>c. \<not> isspace c" r] by simp
qed simp

declare words.simps [simp del]

definition capitalise :: "string \<Rightarrow> string" where
  \<comment> \<open>the first letter in upper case, the others in lower case\<close>
  "capitalise w = takeWhile (\<lambda>c. \<not> isalpha c) w
     @ (case dropWhile (\<lambda>c. \<not> isalpha c) w of [] \<Rightarrow> [] | c # r \<Rightarrow> toupper c # List.map tolower r)"

definition camel_sentence :: "string \<Rightarrow> string" where
  "camel_sentence t = (case words t of [] \<Rightarrow> []
     | w # ws \<Rightarrow> List.map tolower w @ concat (List.map capitalise ws))"

section \<open>The text that the characters of a sentence produce\<close>

definition emitted :: "bool \<Rightarrow> bool \<Rightarrow> string \<Rightarrow> string" where
  \<comment> \<open>what the rest of a sentence adds, from the two flags\<close>
  "emitted new sp t =
     (if new then camel_sentence t
      else if sp then concat (List.map capitalise (words t))
      else List.map tolower (takeWhile (\<lambda>c. \<not> isspace c) t)
             @ concat (List.map capitalise (words (dropWhile (\<lambda>c. \<not> isspace c) t))))"

lemma words_Nil [simp]: "words [] = []"
  by (simp add: words.simps)

lemma words_space [simp]: "isspace c \<Longrightarrow> words (c # t) = words t"
  by (subst words.simps, subst (2) words.simps) simp

lemma words_nonspace:
  "\<not> isspace c \<Longrightarrow> words (c # t)
     = (c # takeWhile (\<lambda>c. \<not> isspace c) t) # words (dropWhile (\<lambda>c. \<not> isspace c) t)"
  by (subst words.simps) simp

lemma capitalise_simps [simp]:
  "capitalise [] = []"
  "isalpha c \<Longrightarrow> capitalise (c # w) = toupper c # List.map tolower w"
  "\<not> isalpha c \<Longrightarrow> capitalise (c # w) = c # capitalise w"
  by (simp_all add: capitalise_def)

lemma alpha_not_space: "isalpha c \<Longrightarrow> \<not> isspace c"
  by (auto simp: isalpha_def isspace_def)

lemma tolower_other: "\<not> isalpha c \<Longrightarrow> tolower c = c"
  by (auto simp: isalpha_def tolower_def)

lemma emitted_Nil [simp]: "emitted new sp [] = []"
  by (simp add: emitted_def camel_sentence_def)

lemma emitted_space: "isspace c \<Longrightarrow> emitted new sp (c # t) = emitted new True t"
  by (simp add: emitted_def camel_sentence_def)

lemma emitted_alpha:
  "isalpha c \<Longrightarrow> emitted new sp (c # t)
     = (if \<not> new \<and> sp then toupper c else tolower c) # emitted False False t"
  using alpha_not_space[of c] by (simp add: emitted_def camel_sentence_def words_nonspace)

lemma capitalise_words:
  "concat (List.map capitalise (words t)) = capitalise (takeWhile (\<lambda>c. \<not> isspace c) t)
     @ concat (List.map capitalise (words (dropWhile (\<lambda>c. \<not> isspace c) t)))"
  by (cases t) (simp_all add: words_nonspace)

lemma emitted_other:
  "\<not> isalpha c \<Longrightarrow> \<not> isspace c \<Longrightarrow> emitted new sp (c # t) = c # emitted False (sp \<and> \<not> new) t"
  using capitalise_words[of t]
  by (simp add: emitted_def camel_sentence_def words_nonspace tolower_other)

definition emit :: "string \<Rightarrow> bool \<Rightarrow> bool \<Rightarrow> string \<Rightarrow> string list" where
  \<comment> \<open>the sentences that end in \<open>s\<close>, when \<open>out\<close> is the text of the present one so far\<close>
  "emit out new sp s = (case dropWhile (\<lambda>c. \<not> ispunct c) s of [] \<Rightarrow> []
     | p # r \<Rightarrow> (out @ emitted new sp (takeWhile (\<lambda>c. \<not> ispunct c) s))
                 # List.map camel_sentence (sentences r))"

lemma emit_start: "emit [] True sp s = List.map camel_sentence (sentences s)"
  by (subst sentences.simps, cases "dropWhile (\<lambda>c. \<not> ispunct c) s")
    (simp_all add: emit_def emitted_def del: dropWhile_eq_Nil_conv)

lemma emit_Nil [simp]: "emit out new sp [] = []"
  by (simp add: emit_def)

lemma emit_punct: "ispunct c \<Longrightarrow> emit out new sp (c # s) = out # emit [] True True s"
  by (simp add: emit_start) (simp add: emit_def)

lemma emit_step:
  "\<not> ispunct c \<Longrightarrow> (\<And>t. emitted new sp (c # t) = xs @ emitted new' sp' t)
     \<Longrightarrow> emit out new sp (c # s) = emit (out @ xs) new' sp' s"
  by (cases "dropWhile (\<lambda>c. \<not> ispunct c) s")
    (simp_all add: emit_def del: dropWhile_eq_Nil_conv)

lemma length_emit: "length (emit out new sp s) = length (filter ispunct s)"
proof (induction s arbitrary: out new sp)
  case (Cons c s)
  show ?case
  proof (cases "ispunct c")
    case True
    then show ?thesis by (simp add: emit_punct Cons)
  next
    case False
    then show ?thesis using Cons[of out new sp]
      by (cases "dropWhile (\<lambda>c. \<not> ispunct c) s") (simp_all add: emit_def del: dropWhile_eq_Nil_conv)
  qed
qed simp

section \<open>The loop\<close>

primrec end_new :: "bool \<Rightarrow> string \<Rightarrow> bool" where
  \<comment> \<open>\<open>newSen\<close> after the characters\<close>
  "end_new new [] = new"
| "end_new new (c # s) = end_new (ispunct c \<or> new \<and> isspace c) s"

definition big_enough :: "allocator \<Rightarrow> bool" where
  "big_enough al \<longleftrightarrow> (\<forall>n. n \<le> length (al n))"

definition finished :: "camel \<Rightarrow> string list \<Rightarrow> bool" where
  \<comment> \<open>the strings of the sentences that are complete\<close>
  "finished st done \<longleftrightarrow> cur st = length done \<and> length done < length (outbufs st)
     \<and> (\<forall>i < length done. \<exists>b. outbufs st ! i = Val (Some b) \<and> read_cstr b = Inr (done ! i))"

definition holds :: "camel \<Rightarrow> string \<Rightarrow> nat \<Rightarrow> bool" where
  \<comment> \<open>the present buffer holds \<open>out\<close> and has room for \<open>n\<close> characters\<close>
  "holds st out n \<longleftrightarrow> idx st = int (length out)
     \<and> (\<exists>b. outbufs st ! cur st = Val (Some b) \<and> length out + n \<le> length b
             \<and> take (length out) b = List.map Val out)"

definition loop_inv :: "camel \<Rightarrow> string list \<Rightarrow> string \<Rightarrow> nat \<Rightarrow> bool" where
  "loop_inv st done out n \<longleftrightarrow> finished st done \<and>
     (if newSen st then idx st = 0 \<and> out = [] \<and> mallocs st = length done
      else holds st out n \<and> mallocs st = Suc (length done))"

lemma holds_cong: "idx st' = idx st \<Longrightarrow> outbufs st' = outbufs st \<Longrightarrow> cur st' = cur st \<Longrightarrow> holds st' = holds st"
  by (simp add: holds_def fun_eq_iff)

lemma finished_upd:
  "finished st done \<Longrightarrow> cur st' = cur st \<Longrightarrow> outbufs st' = (outbufs st)[cur st := p] \<Longrightarrow> finished st' done"
  by (auto simp: finished_def)

lemma finished_cong:
  "finished st done \<Longrightarrow> cur st' = cur st \<Longrightarrow> outbufs st' = outbufs st \<Longrightarrow> finished st' done"
  by (simp add: finished_def)

lemma new_buffer_ok:
  assumes f: "finished st done" and i: "idx st = 0" and b: "k \<le> length b"
  shows "\<exists>r. new_buffer b st = Inr (st\<lparr>outbufs := r, mallocs := mallocs st + 1\<rparr>)
    \<and> length r = length (outbufs st) \<and> finished (st\<lparr>outbufs := r, mallocs := mallocs st + 1\<rparr>) done
    \<and> holds (st\<lparr>outbufs := r, mallocs := mallocs st + 1\<rparr>) [] k"
proof -
  have c: "cur st < length (outbufs st)" using f by (simp add: finished_def)
  let ?r = "(outbufs st)[cur st := Val (Some b)]"
  have "finished (st\<lparr>outbufs := ?r, mallocs := mallocs st + 1\<rparr>) done" by (rule finished_upd[OF f]) simp_all
  then show ?thesis using c i b by (intro exI[of _ ?r]) (simp add: new_buffer_def holds_def)
qed

lemma put_char_ok:
  assumes f: "finished st done" and h: "holds st out n" and n: "0 < n"
    and l: "length out + n < 2 ^ 31"
  shows "\<exists>r. put_char c st = Inr (st\<lparr>outbufs := r\<rparr>) \<and> length r = length (outbufs st)
     \<and> finished (st\<lparr>outbufs := r\<rparr>) done \<and> holds (bump (st\<lparr>outbufs := r\<rparr>)) (out @ [c]) (n - 1)"
proof -
  obtain b where b: "outbufs st ! cur st = Val (Some b)" "length out + n \<le> length b"
    "take (length out) b = List.map Val out" "idx st = int (length out)"
    using h by (auto simp: holds_def)
  let ?r = "(outbufs st)[cur st := Val (Some (b[length out := Val c]))]"
  have cl: "cur st < length (outbufs st)" using f by (simp add: finished_def)
  have "put_char c st = Inr (st\<lparr>outbufs := ?r\<rparr>)" using b n cl by (simp add: put_char_def)
  moreover have "finished (st\<lparr>outbufs := ?r\<rparr>) done" by (rule finished_upd[OF f]) simp_all
  moreover have "take (Suc (length out)) (b[length out := Val c]) = List.map Val (out @ [c])"
    using b n by (simp add: take_Suc_conv_app_nth)
  then have "holds (bump (st\<lparr>outbufs := ?r\<rparr>)) (out @ [c]) (n - 1)"
    using b n l cl by (simp add: holds_def bump_def)
  ultimately show ?thesis by (intro exI[of _ ?r]) simp
qed

lemma c_strlen_cstring: "NUL \<notin> set s \<Longrightarrow> c_strlen (cstring s @ rest) = Inr (length s)"
  by (simp add: c_strlen_def)

lemma big_le: "big_enough al \<Longrightarrow> k \<le> n \<Longrightarrow> k \<le> length (al n)"
  by (metis big_enough_def order_trans)

lemma camel_alpha:
  assumes al: "big_enough al" and a: "isalpha c" and I: "loop_inv st done out (Suc (length s))"
    and l: "length out + Suc (length s) < 2 ^ 31" and z: "NUL \<notin> set (c # s)"
  shows "\<exists>st'. camel_char al (cstring (c # s) @ rest) c st = Inr st'
    \<and> loop_inv st' done (out @ [if \<not> newSen st \<and> spaceBefore st then toupper c else tolower c]) (length s)
    \<and> newSen st' = False \<and> spaceBefore st' = False \<and> length (outbufs st') = length (outbufs st)"
proof (cases "newSen st")
  case True
  let ?b = "al (length (c # s) + 1)"
  have f: "finished st done" "idx st = 0" "out = []" "mallocs st = length done"
    using I True by (auto simp: loop_inv_def)
  have len: "Suc (length s) \<le> length ?b" by (rule big_le[OF al]) simp
  obtain r where r: "new_buffer ?b st = Inr (st\<lparr>outbufs := r, mallocs := mallocs st + 1\<rparr>)"
    "length r = length (outbufs st)" "finished (st\<lparr>outbufs := r, mallocs := mallocs st + 1\<rparr>) done"
    "holds (st\<lparr>outbufs := r, mallocs := mallocs st + 1\<rparr>) [] (Suc (length s))"
    using new_buffer_ok[OF f(1,2) len] by blast
  have l': "length ([] :: string) + Suc (length s) < 2 ^ 31" using l by simp
  let ?st1 = "st\<lparr>outbufs := r, mallocs := mallocs st + 1\<rparr>"
  from put_char_ok[OF r(3,4) _ l', of "tolower c"] obtain r' where
    r': "put_char (tolower c) ?st1 = Inr (?st1\<lparr>outbufs := r'\<rparr>)"
    "length r' = length (outbufs st)" "finished (?st1\<lparr>outbufs := r'\<rparr>) done"
    "holds (bump (?st1\<lparr>outbufs := r'\<rparr>)) [tolower c] (length s)"
    using r(2) by auto
  let ?st = "bump (?st1\<lparr>outbufs := r', newSen := False, spaceBefore := False\<rparr>)"
  have "finished ?st done" by (rule finished_cong[OF r'(3)]) (simp_all add: bump_def)
  moreover have "holds ?st [tolower c] (length s)"
    using r'(4) by (subst holds_cong) (simp_all add: bump_def)
  ultimately have "loop_inv ?st done (out @ [tolower c]) (length s)"
    using f by (simp add: loop_inv_def bump_def)
  moreover have "camel_char al (cstring (c # s) @ rest) c st = Inr ?st"
    unfolding camel_char_def using True a r(1) r'(1) c_strlen_cstring[OF z] by simp
  ultimately show ?thesis using True r'(2) by (intro exI[of _ ?st]) (simp add: bump_def)
next
  case False
  have f: "finished st done" "holds st out (Suc (length s))" "mallocs st = Suc (length done)"
    using I False by (auto simp: loop_inv_def)
  let ?c = "if spaceBefore st then toupper c else tolower c"
  obtain r where r: "put_char ?c st = Inr (st\<lparr>outbufs := r\<rparr>)" "length r = length (outbufs st)"
    "finished (st\<lparr>outbufs := r\<rparr>) done" "holds (bump (st\<lparr>outbufs := r\<rparr>)) (out @ [?c]) (length s)"
    using put_char_ok[OF f(1,2) _ l, of ?c] by auto
  let ?st = "bump (st\<lparr>outbufs := r, spaceBefore := False\<rparr>)"
  have "finished ?st done" by (rule finished_cong[OF r(3)]) (simp_all add: bump_def)
  moreover have "holds ?st (out @ [?c]) (length s)"
    using r(4) by (subst holds_cong) (simp_all add: bump_def)
  ultimately have "loop_inv ?st done (out @ [?c]) (length s)"
    using f False by (simp add: loop_inv_def bump_def)
  moreover have "camel_char al (cstring (c # s) @ rest) c st = Inr ?st"
    unfolding camel_char_def using False a r(1)
    by (cases st; cases "spaceBefore st"; simp add: bump_def)
  ultimately show ?thesis using False r(2) by (intro exI[of _ ?st]) (simp add: bump_def)
qed

lemma camel_other:
  assumes al: "big_enough al" and a: "\<not> isalpha c" "\<not> isspace c" "\<not> ispunct c"
    and I: "loop_inv st done out (Suc (length s))"
    and l: "length out + Suc (length s) < 2 ^ 31" and z: "NUL \<notin> set (c # s)"
  shows "\<exists>st'. camel_char al (cstring (c # s) @ rest) c st = Inr st'
    \<and> loop_inv st' done (out @ [c]) (length s)
    \<and> newSen st' = False \<and> spaceBefore st' = (spaceBefore st \<and> \<not> newSen st)
    \<and> length (outbufs st') = length (outbufs st)"
proof (cases "newSen st")
  case True
  let ?b = "al (length (c # s))"
  have f: "finished st done" "idx st = 0" "out = []" "mallocs st = length done"
    using I True by (auto simp: loop_inv_def)
  have len: "Suc (length s) \<le> length ?b" by (rule big_le[OF al]) simp
  obtain r where r: "new_buffer ?b st = Inr (st\<lparr>outbufs := r, mallocs := mallocs st + 1\<rparr>)"
    "length r = length (outbufs st)" "finished (st\<lparr>outbufs := r, mallocs := mallocs st + 1\<rparr>) done"
    "holds (st\<lparr>outbufs := r, mallocs := mallocs st + 1\<rparr>) [] (Suc (length s))"
    using new_buffer_ok[OF f(1,2) len] by blast
  let ?st1 = "st\<lparr>outbufs := r, mallocs := mallocs st + 1, newSen := False, spaceBefore := False\<rparr>"
  have "finished ?st1 done" by (rule finished_cong[OF r(3)]) simp_all
  moreover have "holds ?st1 [] (Suc (length s))" using r(4) by (subst holds_cong) simp_all
  ultimately obtain r' where
    r': "put_char c ?st1 = Inr (?st1\<lparr>outbufs := r'\<rparr>)"
    "length r' = length (outbufs st)" "finished (?st1\<lparr>outbufs := r'\<rparr>) done"
    "holds (bump (?st1\<lparr>outbufs := r'\<rparr>)) [c] (length s)"
    using put_char_ok[of ?st1 "done" "[]" "Suc (length s)" c] l r(2) by auto
  let ?st = "bump (?st1\<lparr>outbufs := r'\<rparr>)"
  have "finished ?st done" by (rule finished_cong[OF r'(3)]) (simp_all add: bump_def)
  then have "loop_inv ?st done (out @ [c]) (length s)"
    using f r'(4) by (simp add: loop_inv_def bump_def)
  moreover have "camel_char al (cstring (c # s) @ rest) c st = Inr ?st"
    unfolding camel_char_def using True a r(1) r'(1) c_strlen_cstring[OF z] by simp
  ultimately show ?thesis using True r'(2) by (intro exI[of _ ?st]) (simp add: bump_def)
next
  case False
  have f: "finished st done" "holds st out (Suc (length s))" "mallocs st = Suc (length done)"
    using I False by (auto simp: loop_inv_def)
  obtain r where r: "put_char c st = Inr (st\<lparr>outbufs := r\<rparr>)" "length r = length (outbufs st)"
    "finished (st\<lparr>outbufs := r\<rparr>) done" "holds (bump (st\<lparr>outbufs := r\<rparr>)) (out @ [c]) (length s)"
    using put_char_ok[OF f(1,2) _ l, of c] by auto
  let ?st = "bump (st\<lparr>outbufs := r\<rparr>)"
  have "finished ?st done" by (rule finished_cong[OF r(3)]) (simp_all add: bump_def)
  then have "loop_inv ?st done (out @ [c]) (length s)"
    using f r(4) False by (simp add: loop_inv_def bump_def)
  moreover have "camel_char al (cstring (c # s) @ rest) c st = Inr ?st"
    unfolding camel_char_def using False a r(1) by simp
  ultimately show ?thesis using False r(2) by (intro exI[of _ ?st]) (simp add: bump_def)
qed

lemma camel_space:
  assumes a: "isspace c" and I: "loop_inv st done out (Suc (length s))"
  shows "camel_char al inp c st = Inr (st\<lparr>spaceBefore := True\<rparr>)
    \<and> loop_inv (st\<lparr>spaceBefore := True\<rparr>) done out (length s)"
proof -
  have "holds (st\<lparr>spaceBefore := True\<rparr>) out (length s)" if "holds st out (Suc (length s))"
    using that by (auto simp: holds_def)
  moreover have "finished (st\<lparr>spaceBefore := True\<rparr>) done" if "finished st done"
    by (rule finished_cong[OF that]) simp_all
  ultimately show ?thesis using a I alpha_not_space[of c]
    by (auto simp: camel_char_def loop_inv_def)
qed

lemma finished_snoc:
  assumes f: "finished st done" and h: "holds (bump st) (out @ [NUL]) n" and z: "NUL \<notin> set out"
    and l: "Suc (length done) < length (outbufs st)"
  shows "finished (st\<lparr>newSen := x, idx := y, cur := cur st + 1\<rparr>) (done @ [out])"
proof -
  obtain b where b: "outbufs st ! cur st = Val (Some b)" "take (length (out @ [NUL])) b = List.map Val (out @ [NUL])"
    using h unfolding holds_def bump_def by auto
  then have "b = cstring out @ drop (length (out @ [NUL])) b"
    unfolding cstring_def by (metis append_take_drop_id)
  then have "read_cstr b = Inr out" using z by (metis read_cstring)
  then show ?thesis using f b(1) l by (auto simp: finished_def nth_append less_Suc_eq)
qed

lemma camel_punct:
  assumes al: "big_enough al" and a: "ispunct c" and I: "loop_inv st done out (Suc (length s))"
    and l: "length out + Suc (length s) < 2 ^ 31" and z: "NUL \<notin> set (c # s)" "NUL \<notin> set out"
    and more: "Suc (length done) < length (outbufs st)"
  shows "\<exists>st'. camel_char al (cstring (c # s) @ rest) c st = Inr st'
    \<and> loop_inv st' (done @ [out]) [] (length s) \<and> newSen st' \<and> length (outbufs st') = length (outbufs st)
    \<and> spaceBefore st' = spaceBefore st"
proof -
  have n: "\<not> isalpha c" "\<not> isspace c" using a by (auto simp: ispunct_def isalpha_def isspace_def)
  have "\<exists>st1. (if newSen st then rbind (c_strlen (cstring (c # s) @ rest)) (\<lambda>n. new_buffer (al (n + 1)) st)
               else Inr st) = Inr st1 \<and> finished st1 done \<and> holds st1 out (Suc (length s))
      \<and> mallocs st1 = Suc (length done) \<and> length (outbufs st1) = length (outbufs st)
      \<and> spaceBefore st1 = spaceBefore st"
  proof (cases "newSen st")
    case True
    have f: "finished st done" "idx st = 0" "out = []" "mallocs st = length done"
      using I True by (auto simp: loop_inv_def)
    have len: "Suc (length s) \<le> length (al (length (c # s) + 1))" by (rule big_le[OF al]) simp
    show ?thesis using new_buffer_ok[OF f(1,2) len] True f c_strlen_cstring[OF z(1)] by auto
  next
    case False
    then show ?thesis using I by (auto simp: loop_inv_def)
  qed
  then obtain st1 where s1: "(if newSen st then rbind (c_strlen (cstring (c # s) @ rest)) (\<lambda>n. new_buffer (al (n + 1)) st)
               else Inr st) = Inr st1" "finished st1 done" "holds st1 out (Suc (length s))"
      "mallocs st1 = Suc (length done)" "length (outbufs st1) = length (outbufs st)"
      "spaceBefore st1 = spaceBefore st" by blast
  obtain r where r: "put_char NUL st1 = Inr (st1\<lparr>outbufs := r\<rparr>)" "length r = length (outbufs st1)"
    "finished (st1\<lparr>outbufs := r\<rparr>) done" "holds (bump (st1\<lparr>outbufs := r\<rparr>)) (out @ [NUL]) (length s)"
    using put_char_ok[OF s1(2,3) _ l, of NUL] by auto
  let ?st2 = "st1\<lparr>outbufs := r\<rparr>"
  let ?st = "?st2\<lparr>newSen := True, idx := 0, cur := cur ?st2 + 1\<rparr>"
  have "finished ?st (done @ [out])"
    by (rule finished_snoc[OF r(3,4) z(2)]) (use more r(2) s1(5) in simp)
  then have "loop_inv ?st (done @ [out]) [] (length s)" using s1(4) by (simp add: loop_inv_def)
  moreover have "camel_char al (cstring (c # s) @ rest) c st = Inr ?st"
    unfolding camel_char_def using a n s1(1) r(1) by simp
  ultimately show ?thesis using r(2) s1(5,6) by (intro exI[of _ ?st]) simp
qed

lemma tolower_not_NUL: "isalpha c \<Longrightarrow> tolower c \<noteq> NUL \<and> toupper c \<noteq> NUL"
proof -
  assume a: "isalpha c"
  have cd: "code (char_of n) = n" if "n < 256" for n using that by (simp add: code_def)
  have "code (tolower c) \<noteq> 0" using a cd[of "code c + 32"] by (auto simp: isalpha_def tolower_def)
  moreover have "code (toupper c) \<noteq> 0" using a cd[of "code c - 32"] by (auto simp: isalpha_def toupper_def)
  moreover have "code NUL = 0" by (simp add: code_def NUL_def)
  ultimately show "tolower c \<noteq> NUL \<and> toupper c \<noteq> NUL" by auto
qed

lemma camel_loop_ok:
  assumes al: "big_enough al"
  shows "loop_inv st done out (length s) \<Longrightarrow> length out + length s < 2 ^ 31 \<Longrightarrow> NUL \<notin> set s
    \<Longrightarrow> NUL \<notin> set out \<Longrightarrow> length done + length (filter ispunct s) < length (outbufs st)
    \<Longrightarrow> \<exists>st' out'. camel_loop al (cstring s @ rest) st = Inr st'
      \<and> loop_inv st' (done @ emit out (newSen st) (spaceBefore st) s) out' 0
      \<and> newSen st' = end_new (newSen st) s \<and> length (outbufs st') = length (outbufs st)"
proof (induction s arbitrary: st "done" out)
  case Nil
  then show ?case by (auto simp: cstring_def)
next
  case (Cons c s)
  have nz: "c \<noteq> NUL" using Cons.prems by auto
  have run: "camel_loop al (cstring (c # s) @ rest) st
      = rbind (camel_char al (cstring (c # s) @ rest) c st) (camel_loop al (cstring s @ rest))"
    using nz by (simp add: cstring_def)
  have I: "loop_inv st done out (Suc (length s))" and l: "length out + Suc (length s) < 2 ^ 31"
    using Cons.prems by simp_all
  consider (alpha) "isalpha c" | (space) "isspace c" | (punct) "ispunct c"
    | (other) "\<not> isalpha c" "\<not> isspace c" "\<not> ispunct c" by blast
  then show ?case
  proof cases
    case alpha
    let ?x = "if \<not> newSen st \<and> spaceBefore st then toupper c else tolower c"
    have n: "\<not> ispunct c" "\<not> isspace c" using alpha by (auto simp: ispunct_def isalpha_def isspace_def)
    obtain st1 where s1: "camel_char al (cstring (c # s) @ rest) c st = Inr st1"
      "loop_inv st1 done (out @ [?x]) (length s)" "newSen st1 = False" "spaceBefore st1 = False"
      "length (outbufs st1) = length (outbufs st)"
      using camel_alpha[OF al alpha I l Cons.prems(3)] by blast
    have "emit out (newSen st) (spaceBefore st) (c # s) = emit (out @ [?x]) False False s"
      by (rule emit_step[OF n(1)]) (simp add: emitted_alpha[OF alpha])
    then show ?thesis
      using Cons.IH[OF s1(2)] s1 run Cons.prems n tolower_not_NUL[OF alpha] by auto
  next
    case space
    have n: "\<not> ispunct c" using space by (auto simp: ispunct_def isspace_def)
    note s1 = camel_space[OF space I, of al "cstring (c # s) @ rest"]
    have "emit out (newSen st) (spaceBefore st) (c # s) = emit (out @ []) (newSen st) True s"
      by (rule emit_step[OF n]) (simp add: emitted_space[OF space])
    then show ?thesis
      using Cons.IH[of "st\<lparr>spaceBefore := True\<rparr>" "done" out] s1 run Cons.prems n space by auto
  next
    case punct
    obtain st1 where s1: "camel_char al (cstring (c # s) @ rest) c st = Inr st1"
      "loop_inv st1 (done @ [out]) [] (length s)" "newSen st1" "length (outbufs st1) = length (outbufs st)"
      "spaceBefore st1 = spaceBefore st"
      using camel_punct[OF al punct I l Cons.prems(3,4)] Cons.prems(5) punct by auto
    then show ?thesis
      using Cons.IH[OF s1(2)] run Cons.prems punct emit_punct[OF punct] emit_start by auto
  next
    case other
    obtain st1 where s1: "camel_char al (cstring (c # s) @ rest) c st = Inr st1"
      "loop_inv st1 done (out @ [c]) (length s)" "newSen st1 = False"
      "spaceBefore st1 = (spaceBefore st \<and> \<not> newSen st)" "length (outbufs st1) = length (outbufs st)"
      using camel_other[OF al other I l Cons.prems(3)] by blast
    have "emit out (newSen st) (spaceBefore st) (c # s)
        = emit (out @ [c]) False (spaceBefore st \<and> \<not> newSen st) s"
      by (rule emit_step[OF other(3)]) (simp add: emitted_other[OF other(1,2)])
    then show ?thesis using Cons.IH[OF s1(2)] s1 run Cons.prems other by auto
  qed
qed

section \<open>The whole function\<close>

lemma count_punct_ok:
  "NUL \<notin> set s \<Longrightarrow> n + length s < 2 ^ 31
     \<Longrightarrow> count_punct (cstring s @ rest) (int n) = Inr (int (n + length (filter ispunct s)))"
proof (induction s arbitrary: n)
  case (Cons c s)
  have "count_punct (cstring s @ rest) (int (Suc n)) = Inr (int (Suc n + length (filter ispunct s)))"
    using Cons.prems by (intro Cons.IH) auto
  moreover have "int_of_long (int n + 1) = int (Suc n)" using Cons.prems by simp
  ultimately show ?case using Cons by (auto simp: cstring_def add_ac)
qed (simp add: cstring_def)

lemma length_sentences: "length (sentences s) = length (filter ispunct s)"
  using length_emit[of "[]" True True s] by (simp add: emit_start)

lemma end_new_snoc: "end_new new (s @ [c]) = (ispunct c \<or> end_new new s \<and> isspace c)"
  by (induction s arbitrary: new) auto

lemma end_new_unfinished: "end_new True s \<longleftrightarrow> (\<forall>c \<in> set (unfinished s). isspace c)"
  by (induction s rule: rev_induct) (auto simp: unfinished_def end_new_snoc)

lemma camel_run_ok:
  assumes al: "big_enough al" and z: "NUL \<notin> set s" and l: "length s < 2 ^ 31 - 1"
  shows "\<exists>st bufs. camel_run al (cstring s) = Inr st \<and> outbufs st = List.map (\<lambda>b. Val (Some b)) bufs @ [Val None]
    \<and> length bufs = length (sentences s)
    \<and> (\<forall>i < length bufs. read_cstr (bufs ! i) = Inr (camel_sentence (sentences s ! i)))
    \<and> mallocs st = length bufs + (if \<forall>c \<in> set (unfinished s). isspace c then 0 else 1)"
proof -
  let ?n = "length (filter ispunct s)"
  have len: "?n \<le> length s" by (rule length_filter_le)
  have cp: "count_punct (cstring s) 0 = Inr (int ?n)"
    using count_punct_ok[OF z, of 0 "[]"] l by simp
  have "int_of_long (int ?n + 1) = int ?n + 1"
    using le_less_trans[OF len l] by (intro int_of_long_small) simp_all
  then have st0: "length (outbufs (camel_start (int ?n))) = Suc ?n" by (simp add: camel_start_def)
  have "loop_inv (camel_start (int ?n)) [] [] (length s)"
    using st0 by (simp add: loop_inv_def finished_def camel_start_def)
  from camel_loop_ok[OF al this _ z, of "[]"] obtain st' out' where
    L: "camel_loop al (cstring s) (camel_start (int ?n)) = Inr st'"
      "loop_inv st' (emit [] True False s) out' 0" "newSen st' = end_new True s"
      "length (outbufs st') = Suc ?n"
    using l st0 by (auto simp: camel_start_def)
  have F: "cur st' = ?n" "\<forall>i < ?n. \<exists>b. outbufs st' ! i = Val (Some b)
        \<and> read_cstr b = Inr (camel_sentence (sentences s ! i))"
    using L(2) length_emit[of "[]" True False s]
    by (auto simp: loop_inv_def finished_def emit_start length_sentences)
  then obtain f where f: "\<forall>i < ?n. outbufs st' ! i = Val (Some (f i))
        \<and> read_cstr (f i) = Inr (camel_sentence (sentences s ! i))" by metis
  let ?bufs = "List.map f [0..<?n]"
  have "(outbufs st')[?n := Val None] = List.map (\<lambda>b. Val (Some b)) ?bufs @ [Val None]"
    using L(4) f by (intro nth_equalityI) (auto simp: nth_append nth_list_update less_Suc_eq)
  moreover have "mallocs st' = ?n + (if \<forall>c \<in> set (unfinished s). isspace c then 0 else 1)"
    using L(2,3) length_emit[of "[]" True False s] end_new_unfinished[of s]
    by (auto simp: loop_inv_def split: if_splits)
  ultimately show ?thesis using cp L(1,4) F(1) f
    by (intro exI[of _ "st'\<lparr>outbufs := (outbufs st')[?n := Val None]\<rparr>"] exI[of _ ?bufs])
      (simp add: camel_run_def length_sentences)
qed

text \<open>
  C21: for every C string shorter than \<open>INT_MAX\<close> characters, the camelCaser runs without an
  access outside its buffers or to memory never written. Its result holds one string per
  punctuation character and a \<open>NULL\<close> pointer: each string is the sentence that the character ends,
  with the first word in lower case and every further word capitalised and joined to it; what
  follows the last punctuation character gives none. A \<open>NULL\<close> input gives \<open>NULL\<close>.
\<close>

theorem camel_caser_correct:
  assumes "big_enough al" and "NUL \<notin> set s" and "length s < 2 ^ 31 - 1"
  shows "\<exists>bufs. camel_caser al (Some (cstring s)) = Inr (Some (List.map (\<lambda>b. Val (Some b)) bufs @ [Val None]))
      \<and> List.map read_cstr bufs = List.map (\<lambda>t. Inr (camel_sentence t)) (sentences s)
      \<and> camel_caser al None = Inr None"
  using camel_run_ok[OF assms] by (fastforce simp: camel_caser_def intro: nth_equalityI)

theorem camel_caser_correct_witness:
  "\<exists>bufs. camel_caser fresh_malloc (Some (cstring ''The Heisenbug. hi'')) =
       Inr (Some (List.map (\<lambda>b. Val (Some b)) bufs @ [Val None]))
     \<and> List.map read_cstr bufs = List.map (\<lambda>t. Inr (camel_sentence t)) (sentences ''The Heisenbug. hi'')"
  using camel_caser_correct[of fresh_malloc "''The Heisenbug. hi''"]
  by (auto simp: big_enough_def NUL_def)

text \<open>
  \<open>destroy\<close> frees exactly the buffers of the result, and that is every buffer the camelCaser
  allocated when nothing but white space follows the last punctuation character. Otherwise the
  buffer of the unfinished sentence is lost: its pointer is overwritten with \<open>NULL\<close> and it is
  never freed.
\<close>

theorem destroy_leaks_unfinished_sentence:
  assumes "big_enough al" and "NUL \<notin> set s" and "length s < 2 ^ 31 - 1"
  shows "\<exists>st freed. camel_run al (cstring s) = Inr st \<and> destroy (Some (outbufs st)) = Inr freed
      \<and> mallocs st = length freed + (if \<forall>c \<in> set (unfinished s). isspace c then 0 else 1)"
proof -
  have d: "destroy_loop (List.map (\<lambda>b. Val (Some b)) bufs @ [Val None]) = Inr bufs" for bufs
    by (induction bufs) auto
  show ?thesis using camel_run_ok[OF assms] by (auto simp: destroy_def d)
qed

theorem destroy_leaks_unfinished_sentence_witness:
  "\<exists>st freed. camel_run fresh_malloc (cstring ''a.b'') = Inr st \<and> destroy (Some (outbufs st)) = Inr freed
     \<and> mallocs st = length freed + 1"
  using destroy_leaks_unfinished_sentence[of fresh_malloc "''a.b''"]
  by (auto simp: big_enough_def NUL_def unfinished_def ispunct_def isspace_def code_def)

end
