(* ===== verification/Par_Reduce.thy ===== *)
theory Par_Reduce
  imports Cstring
begin

text \<open>
  The parallel reduction of \<^verbatim>\<open>teaching_threads/par_reduce.c\<close>. \<open>reduce\<close> and the reducer are code
  outside the repository: \<open>reduce\<close> is the parameter \<open>red\<close>. Every thread works on a private copy of its
  part of the list and only hands its result to \<open>pthread_join\<close>, so the order in which the threads
  run cannot be observed and the model runs each where it is joined.
\<close>

type_synonym reducer = "32 word \<Rightarrow> 32 word \<Rightarrow> 32 word"
type_synonym reduce_fun = "32 word list \<Rightarrow> reducer \<Rightarrow> 32 word \<Rightarrow> 32 word"

record routine_arg =
  arg_list :: "32 word list" \<comment> \<open>with \<open>list_len\<close> elements\<close>
  reduce_func :: reducer
  base_case :: "32 word"

definition start_routine :: "reduce_fun \<Rightarrow> routine_arg \<Rightarrow> 32 word" where
  "start_routine red arg = red (arg_list arg) (reduce_func arg) (base_case arg)"

primrec make_args :: "nat \<Rightarrow> size_t \<Rightarrow> size_t \<Rightarrow> int \<Rightarrow> 32 word list \<Rightarrow> reducer \<Rightarrow> 32 word
    \<Rightarrow> routine_arg list res" where
  \<comment> \<open>the loop that copies the parts, with \<open>k\<close> threads still to create and \<open>at\<close> the offset of \<open>cur\<close>\<close>
  "make_args 0 thread_len rem at xs f b = Inr []"
| "make_args (Suc k) thread_len rem at xs f b =
     (let cur_len = (if rem > 0 then thread_len + 1 else thread_len);
          rem' = (if rem > 0 then rem - 1 else rem)
      in if at < 0 \<or> int (length xs) < at + uint cur_len then Inl Out_Of_Bounds
         else rbind (make_args k thread_len rem' (at + int_of_long (uint cur_len)) xs f b) (\<lambda>args.
           Inr (\<lparr>arg_list = take (unat cur_len) (drop (nat at) xs), reduce_func = f, base_case = b\<rparr> # args)))"

definition par_reduce ::
  "reduce_fun \<Rightarrow> 32 word list \<Rightarrow> size_t \<Rightarrow> reducer \<Rightarrow> 32 word \<Rightarrow> size_t \<Rightarrow> 32 word res" where
  \<comment> \<open>the loops count to \<open>(int) num_threads\<close>, the last reduction reads \<open>num_threads\<close> results\<close>
  "par_reduce red xs list_len f b num_threads =
     (if num_threads = 0 then Inl Div_By_Zero
      else let thread_len = list_len div num_threads;
               rem = list_len - thread_len * num_threads;
               n = nat (int_of_long (uint num_threads))
           in rbind (make_args n thread_len rem 0 xs f b) (\<lambda>args.
              let results = List.map (start_routine red) args
              in if length results < unat num_threads then Inl Uninit_Read
                 else Inr (red results f b)))"

section \<open>The parts\<close>

definition parts_of :: "routine_arg list \<Rightarrow> 32 word list list" where
  "parts_of args = List.map arg_list args"

lemma int_of_long_uint:
  fixes w :: "64 word"
  assumes "unat w < 2 ^ 31" shows "int_of_long (uint w) = uint w"
proof -
  have "int (unat w) < int (2 ^ 31)" using assms by (simp only: of_nat_less_iff)
  then show ?thesis by (intro int_of_long_small) simp_all
qed

lemma make_args_ok:
  assumes t: "thread_len < 2 ^ 31 - 1"
  shows "unat thread_len * k + unat rem + at \<le> length xs \<Longrightarrow> unat rem \<le> k
    \<Longrightarrow> \<exists>args. make_args k thread_len rem (int at) xs f b = Inr args \<and> length args = k
      \<and> concat (parts_of args) = take (unat thread_len * k + unat rem) (drop at xs)
      \<and> (\<forall>a \<in> set args. reduce_func a = f \<and> base_case a = b
           \<and> length (arg_list a) \<in> {unat thread_len, Suc (unat thread_len)})"
proof (induction k arbitrary: rem at)
  case 0
  then show ?case by (simp add: parts_of_def)
next
  case (Suc k)
  let ?l = "if rem > 0 then thread_len + 1 else thread_len"
  let ?r = "if rem > 0 then rem - 1 else rem"
  have tl: "unat thread_len < 2 ^ 31 - 1" using t by (simp add: word_less_nat_alt)
  have pos: "rem > 0 \<longleftrightarrow> 0 < unat rem" by (simp add: word_less_nat_alt)
  have ul: "unat ?l = unat thread_len + (if rem > 0 then 1 else 0)"
    using tl by (auto simp: unat_word_ariths)
  have ur: "unat ?r = unat rem - 1"
    unfolding pos by (cases "rem = 0") (simp_all add: unat_minus_one unat_gt_0)
  have il: "int_of_long (uint ?l) = int (unat ?l)"
  proof -
    have "unat ?l < 2 ^ 31" using ul tl by (simp split: if_splits)
    then show ?thesis by (simp only: int_of_long_uint uint_nat[symmetric])
  qed
  have sum: "unat ?l + (unat thread_len * k + unat ?r) = unat thread_len * Suc k + unat rem"
    using ul ur unfolding pos by (auto split: if_splits)
  have "unat thread_len * k + unat ?r + (at + unat ?l) \<le> length xs" using sum Suc.prems by linarith
  moreover have "unat ?r \<le> k" using ur Suc.prems(2) by linarith
  ultimately obtain args where A: "make_args k thread_len ?r (int (at + unat ?l)) xs f b = Inr args"
    "length args = k" "concat (parts_of args) = take (unat thread_len * k + unat ?r) (drop (at + unat ?l) xs)"
    "\<forall>a \<in> set args. reduce_func a = f \<and> base_case a = b
       \<and> length (arg_list a) \<in> {unat thread_len, Suc (unat thread_len)}"
    using Suc.IH[of ?r "at + unat ?l"] by auto
  let ?a = "\<lparr>arg_list = take (unat ?l) (drop at xs), reduce_func = f, base_case = b\<rparr>"
  have fit: "at + unat ?l \<le> length xs" using sum Suc.prems(1) by linarith
  have "make_args (Suc k) thread_len rem (int at) xs f b = Inr (?a # args)"
  proof -
    have u: "uint ?l = int (unat ?l)" by (rule uint_nat)
    have "\<not> (int at < 0 \<or> int (length xs) < int at + uint ?l)" using fit unfolding u by linarith
    moreover have "int at + int_of_long (uint ?l) = int (at + unat ?l)" using il by simp
    ultimately show ?thesis using A(1) unfolding make_args.simps Let_def
      by (simp only: if_False rbind.simps nat_int)
  qed
  moreover have "take (unat ?l) (drop at xs) @ take (unat thread_len * k + unat ?r) (drop (at + unat ?l) xs)
      = take (unat thread_len * Suc k + unat rem) (drop at xs)"
    by (simp only: sum[symmetric] take_add drop_drop add.commute[of at])
  moreover have "length (take (unat ?l) (drop at xs)) \<in> {unat thread_len, Suc (unat thread_len)}"
    using fit ul by auto
  ultimately show ?case using A
    by (intro exI[of _ "?a # args"]) (simp add: parts_of_def)
qed

lemma fold_monoid:
  fixes f :: "'a \<Rightarrow> 'a \<Rightarrow> 'a"
  assumes assoc: "\<And>x y z. f (f x y) z = f x (f y z)" and unit: "\<And>x. f b x = x" "\<And>x. f x b = x"
  shows "foldl f b (List.map (foldl f b) ps) = foldl f b (concat ps)"
proof -
  have pull: "foldl f x ys = f x (foldl f b ys)" for x ys
  proof (induction ys arbitrary: x)
    case (Cons y ys)
    show ?case using Cons[of "f x y"] Cons[of y] by (simp add: unit assoc)
  qed (simp add: unit)
  show ?thesis
  proof (induction ps rule: rev_induct)
    case (snoc p ps)
    then show ?case using pull[of "foldl f b (concat ps)" p] by simp
  qed simp
qed

text \<open>
  C22: with between 1 and \<open>INT_MAX\<close> threads and a list of fewer than \<open>INT_MAX\<close> elements, the list is
  cut into exactly \<open>num_threads\<close> consecutive parts that give the list back and whose sizes differ by
  at most one. The answer is the reduction of the parts' reductions; for a left fold over an
  associative function with the base case as its identity it is the reduction of the whole list.
  With no thread the division traps.
\<close>

theorem par_reduce_correct:
  assumes n: "0 < num_threads" "num_threads < 2 ^ 31" and l: "unat list_len = length xs"
    "list_len < 2 ^ 31 - 1"
  shows "(\<exists>ps. concat ps = xs \<and> length ps = unat num_threads
      \<and> (\<exists>m. \<forall>p \<in> set ps. length p = m \<or> length p = Suc m)
      \<and> par_reduce red xs list_len f b num_threads = Inr (red (List.map (\<lambda>p. red p f b) ps) f b))
    \<and> ((\<forall>ys. red ys f b = foldl f b ys) \<longrightarrow> (\<forall>x y z. f (f x y) z = f x (f y z))
        \<longrightarrow> (\<forall>x. f b x = x \<and> f x b = x)
        \<longrightarrow> par_reduce red xs list_len f b num_threads = Inr (foldl f b xs))
    \<and> par_reduce red xs list_len f b 0 = Inl Div_By_Zero"
proof -
  let ?t = "list_len div num_threads"
  let ?r = "list_len - ?t * num_threads"
  have nz: "num_threads \<noteq> 0" using n(1) by auto
  have ut: "unat ?t = unat list_len div unat num_threads" by (rule unat_div)
  have "unat ?t * unat num_threads \<le> unat list_len" unfolding ut by simp
  then have "unat ?t * unat num_threads < 2 ^ LENGTH(64)"
    using le_less_trans unsigned_less by blast
  then have up: "unat (?t * num_threads) = unat ?t * unat num_threads"
    by (simp only: unat_mult_lem)
  have le: "?t * num_threads \<le> list_len" by (simp add: word_le_nat_alt up ut)
  have ur: "unat ?r = unat list_len mod unat num_threads"
    unfolding unat_sub[OF le] up ut by (simp add: minus_div_mult_eq_mod)
  have un: "0 < unat num_threads" "unat num_threads < 2 ^ 31"
    using n by (simp_all add: word_less_nat_alt)
  have ti: "?t < 2 ^ 31 - 1"
    using l(2) by (simp add: word_less_nat_alt ut) (meson div_le_dividend le_less_trans)
  have n': "nat (int_of_long (uint num_threads)) = unat num_threads"
    unfolding int_of_long_uint[OF un(2)] by simp
  have all: "unat ?t * unat num_threads + unat ?r = length xs" unfolding ut ur l(1)[symmetric] by simp
  then have "unat ?t * unat num_threads + unat ?r + 0 \<le> length xs" by simp
  moreover have "unat ?r \<le> unat num_threads" unfolding ur using un(1) by simp
  ultimately obtain args where A: "make_args (unat num_threads) ?t ?r (int 0) xs f b = Inr args"
    "length args = unat num_threads" "concat (parts_of args) = take (length xs) (drop 0 xs)"
    "\<forall>a \<in> set args. reduce_func a = f \<and> base_case a = b
       \<and> length (arg_list a) \<in> {unat ?t, Suc (unat ?t)}"
    using make_args_ok[OF ti, of "unat num_threads" ?r 0 xs f b] unfolding all by blast
  have res: "List.map (start_routine red) args = List.map (\<lambda>p. red p f b) (parts_of args)"
    using A(4) by (simp add: start_routine_def parts_of_def)
  have run: "par_reduce red xs list_len f b num_threads
      = Inr (red (List.map (\<lambda>p. red p f b) (parts_of args)) f b)"
    unfolding par_reduce_def Let_def n' using nz A(1,2) by (simp add: res[symmetric])
  have cat: "concat (parts_of args) = xs" using A(3) by simp
  have "\<forall>p \<in> set (parts_of args). length p = unat ?t \<or> length p = Suc (unat ?t)"
    using A(4) by (auto simp: parts_of_def)
  moreover have "length (parts_of args) = unat num_threads" using A(2) by (simp add: parts_of_def)
  moreover have "par_reduce red xs list_len f b num_threads = Inr (foldl f b xs)"
    if "\<forall>ys. red ys f b = foldl f b ys" "\<forall>x y z. f (f x y) z = f x (f y z)" "\<forall>x. f b x = x \<and> f x b = x"
    using run that fold_monoid[of f b "parts_of args"] by (simp add: cat)
  ultimately show ?thesis using run cat by (auto simp: par_reduce_def)
qed

theorem par_reduce_correct_witness:
  "par_reduce (\<lambda>ys f b. foldl f b ys) [1, 2, 3, 4, 5] 5 (+) 0 2 = Inr 15"
  using par_reduce_correct[of 2 5 "[1, 2, 3, 4, 5]" "\<lambda>ys f b. foldl f b ys" "(+)" 0]
  by (simp add: add.assoc)

end
