(* ===== verification/Mmu.thy ===== *)
theory Mmu
  imports Prelude
begin

unbundle bit_operations_syntax

text \<open>
  The memory management unit of \<^verbatim>\<open>ideal_indirection/mmu.c\<close>: reads and writes of virtual
  addresses with the TLB, the two-level page tables, page faults and the permissions of the
  segments, and the set-up and removal of a process. The TLB, the segment search and the kernel
  (frames, disk) are code outside the repository: the parameters of the record \<open>lib\<close>. Physical
  memory is seen as the entries of the frames that hold page tables and the bytes of the others;
  the kernel may change both. The shift by \<open>NUM_OFFSET_BITS\<close> is the 12 the code also writes out.
\<close>

section \<open>Data\<close>

type_synonym addr32 = "32 word"
type_synonym byte = "8 word"
type_synonym pte_ptr = "addr32 \<times> nat" \<comment> \<open>the address of the table's frame and the index\<close>

record entry = \<comment> \<open>of a page directory or a page table\<close>
  base_addr :: addr32
  present :: bool
  read_write :: bool
  user_supervisor :: bool
  accessed :: bool
  dirty :: bool

datatype perm = READ | WRITE | EXEC
datatype segment_name = STACK | MMAP | HEAP | BSS | DATA | TEXT | TESTING

record vm_segmentation =
  seg_start :: addr32
  seg_end :: addr32
  permissions :: "perm set"
  grows_down :: bool

type_synonym segments = "segment_name \<Rightarrow> vm_segmentation option"

record 'k phys =
  entries :: "addr32 \<Rightarrow> nat \<Rightarrow> entry"
  bytes :: "addr32 \<Rightarrow> byte"
  kernel :: 'k

record ('t, 'k) lib =
  MAX_PROCESS_ID :: nat
  tlb_create :: 't
  tlb_flush :: "'t \<Rightarrow> 't"
  tlb_get_pte :: "'t \<Rightarrow> addr32 \<Rightarrow> pte_ptr option \<times> 't"
  tlb_add_pte :: "'t \<Rightarrow> addr32 \<Rightarrow> pte_ptr \<Rightarrow> 't"
  address_in_segmentations :: "segments \<Rightarrow> addr32 \<Rightarrow> bool"
  find_segment :: "segments \<Rightarrow> addr32 \<Rightarrow> vm_segmentation option"
  ask_kernel_for_frame :: "pte_ptr option \<Rightarrow> 'k phys \<Rightarrow> addr32 \<times> 'k phys"
  read_page_from_disk :: "pte_ptr \<Rightarrow> 'k phys \<Rightarrow> 'k phys"
  return_frame_to_kernel :: "addr32 \<Rightarrow> 'k phys \<Rightarrow> 'k phys"
  remove_swap_file :: "pte_ptr \<Rightarrow> 'k phys \<Rightarrow> 'k phys"

record ('t, 'k) mmu =
  curr_pid :: nat
  tlb :: 't
  segmentations :: "nat \<Rightarrow> segments option"
  page_directories :: "nat \<Rightarrow> addr32 option"
  num_tlb_misses :: nat
  num_page_faults :: nat
  num_segmentation_faults :: nat
  phys :: "'k phys"

definition set_entry :: "pte_ptr \<Rightarrow> (entry \<Rightarrow> entry) \<Rightarrow> 'k phys \<Rightarrow> 'k phys" where
  "set_entry p f ph = ph\<lparr>entries := (entries ph)(fst p := (entries ph (fst p))(snd p := f (entries ph (fst p) (snd p))))\<rparr>"

definition get_entry :: "pte_ptr \<Rightarrow> 'k phys \<Rightarrow> entry" where
  "get_entry p ph = entries ph (fst p) (snd p)"

definition system_pointer :: "entry \<Rightarrow> addr32" where
  \<comment> \<open>the frame an entry points to\<close>
  "system_pointer e = push_bit 12 (base_addr e)"

section \<open>Counters and address arithmetic\<close>

definition mmu_create :: "('t, 'k) lib \<Rightarrow> 'k phys \<Rightarrow> ('t, 'k) mmu" where
  "mmu_create L ph = \<lparr>curr_pid = 0, tlb = tlb_create L, segmentations = \<lambda>_. None,
     page_directories = \<lambda>_. None, num_tlb_misses = 0, num_page_faults = 0,
     num_segmentation_faults = 0, phys = ph\<rparr>"

definition mmu_tlb_miss :: "('t, 'k) mmu \<Rightarrow> ('t, 'k) mmu" where
  "mmu_tlb_miss this = this\<lparr>num_tlb_misses := num_tlb_misses this + 1\<rparr>"

definition mmu_raise_page_fault :: "('t, 'k) mmu \<Rightarrow> ('t, 'k) mmu" where
  "mmu_raise_page_fault this = this\<lparr>num_page_faults := num_page_faults this + 1\<rparr>"

definition mmu_raise_segmentation_fault :: "('t, 'k) mmu \<Rightarrow> ('t, 'k) mmu" where
  "mmu_raise_segmentation_fault this =
     this\<lparr>num_segmentation_faults := num_segmentation_faults this + 1\<rparr>"

definition in_one_page :: "addr32 \<Rightarrow> size_t \<Rightarrow> bool" where
  \<comment> \<open>\<open>num_bytes + (virtual_address % PAGE_SIZE) <= PAGE_SIZE\<close>, in \<open>size_t\<close>\<close>
  "in_one_page va num_bytes \<longleftrightarrow> num_bytes + ucast (va mod 4096) \<le> 4096"

definition switch_process :: "('t, 'k) lib \<Rightarrow> nat \<Rightarrow> ('t, 'k) mmu \<Rightarrow> ('t, 'k) mmu" where
  "switch_process L pid this =
     (if pid \<noteq> curr_pid this then this\<lparr>tlb := tlb_flush L (tlb this), curr_pid := pid\<rparr> else this)"

definition find_pte ::
  "('t, 'k) lib \<Rightarrow> nat \<Rightarrow> addr32 \<Rightarrow> nat \<Rightarrow> ('t, 'k) mmu \<Rightarrow> (pte_ptr \<times> ('t, 'k) mmu) res" where
  \<comment> \<open>from the TLB or the page tables; a new page table gets the kernel's address shifted by \<open>sh\<close>\<close>
  "find_pte L sh va pid this =
     (let page = drop_bit 12 va; (hit, t) = tlb_get_pte L (tlb this) page; this0 = this\<lparr>tlb := t\<rparr>
      in case hit of
        Some pte \<Rightarrow> Inr (pte, this0)
      | None \<Rightarrow>
          let this1 = mmu_tlb_miss this0 in
          rbind (deref (page_directories this1 pid)) (\<lambda>pd.
          let pde = (pd, unat (drop_bit 22 va));
              this2 = (if present (get_entry pde (phys this1)) then this1
                       else let this' = mmu_raise_page_fault this1;
                                (frame, ph) = ask_kernel_for_frame L None (phys this')
                            in this'\<lparr>phys := set_entry pde (\<lambda>e. e\<lparr>base_addr := drop_bit sh frame,
                                   present := True, read_write := True, user_supervisor := True\<rparr>) ph\<rparr>);
              pt = system_pointer (get_entry pde (phys this2));
              pte = (pt, unat (drop_bit 12 va AND 0x3ff))
          in Inr (pte, this2\<lparr>tlb := tlb_add_pte L (tlb this2) page pte\<rparr>)))"

definition fault_page ::
  "('t, 'k) lib \<Rightarrow> nat \<Rightarrow> perm \<Rightarrow> perm set \<Rightarrow> pte_ptr \<Rightarrow> ('t, 'k) mmu \<Rightarrow> bool \<times> ('t, 'k) mmu" where
  \<comment> \<open>brings the page in; \<open>False\<close> when the access ends in a segmentation fault\<close>
  "fault_page L sh need perms pte this =
     (if present (get_entry pte (phys this)) then (True, this)
      else let this1 = mmu_raise_page_fault this;
               (frame, ph) = ask_kernel_for_frame L (Some pte) (phys this1);
               ph1 = set_entry pte (\<lambda>e. e\<lparr>base_addr := drop_bit sh frame, present := True,
                                         user_supervisor := True\<rparr>) ph
           in if need \<in> perms then
                (True, this1\<lparr>phys := read_page_from_disk L pte
                               (set_entry pte (\<lambda>e. e\<lparr>read_write := True\<rparr>) ph1)\<rparr>)
              else
                (False, mmu_raise_segmentation_fault
                   (this1\<lparr>phys := set_entry pte (\<lambda>e. e\<lparr>read_write := False\<rparr>) ph1\<rparr>)))"

definition access_page ::
  "('t, 'k) lib \<Rightarrow> nat \<Rightarrow> perm \<Rightarrow> addr32 \<Rightarrow> nat \<Rightarrow> size_t \<Rightarrow> ('t, 'k) mmu
   \<Rightarrow> (pte_ptr option \<times> ('t, 'k) mmu) res" where
  \<comment> \<open>what the two functions do before they copy; \<open>None\<close> when they return without copying\<close>
  "access_page L sh need va pid num_bytes this =
     c_assert (pid < MAX_PROCESS_ID L) (c_assert (in_one_page va num_bytes)
       (let this0 = switch_process L pid this in
        rbind (deref (segmentations this0 pid)) (\<lambda>vmsegs.
        if \<not> address_in_segmentations L vmsegs va then Inr (None, mmu_raise_segmentation_fault this0)
        else rbind (find_pte L sh va pid this0) (\<lambda>(pte, this1).
             rbind (deref (find_segment L vmsegs va)) (\<lambda>vmseg.
             let (go_on, this2) = fault_page L sh need (permissions vmseg) pte this1
             in if \<not> go_on then Inr (None, this2)
                else if need \<notin> permissions vmseg then Inr (None, mmu_raise_segmentation_fault this2)
                else Inr (Some pte, this2))))))"

definition data_address :: "entry \<Rightarrow> addr32 \<Rightarrow> addr32" where
  "data_address e va = push_bit 12 (base_addr e) + (va AND 0xfff)"

definition mmu_read_from_virtual_address ::
  "('t, 'k) lib \<Rightarrow> ('t, 'k) mmu \<Rightarrow> addr32 \<Rightarrow> nat \<Rightarrow> size_t \<Rightarrow> (byte list option \<times> ('t, 'k) mmu) res" where
  "mmu_read_from_virtual_address L this va pid num_bytes =
     rbind (access_page L 0 READ va pid num_bytes this) (\<lambda>(r, this1).
     case r of None \<Rightarrow> Inr (None, this1)
     | Some pte \<Rightarrow>
         let a = data_address (get_entry pte (phys this1)) va
         in Inr (Some (List.map (\<lambda>i. bytes (phys this1) (a + of_nat i)) [0..<unat num_bytes]), this1))"

primrec store :: "addr32 \<Rightarrow> byte list \<Rightarrow> (addr32 \<Rightarrow> byte) \<Rightarrow> (addr32 \<Rightarrow> byte)" where
  "store a [] m = m"
| "store a (b # bs) m = store (a + 1) bs (m(a := b))"

definition mmu_write_to_virtual_address ::
  "('t, 'k) lib \<Rightarrow> ('t, 'k) mmu \<Rightarrow> addr32 \<Rightarrow> nat \<Rightarrow> byte list \<Rightarrow> size_t \<Rightarrow> ('t, 'k) mmu res" where
  "mmu_write_to_virtual_address L this va pid buffer num_bytes =
     rbind (access_page L 12 WRITE va pid num_bytes this) (\<lambda>(r, this1).
     case r of None \<Rightarrow> Inr this1
     | Some pte \<Rightarrow>
         if length buffer < unat num_bytes then Inl Out_Of_Bounds
         else let a = data_address (get_entry pte (phys this1)) va;
                  ph = (phys this1)\<lparr>bytes := store a (take (unat num_bytes) buffer) (bytes (phys this1))\<rparr>
              in Inr (this1\<lparr>phys := set_entry pte (\<lambda>e. e\<lparr>accessed := True, dirty := True\<rparr>) ph\<rparr>))"

section \<open>Processes\<close>

definition initial_segments :: segments where
  "initial_segments = [
     STACK \<mapsto> \<lparr>seg_start = 0xBFFFE000, seg_end = 0xC07FE000, permissions = {READ, WRITE}, grows_down = True\<rparr>,
     MMAP \<mapsto> \<lparr>seg_start = 0xC07FE000, seg_end = 0xC07FE000, permissions = {READ, EXEC, WRITE}, grows_down = True\<rparr>,
     HEAP \<mapsto> \<lparr>seg_start = 0x08072000, seg_end = 0x08072000, permissions = {READ, WRITE}, grows_down = False\<rparr>,
     BSS \<mapsto> \<lparr>seg_start = 0x0805A000, seg_end = 0x08072000, permissions = {READ, WRITE}, grows_down = False\<rparr>,
     DATA \<mapsto> \<lparr>seg_start = 0x08052000, seg_end = 0x0805A000, permissions = {READ, WRITE}, grows_down = False\<rparr>,
     TEXT \<mapsto> \<lparr>seg_start = 0x08048000, seg_end = 0x08052000, permissions = {READ, EXEC}, grows_down = False\<rparr>,
     TESTING \<mapsto> \<lparr>seg_start = 4096, seg_end = 3 * 4096, permissions = {READ, WRITE}, grows_down = False\<rparr>]"

definition map_frame :: "addr32 \<Rightarrow> entry \<Rightarrow> entry" where
  "map_frame frame e = e\<lparr>base_addr := drop_bit 12 frame, present := True, read_write := True,
     user_supervisor := True\<rparr>"

definition map_test_page :: "('t, 'k) lib \<Rightarrow> pte_ptr \<Rightarrow> nat \<Rightarrow> 'k phys \<Rightarrow> 'k phys" where
  \<comment> \<open>one round of the loop over the entries 1 and 2 of the first page table\<close>
  "map_test_page L pde i ph =
     (let pte = (system_pointer (get_entry pde ph), i); (frame, ph') = ask_kernel_for_frame L (Some pte) ph
      in set_entry pte (map_frame frame) ph')"

definition mmu_add_process :: "('t, 'k) lib \<Rightarrow> ('t, 'k) mmu \<Rightarrow> nat \<Rightarrow> ('t, 'k) mmu res" where
  "mmu_add_process L this pid =
     c_assert (pid < MAX_PROCESS_ID L)
       (let (pd, ph) = ask_kernel_for_frame L None (phys this);
            pde = (pd, 0);
            (frame, ph1) = ask_kernel_for_frame L None ph;
            ph2 = set_entry pde (map_frame frame) ph1
        in Inr (this\<lparr>page_directories := (page_directories this)(pid \<mapsto> pd),
                     segmentations := (segmentations this)(pid \<mapsto> initial_segments),
                     phys := map_test_page L pde 2 (map_test_page L pde 1 ph2)\<rparr>))"

definition release_pte :: "('t, 'k) lib \<Rightarrow> addr32 \<Rightarrow> nat \<Rightarrow> 'k phys \<Rightarrow> 'k phys" where
  \<comment> \<open>the body of the inner loop of \<open>mmu_remove_process\<close>\<close>
  "release_pte L pt i ph =
     remove_swap_file L (pt, i)
       (if present (get_entry (pt, i) ph)
        then return_frame_to_kernel L (system_pointer (get_entry (pt, i) ph)) ph else ph)"

definition release_pde :: "('t, 'k) lib \<Rightarrow> addr32 \<Rightarrow> nat \<Rightarrow> 'k phys \<Rightarrow> 'k phys" where
  \<comment> \<open>the body of its outer loop\<close>
  "release_pde L pd i ph =
     (if present (get_entry (pd, i) ph)
      then let pt = system_pointer (get_entry (pd, i) ph)
           in return_frame_to_kernel L pt (fold (release_pte L pt) [0..<1024] ph)
      else ph)"

definition mmu_remove_process :: "('t, 'k) lib \<Rightarrow> ('t, 'k) mmu \<Rightarrow> nat \<Rightarrow> ('t, 'k) mmu res" where
  "mmu_remove_process L this pid =
     c_assert (pid < MAX_PROCESS_ID L)
       (let ph = (case page_directories this pid of None \<Rightarrow> phys this
                  | Some pd \<Rightarrow> return_frame_to_kernel L pd (fold (release_pde L pd) [0..<1024] (phys this)));
            this1 = this\<lparr>phys := ph, page_directories := (page_directories this)(pid := None),
                         segmentations := (segmentations this)(pid := None)\<rparr>
        in Inr (if curr_pid this1 = pid then this1\<lparr>tlb := tlb_flush L (tlb this1)\<rparr> else this1))"

definition mmu_delete :: "('t, 'k) lib \<Rightarrow> ('t, 'k) mmu \<Rightarrow> ('t, 'k) mmu res" where
  \<comment> \<open>up to the release of the TLB, the struct and the swap files\<close>
  "mmu_delete L this = for_up 0 (MAX_PROCESS_ID L) (\<lambda>pid this. mmu_remove_process L this pid) this"

section \<open>Laws of the parameters\<close>

definition tlb_ok :: "('t, 'k) lib \<Rightarrow> ('t \<Rightarrow> addr32 \<Rightarrow> pte_ptr option) \<Rightarrow> bool" where
  \<comment> \<open>a cache: \<open>view\<close> is its contents; adding an entry makes it present and may only evict others\<close>
  "tlb_ok L view \<longleftrightarrow>
     (\<forall>t a. fst (tlb_get_pte L t a) = view t a \<and> view (snd (tlb_get_pte L t a)) = view t)
     \<and> (\<forall>t a p. view (tlb_add_pte L t a p) a = Some p
          \<and> (\<forall>b. b \<noteq> a \<longrightarrow> view (tlb_add_pte L t a p) b \<in> {None, view t b}))
     \<and> (\<forall>t a. view (tlb_flush L t) a = None)"

definition disk_ok :: "('t, 'k) lib \<Rightarrow> bool" where
  \<comment> \<open>reading a page from the disk changes no entry, and the segment search agrees with its test\<close>
  "disk_ok L \<longleftrightarrow> (\<forall>p ph. entries (read_page_from_disk L p ph) = entries ph)
     \<and> (\<forall>s a. address_in_segmentations L s a \<longleftrightarrow> find_segment L s a \<noteq> None)"

section \<open>Lemmas\<close>

lemma get_set_entry [simp]: "get_entry p (set_entry p f ph) = f (get_entry p ph)"
  by (simp add: get_entry_def set_entry_def)

lemma set_entry_bytes [simp]: "bytes (set_entry p f ph) = bytes ph"
  by (simp add: set_entry_def)

lemma get_entry_bytes [simp]: "get_entry p (ph\<lparr>bytes := b\<rparr>) = get_entry p ph"
  by (simp add: get_entry_def)

lemmas mmu_counters = mmu_tlb_miss_def mmu_raise_page_fault_def mmu_raise_segmentation_fault_def

lemma disk_entries: "disk_ok L \<Longrightarrow> get_entry p (read_page_from_disk L q ph) = get_entry p ph"
  unfolding disk_ok_def get_entry_def by metis

lemma tlb_add_view: "tlb_ok L view \<Longrightarrow> view (tlb_add_pte L t a p) a = Some p"
  unfolding tlb_ok_def by blast

lemma find_pte_view:
  assumes L: "tlb_ok L view" and f: "find_pte L sh va pid this = Inr (pte, this1)"
  shows "view (tlb this1) (drop_bit 12 va) = Some pte \<and> curr_pid this1 = curr_pid this
    \<and> segmentations this1 = segmentations this \<and> page_directories this1 = page_directories this
    \<and> num_segmentation_faults this1 = num_segmentation_faults this"
proof (cases "tlb_get_pte L (tlb this) (drop_bit 12 va)")
  case (Pair hit t)
  have v: "hit = view (tlb this) (drop_bit 12 va)" "view t = view (tlb this)"
    using L Pair unfolding tlb_ok_def by (metis fst_conv, metis snd_conv)
  show ?thesis
  proof (cases hit)
    case None
    then obtain t' where "this1 = (this1\<lparr>tlb := tlb_add_pte L t' (drop_bit 12 va) pte\<rparr>)"
      and "curr_pid this1 = curr_pid this" "segmentations this1 = segmentations this"
        "page_directories this1 = page_directories this"
        "num_segmentation_faults this1 = num_segmentation_faults this"
      using f Pair
      by (auto simp: find_pte_def Let_def res_simps mmu_counters split: if_splits prod.splits)
    moreover from this(1) have "tlb this1 = tlb_add_pte L t' (drop_bit 12 va) pte"
      by (metis mmu.select_convs(2) mmu.surjective mmu.update_convs(2))
    ultimately show ?thesis using tlb_add_view[OF L] by simp
  next
    case (Some p)
    then show ?thesis using f Pair v by (auto simp: find_pte_def Let_def)
  qed
qed

lemma fault_page_ok:
  assumes L: "disk_ok L" and f: "fault_page L sh need perms pte this = (go_on, this1)" and n: "need \<in> perms"
  shows "go_on \<and> present (get_entry pte (phys this1)) \<and> tlb this1 = tlb this
    \<and> curr_pid this1 = curr_pid this \<and> segmentations this1 = segmentations this
    \<and> page_directories this1 = page_directories this
    \<and> num_segmentation_faults this1 = num_segmentation_faults this"
  using f n
  by (auto simp: fault_page_def Let_def mmu_counters disk_entries[OF L] split: if_splits prod.splits)

lemma find_pte_total:
  assumes "page_directories this pid = Some pd"
  shows "\<exists>pte this1. find_pte L sh va pid this = Inr (pte, this1)"
  using assms by (auto simp: find_pte_def Let_def mmu_counters split: option.splits prod.splits)

lemma access_ok:
  assumes T: "tlb_ok L view" and D: "disk_ok L" and p: "pid < MAX_PROCESS_ID L" "in_one_page va n"
    and s: "segmentations this pid = Some segs" "page_directories this pid = Some pd"
    and f: "find_segment L segs va = Some seg" and need: "need \<in> permissions seg"
  shows "\<exists>pte this2. access_page L sh need va pid n this = Inr (Some pte, this2) \<and> curr_pid this2 = pid
    \<and> segmentations this2 = segmentations this \<and> page_directories this2 = page_directories this
    \<and> view (tlb this2) (drop_bit 12 va) = Some pte \<and> present (get_entry pte (phys this2))
    \<and> num_segmentation_faults this2 = num_segmentation_faults this"
proof -
  let ?t0 = "switch_process L pid this"
  have t0: "curr_pid ?t0 = pid" "segmentations ?t0 = segmentations this"
    "page_directories ?t0 = page_directories this"
    "num_segmentation_faults ?t0 = num_segmentation_faults this"
    by (simp_all add: switch_process_def)
  have adr: "address_in_segmentations L segs va" using D f by (simp add: disk_ok_def)
  obtain pte t1 where t1: "find_pte L sh va pid ?t0 = Inr (pte, t1)"
    using find_pte_total[of ?t0 pid pd L sh va] s(2) t0(3) by auto
  note v = find_pte_view[OF T t1]
  obtain go t2 where t2: "fault_page L sh need (permissions seg) pte t1 = (go, t2)" by force
  note w = fault_page_ok[OF D t2 need]
  have "access_page L sh need va pid n this = Inr (Some pte, t2)"
    using p s(1) adr f need t0(2) t1 t2 w by (simp add: access_page_def Let_def)
  then show ?thesis using v w t0 by (intro exI[of _ pte] exI[of _ t2]) simp
qed

lemma access_hit:
  assumes T: "tlb_ok L view" and D: "disk_ok L" and p: "pid < MAX_PROCESS_ID L" "in_one_page va n"
    and s: "segmentations this pid = Some segs" "curr_pid this = pid"
    and f: "find_segment L segs va = Some seg" and need: "need \<in> permissions seg"
    and v: "view (tlb this) (drop_bit 12 va) = Some pte" and pr: "present (get_entry pte (phys this))"
  shows "\<exists>t. access_page L sh need va pid n this = Inr (Some pte, this\<lparr>tlb := t\<rparr>)"
proof -
  obtain t where t: "tlb_get_pte L (tlb this) (drop_bit 12 va) = (Some pte, t)"
    using T v unfolding tlb_ok_def by (metis prod.collapse)
  have adr: "address_in_segmentations L segs va" using D f by (simp add: disk_ok_def)
  then show ?thesis using p s f need t pr
    by (intro exI[of _ t])
      (simp add: access_page_def switch_process_def find_pte_def fault_page_def Let_def)
qed

lemma store_other: "(\<forall>i < length bs. x \<noteq> a + of_nat i) \<Longrightarrow> store a bs m x = m x"
proof (induction bs arbitrary: a m)
  case (Cons b bs)
  have "\<forall>i < length bs. x \<noteq> (a + 1) + of_nat i"
  proof (intro allI impI)
    fix i assume "i < length bs"
    then show "x \<noteq> (a + 1) + of_nat i" using Cons.prems[rule_format, of "Suc i"] by (simp add: add_ac)
  qed
  moreover have "x \<noteq> a" using Cons.prems[rule_format, of 0] by simp
  ultimately show ?case using Cons.IH by simp
qed simp

lemma unat_small: "i < 2 ^ 32 \<Longrightarrow> unat (of_nat i :: 32 word) = i"
  using unat_of_nat[of i, where 'a = 32] by simp

lemma of_nat_small_inj: "i < 2 ^ 32 \<Longrightarrow> j < 2 ^ 32 \<Longrightarrow> (of_nat i :: 32 word) = of_nat j \<longleftrightarrow> i = j"
  by (metis unat_small)

lemma store_at:
  "length bs \<le> 2 ^ 32 \<Longrightarrow> i < length bs \<Longrightarrow> store a bs m (a + of_nat i) = bs ! i"
proof (induction bs arbitrary: a m i)
  case (Cons b bs)
  show ?case
  proof (cases i)
    case 0
    have "a \<noteq> (a + 1) + of_nat j" if "j < length bs" for j
    proof
      assume "a = (a + 1) + of_nat j"
      then have "(of_nat (Suc j) :: 32 word) = of_nat 0" by (simp add: add.assoc)
      then show False using of_nat_small_inj[of "Suc j" 0] that Cons.prems(1) by simp
    qed
    then show ?thesis using store_other[of bs a "a + 1" "m(a := b)"] 0 by simp
  next
    case (Suc j)
    have "a + of_nat i = (a + 1) + of_nat j" by (simp add: Suc add_ac)
    then have "store a (b # bs) m (a + of_nat i) = store (a + 1) bs (m(a := b)) ((a + 1) + of_nat j)"
      by (simp only: store.simps)
    also have "\<dots> = bs ! j" by (rule Cons.IH) (use Cons.prems Suc in simp_all)
    finally show ?thesis by (simp add: Suc)
  qed
qed simp

section \<open>Reading what was written\<close>

text \<open>
  C23: a write to an address of a segment that may be read and written, whatever the state of the TLB,
  the page tables and the kernel, succeeds without a segmentation fault, and a read of the same
  address by the same process then returns exactly the bytes written, without a TLB miss and without
  a page fault, and leaves the memory as it is.
\<close>

theorem mmu_write_then_read:
  assumes T: "tlb_ok L view" and D: "disk_ok L" and p: "pid < MAX_PROCESS_ID L" "in_one_page va n"
    and n: "unat n \<le> 4096" "unat n \<le> length buffer"
    and s: "segmentations this pid = Some segs" "page_directories this pid = Some pd"
    and f: "find_segment L segs va = Some seg" "READ \<in> permissions seg" "WRITE \<in> permissions seg"
  shows "\<exists>this1 this2. mmu_write_to_virtual_address L this va pid buffer n = Inr this1
    \<and> mmu_read_from_virtual_address L this1 va pid n = Inr (Some (take (unat n) buffer), this2)
    \<and> num_segmentation_faults this2 = num_segmentation_faults this
    \<and> num_page_faults this2 = num_page_faults this1 \<and> num_tlb_misses this2 = num_tlb_misses this1
    \<and> phys this2 = phys this1"
proof -
  obtain pte t where A: "access_page L 12 WRITE va pid n this = Inr (Some pte, t)" "curr_pid t = pid"
    "segmentations t = segmentations this" "view (tlb t) (drop_bit 12 va) = Some pte"
    "present (get_entry pte (phys t))" "num_segmentation_faults t = num_segmentation_faults this"
    using access_ok[OF T D p s f(1,3), of 12] by blast
  let ?a = "data_address (get_entry pte (phys t)) va"
  let ?bs = "take (unat n) buffer"
  let ?ph = "(phys t)\<lparr>bytes := store ?a ?bs (bytes (phys t))\<rparr>"
  let ?t1 = "t\<lparr>phys := set_entry pte (\<lambda>e. e\<lparr>accessed := True, dirty := True\<rparr>) ?ph\<rparr>"
  have w: "mmu_write_to_virtual_address L this va pid buffer n = Inr ?t1"
    using A(1) n(2) by (simp add: mmu_write_to_virtual_address_def Let_def)
  obtain tl where r: "access_page L 0 READ va pid n ?t1 = Inr (Some pte, ?t1\<lparr>tlb := tl\<rparr>)"
    using access_hit[OF T D p, of ?t1 segs seg READ pte 0] A s f by auto
  have "List.map (\<lambda>i. store ?a ?bs (bytes (phys t)) (?a + of_nat i)) [0..<unat n] = ?bs"
    using n by (intro nth_equalityI) (simp_all add: store_at)
  then have "mmu_read_from_virtual_address L ?t1 va pid n = Inr (Some ?bs, ?t1\<lparr>tlb := tl\<rparr>)"
    using r by (simp add: mmu_read_from_virtual_address_def Let_def data_address_def)
  with w A(6) show ?thesis by (intro exI[of _ ?t1] exI[of _ "?t1\<lparr>tlb := tl\<rparr>"]) simp
qed

section \<open>Bounds\<close>

lemma unat_drop12: "unat (drop_bit 12 (w :: 32 word)) = unat w div 4096"
  by (simp only: unat_drop_bit_eq) (simp only: drop_bit_eq_div, simp)

lemma unat_push12: "unat (push_bit 12 (w :: 32 word)) = 4096 * (unat w mod 2 ^ 20)"
proof -
  have "unat (push_bit 12 w) = (unat w * 4096) mod 2 ^ 32"
    by (simp only: unsigned_push_bit_eq) (simp only: push_bit_eq_mult take_bit_eq_mod, simp)
  also have "\<dots> = 4096 * (unat w mod 2 ^ 20)"
    using mult_mod_right[of 4096 "unat w" "2 ^ 20"] by (simp add: mult.commute)
  finally show ?thesis .
qed

lemma offset_mod: "(va :: 32 word) AND 0xfff = va mod 4096"
  using take_bit_eq_mask[of 12 va] by (simp add: take_bit_eq_mod mask_eq_exp_minus_1)

lemma le_4096: "(x :: 64 word) \<le> 4096 \<longleftrightarrow> unat x \<le> 4096"
  unfolding word_le_nat_alt by simp

lemma in_one_page_nat:
  assumes "in_one_page va n" and "unat n \<le> 4096"
  shows "unat (va mod 4096) + unat n \<le> 4096"
proof -
  have m: "unat (va mod 4096) < 4096" by (simp add: unat_mod)
  then have u: "unat (ucast (va mod 4096) :: 64 word) = unat (va mod 4096)"
    by (simp add: unsigned_ucast_eq take_bit_nat_eq_self)
  have "unat n + unat (ucast (va mod 4096) :: 64 word) < 2 ^ LENGTH(64)" using m assms(2) u by simp
  then have "unat (n + ucast (va mod 4096)) = unat n + unat (ucast (va mod 4096) :: 64 word)"
    by (simp only: unat_add_lem)
  then show ?thesis using assms(1) unfolding in_one_page_def le_4096 u by simp
qed

text \<open>
  C24: an access that passes the assertion with at most a page of bytes stays within the frame the page
  table entry names: every byte it touches has that frame's number. The assertion adds in \<open>size_t\<close>,
  and so it also passes a length of \<open>2^64 - 1\<close> at an offset of 1.
\<close>

theorem mmu_access_within_frame:
  assumes "in_one_page va n" and "unat n \<le> 4096" and "i < unat n"
  shows "drop_bit 12 (data_address e va + of_nat i) = (drop_bit 12 (push_bit 12 (base_addr e)) :: addr32)
    \<and> in_one_page 1 (- 1)"
proof -
  let ?q = "unat (base_addr e) mod 2 ^ 20"
  let ?o = "unat (va mod 4096)"
  have o: "?o + i < 4096" using in_one_page_nat[OF assms(1,2)] assms(3) by simp
  have q: "?q < 2 ^ 20" by simp
  have i: "unat (of_nat i :: 32 word) = i" using o by (intro unat_small) simp
  have a: "unat (data_address e va) = 4096 * ?q + ?o"
  proof -
    have "unat (push_bit 12 (base_addr e)) + unat (va mod 4096) < 2 ^ LENGTH(32)"
      unfolding unat_push12 using o q by simp
    then have "unat (push_bit 12 (base_addr e) + va mod 4096)
        = unat (push_bit 12 (base_addr e)) + unat (va mod 4096)" by (simp only: unat_add_lem)
    then show ?thesis unfolding data_address_def offset_mod unat_push12 .
  qed
  have "unat (data_address e va) + unat (of_nat i :: 32 word) < 2 ^ LENGTH(32)"
    unfolding a i using o q by simp
  then have "unat (data_address e va + of_nat i) = unat (data_address e va) + unat (of_nat i :: 32 word)"
    by (simp only: unat_add_lem)
  then have "unat (data_address e va + of_nat i) = 4096 * ?q + (?o + i)"
    unfolding a i by simp
  then have "unat (drop_bit 12 (data_address e va + of_nat i)) = ?q"
    unfolding unat_drop12 using o by simp
  moreover have "unat (drop_bit 12 (push_bit 12 (base_addr e)) :: addr32) = ?q"
    unfolding unat_drop12 unat_push12 by simp
  moreover have "in_one_page 1 (- 1)" by (simp add: in_one_page_def)
  ultimately show ?thesis by (simp add: word_unat_eq_iff)
qed

section \<open>Page faults\<close>

definition walk :: "addr32 \<Rightarrow> addr32 \<Rightarrow> 'k phys \<Rightarrow> pte_ptr" where
  \<comment> \<open>the page table entry of an address, from the page directory\<close>
  "walk pd va ph = (system_pointer (get_entry (pd, unat (drop_bit 22 va)) ph), unat (drop_bit 12 va AND 0x3ff))"

definition first_touch :: "('t, 'k) lib \<Rightarrow> ('t \<Rightarrow> addr32 \<Rightarrow> pte_ptr option) \<Rightarrow> ('t, 'k) mmu \<Rightarrow> nat \<Rightarrow> addr32
    \<Rightarrow> addr32 \<Rightarrow> bool" where
  \<comment> \<open>the page is in no TLB entry of the process, its page table exists, and it is not present\<close>
  "first_touch L view this pid pd va \<longleftrightarrow> page_directories this pid = Some pd
     \<and> view (tlb (switch_process L pid this)) (drop_bit 12 va) = None
     \<and> present (get_entry (pd, unat (drop_bit 22 va)) (phys this))
     \<and> \<not> present (get_entry (walk pd va (phys this)) (phys this))"

lemma switch_process_same [simp]:
  "phys (switch_process L pid this) = phys this" "curr_pid (switch_process L pid this) = pid"
  "segmentations (switch_process L pid this) = segmentations this"
  "page_directories (switch_process L pid this) = page_directories this"
  "num_segmentation_faults (switch_process L pid this) = num_segmentation_faults this"
  "num_page_faults (switch_process L pid this) = num_page_faults this"
  by (simp_all add: switch_process_def)

lemma find_pte_miss:
  assumes T: "tlb_ok L view" and t: "first_touch L view this pid pd va"
  shows "\<exists>this1. find_pte L sh va pid (switch_process L pid this) = Inr (walk pd va (phys this), this1)
    \<and> phys this1 = phys this \<and> curr_pid this1 = pid \<and> segmentations this1 = segmentations this
    \<and> page_directories this1 = page_directories this
    \<and> view (tlb this1) (drop_bit 12 va) = Some (walk pd va (phys this))
    \<and> num_segmentation_faults this1 = num_segmentation_faults this
    \<and> num_page_faults this1 = num_page_faults this"
proof -
  obtain x where "tlb_get_pte L (tlb (switch_process L pid this)) (drop_bit 12 va) = (None, x)"
    using T t unfolding tlb_ok_def first_touch_def by (metis prod.collapse)
  then show ?thesis using t
    by (simp add: find_pte_def Let_def first_touch_def mmu_counters walk_def tlb_add_view[OF T])
qed

definition fetched :: "('t, 'k) lib \<Rightarrow> nat \<Rightarrow> bool \<Rightarrow> pte_ptr \<Rightarrow> 'k phys \<Rightarrow> 'k phys" where
  \<comment> \<open>the memory with the page's entry set to the kernel's frame shifted by \<open>sh\<close>\<close>
  "fetched L sh rw pte ph = (let (frame, ph') = ask_kernel_for_frame L (Some pte) ph
     in set_entry pte (\<lambda>e. e\<lparr>base_addr := drop_bit sh frame, present := True,
                          user_supervisor := True, read_write := rw\<rparr>) ph')"

lemma set_entry_twice: "set_entry p f (set_entry p g ph) = set_entry p (\<lambda>e. f (g e)) ph"
  by (simp add: set_entry_def)

lemma fault_page_new:
  assumes "\<not> present (get_entry pte (phys this))"
  shows "fault_page L sh need perms pte this =
    (if need \<in> perms
     then (True, (mmu_raise_page_fault this)\<lparr>phys := read_page_from_disk L pte (fetched L sh True pte (phys this))\<rparr>)
     else (False, mmu_raise_segmentation_fault ((mmu_raise_page_fault this)\<lparr>phys := fetched L sh False pte (phys this)\<rparr>)))"
  using assms
  by (auto simp: fault_page_def fetched_def Let_def mmu_counters set_entry_twice split: prod.splits)

lemma access_fault:
  assumes T: "tlb_ok L view" and D: "disk_ok L" and p: "pid < MAX_PROCESS_ID L" "in_one_page va n"
    and s: "segmentations this pid = Some segs" and f: "find_segment L segs va = Some seg"
    and t: "first_touch L view this pid pd va"
  defines "pte \<equiv> walk pd va (phys this)"
  shows "\<exists>t. (if need \<in> permissions seg
        then access_page L sh need va pid n this = Inr (Some pte, t)
          \<and> phys t = read_page_from_disk L pte (fetched L sh True pte (phys this))
        else access_page L sh need va pid n this = Inr (None, t) \<and> phys t = fetched L sh False pte (phys this)
          \<and> num_segmentation_faults t = Suc (num_segmentation_faults this))
      \<and> curr_pid t = pid \<and> segmentations t = segmentations this
      \<and> view (tlb t) (drop_bit 12 va) = Some pte \<and> num_page_faults t = Suc (num_page_faults this)"
proof -
  obtain t1 where t1: "find_pte L sh va pid (switch_process L pid this) = Inr (pte, t1)"
    "phys t1 = phys this" "curr_pid t1 = pid" "segmentations t1 = segmentations this"
    "view (tlb t1) (drop_bit 12 va) = Some pte"
    "num_segmentation_faults t1 = num_segmentation_faults this" "num_page_faults t1 = num_page_faults this"
    using find_pte_miss[OF T t, of sh] unfolding pte_def by blast
  have adr: "address_in_segmentations L segs va" using D f by (simp add: disk_ok_def)
  have np: "\<not> present (get_entry pte (phys t1))" using t t1(2) by (simp add: first_touch_def pte_def)
  note fp = fault_page_new[OF np, of L sh need "permissions seg"]
  show ?thesis using p s adr f t1
    by (cases "need \<in> permissions seg") (simp_all add: access_page_def Let_def fp mmu_counters)
qed

text \<open>
  The first touch of a page. A read stores the kernel's frame address without a shift in the
  page table entry, so it takes its bytes from the address \<open>frame << 12\<close>; a write stores the frame's
  number \<open>frame >> 12\<close> and reaches the frame itself.
\<close>

theorem mmu_read_maps_wrong_frame:
  assumes T: "tlb_ok L view" and D: "disk_ok L" and p: "pid < MAX_PROCESS_ID L" "in_one_page va n"
    and s: "segmentations this pid = Some segs"
    and f: "find_segment L segs va = Some seg" "READ \<in> permissions seg" "WRITE \<in> permissions seg"
    and t: "first_touch L view this pid pd va"
    and k: "ask_kernel_for_frame L (Some (walk pd va (phys this))) (phys this) = (frame, ph)"
    and b: "unat n \<le> length buffer"
  shows "(\<exists>this1. mmu_read_from_virtual_address L this va pid n
        = Inr (Some (List.map (\<lambda>i. bytes (phys this1) (push_bit 12 frame + (va AND 0xfff) + of_nat i)) [0..<unat n]), this1))
    \<and> (\<exists>this2 m. mmu_write_to_virtual_address L this va pid buffer n = Inr this2
        \<and> bytes (phys this2)
            = store (push_bit 12 (drop_bit 12 frame) + (va AND 0xfff)) (take (unat n) buffer) m)"
proof -
  let ?pte = "walk pd va (phys this)"
  have base: "base_addr (get_entry ?pte (read_page_from_disk L ?pte (fetched L sh True ?pte (phys this))))
      = drop_bit sh frame" for sh
    using k by (simp add: disk_entries[OF D] fetched_def)
  obtain t1 where r: "access_page L 0 READ va pid n this = Inr (Some ?pte, t1)"
    "phys t1 = read_page_from_disk L ?pte (fetched L 0 True ?pte (phys this))"
    using access_fault[OF T D p s f(1) t, of READ 0] f(2) by auto
  obtain t2 where w: "access_page L 12 WRITE va pid n this = Inr (Some ?pte, t2)"
    "phys t2 = read_page_from_disk L ?pte (fetched L 12 True ?pte (phys this))"
    using access_fault[OF T D p s f(1) t, of WRITE 12] f(3) by auto
  show ?thesis using r(1) w(1) b base[of 0] base[of 12]
    by (auto simp: mmu_read_from_virtual_address_def mmu_write_to_virtual_address_def Let_def
        data_address_def r(2) w(2))
qed

text \<open>
  A write to a read-only segment never stores a byte and counts a segmentation fault. But on a page
  that was not present it leaves the entry present with a new frame that was never filled from the
  disk: a read that follows causes no page fault and returns the bytes the kernel left in that frame.
\<close>

theorem mmu_denied_write_maps_unloaded_page:
  assumes T: "tlb_ok L view" and D: "disk_ok L" and p: "pid < MAX_PROCESS_ID L" "in_one_page va n"
    and s: "segmentations this pid = Some segs"
    and f: "find_segment L segs va = Some seg" "READ \<in> permissions seg" "WRITE \<notin> permissions seg"
    and t: "first_touch L view this pid pd va"
    and k: "ask_kernel_for_frame L (Some (walk pd va (phys this))) (phys this) = (frame, ph)"
  shows "\<exists>this1 this2. mmu_write_to_virtual_address L this va pid buffer n = Inr this1
    \<and> num_segmentation_faults this1 = Suc (num_segmentation_faults this) \<and> bytes (phys this1) = bytes ph
    \<and> mmu_read_from_virtual_address L this1 va pid n = Inr (Some (List.map (\<lambda>i.
        bytes ph (push_bit 12 (drop_bit 12 frame) + (va AND 0xfff) + of_nat i)) [0..<unat n]), this2)
    \<and> num_page_faults this2 = num_page_faults this1"
proof -
  let ?pte = "walk pd va (phys this)"
  obtain t1 where w: "access_page L 12 WRITE va pid n this = Inr (None, t1)"
    "phys t1 = fetched L 12 False ?pte (phys this)" "curr_pid t1 = pid"
    "num_segmentation_faults t1 = Suc (num_segmentation_faults this)"
    "segmentations t1 = segmentations this" "view (tlb t1) (drop_bit 12 va) = Some ?pte"
    using access_fault[OF T D p s f(1) t, of WRITE 12] f(3) by auto
  have e: "present (get_entry ?pte (phys t1))" "base_addr (get_entry ?pte (phys t1)) = drop_bit 12 frame"
    "bytes (phys t1) = bytes ph" using k by (simp_all add: w(2) fetched_def)
  obtain tl where r: "access_page L 0 READ va pid n t1 = Inr (Some ?pte, t1\<lparr>tlb := tl\<rparr>)"
    using access_hit[OF T D p _ w(3) f(1,2) w(6) e(1), of 0] w(5) s by auto
  show ?thesis
    using w(1,4) r e
    by (auto simp: mmu_write_to_virtual_address_def mmu_read_from_virtual_address_def Let_def data_address_def)
qed

section \<open>Processes\<close>

lemma mmu_add_process_ok:
  assumes "pid < MAX_PROCESS_ID L"
  shows "\<exists>this' pd. mmu_add_process L this pid = Inr this'
    \<and> segmentations this' = (segmentations this)(pid \<mapsto> initial_segments)
    \<and> page_directories this' = (page_directories this)(pid \<mapsto> pd)
    \<and> tlb this' = tlb this \<and> curr_pid this' = curr_pid this"
  using assms by (auto simp: mmu_add_process_def Let_def split: prod.splits)

definition frames_ok :: "('t, 'k) lib \<Rightarrow> ('k phys \<Rightarrow> addr32 list) \<Rightarrow> bool" where
  \<comment> \<open>giving back a frame or a swap file changes no entry; \<open>returned\<close> lists the frames given back\<close>
  "frames_ok L returned \<longleftrightarrow>
     (\<forall>a ph. entries (return_frame_to_kernel L a ph) = entries ph
         \<and> returned (return_frame_to_kernel L a ph) = returned ph @ [a])
     \<and> (\<forall>pt i ph. entries (remove_swap_file L (pt, i) ph) = entries ph
         \<and> returned (remove_swap_file L (pt, i) ph) = returned ph)"

definition table_frames :: "'k phys \<Rightarrow> addr32 \<Rightarrow> addr32 list" where
  "table_frames ph pt = [system_pointer (get_entry (pt, i) ph). i \<leftarrow> [0..<1024], present (get_entry (pt, i) ph)]"

definition process_frames :: "'k phys \<Rightarrow> addr32 \<Rightarrow> addr32 list" where
  \<comment> \<open>the frames of the pages, the page tables and the directory\<close>
  "process_frames ph pd =
     concat [table_frames ph (system_pointer (get_entry (pd, i) ph)) @ [system_pointer (get_entry (pd, i) ph)].
             i \<leftarrow> [0..<1024], present (get_entry (pd, i) ph)] @ [pd]"

lemma get_entry_cong: "entries ph' = entries ph \<Longrightarrow> get_entry p ph' = get_entry p ph"
  by (simp add: get_entry_def)

lemma release_pte_ok:
  assumes F: "frames_ok L returned"
  shows "entries (release_pte L pt i ph) = entries ph"
    and "returned (release_pte L pt i ph) = returned ph
      @ (if present (get_entry (pt, i) ph) then [system_pointer (get_entry (pt, i) ph)] else [])"
  using F by (auto simp: release_pte_def frames_ok_def)

lemma release_ptes_ok:
  assumes F: "frames_ok L returned"
  shows "entries (fold (release_pte L pt) is ph) = entries ph
    \<and> returned (fold (release_pte L pt) is ph) = returned ph
      @ [system_pointer (get_entry (pt, i) ph). i \<leftarrow> is, present (get_entry (pt, i) ph)]"
proof (induction "is" arbitrary: ph)
  case (Cons i "is")
  have "get_entry p (release_pte L pt i ph) = get_entry p ph" for p
    by (rule get_entry_cong) (rule release_pte_ok(1)[OF F])
  then show ?case using Cons[of "release_pte L pt i ph"] release_pte_ok[OF F, of pt i ph]
    by (simp cong: if_cong)
qed simp

lemma release_pde_ok:
  assumes F: "frames_ok L returned"
  shows "entries (release_pde L pd i ph) = entries ph"
    and "returned (release_pde L pd i ph) = returned ph
      @ (if present (get_entry (pd, i) ph)
         then table_frames ph (system_pointer (get_entry (pd, i) ph)) @ [system_pointer (get_entry (pd, i) ph)]
         else [])"
  using F release_ptes_ok[OF F, of "system_pointer (get_entry (pd, i) ph)" "[0..<1024]" ph]
  by (auto simp: release_pde_def frames_ok_def Let_def table_frames_def simp del: upt_Suc)

lemma release_pdes_ok:
  assumes F: "frames_ok L returned"
  shows "entries (fold (release_pde L pd) is ph) = entries ph
    \<and> returned (fold (release_pde L pd) is ph) = returned ph
      @ concat [table_frames ph (system_pointer (get_entry (pd, i) ph)) @ [system_pointer (get_entry (pd, i) ph)].
                i \<leftarrow> is, present (get_entry (pd, i) ph)]"
proof (induction "is" arbitrary: ph)
  case (Cons i "is")
  have g: "get_entry p (release_pde L pd i ph) = get_entry p ph" for p
    by (rule get_entry_cong) (rule release_pde_ok(1)[OF F])
  then have "table_frames (release_pde L pd i ph) = table_frames ph"
    by (simp add: table_frames_def fun_eq_iff cong: if_cong)
  then show ?case using Cons[of "release_pde L pd i ph"] release_pde_ok[OF F, of pd i ph] g
    by (simp cong: if_cong)
qed simp

text \<open>
  Removing a process gives back to the kernel, each once and in this order, the frames of the
  pages its page tables map, each followed by the table's frame, and the frame of its page directory;
  it clears the process's directory and segments, leaves the other processes', and when the process
  was the current one the TLB keeps no entry of it.
\<close>

theorem mmu_remove_process_returns_frames:
  assumes T: "tlb_ok L view" and F: "frames_ok L returned" and p: "pid < MAX_PROCESS_ID L"
  shows "\<exists>this'. mmu_remove_process L this pid = Inr this'
    \<and> returned (phys this') = returned (phys this)
        @ (case page_directories this pid of None \<Rightarrow> [] | Some pd \<Rightarrow> process_frames (phys this) pd)
    \<and> page_directories this' = (page_directories this)(pid := None)
    \<and> segmentations this' = (segmentations this)(pid := None)
    \<and> (curr_pid this = pid \<longrightarrow> (\<forall>a. view (tlb this') a = None))"
proof (cases "page_directories this pid")
  case None
  then show ?thesis using T p by (simp add: mmu_remove_process_def Let_def tlb_ok_def)
next
  case (Some pd)
  have "returned (return_frame_to_kernel L pd (fold (release_pde L pd) [0..<1024] (phys this)))
      = returned (phys this) @ process_frames (phys this) pd"
    using F release_pdes_ok[OF F, of pd "[0..<1024]" "phys this"]
    by (simp add: frames_ok_def process_frames_def del: upt_Suc)
  then show ?thesis using T p Some by (simp add: mmu_remove_process_def Let_def tlb_ok_def)
qed

section \<open>An instance\<close>

text \<open>
  An unbounded TLB, a kernel that hands out the frames one after the other and keeps a list of the
  frames given back, and a segment search over the named segments.
\<close>

definition segment_search :: "segments \<Rightarrow> addr32 \<Rightarrow> vm_segmentation option" where
  "segment_search s a = (case List.filter (\<lambda>n. case s n of None \<Rightarrow> False
       | Some g \<Rightarrow> seg_start g \<le> a \<and> a < seg_end g) [STACK, MMAP, HEAP, BSS, DATA, TEXT, TESTING] of
     [] \<Rightarrow> None | n # ns \<Rightarrow> s n)"

definition flat_lib :: "(addr32 \<Rightarrow> pte_ptr option, addr32 \<times> addr32 list) lib" where
  "flat_lib = \<lparr>MAX_PROCESS_ID = 4, tlb_create = \<lambda>_. None, tlb_flush = \<lambda>t a. None,
     tlb_get_pte = \<lambda>t a. (t a, t), tlb_add_pte = \<lambda>t a p. t(a \<mapsto> p),
     address_in_segmentations = \<lambda>s a. segment_search s a \<noteq> None, find_segment = segment_search,
     ask_kernel_for_frame = \<lambda>p ph. (fst (kernel ph), ph\<lparr>kernel := (fst (kernel ph) + 4096, snd (kernel ph))\<rparr>),
     read_page_from_disk = \<lambda>p ph. ph,
     return_frame_to_kernel = \<lambda>a ph. ph\<lparr>kernel := (fst (kernel ph), snd (kernel ph) @ [a])\<rparr>,
     remove_swap_file = \<lambda>p ph. ph\<rparr>"

definition absent :: entry where
  "absent = \<lparr>base_addr = 0, present = False, read_write = False, user_supervisor = False,
     accessed = False, dirty = False\<rparr>"

definition demo_mmu :: "(addr32 \<Rightarrow> pte_ptr option, addr32 \<times> addr32 list) mmu" where
  \<comment> \<open>process 1 with its directory in frame 1 and its first page table in frame 2\<close>
  "demo_mmu = \<lparr>curr_pid = 0, tlb = \<lambda>_. None, segmentations = [1 \<mapsto> initial_segments],
     page_directories = [1 \<mapsto> 0x1000], num_tlb_misses = 0, num_page_faults = 0,
     num_segmentation_faults = 0,
     phys = \<lparr>entries = (\<lambda>_ _. absent)(0x1000 := (\<lambda>_. absent)(0 := absent\<lparr>base_addr := 2, present := True\<rparr>,
                                                       32 := absent\<lparr>base_addr := 3, present := True\<rparr>)),
             bytes = \<lambda>_. 0, kernel = (0x5000, [])\<rparr>\<rparr>"

lemma flat_laws:
  "tlb_ok flat_lib (\<lambda>t. t)" "disk_ok flat_lib" "frames_ok flat_lib (\<lambda>ph. snd (kernel ph))"
  by (auto simp: tlb_ok_def disk_ok_def frames_ok_def flat_lib_def)

lemma demo_segments:
  "find_segment flat_lib initial_segments 4100
     = Some \<lparr>seg_start = 4096, seg_end = 3 * 4096, permissions = {READ, WRITE}, grows_down = False\<rparr>"
  "find_segment flat_lib initial_segments 0x08048004
     = Some \<lparr>seg_start = 0x08048000, seg_end = 0x08052000, permissions = {READ, EXEC}, grows_down = False\<rparr>"
  by (simp_all add: flat_lib_def segment_search_def initial_segments_def)

lemma demo_first_touch:
  "first_touch flat_lib (\<lambda>t. t) demo_mmu 1 0x1000 4100"
  "first_touch flat_lib (\<lambda>t. t) demo_mmu 1 0x1000 0x08048004"
  by (simp_all add: first_touch_def demo_mmu_def switch_process_def flat_lib_def get_entry_def absent_def
      walk_def system_pointer_def)

lemma demo_facts:
  "(1::nat) < MAX_PROCESS_ID flat_lib" "in_one_page 4100 2" "in_one_page 0x08048004 2"
  "segmentations demo_mmu 1 = Some initial_segments" "page_directories demo_mmu 1 = Some 0x1000"
  "ask_kernel_for_frame flat_lib p (phys demo_mmu) = (0x5000, (phys demo_mmu)\<lparr>kernel := (0x6000, [])\<rparr>)"
  by (simp_all add: flat_lib_def demo_mmu_def in_one_page_def)

theorem mmu_write_then_read_witness:
  "\<exists>this1 this2. mmu_write_to_virtual_address flat_lib demo_mmu 4100 1 [7, 8] 2 = Inr this1
    \<and> mmu_read_from_virtual_address flat_lib this1 4100 1 2 = Inr (Some [7, 8], this2)"
proof -
  have "unat (2 :: 64 word) \<le> 4096" "unat (2 :: 64 word) \<le> length [7, 8 :: byte]" by simp_all
  from mmu_write_then_read[OF flat_laws(1,2) demo_facts(1,2) this demo_facts(4,5) demo_segments(1)]
  show ?thesis by auto
qed

theorem mmu_access_within_frame_witness:
  "drop_bit 12 (data_address (absent\<lparr>base_addr := 5\<rparr>) 4100 + of_nat 1) = (5 :: addr32)"
  using mmu_access_within_frame[of 4100 2 1 "absent\<lparr>base_addr := 5\<rparr>"] demo_facts(2) by simp

theorem mmu_read_maps_wrong_frame_witness:
  "\<exists>this1. mmu_read_from_virtual_address flat_lib demo_mmu 4100 1 2
     = Inr (Some (List.map (\<lambda>i. bytes (phys this1) (0x5000000 + 4 + of_nat i)) [0..<2]), this1)"
proof -
  have "unat (2 :: 64 word) \<le> length [7, 8 :: byte]" by simp
  from mmu_read_maps_wrong_frame[OF flat_laws(1,2) demo_facts(1,2,4) demo_segments(1) _ _ demo_first_touch(1)
      demo_facts(6) this]
  show ?thesis by (simp add: push_bit_eq_mult)
qed

theorem mmu_denied_write_maps_unloaded_page_witness:
  "\<exists>this1 this2. mmu_write_to_virtual_address flat_lib demo_mmu 0x08048004 1 [7, 8] 2 = Inr this1
    \<and> mmu_read_from_virtual_address flat_lib this1 0x08048004 1 2 = Inr (Some [0, 0], this2)
    \<and> num_page_faults this2 = num_page_faults this1"
proof -
  have b: "bytes ((phys demo_mmu)\<lparr>kernel := (0x6000, [])\<rparr>) = (\<lambda>_. 0)" by (simp add: demo_mmu_def)
  from mmu_denied_write_maps_unloaded_page[OF flat_laws(1,2) demo_facts(1,3,4) demo_segments(2) _ _
      demo_first_touch(2) demo_facts(6), of "[7, 8]"]
  show ?thesis unfolding b by (auto simp: upt_rec)
qed

theorem mmu_remove_process_returns_frames_witness:
  "\<exists>this'. mmu_remove_process flat_lib demo_mmu 1 = Inr this'
    \<and> snd (kernel (phys this')) = process_frames (phys demo_mmu) 0x1000"
proof -
  have "snd (kernel (phys demo_mmu)) = []" by (simp add: demo_mmu_def)
  with mmu_remove_process_returns_frames[OF flat_laws(1,3) demo_facts(1), of demo_mmu] demo_facts(5)
  show ?thesis by auto
qed

end
