(* ===== verification/Minixfs.thy ===== *)
theory Minixfs
  imports Ctype
begin

unbundle bit_operations_syntax

text \<open>
  The file system of \<^verbatim>\<open>finding_filesystems/minixfs.c\<close>: permissions and owners, the creation of an
  inode, reading and writing of files through their direct and indirect blocks, and the virtual
  file \<open>info\<close>. The sizes of the header, the path lookup and the helpers of
  \<^verbatim>\<open>minixfs_utils.h\<close> are code outside the repository: the fields of the record \<open>fsys\<close>. Inodes are
  numbers in the array \<open>inode_root\<close>, data blocks numbers in \<open>data_root\<close>; an access outside the
  array, a block or a buffer is a fault. The offset is not negative, and \<open>now\<close> is the clock.
\<close>

section \<open>Data\<close>

type_synonym byte = "8 word"

record inode =
  mode :: "16 word"
  uid :: "32 word"
  gid :: "32 word"
  filesize :: nat
  direct :: "int list"
  indirect :: int
  atim :: nat
  mtim :: nat
  ctim :: nat

record file_system =
  inode_root :: "inode list"
  data_root :: "byte list list"
  data_map :: "byte list" \<comment> \<open>one byte per data block\<close>

datatype errno = ENOENT | ENOSPC

record fsys =
  DATA_NUMBER :: int
  NUM_DIRECT_BLOCKS :: nat
  NUM_INDIRECT_BLOCKS :: nat
  BLOCK :: nat \<comment> \<open>\<open>sizeof(data_block)\<close>\<close>
  FILE_NAME_ENTRY :: nat
  get_inode :: "file_system \<Rightarrow> string \<Rightarrow> nat option"
  first_unused_inode :: "file_system \<Rightarrow> int"
  parent_directory :: "file_system \<Rightarrow> string \<Rightarrow> nat option \<times> string"
  valid_filename :: "string \<Rightarrow> bool"
  init_inode :: "nat option \<Rightarrow> nat \<Rightarrow> file_system \<Rightarrow> file_system"
  add_data_block_to_inode :: "nat \<Rightarrow> file_system \<Rightarrow> file_system"
  dirent_bytes :: "int \<Rightarrow> string \<Rightarrow> byte list" \<comment> \<open>what \<open>make_string_from_dirent\<close> writes\<close>
  minixfs_min_blockcount :: "file_system \<Rightarrow> string \<Rightarrow> nat \<Rightarrow> int \<times> file_system"
  is_virtual_path :: "string \<Rightarrow> string option"
  number_at :: "byte list \<Rightarrow> nat \<Rightarrow> int" \<comment> \<open>a block read as an array of block numbers\<close>

definition u64 :: "nat \<Rightarrow> nat" where "u64 n = n mod 2 ^ 64"

definition get_block :: "file_system \<Rightarrow> int \<Rightarrow> byte list res" where
  "get_block fs b = (if 0 \<le> b \<and> nat b < length (data_root fs) then Inr (data_root fs ! nat b)
     else Inl Out_Of_Bounds)"

definition set_inode :: "nat \<Rightarrow> (inode \<Rightarrow> inode) \<Rightarrow> file_system \<Rightarrow> file_system" where
  "set_inode i f fs = fs\<lparr>inode_root := (inode_root fs)[i := f (inode_root fs ! i)]\<rparr>"

section \<open>Permissions and owners\<close>

definition minixfs_chmod ::
  "fsys \<Rightarrow> nat \<Rightarrow> file_system \<Rightarrow> string \<Rightarrow> 32 word \<Rightarrow> (errno + int) \<times> file_system" where
  "minixfs_chmod P now fs path new_permissions =
     (case get_inode P fs path of
        None \<Rightarrow> (Inl ENOENT, fs)
      | Some i \<Rightarrow> (Inr 0, set_inode i (\<lambda>ind. ind\<lparr>
            mode := ucast ((ucast (mode ind) AND 0xfe00) OR new_permissions), ctim := now\<rparr>) fs))"

definition minixfs_chown ::
  "fsys \<Rightarrow> nat \<Rightarrow> file_system \<Rightarrow> string \<Rightarrow> 32 word \<Rightarrow> 32 word \<Rightarrow> (errno + int) \<times> file_system" where
  "minixfs_chown P now fs path owner grp =
     (case get_inode P fs path of
        None \<Rightarrow> (Inl ENOENT, fs)
      | Some i \<Rightarrow>
          let fs1 = (if owner \<noteq> - 1 then set_inode i (\<lambda>ind. ind\<lparr>uid := owner\<rparr>) fs else fs);
              fs2 = (if grp \<noteq> - 1 then set_inode i (\<lambda>ind. ind\<lparr>gid := grp\<rparr>) fs1 else fs1)
          in (Inr 0, set_inode i (\<lambda>ind. ind\<lparr>ctim := now\<rparr>) fs2))"

section \<open>Blocks of a file\<close>

definition block_number :: "fsys \<Rightarrow> file_system \<Rightarrow> inode \<Rightarrow> nat \<Rightarrow> int res" where
  \<comment> \<open>direct blocks first, then the entries of the indirect block\<close>
  "block_number P fs ind k =
     (if k < NUM_DIRECT_BLOCKS P then
        (if k < length (direct ind) then Inr (direct ind ! k) else Inl Out_Of_Bounds)
      else if k - NUM_DIRECT_BLOCKS P < NUM_INDIRECT_BLOCKS P then
        rbind (get_block fs (indirect ind)) (\<lambda>blk. Inr (number_at P blk (k - NUM_DIRECT_BLOCKS P)))
      else Inl Out_Of_Bounds)"

definition splice :: "byte list \<Rightarrow> nat \<Rightarrow> byte list \<Rightarrow> byte list" where
  "splice blk at bs = take at blk @ bs @ drop (at + length bs) blk"

section \<open>Creating an inode\<close>

definition write_dirent :: "fsys \<Rightarrow> nat \<Rightarrow> nat \<Rightarrow> nat \<Rightarrow> byte list \<Rightarrow> file_system \<Rightarrow> file_system res" where
  \<comment> \<open>writes the entry into the parent's block and counts it in the parent's size\<close>
  "write_dirent P parent num_block offset bs fs =
     (let ind = inode_root fs ! parent in
      if length (direct ind) \<le> num_block then Inl Out_Of_Bounds
      else rbind (get_block fs (direct ind ! num_block)) (\<lambda>blk.
        if length blk < offset + length bs then Inl Out_Of_Bounds
        else Inr (set_inode parent (\<lambda>ind. ind\<lparr>filesize := filesize ind + FILE_NAME_ENTRY P\<rparr>)
          (fs\<lparr>data_root := (data_root fs)[nat (direct ind ! num_block) := splice blk offset bs]\<rparr>))))"

definition minixfs_create_inode_for_path ::
  "fsys \<Rightarrow> file_system \<Rightarrow> string \<Rightarrow> (nat option \<times> file_system) res" where
  "minixfs_create_inode_for_path P fs path =
     (if get_inode P fs path \<noteq> None then Inr (None, fs)
      else let indn = first_unused_inode P fs in
      if indn = - 1 then Inr (None, fs)
      else let (parent, filename) = parent_directory P fs path in
      if \<not> valid_filename P filename then Inr (None, fs)
      else let fs1 = init_inode P parent (nat indn) fs in
      rbind (deref parent) (\<lambda>p.
      let num_block = filesize (inode_root fs1 ! p) div BLOCK P;
          offset = filesize (inode_root fs1 ! p) - num_block * BLOCK P;
          entry = dirent_bytes P indn filename
      in if num_block < NUM_DIRECT_BLOCKS P then
           if offset \<noteq> 0 then
             if BLOCK P < offset + FILE_NAME_ENTRY P then
               if NUM_DIRECT_BLOCKS P \<le> num_block + 1 then Inr (None, fs1)
               else rbind (write_dirent P p (num_block + 1) 0 entry
                       (add_data_block_to_inode P p (set_inode p (\<lambda>ind. ind\<lparr>filesize :=
                          filesize ind + (BLOCK P - offset)\<rparr>) fs1))) (\<lambda>fs2. Inr (Some (nat indn), fs2))
             else rbind (write_dirent P p num_block offset entry fs1) (\<lambda>fs2. Inr (Some (nat indn), fs2))
           else rbind (write_dirent P p num_block offset entry (add_data_block_to_inode P p fs1))
                  (\<lambda>fs2. Inr (Some (nat indn), fs2))
         else Inr (None, fs1)))"

section \<open>Reading and writing\<close>

fun write_loop ::
  "fsys \<Rightarrow> nat \<Rightarrow> byte list \<Rightarrow> nat \<Rightarrow> nat \<Rightarrow> nat \<Rightarrow> nat \<Rightarrow> nat \<Rightarrow> nat \<Rightarrow> file_system \<Rightarrow> file_system res" where
  \<comment> \<open>with \<open>byte_writen\<close>, \<open>block_idx\<close> and \<open>offset\<close>; the first number is fuel\<close>
  "write_loop P i buf count remainder fuel byte_writen block_idx offset fs =
     (if count \<le> byte_writen then Inr fs
      else case fuel of 0 \<Rightarrow> Inl Diverges
      | Suc f \<Rightarrow>
          let full = (u64 (byte_writen + BLOCK P - offset) \<le> count);
              n = (if full then BLOCK P - offset else remainder - offset)
          in if \<not> full \<and> remainder < offset then Inl Out_Of_Bounds
             else rbind (block_number P fs (inode_root fs ! i) block_idx) (\<lambda>b.
               rbind (get_block fs b) (\<lambda>blk.
               if length blk < offset + n \<or> length buf < byte_writen + n then Inl Out_Of_Bounds
               else write_loop P i buf count remainder f (byte_writen + n) (block_idx + 1) 0
                 (fs\<lparr>data_root := (data_root fs)[nat b := splice blk offset (take n (drop byte_writen buf))]\<rparr>))))"

declare write_loop.simps [simp del]

definition minixfs_write ::
  "fsys \<Rightarrow> nat \<Rightarrow> file_system \<Rightarrow> string \<Rightarrow> byte list \<Rightarrow> nat \<Rightarrow> nat
   \<Rightarrow> ((errno + nat) \<times> nat \<times> file_system) res" where
  \<comment> \<open>the result, the new \<open>*off\<close> and the file system\<close>
  "minixfs_write P now fs path buf count off =
     (if u64 (off + count) > (NUM_DIRECT_BLOCKS P + NUM_INDIRECT_BLOCKS P) * BLOCK P
      then Inr (Inl ENOSPC, off, fs)
      else rbind (case get_inode P fs path of
                    Some i \<Rightarrow> Inr (Some i, fs)
                  | None \<Rightarrow> minixfs_create_inode_for_path P fs path) (\<lambda>(ind, fs1).
      case ind of None \<Rightarrow> Inr (Inl ENOSPC, off, fs1)
      | Some i \<Rightarrow>
          let last = u64 (off + count);
              remainder = last mod BLOCK P;
              num_block = (if remainder \<noteq> 0 then last div BLOCK P + 1 else last div BLOCK P);
              (r, fs2) = minixfs_min_blockcount P fs1 path num_block
          in if r = - 1 then Inr (Inl ENOSPC, off, fs2)
             else rbind (write_loop P i buf count remainder count 0 (off div BLOCK P) (off mod BLOCK P) fs2) (\<lambda>fs3.
               Inr (Inr count, off + count, set_inode i (\<lambda>ind. ind\<lparr>
                 filesize := (if last > filesize ind then last else filesize ind),
                 atim := now, mtim := now\<rparr>) fs3))))"

fun read_loop ::
  "fsys \<Rightarrow> inode \<Rightarrow> nat \<Rightarrow> nat \<Rightarrow> nat \<Rightarrow> nat \<Rightarrow> nat \<Rightarrow> nat \<Rightarrow> file_system \<Rightarrow> byte list \<Rightarrow> byte list res" where
  \<comment> \<open>with \<open>byte_read\<close>, \<open>block_idx\<close>, \<open>offset\<close> and the bytes copied so far\<close>
  "read_loop P ind ret remainder fuel byte_read block_idx offset fs out =
     (if ret \<le> byte_read then Inr out
      else case fuel of 0 \<Rightarrow> Inl Diverges
      | Suc f \<Rightarrow>
          let full = (u64 (byte_read + BLOCK P - offset) \<le> ret);
              n = (if full then BLOCK P - offset else remainder - offset)
          in if \<not> full \<and> remainder < offset then Inl Out_Of_Bounds
             else rbind (block_number P fs ind block_idx) (\<lambda>b.
               rbind (get_block fs b) (\<lambda>blk.
               if length blk < offset + n then Inl Out_Of_Bounds
               else read_loop P ind ret remainder f (byte_read + n) (block_idx + 1) 0 fs
                 (out @ take n (drop offset blk)))))"

declare read_loop.simps [simp del]

definition read_data ::
  "fsys \<Rightarrow> nat \<Rightarrow> file_system \<Rightarrow> string \<Rightarrow> nat \<Rightarrow> nat
   \<Rightarrow> ((errno + byte list) \<times> nat \<times> file_system) res" where
  \<comment> \<open>the part of \<open>minixfs_read\<close> for paths that are not virtual; the bytes that are copied\<close>
  "read_data P now fs path count off =
     (case get_inode P fs path of
        None \<Rightarrow> Inr (Inl ENOENT, off, fs)
      | Some i \<Rightarrow>
          let ind = inode_root fs ! i in
          if filesize ind < off then Inr (Inr [], off, fs)
          else let ret = (if count > filesize ind - off then filesize ind - off else count) in
          rbind (read_loop P ind ret (u64 (off + ret) mod BLOCK P) ret 0 (off div BLOCK P) (off mod BLOCK P) fs [])
            (\<lambda>bs. Inr (Inr bs, off + ret, set_inode i (\<lambda>ind. ind\<lparr>atim := now\<rparr>) fs)))"

section \<open>The virtual file\<close>

definition newline :: string where "newline = [CHR 0x0A]"

definition block_info_string :: "fsys \<Rightarrow> int \<Rightarrow> block" where
  \<comment> \<open>the string \<open>asprintf\<close> allocates\<close>
  "block_info_string P num_used_blocks = cstring
     (''Free blocks: '' @ show_int (DATA_NUMBER P - num_used_blocks) @ newline
      @ ''Used blocks: '' @ show_int num_used_blocks @ newline)"

definition used_blocks :: "file_system \<Rightarrow> int" where
  \<comment> \<open>the loop over the data map\<close>
  "used_blocks fs = fold (\<lambda>b n. if b = 1 then n + 1 else n) (data_map fs) 0"

definition copy_bytes :: "block \<Rightarrow> nat \<Rightarrow> nat \<Rightarrow> string res" where
  \<comment> \<open>\<open>memmove(buf, src + off, n)\<close>, of characters that are all written\<close>
  "copy_bytes src off n =
     (if length src < off + n then Inl Out_Of_Bounds else Inr (List.map the_val (take n (drop off src))))"

definition minixfs_virtual_read ::
  "fsys \<Rightarrow> file_system \<Rightarrow> string \<Rightarrow> nat \<Rightarrow> nat \<Rightarrow> ((errno + string) \<times> nat) res" where
  "minixfs_virtual_read P fs path count off =
     (if path = ''info'' then
        let info_str = block_info_string P (used_blocks fs) in
        rbind (c_strlen info_str) (\<lambda>len.
        if off > len then Inr (Inr [], off)
        else let ret = (if count > len - off then len else count) in
             rbind (copy_bytes info_str off ret) (\<lambda>bs. Inr (Inr bs, off + ret)))
      else Inr (Inl ENOENT, off))"

definition minixfs_read ::
  "fsys \<Rightarrow> nat \<Rightarrow> file_system \<Rightarrow> string \<Rightarrow> nat \<Rightarrow> nat
   \<Rightarrow> ((errno + byte list) \<times> nat \<times> file_system) res" where
  "minixfs_read P now fs path count off =
     (case is_virtual_path P path of
        Some v \<Rightarrow> rbind (minixfs_virtual_read P fs v count off) (\<lambda>(r, off').
          Inr (map_sum (\<lambda>e. e) (List.map of_char) r, off', fs))
      | None \<Rightarrow> read_data P now fs path count off)"

section \<open>The blocks of a file, as one sequence of bytes\<close>

definition mapped :: "fsys \<Rightarrow> file_system \<Rightarrow> inode \<Rightarrow> nat \<Rightarrow> nat \<Rightarrow> bool" where
  \<comment> \<open>block \<open>k\<close> of the file is the data block \<open>b\<close>\<close>
  "mapped P fs ind k b \<longleftrightarrow> block_number P fs ind k = Inr (int b)
     \<and> b < length (data_root fs) \<and> length (data_root fs ! b) = BLOCK P"

definition file_ok :: "fsys \<Rightarrow> file_system \<Rightarrow> inode \<Rightarrow> nat \<Rightarrow> bool" where
  \<comment> \<open>the first \<open>m\<close> blocks are different data blocks, none of them the indirect block\<close>
  "file_ok P fs ind m \<longleftrightarrow> 0 < BLOCK P
     \<and> (\<forall>k < m. \<exists>b. mapped P fs ind k b \<and> int b \<noteq> indirect ind)
     \<and> (\<forall>k < m. \<forall>l < m. \<forall>b. mapped P fs ind k b \<longrightarrow> mapped P fs ind l b \<longrightarrow> k = l)"

definition byte_at :: "fsys \<Rightarrow> file_system \<Rightarrow> inode \<Rightarrow> nat \<Rightarrow> byte" where
  "byte_at P fs ind p = (case block_number P fs ind (p div BLOCK P) of
     Inr b \<Rightarrow> data_root fs ! nat b ! (p mod BLOCK P) | Inl e \<Rightarrow> 0)"

definition contents :: "fsys \<Rightarrow> file_system \<Rightarrow> inode \<Rightarrow> byte list" where
  "contents P fs ind = List.map (byte_at P fs ind) [0..<filesize ind]"

lemma mapped_get:
  "mapped P fs ind k b \<Longrightarrow> block_number P fs ind k = Inr (int b) \<and> get_block fs (int b) = Inr (data_root fs ! b)
     \<and> length (data_root fs ! b) = BLOCK P \<and> b < length (data_root fs)"
  by (simp add: mapped_def get_block_def)

lemma byte_at_mapped:
  assumes "mapped P fs ind k b" and "j < BLOCK P"
  shows "byte_at P fs ind (k * BLOCK P + j) = data_root fs ! b ! j"
proof -
  have "(k * BLOCK P + j) div BLOCK P = k" "(k * BLOCK P + j) mod BLOCK P = j"
    using assms(2) by simp_all
  then show ?thesis using mapped_get[OF assms(1)] by (simp add: byte_at_def)
qed

lemma chunk_bytes:
  assumes "mapped P fs ind (p div BLOCK P) b" and "p mod BLOCK P + n \<le> BLOCK P"
  shows "take n (drop (p mod BLOCK P) (data_root fs ! b)) = List.map (byte_at P fs ind) [p..<p + n]"
proof (intro nth_equalityI)
  show "length (take n (drop (p mod BLOCK P) (data_root fs ! b))) = length (List.map (byte_at P fs ind) [p..<p + n])"
    using mapped_get[OF assms(1)] assms(2) by simp
  fix i assume "i < length (take n (drop (p mod BLOCK P) (data_root fs ! b)))"
  then have i: "i < n" by simp
  have "byte_at P fs ind (p div BLOCK P * BLOCK P + (p mod BLOCK P + i)) = data_root fs ! b ! (p mod BLOCK P + i)"
    by (rule byte_at_mapped[OF assms(1)]) (use i assms(2) in simp)
  then show "take n (drop (p mod BLOCK P) (data_root fs ! b)) ! i = List.map (byte_at P fs ind) [p..<p + n] ! i"
    using i mapped_get[OF assms(1)] assms(2) by (simp add: add.assoc[symmetric])
qed

section \<open>One round of the loops\<close>

lemma round_arith:
  fixes B off br ret :: nat
  assumes B: "0 < B" and br: "br < ret" and big: "ret + B < 2 ^ 64"
  defines "pos \<equiv> off + br"
  defines "full \<equiv> u64 (br + B - pos mod B) \<le> ret"
  defines "n \<equiv> (if full then B - pos mod B else (off + ret) mod B - pos mod B)"
  shows "0 < n" and "br + n \<le> ret" and "pos mod B + n \<le> B"
    and "\<not> (\<not> full \<and> (off + ret) mod B < pos mod B)"
    and "br + n < ret \<Longrightarrow> (pos + n) div B = pos div B + 1 \<and> (pos + n) mod B = 0"
proof -
  let ?o = "pos mod B"
  have o: "?o < B" using B by simp
  have u: "u64 (br + B - ?o) = br + (B - ?o)" using br big o by (simp add: u64_def)
  have "full \<longleftrightarrow> br + (B - ?o) \<le> ret" by (simp add: full_def u)
  moreover have last: "(off + ret) mod B = ?o + (ret - br)" if "\<not> br + (B - ?o) \<le> ret"
  proof -
    have e: "off + ret = pos + (ret - br)" using br by (simp add: pos_def)
    have "?o + (ret - br) < B" using that o br by simp
    then show ?thesis unfolding e by (metis mod_add_left_eq mod_less)
  qed
  ultimately show n0: "0 < n" and le: "br + n \<le> ret" and "?o + n \<le> B"
      and "\<not> (\<not> full \<and> (off + ret) mod B < ?o)"
    using o br by (auto simp: n_def)
  assume "br + n < ret"
  then have "n = B - ?o" using last br \<open>full \<longleftrightarrow> br + (B - ?o) \<le> ret\<close> by (auto simp: n_def)
  then have "pos + n = (pos div B + 1) * B"
    using o by (metis add.assoc add.commute add_mult_distrib div_mult_mod_eq le_add_diff_inverse less_imp_le_nat mult_1)
  then show "(pos + n) div B = pos div B + 1 \<and> (pos + n) mod B = 0" using B by simp
qed

lemma upt_split: "a \<le> b \<Longrightarrow> b \<le> c \<Longrightarrow> [a..<b] @ [b..<c] = [a..<c]"
  by (metis le_Suc_ex upt_add_eq_append)

lemma in_file:
  assumes "file_ok P fs ind m" and "p < m * BLOCK P"
  shows "\<exists>b. mapped P fs ind (p div BLOCK P) b \<and> int b \<noteq> indirect ind"
  using assms by (auto simp: file_ok_def less_mult_imp_div_less)

lemma read_loop_ok:
  assumes F: "file_ok P fs ind m" and e: "off + ret \<le> m * BLOCK P" and big: "ret + BLOCK P < 2 ^ 64"
  shows "br \<le> ret \<Longrightarrow> ret - br \<le> fuel \<Longrightarrow>
    read_loop P ind ret ((off + ret) mod BLOCK P) fuel br ((off + br) div BLOCK P) ((off + br) mod BLOCK P) fs out
      = Inr (out @ List.map (byte_at P fs ind) [off + br..<off + ret])"
proof (induction fuel arbitrary: br out)
  case 0
  then show ?case by (simp add: read_loop.simps)
next
  case (Suc f)
  show ?case
  proof (cases "br < ret")
    case False
    then show ?thesis using Suc.prems by (simp add: read_loop.simps)
  next
    case True
    have B: "0 < BLOCK P" using F by (simp add: file_ok_def)
    let ?pos = "off + br"
    define full where "full = (u64 (br + BLOCK P - ?pos mod BLOCK P) \<le> ret)"
    define n where "n = (if full then BLOCK P - ?pos mod BLOCK P else (off + ret) mod BLOCK P - ?pos mod BLOCK P)"
    note r = round_arith[OF B True big, of off, folded full_def, folded n_def]
    have "?pos < m * BLOCK P" using True e by simp
    then obtain b where b: "mapped P fs ind (?pos div BLOCK P) b" using in_file[OF F] by blast
    have step: "read_loop P ind ret ((off + ret) mod BLOCK P) (Suc f) br (?pos div BLOCK P) (?pos mod BLOCK P) fs out
        = read_loop P ind ret ((off + ret) mod BLOCK P) f (br + n) (?pos div BLOCK P + 1) 0 fs
            (out @ List.map (byte_at P fs ind) [?pos..<?pos + n])"
      using True r(3,4) mapped_get[OF b] chunk_bytes[OF b r(3)]
      by (subst read_loop.simps) (auto simp: Let_def full_def[symmetric] n_def[symmetric])
    have app: "[?pos..<?pos + n] @ [off + (br + n)..<off + ret] = [?pos..<off + ret]"
      using upt_split[of ?pos "?pos + n" "off + ret"] r(2) by (simp add: add.assoc)
    show ?thesis
    proof (cases "br + n < ret")
      case False
      then have "br + n = ret" using r(2) by simp
      then show ?thesis unfolding step by (subst read_loop.simps) (simp add: add.assoc)
    next
      case True
      have "(off + (br + n)) div BLOCK P = ?pos div BLOCK P + 1" "(off + (br + n)) mod BLOCK P = 0"
        using r(5)[OF True] by (simp_all add: add.assoc)
      then show ?thesis unfolding step
        using Suc.IH[of "br + n" "out @ List.map (byte_at P fs ind) [?pos..<?pos + n]"] r(1) True Suc.prems app
        by (simp add: map_append[symmetric] del: map_append)
    qed
  qed
qed

lemma read_data_ok:
  assumes "BLOCK P + count < 2 ^ 64" and "off + count < 2 ^ 64"
  shows "case get_inode P fs path of
      None \<Rightarrow> read_data P now fs path count off = Inr (Inl ENOENT, off, fs)
    | Some i \<Rightarrow> file_ok P fs (inode_root fs ! i) m \<longrightarrow> filesize (inode_root fs ! i) \<le> m * BLOCK P \<longrightarrow>
        (let bs = take count (drop off (contents P fs (inode_root fs ! i))) in
         \<exists>fs'. read_data P now fs path count off = Inr (Inr bs, off + length bs, fs')
           \<and> (fs' = fs \<or> fs' = set_inode i (\<lambda>ind. ind\<lparr>atim := now\<rparr>) fs))"
proof (cases "get_inode P fs path")
  case None
  then show ?thesis by (simp add: read_data_def)
next
  case (Some i)
  let ?ind = "inode_root fs ! i"
  let ?bs = "take count (drop off (contents P fs ?ind))"
  have "\<exists>fs'. read_data P now fs path count off = Inr (Inr ?bs, off + length ?bs, fs')
      \<and> (fs' = fs \<or> fs' = set_inode i (\<lambda>ind. ind\<lparr>atim := now\<rparr>) fs)"
    if F: "file_ok P fs ?ind m" and sz: "filesize ?ind \<le> m * BLOCK P"
  proof (cases "filesize ?ind < off")
    case True
    then show ?thesis using Some by (simp add: read_data_def contents_def)
  next
    case False
    let ?ret = "if count > filesize ?ind - off then filesize ?ind - off else count"
    have ret: "off + ?ret \<le> filesize ?ind" "?ret \<le> count" using False by auto
    have u: "u64 (off + ?ret) = off + ?ret" using assms(2) ret(2) by (simp add: u64_def)
    have "read_loop P ?ind ?ret ((off + ?ret) mod BLOCK P) ?ret 0 (off div BLOCK P) (off mod BLOCK P) fs []
        = Inr (List.map (byte_at P fs ?ind) [off..<off + ?ret])"
      using read_loop_ok[OF F, of off ?ret 0 ?ret "[]"] ret sz assms(1) by simp
    moreover have "List.map (byte_at P fs ?ind) [off..<off + ?ret] = ?bs"
      using False by (simp add: contents_def drop_map take_map)
    ultimately show ?thesis using Some False u
      by (simp add: read_data_def Let_def contents_def)
  qed
  then show ?thesis using Some by (simp add: Let_def)
qed

text \<open>
  Reading a file whose size is covered by its blocks returns exactly the bytes of its contents
  from the offset on, as many as asked for or as there are, advances the offset by that number, sets
  the access time and changes nothing else. At or behind the end it returns none, and a path without
  an inode gives \<open>ENOENT\<close>.
\<close>

theorem read_data_correct:
  assumes "BLOCK P + count < 2 ^ 64" and "off + count < 2 ^ 64"
  shows "case get_inode P fs path of
      None \<Rightarrow> read_data P now fs path count off = Inr (Inl ENOENT, off, fs)
    | Some i \<Rightarrow> file_ok P fs (inode_root fs ! i) m \<longrightarrow> filesize (inode_root fs ! i) \<le> m * BLOCK P \<longrightarrow>
        (let bs = take count (drop off (contents P fs (inode_root fs ! i))) in
         \<exists>fs'. read_data P now fs path count off = Inr (Inr bs, off + length bs, fs')
           \<and> (fs' = fs \<or> fs' = set_inode i (\<lambda>ind. ind\<lparr>atim := now\<rparr>) fs))"
  by (rule read_data_ok[OF assms])

section \<open>Writing a block of a file\<close>

definition put_block :: "file_system \<Rightarrow> nat \<Rightarrow> byte list \<Rightarrow> file_system" where
  "put_block fs b blk = fs\<lparr>data_root := (data_root fs)[b := blk]\<rparr>"

lemma put_block_fields [simp]:
  "inode_root (put_block fs b blk) = inode_root fs" "data_map (put_block fs b blk) = data_map fs"
  "length (data_root (put_block fs b blk)) = length (data_root fs)"
  by (simp_all add: put_block_def)

lemma block_number_put:
  "int b \<noteq> indirect ind \<Longrightarrow> block_number P (put_block fs b blk) ind k = block_number P fs ind k"
  by (auto simp: block_number_def get_block_def put_block_def nth_list_update)

lemma mapped_put:
  assumes "int b \<noteq> indirect ind" and "length blk = BLOCK P" and "length (data_root fs ! b) = BLOCK P"
  shows "mapped P (put_block fs b blk) ind k c \<longleftrightarrow> mapped P fs ind k c"
proof (cases "b = c")
  case True
  then show ?thesis using assms by (auto simp: mapped_def block_number_put) (simp_all add: put_block_def)
next
  case False
  then show ?thesis using assms by (simp add: mapped_def block_number_put) (simp add: put_block_def)
qed

lemma length_splice [simp]: "at + length bs \<le> length blk \<Longrightarrow> length (splice blk at bs) = length blk"
  by (simp add: splice_def)

lemma nth_splice:
  "at + length bs \<le> length blk \<Longrightarrow> j < length blk \<Longrightarrow> splice blk at bs ! j
     = (if at \<le> j \<and> j < at + length bs then bs ! (j - at) else blk ! j)"
  by (auto simp: splice_def nth_append)

lemma write_block:
  assumes F: "file_ok P fs ind m" and k: "k < m" and b: "mapped P fs ind k b" "int b \<noteq> indirect ind"
    and fit: "at + length bs \<le> BLOCK P"
  defines "fs' \<equiv> put_block fs b (splice (data_root fs ! b) at bs)"
  shows "file_ok P fs' ind m" and "\<And>l c. mapped P fs' ind l c \<longleftrightarrow> mapped P fs ind l c"
    and "\<And>p. p < m * BLOCK P \<Longrightarrow> byte_at P fs' ind p
          = (if k * BLOCK P + at \<le> p \<and> p < k * BLOCK P + at + length bs then bs ! (p - (k * BLOCK P + at))
             else byte_at P fs ind p)"
proof -
  have lb: "length (data_root fs ! b) = BLOCK P" "b < length (data_root fs)" using b(1) by (simp_all add: mapped_def)
  have ls: "length (splice (data_root fs ! b) at bs) = BLOCK P" using lb fit by simp
  note mp = mapped_put[OF b(2) ls lb(1), folded fs'_def]
  show "mapped P fs' ind l c \<longleftrightarrow> mapped P fs ind l c" for l c by (rule mp)
  show "file_ok P fs' ind m" using F unfolding file_ok_def mp .
  fix p assume p: "p < m * BLOCK P"
  let ?q = "p div BLOCK P" and ?r = "p mod BLOCK P"
  have B: "0 < BLOCK P" using F by (simp add: file_ok_def)
  have r: "?r < BLOCK P" using B by simp
  have pq: "p = ?q * BLOCK P + ?r" by simp
  obtain c where c: "mapped P fs ind ?q c" using in_file[OF F p] by blast
  have q: "?q < m" using p by (simp add: less_mult_imp_div_less)
  have new: "byte_at P fs' ind p = data_root fs' ! c ! ?r"
    using byte_at_mapped[of P fs' ind ?q c ?r] c r mp by simp
  have old: "byte_at P fs ind p = data_root fs ! c ! ?r" using byte_at_mapped[OF c r] by simp
  show "byte_at P fs' ind p
      = (if k * BLOCK P + at \<le> p \<and> p < k * BLOCK P + at + length bs then bs ! (p - (k * BLOCK P + at))
         else byte_at P fs ind p)"
  proof (cases "?q = k")
    case True
    then have cb: "c = b" using c b(1) by (simp add: mapped_def)
    have e: "p = k * BLOCK P + ?r" using pq True by simp
    have "data_root fs' ! c ! ?r = (if at \<le> ?r \<and> ?r < at + length bs then bs ! (?r - at) else data_root fs ! b ! ?r)"
      using cb lb fit r by (simp add: fs'_def put_block_def nth_splice)
    then have "byte_at P fs' ind p = (if at \<le> ?r \<and> ?r < at + length bs then bs ! (?r - at) else byte_at P fs ind p)"
      using new old cb by simp
    moreover have "k * BLOCK P + at \<le> p \<longleftrightarrow> at \<le> ?r" "p < k * BLOCK P + at + length bs \<longleftrightarrow> ?r < at + length bs"
      "p - (k * BLOCK P + at) = ?r - at" using e by linarith+
    ultimately show ?thesis by simp
  next
    case False
    have cb: "c \<noteq> b"
    proof
      assume "c = b"
      then have "mapped P fs ind ?q b" using c by simp
      then show False using F q k b(1) False unfolding file_ok_def by blast
    qed
    have out: "\<not> (k * BLOCK P + at \<le> p \<and> p < k * BLOCK P + at + length bs)"
    proof
      assume "k * BLOCK P + at \<le> p \<and> p < k * BLOCK P + at + length bs"
      then have "k * BLOCK P \<le> p" "p < (k + 1) * BLOCK P" using fit by (simp_all add: algebra_simps)
      then have "?q = k" by (metis Suc_eq_plus1 div_nat_eqI mult.commute)
      then show False using False by simp
    qed
    show ?thesis unfolding if_not_P[OF out] using new old cb by (simp add: fs'_def put_block_def)
  qed
qed

text \<open>Bytes \<open>lo\<close> to \<open>hi\<close> of the buffer are in the file, and nothing else has changed.\<close>

definition written :: "fsys \<Rightarrow> inode \<Rightarrow> nat \<Rightarrow> nat \<Rightarrow> byte list \<Rightarrow> nat \<Rightarrow> nat \<Rightarrow> file_system \<Rightarrow> file_system \<Rightarrow> bool" where
  "written P ind m off buf lo hi fs fs' \<longleftrightarrow> inode_root fs' = inode_root fs \<and> data_map fs' = data_map fs
     \<and> length (data_root fs') = length (data_root fs) \<and> file_ok P fs' ind m
     \<and> (\<forall>k c. mapped P fs' ind k c \<longleftrightarrow> mapped P fs ind k c)
     \<and> (\<forall>p < m * BLOCK P. byte_at P fs' ind p
          = (if off + lo \<le> p \<and> p < off + hi then buf ! (p - off) else byte_at P fs ind p))
     \<and> (\<forall>c. (\<forall>k < m. \<not> mapped P fs ind k c) \<longrightarrow> data_root fs' ! c = data_root fs ! c)"

lemma written_refl: "file_ok P fs ind m \<Longrightarrow> written P ind m off buf hi hi fs fs"
  by (auto simp: written_def)

lemma written_trans:
  assumes "written P ind m off buf lo mid fs fs1" and "written P ind m off buf mid hi fs1 fs2" and "lo \<le> mid" and "mid \<le> hi"
  shows "written P ind m off buf lo hi fs fs2"
  using assms unfolding written_def by auto

lemma write_round:
  assumes F: "file_ok P fs ind m" and e: "off + count \<le> m * BLOCK P" and l: "br + n \<le> count" "count \<le> length buf"
    and fit: "(off + br) mod BLOCK P + n \<le> BLOCK P" and go: "br < count"
  obtains b where "mapped P fs ind ((off + br) div BLOCK P) b"
    and "written P ind m off buf br (br + n) fs
      (put_block fs b (splice (data_root fs ! b) ((off + br) mod BLOCK P) (take n (drop br buf))))"
proof -
  let ?pos = "off + br" and ?bs = "take n (drop br buf)"
  have pm: "?pos < m * BLOCK P" using go e by simp
  have k: "?pos div BLOCK P < m" using pm by (simp add: less_mult_imp_div_less)
  obtain b where b: "mapped P fs ind (?pos div BLOCK P) b" "int b \<noteq> indirect ind" using in_file[OF F pm] by blast
  let ?fs = "put_block fs b (splice (data_root fs ! b) (?pos mod BLOCK P) ?bs)"
  have lb: "length ?bs = n" using l by simp
  then have fit': "?pos mod BLOCK P + length ?bs \<le> BLOCK P" using fit by simp
  note w = write_block[OF F k b fit']
  have "?bs ! (p - ?pos) = buf ! (p - off)" if "?pos \<le> p" "p < ?pos + n" for p using that l by simp
  then have "byte_at P ?fs ind p = (if ?pos \<le> p \<and> p < ?pos + n then buf ! (p - off) else byte_at P fs ind p)"
    if "p < m * BLOCK P" for p
    using w(3)[OF that] lb by (auto simp: add.assoc)
  moreover have "data_root ?fs ! c = data_root fs ! c" if "\<forall>k < m. \<not> mapped P fs ind k c" for c
  proof -
    have "c \<noteq> b" using that k b(1) by blast
    then show ?thesis by (simp add: put_block_def)
  qed
  ultimately have "written P ind m off buf br (br + n) fs ?fs" using w(1,2) by (simp add: written_def add.assoc)
  then show ?thesis using that b(1) by blast
qed

lemma write_loop_written:
  assumes e: "off + count \<le> m * BLOCK P" and big: "count + BLOCK P < 2 ^ 64" and l: "count \<le> length buf"
  shows "file_ok P fs (inode_root fs ! i) m \<Longrightarrow> br \<le> count \<Longrightarrow> count - br \<le> fuel \<Longrightarrow>
    \<exists>fs'. write_loop P i buf count ((off + count) mod BLOCK P) fuel br
        ((off + br) div BLOCK P) ((off + br) mod BLOCK P) fs = Inr fs' \<and> written P (inode_root fs ! i) m off buf br count fs fs'"
proof (induction fuel arbitrary: br fs)
  case 0
  then show ?case using written_refl by (auto simp: write_loop.simps)
next
  case (Suc f)
  let ?ind = "inode_root fs ! i" and ?pos = "off + br" and ?loop = "write_loop P i buf count ((off + count) mod BLOCK P)"
  show ?case
  proof (cases "br < count")
    case False
    then show ?thesis using Suc.prems written_refl by (auto simp: write_loop.simps)
  next
    case True
    have B: "0 < BLOCK P" using Suc.prems(1) by (simp add: file_ok_def)
    define full where "full = (u64 (br + BLOCK P - ?pos mod BLOCK P) \<le> count)"
    define n where "n = (if full then BLOCK P - ?pos mod BLOCK P else (off + count) mod BLOCK P - ?pos mod BLOCK P)"
    note r = round_arith[OF B True big, of off, folded full_def, folded n_def]
    obtain b where b: "mapped P fs ?ind (?pos div BLOCK P) b" and w: "written P ?ind m off buf br (br + n) fs
        (put_block fs b (splice (data_root fs ! b) (?pos mod BLOCK P) (take n (drop br buf))))"
      by (rule write_round[OF Suc.prems(1) e r(2) l r(3) True])
    let ?fs = "put_block fs b (splice (data_root fs ! b) (?pos mod BLOCK P) (take n (drop br buf)))"
    have step: "?loop (Suc f) br (?pos div BLOCK P) (?pos mod BLOCK P) fs = ?loop f (br + n) (?pos div BLOCK P + 1) 0 ?fs"
      using True r(2,3,4) mapped_get[OF b] l
      by (subst write_loop.simps) (auto simp: Let_def full_def[symmetric] n_def[symmetric] put_block_def)
    show ?thesis
    proof (cases "br + n < count")
      case False
      then have en: "br + n = count" using r(2) by simp
      then show ?thesis unfolding step using w by (simp add: write_loop.simps)
    next
      case True
      have d: "(off + (br + n)) div BLOCK P = ?pos div BLOCK P + 1" "(off + (br + n)) mod BLOCK P = 0"
        using r(5)[OF True] by (simp_all add: add.assoc)
      have "file_ok P ?fs (inode_root ?fs ! i) m" "count - (br + n) \<le> f" using w r(1) Suc.prems(3) by (simp_all add: written_def)
      then obtain fs' where "?loop f (br + n) (?pos div BLOCK P + 1) 0 ?fs = Inr fs'" "written P ?ind m off buf (br + n) count ?fs fs'"
        using Suc.IH[of ?fs "br + n"] True unfolding d by auto
      then show ?thesis unfolding step using written_trans[OF w] True by auto
    qed
  qed
qed

lemma write_loop_ok:
  assumes "off + count \<le> m * BLOCK P" and "count + BLOCK P < 2 ^ 64" and "count \<le> length buf"
    and "file_ok P fs (inode_root fs ! i) m" and "br \<le> count" and "count - br \<le> fuel"
  shows "\<exists>fs'. write_loop P i buf count ((off + count) mod BLOCK P) fuel br
        ((off + br) div BLOCK P) ((off + br) mod BLOCK P) fs = Inr fs'
      \<and> inode_root fs' = inode_root fs \<and> data_map fs' = data_map fs
      \<and> length (data_root fs') = length (data_root fs) \<and> file_ok P fs' (inode_root fs ! i) m
      \<and> (\<forall>p < m * BLOCK P. byte_at P fs' (inode_root fs ! i) p
          = (if off + br \<le> p \<and> p < off + count then buf ! (p - off) else byte_at P fs (inode_root fs ! i) p))
      \<and> (\<forall>c. (\<forall>k < m. \<not> mapped P fs (inode_root fs ! i) k c) \<longrightarrow> data_root fs' ! c = data_root fs ! c)"
  using write_loop_written[OF assms] by (auto simp: written_def)

definition only_file_changed :: "fsys \<Rightarrow> nat \<Rightarrow> nat \<Rightarrow> file_system \<Rightarrow> file_system \<Rightarrow> bool" where
  \<comment> \<open>\<open>fs'\<close> differs from \<open>fs\<close> at most in the data blocks, the size and the times of file \<open>i\<close>\<close>
  "only_file_changed P i m fs fs' \<longleftrightarrow> data_map fs' = data_map fs
     \<and> length (data_root fs') = length (data_root fs)
     \<and> (\<forall>c. (\<forall>k < m. \<not> mapped P fs (inode_root fs ! i) k c) \<longrightarrow> data_root fs' ! c = data_root fs ! c)
     \<and> (\<exists>s a t. inode_root fs' = (inode_root fs)[i := (inode_root fs ! i)\<lparr>filesize := s, atim := a, mtim := t\<rparr>])"

lemma block_number_size [simp]:
  "block_number P fs (ind\<lparr>filesize := s, atim := a, mtim := t\<rparr>) k = block_number P fs ind k"
  by (simp add: block_number_def)

lemma byte_at_size [simp]:
  "byte_at P fs (ind\<lparr>filesize := s, atim := a, mtim := t\<rparr>) p = byte_at P fs ind p"
  by (simp add: byte_at_def)

lemma set_inode_data:
  "data_root (set_inode i f fs) = data_root fs" "data_map (set_inode i f fs) = data_map fs"
  "block_number P (set_inode i f fs) ind k = block_number P fs ind k"
  "byte_at P (set_inode i f fs) ind p = byte_at P fs ind p"
  by (simp_all add: set_inode_def block_number_def byte_at_def get_block_def)

lemma file_ok_size [simp]:
  "file_ok P (set_inode i f fs) (ind\<lparr>filesize := s, atim := a, mtim := t\<rparr>) m = file_ok P fs ind m"
  by (simp add: file_ok_def mapped_def set_inode_data)

definition blocks_needed :: "fsys \<Rightarrow> nat \<Rightarrow> nat" where
  "blocks_needed P n = (if n mod BLOCK P \<noteq> 0 then n div BLOCK P + 1 else n div BLOCK P)"

lemma minixfs_write_correct_aux:
  assumes g: "get_inode P fs path = Some i"
    and lim: "off + count \<le> (NUM_DIRECT_BLOCKS P + NUM_INDIRECT_BLOCKS P) * BLOCK P"
    and big: "off + count < 2 ^ 64" "count + BLOCK P < 2 ^ 64" and l: "count \<le> length buf"
    and mb: "minixfs_min_blockcount P fs path (blocks_needed P (off + count)) = (r, fs2)" "r \<noteq> - 1"
    and i: "i < length (inode_root fs2)" and F: "file_ok P fs2 (inode_root fs2 ! i) m"
    and m: "off + count \<le> m * BLOCK P" "filesize (inode_root fs2 ! i) \<le> m * BLOCK P"
  shows "\<exists>fs'. minixfs_write P now fs path buf count off = Inr (Inr count, off + count, fs')
    \<and> only_file_changed P i m fs2 fs' \<and> file_ok P fs' (inode_root fs' ! i) m
    \<and> contents P fs' (inode_root fs' ! i) = List.map
        (\<lambda>p. if off \<le> p \<and> p < off + count then buf ! (p - off) else byte_at P fs2 (inode_root fs2 ! i) p)
        [0..<max (filesize (inode_root fs2 ! i)) (off + count)]"
proof -
  let ?ind = "inode_root fs2 ! i"
  have u: "u64 (off + count) = off + count" using big(1) by (simp add: u64_def)
  obtain fs3 where w: "write_loop P i buf count ((off + count) mod BLOCK P) count 0 (off div BLOCK P)
        (off mod BLOCK P) fs2 = Inr fs3"
    "inode_root fs3 = inode_root fs2" "data_map fs3 = data_map fs2"
    "length (data_root fs3) = length (data_root fs2)" "file_ok P fs3 ?ind m"
    "\<forall>p < m * BLOCK P. byte_at P fs3 ?ind p
        = (if off \<le> p \<and> p < off + count then buf ! (p - off) else byte_at P fs2 ?ind p)"
    "\<forall>c. (\<forall>k < m. \<not> mapped P fs2 ?ind k c) \<longrightarrow> data_root fs3 ! c = data_root fs2 ! c"
    using write_loop_ok[OF m(1) big(2) l F, of 0 count] by auto
  let ?size = "if off + count > filesize ?ind then off + count else filesize ?ind"
  let ?f = "\<lambda>ind. ind\<lparr>filesize := (if off + count > filesize ind then off + count else filesize ind), atim := now, mtim := now\<rparr>"
  let ?fs = "set_inode i ?f fs3"
  have run: "minixfs_write P now fs path buf count off = Inr (Inr count, off + count, ?fs)"
    using g lim mb w(1) unfolding minixfs_write_def u Let_def blocks_needed_def by simp
  have ir: "inode_root ?fs = (inode_root fs2)[i := ?ind\<lparr>filesize := ?size, atim := now, mtim := now\<rparr>]"
    using w(2) by (simp add: set_inode_def)
  then have ii: "inode_root ?fs ! i = ?ind\<lparr>filesize := ?size, atim := now, mtim := now\<rparr>" using i by simp
  have "only_file_changed P i m fs2 ?fs"
    unfolding only_file_changed_def ir using w(3,4,7)
    by (intro conjI exI[of _ ?size] exI[of _ now]) (auto simp: set_inode_data)
  moreover have "file_ok P ?fs (inode_root ?fs ! i) m" unfolding ii by (simp add: w(5))
  moreover have "contents P ?fs (inode_root ?fs ! i) = List.map
        (\<lambda>p. if off \<le> p \<and> p < off + count then buf ! (p - off) else byte_at P fs2 ?ind p)
        [0..<max (filesize ?ind) (off + count)]"
  proof -
    have "filesize (inode_root ?fs ! i) = max (filesize ?ind) (off + count)" unfolding ii by simp
    moreover have "max (filesize ?ind) (off + count) \<le> m * BLOCK P" using m by simp
    ultimately show ?thesis
      unfolding contents_def using w(6) by (auto simp: ii set_inode_data)
  qed
  ultimately show ?thesis using run by blast
qed

text \<open>
  C25: a write to an existing file that fits the limits, once the helper has provided its blocks, stores
  exactly the bytes of the buffer from the offset on, across direct and indirect blocks, keeps every
  other byte of the file, grows the size to the end of the write when that is further, returns the
  number of bytes and advances the offset; no block, inode or map entry of another file changes.
\<close>

theorem minixfs_write_correct:
  assumes g: "get_inode P fs path = Some i"
    and lim: "off + count \<le> (NUM_DIRECT_BLOCKS P + NUM_INDIRECT_BLOCKS P) * BLOCK P"
    and big: "off + count < 2 ^ 64" "count + BLOCK P < 2 ^ 64" and l: "count \<le> length buf"
    and mb: "minixfs_min_blockcount P fs path (blocks_needed P (off + count)) = (r, fs2)" "r \<noteq> - 1"
    and i: "i < length (inode_root fs2)" and F: "file_ok P fs2 (inode_root fs2 ! i) m"
    and m: "off + count \<le> m * BLOCK P" "filesize (inode_root fs2 ! i) \<le> m * BLOCK P"
  shows "\<exists>fs'. minixfs_write P now fs path buf count off = Inr (Inr count, off + count, fs')
    \<and> only_file_changed P i m fs2 fs' \<and> file_ok P fs' (inode_root fs' ! i) m
    \<and> contents P fs' (inode_root fs' ! i) = List.map
        (\<lambda>p. if off \<le> p \<and> p < off + count then buf ! (p - off) else byte_at P fs2 (inode_root fs2 ! i) p)
        [0..<max (filesize (inode_root fs2 ! i)) (off + count)]"
  by (rule minixfs_write_correct_aux[OF g lim big l mb i F m])

lemma contents_splice:
  assumes "contents P fs' ind' = List.map
      (\<lambda>p. if off \<le> p \<and> p < off + count then buf ! (p - off) else g p) [0..<max n (off + count)]"
    and "count \<le> length buf"
  shows "take count (drop off (contents P fs' ind')) = take count buf"
  unfolding assms(1) using assms(2)
  by (intro nth_equalityI) (auto simp: drop_map take_map)

text \<open>
  C26: what was written is what is read back: a read of the same path, offset and length after the write,
  when the path still names the inode, returns exactly the bytes written, also for a write behind the
  old end of the file.
\<close>

theorem minixfs_write_then_read:
  assumes g: "get_inode P fs path = Some i"
    and lim: "off + count \<le> (NUM_DIRECT_BLOCKS P + NUM_INDIRECT_BLOCKS P) * BLOCK P"
    and big: "off + count < 2 ^ 64" "count + BLOCK P < 2 ^ 64" and l: "count \<le> length buf"
    and mb: "minixfs_min_blockcount P fs path (blocks_needed P (off + count)) = (r, fs2)" "r \<noteq> - 1"
    and i: "i < length (inode_root fs2)" and F: "file_ok P fs2 (inode_root fs2 ! i) m"
    and m: "off + count \<le> m * BLOCK P" "filesize (inode_root fs2 ! i) \<le> m * BLOCK P"
    and same: "\<And>fs'. only_file_changed P i m fs2 fs' \<Longrightarrow> get_inode P fs' path = Some i"
    and v: "is_virtual_path P path = None"
  shows "\<exists>fs' fs''. minixfs_write P now fs path buf count off = Inr (Inr count, off + count, fs')
    \<and> minixfs_read P now' fs' path count off = Inr (Inr (take count buf), off + count, fs'')"
proof -
  obtain fs' where w: "minixfs_write P now fs path buf count off = Inr (Inr count, off + count, fs')"
    "only_file_changed P i m fs2 fs'" "file_ok P fs' (inode_root fs' ! i) m"
    "contents P fs' (inode_root fs' ! i) = List.map
        (\<lambda>p. if off \<le> p \<and> p < off + count then buf ! (p - off) else byte_at P fs2 (inode_root fs2 ! i) p)
        [0..<max (filesize (inode_root fs2 ! i)) (off + count)]"
    using minixfs_write_correct_aux[OF g lim big l mb i F m] by blast
  have bs: "take count (drop off (contents P fs' (inode_root fs' ! i))) = take count buf"
    by (rule contents_splice[OF w(4) l])
  have "length (contents P fs' (inode_root fs' ! i)) = max (filesize (inode_root fs2 ! i)) (off + count)"
    by (simp add: w(4))
  then have "filesize (inode_root fs' ! i) \<le> m * BLOCK P" using m by (simp add: contents_def)
  then obtain fs'' where "read_data P now' fs' path count off
      = Inr (Inr (take count buf), off + length (take count buf), fs'')"
    using read_data_ok[where P = P and count = count and off = off and fs = fs' and path = path and m = m and now = now'] w(3) same[OF w(2)] big bs by (auto simp: Let_def add.commute)
  then show ?thesis using w(1) v l by (auto simp: minixfs_read_def)
qed

section \<open>The virtual file\<close>

definition info_text :: "fsys \<Rightarrow> file_system \<Rightarrow> string" where
  "info_text P fs = ''Free blocks: '' @ show_int (DATA_NUMBER P - used_blocks fs) @ newline
      @ ''Used blocks: '' @ show_int (used_blocks fs) @ newline"

lemma used_blocks_count: "used_blocks fs = int (length (filter (\<lambda>b. b = 1) (data_map fs)))"
proof -
  have "fold (\<lambda>b n. if b = 1 then n + 1 else n) xs k = k + int (length (filter (\<lambda>b. b = 1) xs))"
    for xs :: "byte list" and k :: int by (induction xs arbitrary: k) auto
  then show ?thesis by (simp add: used_blocks_def)
qed

lemma info_string: "block_info_string P (used_blocks fs) = cstring (info_text P fs)" "NUL \<notin> set (info_text P fs)"
  using NUL_decimal by (auto simp: block_info_string_def info_text_def show_int_def newline_def NUL_def)

text \<open>
  A read of the virtual file returns the bytes of the information text that were asked for when they
  end within it, and none behind its end. When fewer are left, the code takes the length of the whole
  text instead of what is left: at offset 0 that is right, at offset 1 the result also holds the
  terminator, and from offset 2 on the copy runs over the end of the string's memory.
\<close>

theorem minixfs_virtual_read_overruns:
  "(count \<le> length (info_text P fs) - off \<and> off \<le> length (info_text P fs) \<longrightarrow>
      minixfs_virtual_read P fs ''info'' count off
        = Inr (Inr (take count (drop off (info_text P fs))), off + count))
   \<and> (length (info_text P fs) < off \<longrightarrow> minixfs_virtual_read P fs ''info'' count off = Inr (Inr [], off))
   \<and> (length (info_text P fs) < count \<longrightarrow>
      minixfs_virtual_read P fs ''info'' count 0 = Inr (Inr (info_text P fs), length (info_text P fs)))
   \<and> (length (info_text P fs) - 1 < count \<longrightarrow>
      minixfs_virtual_read P fs ''info'' count 1
        = Inr (Inr (drop 1 (info_text P fs) @ [NUL]), Suc (length (info_text P fs))))
   \<and> (2 \<le> off \<and> off \<le> length (info_text P fs) \<and> length (info_text P fs) - off < count \<longrightarrow>
      minixfs_virtual_read P fs ''info'' count off = Inl Out_Of_Bounds)"
proof -
  let ?s = "info_text P fs"
  have len: "c_strlen (cstring ?s) = Inr (length ?s)" using info_string(2) by (simp add: c_strlen_def)
  have tk: "List.map the_val (take n (drop off (cstring ?s))) = take n (drop off (?s @ [NUL]))" for n off
    by (simp add: cstring_def take_map[symmetric] drop_map[symmetric] comp_def del: map_append)
  have cp: "copy_bytes (cstring ?s) off n = (if Suc (length ?s) < off + n then Inl Out_Of_Bounds
      else Inr (take n (drop off (?s @ [NUL]))))" for off n
    by (simp add: copy_bytes_def tk)
  have run: "minixfs_virtual_read P fs ''info'' count off = (if off > length ?s then Inr (Inr [], off)
      else let ret = (if count > length ?s - off then length ?s else count) in
           rbind (copy_bytes (cstring ?s) off ret) (\<lambda>bs. Inr (Inr bs, off + ret)))" for off
    by (simp add: minixfs_virtual_read_def Let_def info_string(1) len)
  have "0 < length ?s" by (simp add: info_text_def)
  then obtain k where k: "length ?s = Suc k" by (cases "length ?s") simp_all
  show ?thesis unfolding run cp by (auto simp: Let_def k)
qed

section \<open>Permissions and owners\<close>

text \<open>
  \<open>chmod\<close> with permission bits replaces the low nine bits of the mode and keeps the file type,
  \<open>chown\<close> sets the owner and the group it is given and keeps one that is -1; both set the change time,
  leave everything else and answer \<open>ENOENT\<close> for a path without an inode. Bits of the new permissions
  above the low nine are not masked: they go into the file type.
\<close>

theorem minixfs_chmod_chown_correct:
  fixes perms :: "32 word"
  shows "case get_inode P fs path of
      None \<Rightarrow> minixfs_chmod P now fs path perms = (Inl ENOENT, fs)
        \<and> minixfs_chown P now fs path owner grp = (Inl ENOENT, fs)
    | Some i \<Rightarrow>
        (\<exists>md. minixfs_chmod P now fs path perms = (Inr 0, set_inode i (\<lambda>ind. ind\<lparr>mode := md, ctim := now\<rparr>) fs)
           \<and> (\<forall>k < 16. bit md k \<longleftrightarrow> bit perms k \<or> 9 \<le> k \<and> bit (mode (inode_root fs ! i)) k))
      \<and> minixfs_chown P now fs path owner grp = (Inr 0, set_inode i (\<lambda>ind. ind\<lparr>
           uid := (if owner = - 1 then uid ind else owner), gid := (if grp = - 1 then gid ind else grp), ctim := now\<rparr>) fs)"
proof (cases "get_inode P fs path")
  case None
  then show ?thesis by (simp add: minixfs_chmod_def minixfs_chown_def)
next
  case (Some i)
  let ?m = "ucast ((ucast (mode (inode_root fs ! i)) AND 0xfe00) OR perms) :: 16 word"
  have mask: "(0xfe00 :: 32 word) = push_bit 9 (mask 7)" by (simp add: mask_eq_exp_minus_1)
  have b: "bit ?m k \<longleftrightarrow> bit perms k \<or> 9 \<le> k \<and> bit (mode (inode_root fs ! i)) k" if "k < 16" for k
    unfolding mask using that by (auto simp: bit_simps)
  have same: "set_inode i f fs = set_inode i g fs" if "f (inode_root fs ! i) = g (inode_root fs ! i)" for f g
    using that by (simp add: set_inode_def)
  have twice: "set_inode i f (set_inode i g fs) = set_inode i (\<lambda>x. f (g x)) fs" for f g
    by (cases "i < length (inode_root fs)") (simp_all add: set_inode_def list_update_beyond)
  have "minixfs_chmod P now fs path perms = (Inr 0, set_inode i (\<lambda>ind. ind\<lparr>mode := ?m, ctim := now\<rparr>) fs)"
    using Some by (simp add: minixfs_chmod_def) (rule same, simp)
  moreover have "minixfs_chown P now fs path owner grp = (Inr 0, set_inode i (\<lambda>ind. ind\<lparr>
      uid := (if owner = - 1 then uid ind else owner), gid := (if grp = - 1 then gid ind else grp), ctim := now\<rparr>) fs)"
    using Some by (simp add: minixfs_chown_def Let_def twice)
  ultimately show ?thesis using Some b by auto
qed

section \<open>Creation\<close>

text \<open>
  Creating an inode answers \<open>NULL\<close> and changes nothing when the path exists, when no inode is free
  or when the name is not valid. When the last block of the parent directory has room, the entry is
  written behind the others, the parent's size grows by one entry and no other byte changes. When the
  parent directory has no direct block left, the answer is \<open>NULL\<close>, but the free inode has been
  initialised by then and stays so.
\<close>

theorem minixfs_create_inode_cases:
  assumes "first_unused_inode P fs = indn" and "parent_directory P fs path = (Some p, filename)"
  defines "fs1 \<equiv> init_inode P (Some p) (nat indn) fs"
  defines "sz \<equiv> filesize (inode_root fs1 ! p)"
  defines "entry \<equiv> dirent_bytes P indn filename"
  shows "(get_inode P fs path \<noteq> None \<or> indn = - 1 \<or> \<not> valid_filename P filename
      \<longrightarrow> minixfs_create_inode_for_path P fs path = Inr (None, fs))
    \<and> (get_inode P fs path = None \<and> indn \<noteq> - 1 \<and> valid_filename P filename \<longrightarrow>
        (NUM_DIRECT_BLOCKS P \<le> sz div BLOCK P
           \<longrightarrow> minixfs_create_inode_for_path P fs path = Inr (None, fs1))
      \<and> (sz div BLOCK P < NUM_DIRECT_BLOCKS P \<longrightarrow> sz mod BLOCK P \<noteq> 0
           \<longrightarrow> sz mod BLOCK P + FILE_NAME_ENTRY P \<le> BLOCK P \<longrightarrow> length entry = FILE_NAME_ENTRY P
           \<longrightarrow> p < length (inode_root fs1) \<longrightarrow> sz div BLOCK P < length (direct (inode_root fs1 ! p))
           \<longrightarrow> direct (inode_root fs1 ! p) ! (sz div BLOCK P) = int b \<longrightarrow> b < length (data_root fs1)
           \<longrightarrow> length (data_root fs1 ! b) = BLOCK P
           \<longrightarrow> (\<exists>fs2. minixfs_create_inode_for_path P fs path = Inr (Some (nat indn), fs2)
                 \<and> filesize (inode_root fs2 ! p) = sz + FILE_NAME_ENTRY P
                 \<and> take (FILE_NAME_ENTRY P) (drop (sz mod BLOCK P) (data_root fs2 ! b)) = entry
                 \<and> take (sz mod BLOCK P) (data_root fs2 ! b) = take (sz mod BLOCK P) (data_root fs1 ! b)
                 \<and> (\<forall>c. c \<noteq> b \<longrightarrow> data_root fs2 ! c = data_root fs1 ! c))))"
proof (intro conjI impI)
  assume "get_inode P fs path \<noteq> None \<or> indn = - 1 \<or> \<not> valid_filename P filename"
  then show "minixfs_create_inode_for_path P fs path = Inr (None, fs)"
    using assms(1,2) by (auto simp: minixfs_create_inode_for_path_def)
next
  assume "get_inode P fs path = None \<and> indn \<noteq> - 1 \<and> valid_filename P filename"
    and "NUM_DIRECT_BLOCKS P \<le> sz div BLOCK P"
  then show "minixfs_create_inode_for_path P fs path = Inr (None, fs1)"
    using assms(1,2) by (simp add: minixfs_create_inode_for_path_def Let_def fs1_def sz_def)
next
  let ?ind = "inode_root fs1 ! p" and ?at = "sz mod BLOCK P"
  assume ok: "get_inode P fs path = None \<and> indn \<noteq> - 1 \<and> valid_filename P filename"
    and d: "sz div BLOCK P < NUM_DIRECT_BLOCKS P" "?at \<noteq> 0" "?at + FILE_NAME_ENTRY P \<le> BLOCK P"
    and e: "length entry = FILE_NAME_ENTRY P" and p: "p < length (inode_root fs1)"
    and b: "sz div BLOCK P < length (direct ?ind)" "direct ?ind ! (sz div BLOCK P) = int b"
      "b < length (data_root fs1)" "length (data_root fs1 ! b) = BLOCK P"
  let ?fs2 = "set_inode p (\<lambda>ind. ind\<lparr>filesize := filesize ind + FILE_NAME_ENTRY P\<rparr>)
          (put_block fs1 b (splice (data_root fs1 ! b) ?at entry))"
  have off: "sz - sz div BLOCK P * BLOCK P = ?at" by (simp add: minus_div_mult_eq_mod)
  have "write_dirent P p (sz div BLOCK P) ?at entry fs1 = Inr ?fs2"
    using b d e by (simp add: write_dirent_def Let_def get_block_def put_block_def)
  then have "minixfs_create_inode_for_path P fs path = Inr (Some (nat indn), ?fs2)"
    using ok d assms(1,2) off unfolding minixfs_create_inode_for_path_def Let_def
    by (simp add: fs1_def[symmetric] sz_def[symmetric] entry_def[symmetric])
  moreover have "filesize (inode_root ?fs2 ! p) = sz + FILE_NAME_ENTRY P"
    using p by (simp add: set_inode_def sz_def)
  moreover have "data_root ?fs2 ! b = splice (data_root fs1 ! b) ?at entry"
    using b(3) by (simp add: set_inode_data put_block_def)
  moreover have "\<forall>c. c \<noteq> b \<longrightarrow> data_root ?fs2 ! c = data_root fs1 ! c"
    by (simp add: set_inode_data put_block_def)
  moreover have "take ?at (splice (data_root fs1 ! b) ?at entry) = take ?at (data_root fs1 ! b)"
    "take (FILE_NAME_ENTRY P) (drop ?at (splice (data_root fs1 ! b) ?at entry)) = entry"
    using b(4) d(3) e by (simp_all add: splice_def min_absorb2)
  ultimately show "\<exists>fs2. minixfs_create_inode_for_path P fs path = Inr (Some (nat indn), fs2)
      \<and> filesize (inode_root fs2 ! p) = sz + FILE_NAME_ENTRY P
      \<and> take (FILE_NAME_ENTRY P) (drop ?at (data_root fs2 ! b)) = entry
      \<and> take ?at (data_root fs2 ! b) = take ?at (data_root fs1 ! b)
      \<and> (\<forall>c. c \<noteq> b \<longrightarrow> data_root fs2 ! c = data_root fs1 ! c)"
    by (intro exI[of _ ?fs2]) simp
qed

section \<open>An instance\<close>

definition small_fsys :: fsys where
  \<comment> \<open>blocks of four bytes, two direct and two indirect ones, one file whose blocks exist\<close>
  "small_fsys = \<lparr>DATA_NUMBER = 5, NUM_DIRECT_BLOCKS = 2, NUM_INDIRECT_BLOCKS = 2, BLOCK = 4, FILE_NAME_ENTRY = 2,
     get_inode = \<lambda>fs path. if path = ''f'' then Some 0 else None, first_unused_inode = \<lambda>fs. 1,
     parent_directory = \<lambda>fs path. (Some 0, path), valid_filename = \<lambda>name. name \<noteq> [],
     init_inode = \<lambda>parent i fs. fs, add_data_block_to_inode = \<lambda>i fs. fs, dirent_bytes = \<lambda>i name. [of_int i, 0],
     minixfs_min_blockcount = \<lambda>fs path n. (0, fs), is_virtual_path = \<lambda>path. None,
     number_at = \<lambda>blk k. uint (blk ! k)\<rparr>"

definition small_fs :: file_system where
  "small_fs = \<lparr>inode_root = [\<lparr>mode = 0x1A4, uid = 0, gid = 0, filesize = 7, direct = [0, 1], indirect = 2,
       atim = 0, mtim = 0, ctim = 0\<rparr>],
     data_root = [[1, 2, 3, 4], [5, 6, 7, 0], [3, 4, 0, 0], [0, 0, 0, 0], [0, 0, 0, 0]],
     data_map = [1, 1, 1, 1, 1]\<rparr>"

lemma less_4: "k < 4 \<longleftrightarrow> k = 0 \<or> k = 1 \<or> k = 2 \<or> k = (3 :: nat)"
  by linarith

lemma small_block_number:
  "block_number small_fsys small_fs (inode_root small_fs ! 0) k
     = (if k = 0 then Inr 0 else if k = 1 then Inr 1 else if k = 2 then Inr 3 else if k = 3 then Inr 4
        else Inl Out_Of_Bounds)"
proof -
  consider "k = 0" | "k = 1" | "k = 2" | "k = 3" | "4 \<le> k" by linarith
  then show ?thesis
    by cases (simp_all add: block_number_def small_fsys_def small_fs_def get_block_def)
qed

lemma small_mapped:
  "mapped small_fsys small_fs (inode_root small_fs ! 0) k b
     \<longleftrightarrow> (k = 0 \<and> b = 0) \<or> (k = 1 \<and> b = 1) \<or> (k = 2 \<and> b = 3) \<or> (k = 3 \<and> b = 4)"
  unfolding mapped_def small_block_number by (auto simp: small_fsys_def small_fs_def)

lemma small_file_ok: "file_ok small_fsys small_fs (inode_root small_fs ! 0) 4"
  unfolding file_ok_def small_mapped less_4 by (auto simp: small_fsys_def small_fs_def)

lemma small_premises:
  "get_inode small_fsys small_fs ''f'' = Some 0"
  "6 + 7 \<le> (NUM_DIRECT_BLOCKS small_fsys + NUM_INDIRECT_BLOCKS small_fsys) * BLOCK small_fsys"
  "minixfs_min_blockcount small_fsys small_fs ''f'' n = (0, small_fs)"
  "0 < length (inode_root small_fs)" "6 + 7 \<le> 4 * BLOCK small_fsys" "7 + BLOCK small_fsys < 2 ^ 64"
  "filesize (inode_root small_fs ! 0) \<le> 4 * BLOCK small_fsys" "is_virtual_path small_fsys ''f'' = None"
  by (simp_all add: small_fsys_def small_fs_def)

theorem read_data_correct_witness:
  "\<exists>fs'. read_data small_fsys 9 small_fs ''f'' 3 2
     = Inr (Inr (take 3 (drop 2 (contents small_fsys small_fs (inode_root small_fs ! 0)))), 5, fs')"
proof -
  have "BLOCK small_fsys + 3 < 2 ^ 64" "(2 :: nat) + 3 < 2 ^ 64" by (simp_all add: small_fsys_def)
  from read_data_correct[OF this, where fs = small_fs and path = "''f''" and m = 4 and now = 9]
    small_premises(1,7) small_file_ok
  show ?thesis by (auto simp: Let_def contents_def small_fs_def)
qed

theorem minixfs_write_correct_witness:
  "\<exists>fs'. minixfs_write small_fsys 9 small_fs ''f'' [21, 22, 23, 24, 25, 26, 27] 7 6 = Inr (Inr 7, 13, fs')
     \<and> drop 6 (contents small_fsys fs' (inode_root fs' ! 0)) = [21, 22, 23, 24, 25, 26, 27]"
proof -
  let ?buf = "[21, 22, 23, 24, 25, 26, 27] :: byte list"
  have l: "7 \<le> length ?buf" "(6 :: nat) + 7 < 2 ^ 64" "(0 :: int) \<noteq> - 1" by simp_all
  obtain fs' where w: "minixfs_write small_fsys 9 small_fs ''f'' ?buf 7 6 = Inr (Inr 7, 6 + 7, fs')"
    "contents small_fsys fs' (inode_root fs' ! 0) = List.map
        (\<lambda>p. if 6 \<le> p \<and> p < 6 + 7 then ?buf ! (p - 6) else byte_at small_fsys small_fs (inode_root small_fs ! 0) p)
        [0..<max (filesize (inode_root small_fs ! 0)) (6 + 7)]"
    using minixfs_write_correct[OF small_premises(1,2) l(2) small_premises(6) l(1) small_premises(3) l(3)
        small_premises(4) small_file_ok small_premises(5,7), of 9] by blast
  have "take 7 (drop 6 (contents small_fsys fs' (inode_root fs' ! 0))) = ?buf"
    using contents_splice[OF w(2) l(1)] by simp
  moreover have "length (contents small_fsys fs' (inode_root fs' ! 0)) = 13"
    unfolding w(2) by (simp add: small_fs_def)
  ultimately show ?thesis using w(1) by simp
qed

theorem minixfs_write_then_read_witness:
  "\<exists>fs' fs''. minixfs_write small_fsys 9 small_fs ''f'' [21, 22, 23, 24, 25, 26, 27] 7 6 = Inr (Inr 7, 13, fs')
     \<and> minixfs_read small_fsys 10 fs' ''f'' 7 6 = Inr (Inr [21, 22, 23, 24, 25, 26, 27], 13, fs'')"
proof -
  let ?buf = "[21, 22, 23, 24, 25, 26, 27] :: byte list"
  have l: "7 \<le> length ?buf" "(6 :: nat) + 7 < 2 ^ 64" "(0 :: int) \<noteq> - 1" by simp_all
  have g: "get_inode small_fsys fs' ''f'' = Some 0" for fs' by (simp add: small_fsys_def)
  show ?thesis
    using minixfs_write_then_read[OF small_premises(1,2) l(2) small_premises(6) l(1) small_premises(3) l(3)
        small_premises(4) small_file_ok small_premises(5,7) g small_premises(8), of 9 10] by simp
qed

theorem minixfs_virtual_read_overruns_witness:
  "minixfs_virtual_read small_fsys small_fs ''info'' 100 2 = Inl Out_Of_Bounds"
proof -
  have "length (info_text small_fsys small_fs) \<le> 100" "2 \<le> length (info_text small_fsys small_fs)"
    by (simp_all add: info_text_def small_fsys_def small_fs_def used_blocks_def show_int_def newline_def
        decimal.simps)
  then show ?thesis using minixfs_virtual_read_overruns[of 100 small_fsys small_fs 2] by simp
qed

theorem minixfs_chmod_chown_correct_witness:
  "fst (minixfs_chown small_fsys 9 small_fs ''f'' 5 (- 1)) = Inr 0"
  using minixfs_chmod_chown_correct[where P = small_fsys and fs = small_fs and path = "''f''" and now = 9
      and owner = 5 and grp = "- 1"] small_premises(1) by simp

theorem minixfs_create_inode_cases_witness:
  "\<exists>fs2. minixfs_create_inode_for_path small_fsys (set_inode 0 (\<lambda>ind. ind\<lparr>filesize := 6\<rparr>) small_fs) ''new''
       = Inr (Some 1, fs2) \<and> filesize (inode_root fs2 ! 0) = 8 \<and> take 2 (drop 2 (data_root fs2 ! 1)) = [1, 0]
     \<and> take 2 (data_root fs2 ! 1) = [5, 6]"
proof -
  let ?fs = "set_inode 0 (\<lambda>ind. ind\<lparr>filesize := 6\<rparr>) small_fs"
  have "first_unused_inode small_fsys ?fs = 1" "parent_directory small_fsys ?fs ''new'' = (Some 0, ''new'')"
    by (simp_all add: small_fsys_def)
  from minixfs_create_inode_cases[OF this, of 1]
  show ?thesis by (auto simp: small_fsys_def small_fs_def set_inode_def)
qed

end
