(* ===== verification/Minixfs_Session.thy ===== *)
theory Minixfs_Session
  imports Minixfs
begin

text \<open>
  A file system over a whole session. \<open>fs_sound\<close> says when the arrays of \<open>Minixfs\<close> hold a file
  system: every inode has its direct blocks, no file is longer than its blocks can be, the blocks of a
  file exist, and no block belongs to two files or is the indirect block of one. The calls of
  \<^verbatim>\<open>finding_filesystems/minixfs.c\<close> are the steps of a relation; they keep a sound file system
  sound, and in a sound file system reading and writing never leave an array or a block.
\<close>

section \<open>A sound file system\<close>

abbreviation inode_at :: "file_system \<Rightarrow> nat \<Rightarrow> inode" where
  "inode_at fs i \<equiv> inode_root fs ! i"

definition blocks :: "fsys \<Rightarrow> file_system \<Rightarrow> nat \<Rightarrow> nat" where
  "blocks P fs i = blocks_needed P (filesize (inode_at fs i))"

definition max_size :: "fsys \<Rightarrow> nat" where
  "max_size P = (NUM_DIRECT_BLOCKS P + NUM_INDIRECT_BLOCKS P) * BLOCK P"

definition sound_file :: "fsys \<Rightarrow> file_system \<Rightarrow> nat \<Rightarrow> nat \<Rightarrow> bool" where
  \<comment> \<open>the first \<open>m\<close> blocks of file \<open>i\<close> are its own: neither indirect blocks nor those of another file\<close>
  "sound_file P fs i m \<longleftrightarrow> file_ok P fs (inode_at fs i) m
     \<and> (\<forall>k < m. \<forall>b. mapped P fs (inode_at fs i) k b \<longrightarrow> (\<forall>j < length (inode_root fs).
          int b \<noteq> indirect (inode_at fs j) \<and> (j \<noteq> i \<longrightarrow> (\<forall>l < blocks P fs j. \<not> mapped P fs (inode_at fs j) l b))))"

definition fs_sound :: "fsys \<Rightarrow> file_system \<Rightarrow> bool" where
  "fs_sound P fs \<longleftrightarrow> 0 < BLOCK P \<and> inode_root fs \<noteq> []
     \<and> (\<forall>i < length (inode_root fs). length (direct (inode_at fs i)) = NUM_DIRECT_BLOCKS P
          \<and> filesize (inode_at fs i) \<le> max_size P \<and> sound_file P fs i (blocks P fs i))"

lemma fs_soundD:
  assumes "fs_sound P fs" and "i < length (inode_root fs)"
  shows "0 < BLOCK P" and "length (direct (inode_at fs i)) = NUM_DIRECT_BLOCKS P"
    and "filesize (inode_at fs i) \<le> max_size P" and "sound_file P fs i (blocks P fs i)"
  using assms by (simp_all add: fs_sound_def)

lemma blocks_needed_mono: "a \<le> b \<Longrightarrow> 0 < BLOCK P \<Longrightarrow> blocks_needed P a \<le> blocks_needed P b"
proof -
  assume a: "a \<le> b" "0 < BLOCK P"
  have "a div BLOCK P \<le> b div BLOCK P" using a(1) by (rule div_le_mono)
  moreover have "a div BLOCK P < b div BLOCK P" if "a mod BLOCK P \<noteq> 0" "b mod BLOCK P = 0"
  proof (rule ccontr)
    assume "\<not> a div BLOCK P < b div BLOCK P"
    then have "b = a div BLOCK P * BLOCK P" using calculation that(2) mult_div_mod_eq[of "BLOCK P" b] by (simp add: mult.commute)
    then show False using a(1) that(1) div_mult_mod_eq[of a "BLOCK P"] by linarith
  qed
  ultimately show ?thesis by (auto simp: blocks_needed_def)
qed

lemma blocks_needed_covers:
  assumes "0 < BLOCK P"
  shows "n \<le> blocks_needed P n * BLOCK P"
proof -
  have "n = n div BLOCK P * BLOCK P + n mod BLOCK P" by simp
  moreover have "n mod BLOCK P < BLOCK P" using assms by simp
  ultimately have "n \<le> n div BLOCK P * BLOCK P + BLOCK P" by linarith
  then show ?thesis by (auto simp: blocks_needed_def)
qed

lemma blocks_needed_le: "n \<le> m * BLOCK P \<Longrightarrow> 0 < BLOCK P \<Longrightarrow> blocks_needed P n \<le> m"
  using blocks_needed_mono[of n "m * BLOCK P" P] by (simp add: blocks_needed_def)

lemma sound_file_cong:
  assumes "length (inode_root fs') = length (inode_root fs)"
    and "\<And>j. j < length (inode_root fs) \<Longrightarrow> indirect (inode_at fs' j) = indirect (inode_at fs j)"
    and "\<And>j. j < length (inode_root fs) \<Longrightarrow> filesize (inode_at fs' j) = filesize (inode_at fs j)"
    and "\<And>j k b. j < length (inode_root fs) \<Longrightarrow> mapped P fs' (inode_at fs' j) k b = mapped P fs (inode_at fs j) k b"
    and "i < length (inode_root fs)"
  shows "sound_file P fs' i m = sound_file P fs i m"
  using assms by (auto simp: sound_file_def file_ok_def blocks_def)

lemma fs_sound_cong:
  assumes l: "length (inode_root fs') = length (inode_root fs)"
    and d: "\<And>j. j < length (inode_root fs) \<Longrightarrow> indirect (inode_at fs' j) = indirect (inode_at fs j)
        \<and> filesize (inode_at fs' j) = filesize (inode_at fs j) \<and> length (direct (inode_at fs' j)) = length (direct (inode_at fs j))"
    and mp: "\<And>j k b. j < length (inode_root fs) \<Longrightarrow> k < blocks P fs j
        \<Longrightarrow> mapped P fs' (inode_at fs' j) k b = mapped P fs (inode_at fs j) k b"
  shows "fs_sound P fs' = fs_sound P fs"
proof -
  have bl: "blocks P fs' j = blocks P fs j" if "j < length (inode_root fs)" for j
    using d[OF that] by (simp add: blocks_def)
  have "sound_file P fs' i (blocks P fs i) = sound_file P fs i (blocks P fs i)" if i: "i < length (inode_root fs)" for i
    unfolding sound_file_def file_ok_def using l d mp bl i by (simp cong: conj_cong)
  moreover have "inode_root fs' = [] \<longleftrightarrow> inode_root fs = []" using l by (metis length_0_conv)
  ultimately show ?thesis unfolding fs_sound_def using l d bl by auto
qed

lemma mapped_inode:
  "direct ind' = direct ind \<Longrightarrow> indirect ind' = indirect ind \<Longrightarrow> data_root fs' = data_root fs
    \<Longrightarrow> mapped P fs' ind' k b = mapped P fs ind k b"
  by (simp add: mapped_def block_number_def get_block_def)

lemma node_set_inode:
  "inode_at (set_inode i f fs) j = (if j = i \<and> i < length (inode_root fs) then f (inode_at fs i) else inode_at fs j)"
  by (auto simp: set_inode_def nth_list_update list_update_beyond)

lemma length_set_inode [simp]: "length (inode_root (set_inode i f fs)) = length (inode_root fs)"
  by (simp add: set_inode_def)

lemma set_inode_Nil [simp]: "inode_root (set_inode i f fs) = [] \<longleftrightarrow> inode_root fs = []"
  by (simp add: set_inode_def)

lemma fs_sound_set_inode:
  assumes "\<And>ind. direct (f ind) = direct ind" "\<And>ind. indirect (f ind) = indirect ind"
    "\<And>ind. filesize (f ind) = filesize ind"
  shows "fs_sound P (set_inode i f fs) = fs_sound P fs"
proof (intro fs_sound_cong)
  show "mapped P (set_inode i f fs) (inode_at (set_inode i f fs) j) k b = mapped P fs (inode_at fs j) k b" for j k b
    by (rule mapped_inode) (simp_all add: node_set_inode assms set_inode_data)
qed (simp_all add: node_set_inode assms)

lemma sound_put_block:
  assumes b: "\<And>j. j < length (inode_root fs) \<Longrightarrow> int b \<noteq> indirect (inode_at fs j)"
    and l: "length blk = BLOCK P" "length (data_root fs ! b) = BLOCK P"
  shows "fs_sound P (put_block fs b blk) = fs_sound P fs"
    and "i < length (inode_root fs) \<Longrightarrow> sound_file P (put_block fs b blk) i m = sound_file P fs i m"
proof -
  have mp: "mapped P (put_block fs b blk) (inode_at fs j) k c = mapped P fs (inode_at fs j) k c"
    if "j < length (inode_root fs)" for j k c
    using mapped_put[OF b[OF that] l] .
  show "fs_sound P (put_block fs b blk) = fs_sound P fs"
    by (rule fs_sound_cong) (simp_all add: mp)
  show "sound_file P (put_block fs b blk) i m = sound_file P fs i m" if "i < length (inode_root fs)"
    by (rule sound_file_cong) (simp_all add: mp that)
qed

lemma file_ok_mono: "file_ok P fs ind m \<Longrightarrow> n \<le> m \<Longrightarrow> file_ok P fs ind n"
  unfolding file_ok_def by (meson less_le_trans)

lemma sound_file_mono: "sound_file P fs i m \<Longrightarrow> n \<le> m \<Longrightarrow> sound_file P fs i n"
  unfolding sound_file_def using file_ok_mono by (meson less_le_trans)

lemma sound_file_inode:
  \<comment> \<open>the size of the file itself does not matter for the file\<close>
  assumes "length (inode_root fs') = length (inode_root fs)" and "data_root fs' = data_root fs"
    and "\<And>j. j < length (inode_root fs) \<Longrightarrow> direct (inode_at fs' j) = direct (inode_at fs j)
          \<and> indirect (inode_at fs' j) = indirect (inode_at fs j)"
    and "\<And>j. j < length (inode_root fs) \<Longrightarrow> j \<noteq> i \<Longrightarrow> filesize (inode_at fs' j) = filesize (inode_at fs j)"
    and i: "i < length (inode_root fs)"
  shows "sound_file P fs' i m = sound_file P fs i m"
proof -
  have "mapped P fs' (inode_at fs' j) k b = mapped P fs (inode_at fs j) k b" if "j < length (inode_root fs)" for j k b
    using assms(2,3) that by (intro mapped_inode) simp_all
  then show ?thesis
    using assms(1,3,4) i by (auto simp: sound_file_def file_ok_def blocks_def)
qed

lemma fs_sound_grow:
  assumes S: "fs_sound P fs" and i: "i < length (inode_root fs)" and M: "sound_file P fs i m"
    and f: "\<And>ind. direct (f ind) = direct ind" "\<And>ind. indirect (f ind) = indirect ind"
    and s: "filesize (f (inode_at fs i)) \<le> max_size P" "blocks_needed P (filesize (f (inode_at fs i))) \<le> m"
  shows "fs_sound P (set_inode i f fs)"
proof -
  let ?fs = "set_inode i f fs"
  have mp: "mapped P ?fs (inode_at ?fs j) k b = mapped P fs (inode_at fs j) k b" for j k b
    by (rule mapped_inode) (simp_all add: node_set_inode f set_inode_data)
  have bl: "blocks P ?fs j = (if j = i then blocks_needed P (filesize (f (inode_at fs i))) else blocks P fs j)" for j
    using i by (simp add: blocks_def node_set_inode)
  have own: "sound_file P ?fs i m"
    using M i by (subst sound_file_inode[of _ fs]) (simp_all add: node_set_inode f set_inode_data)
  have other: "sound_file P ?fs j (blocks P fs j)" if j: "j < length (inode_root fs)" "j \<noteq> i" for j
  proof -
    have old: "sound_file P fs j (blocks P fs j)" using fs_soundD(4)[OF S j(1)] .
    have "\<not> mapped P fs (inode_at fs i) l b" if "k < blocks P fs j" "mapped P fs (inode_at fs j) k b" "l < m" for k l b
      using M j that unfolding sound_file_def by blast
    then have own': "\<forall>l < blocks P ?fs i. \<not> mapped P fs (inode_at fs i) l b"
      if "k < blocks P fs j" "mapped P fs (inode_at fs j) k b" for k b
      using that less_le_trans[OF _ s(2)] by (simp add: bl)
    have same: "indirect (inode_at ?fs l) = indirect (inode_at fs l)" for l by (simp add: node_set_inode f)
    have "file_ok P ?fs (inode_at ?fs j) (blocks P fs j)"
      using old unfolding sound_file_def file_ok_def mp same by blast
    moreover have "\<not> mapped P fs (inode_at fs l) n b"
      if "k < blocks P fs j" "mapped P fs (inode_at fs j) k b" "l < length (inode_root fs)" "l \<noteq> j" "n < blocks P ?fs l"
      for k b l n
      using old own'[OF that(1,2)] that unfolding sound_file_def by (cases "l = i") (auto simp: bl)
    ultimately show ?thesis
      using old unfolding sound_file_def mp same length_set_inode by blast
  qed
  have "sound_file P ?fs j (blocks P ?fs j)" if "j < length (inode_root fs)" for j
    using other[OF that] sound_file_mono[OF own s(2)] by (cases "j = i") (simp_all add: bl)
  then show ?thesis
    using S s(1) unfolding fs_sound_def length_set_inode
    by (auto simp: node_set_inode f)
qed

section \<open>Writing keeps it sound\<close>

lemma only_file_changed_fields:
  assumes "only_file_changed P i m fs fs'"
  obtains s a t where "fs' = set_inode i (\<lambda>ind. ind\<lparr>filesize := s, atim := a, mtim := t\<rparr>)
      (fs\<lparr>data_root := data_root fs'\<rparr>)"
proof -
  obtain s a t where "inode_root fs' = (inode_root fs)[i := (inode_at fs i)\<lparr>filesize := s, atim := a, mtim := t\<rparr>]"
    "data_map fs' = data_map fs"
    using assms by (auto simp: only_file_changed_def)
  then have "fs' = set_inode i (\<lambda>ind. ind\<lparr>filesize := s, atim := a, mtim := t\<rparr>) (fs\<lparr>data_root := data_root fs'\<rparr>)"
    by (intro file_system.equality) (simp_all add: set_inode_def)
  then show ?thesis by (rule that)
qed

lemma only_file_changed_mapped:
  assumes M: "sound_file P fs i m" and C: "only_file_changed P i m fs fs'"
    and F: "file_ok P fs' (inode_at fs' i) m" and i: "i < length (inode_root fs)"
    and j: "j < length (inode_root fs)"
  defines "fs0 \<equiv> fs\<lparr>data_root := data_root fs'\<rparr>"
  shows "mapped P fs0 (inode_at fs j) k b = mapped P fs (inode_at fs j) k b"
proof -
  have same: "data_root fs' ! c = data_root fs ! c" if "\<forall>k < m. \<not> mapped P fs (inode_at fs i) k c" for c
    using C that by (simp add: only_file_changed_def)
  have len: "length (data_root fs') = length (data_root fs)" using C by (simp add: only_file_changed_def)
  have bn: "block_number P fs0 (inode_at fs l) k = block_number P fs (inode_at fs l) k" if l: "l < length (inode_root fs)" for l k
  proof -
    have "\<forall>k < m. \<not> mapped P fs (inode_at fs i) k (nat (indirect (inode_at fs l)))" if "0 \<le> indirect (inode_at fs l)"
      using M l that unfolding sound_file_def by (metis int_nat_eq)
    then have "get_block fs0 (indirect (inode_at fs l)) = get_block fs (indirect (inode_at fs l))"
      using same len by (auto simp: get_block_def fs0_def)
    then show ?thesis by (simp add: block_number_def)
  qed
  have "length (data_root fs' ! b) = BLOCK P \<longleftrightarrow> length (data_root fs ! b) = BLOCK P"
  proof (cases "\<exists>k < m. mapped P fs (inode_at fs i) k b")
    case True
    then obtain k where k: "k < m" "mapped P fs (inode_at fs i) k b" by blast
    obtain b' where b': "mapped P fs' (inode_at fs' i) k b'" using F k(1) unfolding file_ok_def by blast
    obtain s a t where e: "inode_at fs' i = (inode_at fs i)\<lparr>filesize := s, atim := a, mtim := t\<rparr>"
      using C i by (auto simp: only_file_changed_def)
    have "block_number P fs' (inode_at fs' i) k = block_number P fs0 (inode_at fs i) k"
      unfolding e by (simp add: block_number_def get_block_def fs0_def)
    then have "b' = b" using b' k(2) bn[OF i] by (simp add: mapped_def)
    then show ?thesis using b' k(2) by (simp add: mapped_def)
  next
    case False
    then show ?thesis using same by simp
  qed
  then show ?thesis using bn[OF j] len by (simp add: mapped_def fs0_def)
qed

lemma only_file_changed_sound:
  assumes S: "fs_sound P fs" and M: "sound_file P fs i m" and C: "only_file_changed P i m fs fs'"
    and F: "file_ok P fs' (inode_at fs' i) m" and i: "i < length (inode_root fs)"
    and s: "filesize (inode_at fs' i) \<le> max_size P" "blocks_needed P (filesize (inode_at fs' i)) \<le> m"
  shows "fs_sound P fs'"
proof -
  let ?fs = "fs\<lparr>data_root := data_root fs'\<rparr>"
  note mp = only_file_changed_mapped[OF M C F i]
  obtain sz a t where e: "fs' = set_inode i (\<lambda>ind. ind\<lparr>filesize := sz, atim := a, mtim := t\<rparr>) ?fs"
    using only_file_changed_fields[OF C] .
  have "inode_at fs' i = (inode_at fs i)\<lparr>filesize := sz, atim := a, mtim := t\<rparr>" by (subst e) (use i in \<open>simp add: node_set_inode\<close>)
  then have sz: "filesize (inode_at fs' i) = sz" by simp
  have "fs_sound P ?fs = fs_sound P fs" by (rule fs_sound_cong) (simp_all add: mp)
  moreover have "sound_file P ?fs i m = sound_file P fs i m" by (rule sound_file_cong) (simp_all add: mp i)
  ultimately show ?thesis
    by (subst e, intro fs_sound_grow[where m = m]) (use S M i s sz in simp_all)
qed

section \<open>The library\<close>

definition helpers_ok :: "fsys \<Rightarrow> bool" where
  \<comment> \<open>what the helpers of \<^verbatim>\<open>minixfs_utils.h\<close> do to a sound file system: lookups answer inodes of the
      table, blocks are added to one file only, and a block that could not be added is marked by a
      negative number\<close>
  "helpers_ok P \<longleftrightarrow> FILE_NAME_ENTRY P \<le> BLOCK P
     \<and> (\<forall>fs path i. fs_sound P fs \<longrightarrow> get_inode P fs path = Some i \<longrightarrow> i < length (inode_root fs))
     \<and> (\<forall>fs path p name. fs_sound P fs \<longrightarrow> parent_directory P fs path = (Some p, name) \<longrightarrow> p < length (inode_root fs))
     \<and> (\<forall>fs p i. fs_sound P fs \<longrightarrow> fs_sound P (init_inode P (Some p) i fs)
          \<and> length (inode_root (init_inode P (Some p) i fs)) = length (inode_root fs))
     \<and> (\<forall>fs p. fs_sound P fs \<longrightarrow> p < length (inode_root fs) \<longrightarrow>
          (let fs' = add_data_block_to_inode P p fs in fs_sound P fs' \<and> length (inode_root fs') = length (inode_root fs)
            \<and> filesize (inode_at fs' p) = filesize (inode_at fs p)
            \<and> (blocks P fs p < NUM_DIRECT_BLOCKS P \<longrightarrow> sound_file P fs' p (blocks P fs p + 1)
                 \<or> direct (inode_at fs' p) ! blocks P fs p < 0)))
     \<and> (\<forall>fs path n r fs2. fs_sound P fs \<longrightarrow> minixfs_min_blockcount P fs path n = (r, fs2) \<longrightarrow>
          fs_sound P fs2 \<and> length (inode_root fs2) = length (inode_root fs)
          \<and> (r \<noteq> - 1 \<longrightarrow> (\<forall>i. get_inode P fs path = Some i \<longrightarrow> sound_file P fs2 i (max n (blocks P fs2 i)))))"

lemma helpers_okD:
  assumes "helpers_ok P"
  shows "FILE_NAME_ENTRY P \<le> BLOCK P"
    and "fs_sound P fs \<Longrightarrow> get_inode P fs path = Some i \<Longrightarrow> i < length (inode_root fs)"
    and "fs_sound P fs \<Longrightarrow> parent_directory P fs path = (Some p, name) \<Longrightarrow> p < length (inode_root fs)"
    and "fs_sound P fs \<Longrightarrow> fs_sound P (init_inode P (Some p) n fs)"
    and "fs_sound P fs \<Longrightarrow> length (inode_root (init_inode P (Some p) n fs)) = length (inode_root fs)"
  using assms unfolding helpers_ok_def by blast+

definition transfer_ok :: "fsys \<Rightarrow> byte list \<Rightarrow> nat \<Rightarrow> nat \<Rightarrow> bool" where
  \<comment> \<open>the buffer holds \<open>count\<close> bytes and the sums fit 64 bits\<close>
  "transfer_ok P buf count off \<longleftrightarrow> count \<le> length buf \<and> off + count < 2 ^ 64 \<and> count + BLOCK P < 2 ^ 64"

lemma write_existing_sound:
  assumes H: "helpers_ok P" and S: "fs_sound P fs" and g: "get_inode P fs path = Some i"
    and t: "transfer_ok P buf count off"
  shows "\<exists>r off' fs'. minixfs_write P now fs path buf count off = Inr (r, off', fs') \<and> fs_sound P fs'"
proof (cases "off + count \<le> max_size P")
  case False
  then show ?thesis using t S by (simp add: minixfs_write_def u64_def max_size_def transfer_ok_def)
next
  case lim: True
  have B: "0 < BLOCK P" using S by (simp add: fs_sound_def)
  let ?n = "blocks_needed P (off + count)"
  obtain r fs2 where mb: "minixfs_min_blockcount P fs path ?n = (r, fs2)" by fastforce
  have S2: "fs_sound P fs2" "length (inode_root fs2) = length (inode_root fs)"
    "r \<noteq> - 1 \<Longrightarrow> sound_file P fs2 i (max ?n (blocks P fs2 i))"
    using H S mb g unfolding helpers_ok_def by blast+
  have i: "i < length (inode_root fs2)" using H S g S2(2) unfolding helpers_ok_def by metis
  show ?thesis
  proof (cases "r = - 1")
    case True
    have "minixfs_write P now fs path buf count off = Inr (Inl ENOSPC, off, fs2)"
      using g lim mb True t
      by (simp add: minixfs_write_def u64_def max_size_def transfer_ok_def Let_def blocks_needed_def)
    then show ?thesis using S2(1) by blast
  next
    case False
    let ?m = "max ?n (blocks P fs2 i)" and ?sz = "filesize (inode_at fs2 i)"
    note M = S2(3)[OF False]
    have F: "file_ok P fs2 (inode_at fs2 i) ?m" using M by (simp add: sound_file_def)
    have cover: "off + count \<le> ?m * BLOCK P" "?sz \<le> ?m * BLOCK P"
      using blocks_needed_covers[OF B, of "off + count"] blocks_needed_covers[OF B, of ?sz]
        mult_le_mono1[of ?n ?m "BLOCK P"] mult_le_mono1[of "blocks P fs2 i" ?m "BLOCK P"]
      unfolding blocks_def by linarith+
    have T: "off + count < 2 ^ 64" "count + BLOCK P < 2 ^ 64" "count \<le> length buf"
      using t by (simp_all add: transfer_ok_def)
    obtain fs' where w: "minixfs_write P now fs path buf count off = Inr (Inr count, off + count, fs')"
      "only_file_changed P i ?m fs2 fs'" "file_ok P fs' (inode_at fs' i) ?m"
      "length (contents P fs' (inode_at fs' i)) = max ?sz (off + count)"
      using minixfs_write_correct_aux[OF g lim[unfolded max_size_def] T mb False i F cover, of now] by auto
    have "filesize (inode_at fs' i) = max ?sz (off + count)" using w(4) by (simp add: contents_def)
    moreover have "max ?sz (off + count) \<le> max_size P" using fs_soundD(3)[OF S2(1) i] lim by simp
    moreover have "blocks_needed P (max ?sz (off + count)) \<le> ?m" by (simp add: blocks_def max_def)
    ultimately have "fs_sound P fs'" using only_file_changed_sound[OF S2(1) M w(2,3) i] by simp
    then show ?thesis using w(1) by blast
  qed
qed

section \<open>Creating keeps it sound\<close>

lemma write_dirent_sound:
  assumes S: "fs_sound P fs" and p: "p < length (inode_root fs)" and n: "n < NUM_DIRECT_BLOCKS P"
    and M: "sound_file P fs p (n + 1) \<or> direct (inode_at fs p) ! n < 0"
    and sz: "filesize (inode_at fs p) + FILE_NAME_ENTRY P \<le> (n + 1) * BLOCK P"
    and w: "write_dirent P p n offset bs fs = Inr fs'"
  shows "fs_sound P fs'"
proof -
  let ?b = "nat (direct (inode_at fs p) ! n)"
  have B: "0 < BLOCK P" using S by (simp add: fs_sound_def)
  have d: "length (direct (inode_at fs p)) = NUM_DIRECT_BLOCKS P" using fs_soundD(2)[OF S p] .
  have r: "0 \<le> direct (inode_at fs p) ! n" "?b < length (data_root fs)" "offset + length bs \<le> length (data_root fs ! ?b)"
    "fs' = set_inode p (\<lambda>ind. ind\<lparr>filesize := filesize ind + FILE_NAME_ENTRY P\<rparr>)
       (put_block fs ?b (splice (data_root fs ! ?b) offset bs))"
    using w n d by (auto simp: write_dirent_def Let_def get_block_def put_block_def split: if_splits)
  have M: "sound_file P fs p (n + 1)" using M r(1) by linarith
  have "\<exists>c. mapped P fs (inode_at fs p) n c" using M unfolding sound_file_def file_ok_def by simp blast
  then obtain c where "mapped P fs (inode_at fs p) n c" by blast
  moreover from this have "?b = c" using n d by (simp add: mapped_def block_number_def)
  ultimately have b: "mapped P fs (inode_at fs p) n ?b" by simp
  have nb: "int ?b \<noteq> indirect (inode_at fs j)" if "j < length (inode_root fs)" for j
    using M b that unfolding sound_file_def by (meson less_add_one)
  have lb: "length (data_root fs ! ?b) = BLOCK P" using b by (simp add: mapped_def)
  have ls: "length (splice (data_root fs ! ?b) offset bs) = BLOCK P" using r(3) lb by simp
  note put = sound_put_block[OF nb ls lb]
  have "(n + 1) * BLOCK P \<le> NUM_DIRECT_BLOCKS P * BLOCK P" using n by (intro mult_le_mono1) simp
  then have "filesize (inode_at fs p) + FILE_NAME_ENTRY P \<le> max_size P"
    using sz by (simp add: max_size_def add_mult_distrib)
  then show ?thesis
    unfolding r(4) by (intro fs_sound_grow[where m = "n + 1"])
      (use S M put p blocks_needed_le[OF sz B] in simp_all)
qed

lemma add_block_sound:
  assumes H: "helpers_ok P" and S: "fs_sound P fs" and p: "p < length (inode_root fs)"
    and n: "blocks P fs p = n" "n < NUM_DIRECT_BLOCKS P"
    and sz: "filesize (inode_at fs p) + FILE_NAME_ENTRY P \<le> (n + 1) * BLOCK P"
    and w: "write_dirent P p n offset bs (add_data_block_to_inode P p fs) = Inr fs'"
  shows "fs_sound P fs'"
proof (rule write_dirent_sound[OF _ _ n(2) _ _ w])
  show "fs_sound P (add_data_block_to_inode P p fs)" "p < length (inode_root (add_data_block_to_inode P p fs))"
    "sound_file P (add_data_block_to_inode P p fs) p (n + 1) \<or> direct (inode_at (add_data_block_to_inode P p fs) p) ! n < 0"
    "filesize (inode_at (add_data_block_to_inode P p fs) p) + FILE_NAME_ENTRY P \<le> (n + 1) * BLOCK P"
    using H S p n sz unfolding helpers_ok_def Let_def by auto
qed

lemma next_block_sound:
  \<comment> \<open>the entry does not fit behind \<open>at\<close>: the size is rounded up and a block is added\<close>
  assumes H: "helpers_ok P" and S: "fs_sound P fs" and p: "p < length (inode_root fs)"
    and sz: "filesize (inode_at fs p) = n * BLOCK P + at" "0 < at" "at < BLOCK P" "blocks P fs p = n + 1" "n + 1 < NUM_DIRECT_BLOCKS P"
    and w: "write_dirent P p (n + 1) 0 entry
      (add_data_block_to_inode P p (set_inode p (\<lambda>ind. ind\<lparr>filesize := filesize ind + (BLOCK P - at)\<rparr>) fs)) = Inr fs'"
  shows "fs_sound P fs'"
proof -
  let ?grown = "set_inode p (\<lambda>ind. ind\<lparr>filesize := filesize ind + (BLOCK P - at)\<rparr>) fs"
  have B: "0 < BLOCK P" "FILE_NAME_ENTRY P \<le> BLOCK P" using S helpers_okD(1)[OF H] by (simp_all add: fs_sound_def)
  have g: "filesize (inode_at ?grown p) = (n + 1) * BLOCK P" using p sz(1,3) by (simp add: node_set_inode)
  have "(n + 1) * BLOCK P \<le> NUM_DIRECT_BLOCKS P * BLOCK P" using sz(5) by (intro mult_le_mono1) simp
  then have "(n + 1) * BLOCK P \<le> max_size P" by (simp add: max_size_def add_mult_distrib)
  then have S2: "fs_sound P ?grown"
    using fs_sound_grow[OF S p fs_soundD(4)[OF S p]] sz by (simp add: blocks_needed_def)
  have "blocks P ?grown p = n + 1" unfolding blocks_def g blocks_needed_def using B(1) by simp
  then show ?thesis using add_block_sound[OF H S2 _ _ sz(5) _ w] p g B(2) by simp
qed

lemma create_sound:
  assumes H: "helpers_ok P" and S: "fs_sound P fs"
    and c: "minixfs_create_inode_for_path P fs path = Inr (r, fs')"
  shows "fs_sound P fs'"
proof -
  obtain parent name where pd: "parent_directory P fs path = (parent, name)" by fastforce
  consider "get_inode P fs path \<noteq> None \<or> first_unused_inode P fs = - 1 \<or> \<not> valid_filename P name"
    | "get_inode P fs path = None" "first_unused_inode P fs \<noteq> - 1" "valid_filename P name" by blast
  then show ?thesis
  proof cases
    case 1
    then have "fs' = fs" using c pd by (auto simp: minixfs_create_inode_for_path_def Let_def split: if_splits)
    then show ?thesis using S by simp
  next
    case go: 2
    then obtain p where Some: "parent = Some p"
      using c pd by (cases parent) (simp_all add: minixfs_create_inode_for_path_def Let_def)
    define fs1 where "fs1 = init_inode P (Some p) (nat (first_unused_inode P fs)) fs"
    define n where "n = filesize (inode_at fs1 p) div BLOCK P"
    define at where "at = filesize (inode_at fs1 p) mod BLOCK P"
    define entry where "entry = dirent_bytes P (first_unused_inode P fs) name"
    have B: "0 < BLOCK P" "FILE_NAME_ENTRY P \<le> BLOCK P" using S helpers_okD(1)[OF H] by (simp_all add: fs_sound_def)
    have S1: "fs_sound P fs1" "p < length (inode_root fs1)"
      using helpers_okD(4,5)[OF H S] helpers_okD(3)[OF H S pd[unfolded Some]] by (simp_all add: fs1_def)
    have sz: "filesize (inode_at fs1 p) = n * BLOCK P + at" "at < BLOCK P" using B by (simp_all add: n_def at_def)
    have bl: "blocks P fs1 p = (if at \<noteq> 0 then n + 1 else n)" by (simp add: blocks_def blocks_needed_def n_def at_def)
    let ?grown = "set_inode p (\<lambda>ind. ind\<lparr>filesize := filesize ind + (BLOCK P - at)\<rparr>) fs1"
    consider (none) "fs' = fs1"
      | (next_block) "at \<noteq> 0" "n + 1 < NUM_DIRECT_BLOCKS P"
          "write_dirent P p (n + 1) 0 entry (add_data_block_to_inode P p ?grown) = Inr fs'"
      | (room) "at \<noteq> 0" "at + FILE_NAME_ENTRY P \<le> BLOCK P" "n < NUM_DIRECT_BLOCKS P"
          "write_dirent P p n at entry fs1 = Inr fs'"
      | (full) "at = 0" "n < NUM_DIRECT_BLOCKS P"
          "write_dirent P p n at entry (add_data_block_to_inode P p fs1) = Inr fs'"
      using c go pd Some sz
      by (auto simp: minixfs_create_inode_for_path_def Let_def rbind_Inr_iff fs1_def[symmetric] n_def[symmetric]
          entry_def[symmetric] not_less split: if_splits)
    then show ?thesis
    proof cases
      case none
      then show ?thesis using S1(1) by simp
    next
      case room
      then show ?thesis
        using write_dirent_sound[OF S1 room(3) disjI1 _ room(4)] fs_soundD(4)[OF S1] sz bl by simp
    next
      case full
      then show ?thesis using add_block_sound[OF H S1 _ full(2) _ full(3)] sz bl B(2) by simp
    next
      case next_block
      then show ?thesis using next_block_sound[OF H S1 sz(1) _ sz(2) _ next_block(2,3)] bl by simp
    qed
  qed
qed

text \<open>
  The answer of \<^verbatim>\<open>add_data_block_to_inode\<close> is not looked at: when the parent directory ends at a block
  boundary and no block is free, the entry is written at a block number that is none.
\<close>

lemma create_on_full_disk_faults:
  assumes "get_inode P fs path = None" and "first_unused_inode P fs = int n" and "valid_filename P name"
    and "parent_directory P fs path = (Some p, name)" and "init_inode P (Some p) n fs = fs1"
    and "filesize (inode_at fs1 p) = k * BLOCK P" and "k < NUM_DIRECT_BLOCKS P" and "0 < BLOCK P"
    and "direct (inode_at (add_data_block_to_inode P p fs1) p) ! k < 0"
  shows "minixfs_create_inode_for_path P fs path = Inl Out_Of_Bounds"
  using assms by (simp add: minixfs_create_inode_for_path_def Let_def write_dirent_def get_block_def)

section \<open>Sessions\<close>

definition found :: "fsys \<Rightarrow> file_system \<Rightarrow> string \<Rightarrow> bool" where
  \<comment> \<open>a path that has just been created names its new inode\<close>
  "found P fs path \<longleftrightarrow> (\<forall>i fs1. get_inode P fs path = None
     \<longrightarrow> minixfs_create_inode_for_path P fs path = Inr (Some i, fs1) \<longrightarrow> get_inode P fs1 path = Some i)"

inductive fs_step :: "fsys \<Rightarrow> file_system \<Rightarrow> file_system \<Rightarrow> bool" for P where
  chmod_call: "minixfs_chmod P now fs path perms = (r, fs') \<Longrightarrow> fs_step P fs fs'"
| chown_call: "minixfs_chown P now fs path owner grp = (r, fs') \<Longrightarrow> fs_step P fs fs'"
| create_call: "minixfs_create_inode_for_path P fs path = Inr (r, fs') \<Longrightarrow> fs_step P fs fs'"
| write_call: "transfer_ok P buf count off \<Longrightarrow> found P fs path
    \<Longrightarrow> minixfs_write P now fs path buf count off = Inr (r, off', fs') \<Longrightarrow> fs_step P fs fs'"
| read_call: "minixfs_read P now fs path count off = Inr (r, off', fs') \<Longrightarrow> fs_step P fs fs'"

inductive fs_session :: "fsys \<Rightarrow> file_system \<Rightarrow> file_system \<Rightarrow> bool" for P where
  none: "fs_session P fs fs"
| call: "fs_session P fs fs1 \<Longrightarrow> fs_step P fs1 fs2 \<Longrightarrow> fs_session P fs fs2"

lemma write_new_path:
  \<comment> \<open>writing to a path without an inode is creating it and writing\<close>
  assumes "get_inode P fs path = None" and "\<not> (NUM_DIRECT_BLOCKS P + NUM_INDIRECT_BLOCKS P) * BLOCK P < u64 (off + count)"
    and "minixfs_create_inode_for_path P fs path = Inr (Some i, fs1)" and "get_inode P fs1 path = Some i"
  shows "minixfs_write P now fs path buf count off = minixfs_write P now fs1 path buf count off"
  using assms by (simp add: minixfs_write_def)

lemma write_sound:
  assumes H: "helpers_ok P" and S: "fs_sound P fs" and t: "transfer_ok P buf count off" and f: "found P fs path"
    and w: "minixfs_write P now fs path buf count off = Inr (r, off', fs')"
  shows "fs_sound P fs'"
proof (cases "get_inode P fs path")
  case (Some i)
  then show ?thesis using write_existing_sound[OF H S Some t, of now] w by auto
next
  case None
  show ?thesis
  proof (cases "(NUM_DIRECT_BLOCKS P + NUM_INDIRECT_BLOCKS P) * BLOCK P < u64 (off + count)")
    case True
    then show ?thesis using w S by (simp add: minixfs_write_def)
  next
    case False
    then obtain ind fs1 where c: "minixfs_create_inode_for_path P fs path = Inr (ind, fs1)"
      using w None by (auto simp: minixfs_write_def rbind_Inr_iff)
    have S1: "fs_sound P fs1" using create_sound[OF H S c] .
    show ?thesis
    proof (cases ind)
      case None
      then show ?thesis using w \<open>get_inode P fs path = None\<close> False c S1 by (simp add: minixfs_write_def)
    next
      case (Some i)
      then have g: "get_inode P fs1 path = Some i" using f None c by (simp add: found_def)
      show ?thesis
        using write_existing_sound[OF H S1 g t, of now] w write_new_path[OF None False c[unfolded Some] g] by auto
    qed
  qed
qed

lemma read_sound: "minixfs_read P now fs path count off = Inr (r, off', fs') \<Longrightarrow> fs_sound P fs \<Longrightarrow> fs_sound P fs'"
  by (auto simp: minixfs_read_def read_data_def Let_def rbind_Inr_iff fs_sound_set_inode split: option.splits if_splits)

lemma fs_step_sound:
  assumes "fs_step P fs fs'" and H: "helpers_ok P" and S: "fs_sound P fs"
  shows "fs_sound P fs'"
  using assms(1)
proof cases
  case chmod_call
  then show ?thesis using S by (auto simp: minixfs_chmod_def fs_sound_set_inode split: option.splits)
next
  case chown_call
  then show ?thesis using S by (auto simp: minixfs_chown_def Let_def fs_sound_set_inode split: option.splits if_splits)
next
  case create_call
  then show ?thesis by (rule create_sound[OF H S])
next
  case write_call
  then show ?thesis by (intro write_sound[OF H S])
next
  case read_call
  then show ?thesis by (rule read_sound[OF _ S])
qed

lemma fs_session_sound: "fs_session P fs fs' \<Longrightarrow> helpers_ok P \<Longrightarrow> fs_sound P fs \<Longrightarrow> fs_sound P fs'"
  by (induction rule: fs_session.induct) (auto intro: fs_step_sound)

lemma read_no_fault:
  assumes H: "helpers_ok P" and S: "fs_sound P fs" and v: "is_virtual_path P path = None"
    and t: "BLOCK P + count < 2 ^ 64" "off + count < 2 ^ 64"
  shows "\<exists>r. minixfs_read P now fs path count off = Inr r"
proof (cases "get_inode P fs path")
  case None
  then show ?thesis using v by (simp add: minixfs_read_def read_data_def)
next
  case (Some i)
  have i: "i < length (inode_root fs)" using helpers_okD(2)[OF H S Some] .
  have "file_ok P fs (inode_at fs i) (blocks P fs i)" using fs_soundD(4)[OF S i] by (simp add: sound_file_def)
  moreover have "filesize (inode_at fs i) \<le> blocks P fs i * BLOCK P"
    unfolding blocks_def using blocks_needed_covers[OF fs_soundD(1)[OF S i]] .
  ultimately show ?thesis
    using read_data_ok[OF t, where fs = fs and path = path and m = "blocks P fs i" and now = now] Some v by (auto simp: minixfs_read_def Let_def)
qed


section \<open>An instance\<close>

definition full_fsys :: fsys where
  \<comment> \<open>the sizes and the file of \<open>small_fsys\<close>, with a disk on which no block is free\<close>
  "full_fsys = small_fsys\<lparr>
     add_data_block_to_inode := \<lambda>p fs. set_inode p (\<lambda>ind. ind\<lparr>direct :=
       (direct ind)[blocks small_fsys fs p := - 1]\<rparr>) fs,
     minixfs_min_blockcount := \<lambda>fs path n. (if n \<le> blocks small_fsys fs 0 then 0 else - 1, fs)\<rparr>"

lemma full_fsys_simps [simp]:
  "BLOCK full_fsys = 4" "NUM_DIRECT_BLOCKS full_fsys = 2" "NUM_INDIRECT_BLOCKS full_fsys = 2"
  "FILE_NAME_ENTRY full_fsys = 2" "number_at full_fsys = (\<lambda>blk k. uint (blk ! k))"
  "blocks full_fsys = blocks small_fsys" "mapped full_fsys = mapped small_fsys"
  "get_inode full_fsys fs path = (if path = ''f'' then Some 0 else None)"
  "parent_directory full_fsys fs path = (Some 0, path)" "init_inode full_fsys parent i fs = fs"
  "is_virtual_path full_fsys path = None" "first_unused_inode full_fsys fs = 1"
  by (auto simp: full_fsys_def small_fsys_def blocks_def blocks_needed_def mapped_def block_number_def fun_eq_iff)

lemma mapped_direct:
  "direct ind' = (direct ind)[n := x] \<Longrightarrow> indirect ind' = indirect ind \<Longrightarrow> k \<noteq> n
    \<Longrightarrow> data_root fs' = data_root fs \<Longrightarrow> mapped P fs' ind' k b = mapped P fs ind k b"
  by (simp add: mapped_def block_number_def get_block_def)

lemma full_fsys_add:
  assumes S: "fs_sound full_fsys fs" and p: "p < length (inode_root fs)"
  defines "fs' \<equiv> add_data_block_to_inode full_fsys p fs"
  shows "fs_sound full_fsys fs'" and "length (inode_root fs') = length (inode_root fs)"
    and "filesize (inode_at fs' p) = filesize (inode_at fs p)"
    and "blocks small_fsys fs p < 2 \<Longrightarrow> direct (inode_at fs' p) ! blocks small_fsys fs p < 0"
proof -
  have e: "fs' = set_inode p (\<lambda>ind. ind\<lparr>direct := (direct ind)[blocks small_fsys fs p := - 1]\<rparr>) fs"
    by (simp add: fs'_def full_fsys_def)
  have "mapped full_fsys fs' (inode_at fs' j) k b = mapped full_fsys fs (inode_at fs j) k b"
    if "k < blocks full_fsys fs j" for j k b
    using that mapped_direct[of "inode_at fs' p" "inode_at fs p" "blocks small_fsys fs p" "- 1" k fs' fs full_fsys b]
      mapped_inode[of "inode_at fs' j" "inode_at fs j" fs' fs full_fsys k b] p
    by (cases "j = p") (simp_all add: e node_set_inode set_inode_data)
  then have "fs_sound full_fsys fs' = fs_sound full_fsys fs"
    by (intro fs_sound_cong) (simp_all add: e node_set_inode)
  then show "fs_sound full_fsys fs'" using S by simp
  show "blocks small_fsys fs p < 2 \<Longrightarrow> direct (inode_at fs' p) ! blocks small_fsys fs p < 0"
    using fs_soundD(2)[OF S p] p by (simp add: e node_set_inode)
qed (use p in \<open>simp_all add: fs'_def full_fsys_def node_set_inode\<close>)

lemma full_fsys_helpers: "helpers_ok full_fsys"
proof -
  have "sound_file full_fsys fs 0 (max n (blocks small_fsys fs 0))"
    if "fs_sound full_fsys fs" "n \<le> blocks small_fsys fs 0" for fs n
    using fs_soundD(4)[OF that(1), of 0] that by (simp add: fs_sound_def max_absorb2)
  moreover have "0 < length (inode_root fs)" if "fs_sound full_fsys fs" for fs
    using that by (simp add: fs_sound_def)
  moreover have "minixfs_min_blockcount full_fsys fs path n = (if n \<le> blocks small_fsys fs 0 then 0 else - 1, fs)" for fs path n
    by (simp add: full_fsys_def)
  ultimately show ?thesis
    unfolding helpers_ok_def using full_fsys_add by (auto simp: Let_def split: if_splits)
qed

lemma small_fs_sound: "fs_sound full_fsys small_fs"
proof -
  have bl: "blocks small_fsys small_fs 0 = 2" by (simp add: blocks_def blocks_needed_def small_fsys_def small_fs_def)
  have len: "length (inode_root small_fs) = 1" "indirect (inode_at small_fs 0) = 2" by (simp_all add: small_fs_def)
  have "file_ok full_fsys small_fs (inode_at small_fs 0) 4"
    using small_file_ok by (simp add: file_ok_def)
  then have "file_ok full_fsys small_fs (inode_at small_fs 0) 2" by (rule file_ok_mono) simp
  then have "sound_file full_fsys small_fs 0 2"
    by (auto simp: sound_file_def len small_mapped)
  then show ?thesis
    by (simp add: fs_sound_def len bl max_size_def) (simp add: small_fs_def)
qed


end
