(* ===== verification/Lookup.thy ===== *)
theory Lookup
  imports Cstring
begin

text \<open>
  The two programs that look words up in a binary search tree stored in a file:
  \<^verbatim>\<open>mad_mad_access_patterns/lookup1.c\<close> with \<open>fseek\<close> and \<open>fread\<close>, and \<^verbatim>\<open>lookup2.c\<close> with \<open>mmap\<close>.
  A file is the list of its bytes. A node is its two child offsets, a count, a price (four bytes
  each) and the word with its terminator. A search that never ends is \<open>None\<close>.
\<close>

section \<open>Bytes\<close>

fun c_strcmp :: "string \<Rightarrow> string \<Rightarrow> int" where
  \<comment> \<open>of the characters before the terminators, compared as unsigned\<close>
  "c_strcmp [] [] = 0"
| "c_strcmp [] (d # ds) = - 1"
| "c_strcmp (c # cs) [] = 1"
| "c_strcmp (c # cs) (d # ds) =
     (if c = d then c_strcmp cs ds else if (of_char c :: nat) < of_char d then - 1 else 1)"

definition cstr :: "string \<Rightarrow> string" where "cstr buf = takeWhile (\<lambda>c. c \<noteq> NUL) buf"

definition u32 :: "string \<Rightarrow> nat" where
  \<comment> \<open>four bytes in the host's (little-endian) order\<close>
  "u32 bs = foldr (\<lambda>c n. of_char c + 256 * n) bs 0"

definition read_u32 :: "string \<Rightarrow> nat \<Rightarrow> nat res" where
  \<comment> \<open>a short read leaves the variable as it was\<close>
  "read_u32 file pos = (if pos + 4 \<le> length file then Inr (u32 (take 4 (drop pos file))) else Inl Uninit_Read)"

definition read_price :: "string \<Rightarrow> nat \<Rightarrow> string res" where
  \<comment> \<open>the four bytes of the \<open>float\<close>\<close>
  "read_price file pos = (if pos + 4 \<le> length file then Inr (take 4 (drop pos file)) else Inl Uninit_Read)"

definition fread_into :: "string \<Rightarrow> string \<Rightarrow> nat \<Rightarrow> nat \<Rightarrow> string" where
  \<comment> \<open>\<open>fread(buf, 1, n, file)\<close> at position \<open>pos\<close>: at the end of the file fewer bytes\<close>
  "fread_into buf file pos n = (let bs = take n (drop pos file) in bs @ drop (length bs) buf)"

datatype answer = Not_Found string | Found string nat string

datatype lookup_result = Usage | Open_Fail string | Format_Fail string | Answers "answer list"

section \<open>The program with fseek and fread\<close>

partial_function (option) loop1 :: "string \<Rightarrow> string \<Rightarrow> nat \<Rightarrow> string \<Rightarrow> (nat option res) option" where
  \<comment> \<open>\<open>pos\<close> is the file position, at the word of the node whose word \<open>found\<close> holds\<close>
  "loop1 file word pos found =
     (let res = c_strcmp word (cstr found) in
      if res = 0 then Some (Inr (Some pos))
      else let r = read_u32 file (if res < 0 then pos - 16 else pos - 12) in
           if r = Inr 0 then Some (Inr None)
           else if isl r then Some (Inl (projl r))
           else let pos' = projr r + 16
                in loop1 file word pos' (fread_into found file pos' (length word + 1)))"

definition lookup1_word :: "string \<Rightarrow> string \<Rightarrow> (answer res) option" where
  "lookup1_word file word =
     (case loop1 file word 20 (fread_into (replicate (length word + 2) NUL) file 20 (length word + 1)) of
        None \<Rightarrow> None
      | Some r \<Rightarrow> Some (rbind r (\<lambda>p. case p of
          None \<Rightarrow> Inr (Not_Found word)
        | Some pos \<Rightarrow> rbind (read_u32 file (pos - 8)) (\<lambda>count.
            rbind (read_price file (pos - 4)) (\<lambda>price. Inr (Found word count price))))))"

fun each_word :: "(string \<Rightarrow> (answer res) option) \<Rightarrow> string list \<Rightarrow> (answer list res) option" where
  \<comment> \<open>the loop over the arguments\<close>
  "each_word f [] = Some (Inr [])"
| "each_word f (w # ws) =
     (case f w of None \<Rightarrow> None
      | Some (Inl e) \<Rightarrow> Some (Inl e)
      | Some (Inr a) \<Rightarrow> (case each_word f ws of None \<Rightarrow> None
          | Some r \<Rightarrow> Some (rbind r (\<lambda>as. Inr (a # as)))))"

definition lookup1_main :: "(string \<Rightarrow> string option) \<Rightarrow> string list \<Rightarrow> (lookup_result res) option" where
  \<comment> \<open>with the files of the system and the arguments after the program's name\<close>
  "lookup1_main files argv =
     (case argv of
        filename # w # ws \<Rightarrow>
          (case files filename of
             None \<Rightarrow> Some (Inr (Open_Fail filename))
           | Some file \<Rightarrow>
               if c_strcmp (cstr (fread_into (replicate 5 NUL) file 0 4)) ''BTRE'' \<noteq> 0
               then Some (Inr (Format_Fail filename))
               else map_option (\<lambda>r. rbind r (\<lambda>as. Inr (Answers as))) (each_word (lookup1_word file) (w # ws)))
      | _ \<Rightarrow> Some (Inr Usage))"

section \<open>The program with mmap\<close>

definition mmap_file :: "string \<Rightarrow> string res" where
  \<comment> \<open>whole pages of 4096 bytes, zero behind the end of the file; mapping no byte fails\<close>
  "mmap_file file =
     (let n = int_of_long (int (length file)); pages = (nat n + 4095) div 4096 * 4096
      in if n \<le> 0 then Inl Out_Of_Bounds else Inr (take pages (file @ replicate pages NUL)))"

definition memcpy_from :: "string \<Rightarrow> nat \<Rightarrow> nat \<Rightarrow> string res" where
  "memcpy_from mem pos n = (if pos + n \<le> length mem then Inr (take n (drop pos mem)) else Inl Out_Of_Bounds)"

partial_function (option) loop2 :: "string \<Rightarrow> string \<Rightarrow> nat \<Rightarrow> string \<Rightarrow> (nat option res) option" where
  \<comment> \<open>\<open>temp\<close> as an offset into the mapping\<close>
  "loop2 mem word temp found =
     (let res = c_strcmp word (cstr found) in
      if res = 0 then Some (Inr (Some temp))
      else let r = memcpy_from mem (if res < 0 then temp - 16 else temp - 12) 4 in
           if isl r then Some (Inl (projl r))
           else if u32 (projr r) = 0 then Some (Inr None)
           else let temp' = u32 (projr r) + 16;
                    s = memcpy_from mem temp' (length word + 1)
                in if isl s then Some (Inl (projl s))
                   else loop2 mem word temp' (projr s @ drop (length word + 1) found))"

definition lookup2_word :: "string \<Rightarrow> string \<Rightarrow> (answer res) option" where
  "lookup2_word mem word =
     (case memcpy_from mem 20 (length word + 1) of
        Inl e \<Rightarrow> Some (Inl e)
      | Inr bs \<Rightarrow>
         (case loop2 mem word 20 (bs @ [NUL]) of
            None \<Rightarrow> None
          | Some r \<Rightarrow> Some (rbind r (\<lambda>p. case p of
              None \<Rightarrow> Inr (Not_Found word)
            | Some pos \<Rightarrow> rbind (memcpy_from mem (pos - 8) 4) (\<lambda>count.
                rbind (memcpy_from mem (pos - 4) 4) (\<lambda>price. Inr (Found word (u32 count) price)))))))"

definition lookup2_main :: "(string \<Rightarrow> string option) \<Rightarrow> string list \<Rightarrow> (lookup_result res) option" where
  "lookup2_main files argv =
     (case argv of
        filename # w # ws \<Rightarrow>
          (case files filename of
             None \<Rightarrow> Some (Inr (Open_Fail filename))
           | Some file \<Rightarrow>
              (case mmap_file file of
                 Inl e \<Rightarrow> Some (Inl e)
               | Inr mem \<Rightarrow>
                   if take 4 mem \<noteq> ''BTRE'' then Some (Inr (Format_Fail filename))
                   else map_option (\<lambda>r. rbind r (\<lambda>as. Inr (Answers as))) (each_word (lookup2_word mem) (w # ws))))
      | _ \<Rightarrow> Some (Inr Usage))"

section \<open>The tree in the file\<close>

datatype tree = Leaf | Node tree string nat string tree

inductive stored :: "string \<Rightarrow> nat \<Rightarrow> tree \<Rightarrow> bool" where
  leaf: "stored file 0 Leaf"
| node: "stored file off (Node l w n p r)"
  if "0 < off" "read_u32 file off = Inr lo" "stored file lo l" "read_u32 file (off + 4) = Inr ro" "stored file ro r"
    "read_u32 file (off + 8) = Inr n" "read_price file (off + 12) = Inr p"
    "NUL \<notin> set w" "take (length w + 1) (drop (off + 16) file) = w @ [NUL]"

inductive_cases stored_LeafE: "stored file off Leaf"
inductive_cases stored_NodeE: "stored file off (Node l w n p r)"

fun words_of :: "tree \<Rightarrow> string set" where
  "words_of Leaf = {}"
| "words_of (Node l w n p r) = insert w (words_of l \<union> words_of r)"

fun search_tree :: "tree \<Rightarrow> bool" where
  "search_tree Leaf = True"
| "search_tree (Node l w n p r) \<longleftrightarrow> search_tree l \<and> search_tree r
     \<and> (\<forall>v \<in> words_of l. c_strcmp v w < 0) \<and> (\<forall>v \<in> words_of r. c_strcmp v w > 0)"

fun entry_of :: "tree \<Rightarrow> string \<Rightarrow> (nat \<times> string) option" where
  \<comment> \<open>by a search of the whole tree\<close>
  "entry_of Leaf v = None"
| "entry_of (Node l w n p r) v =
     (if v = w then Some (n, p) else case entry_of l v of Some e \<Rightarrow> Some e | None \<Rightarrow> entry_of r v)"

definition answer_of :: "tree \<Rightarrow> string \<Rightarrow> answer" where
  "answer_of t v = (case entry_of t v of None \<Rightarrow> Not_Found v | Some (n, p) \<Rightarrow> Found v n p)"

section \<open>Comparing with a truncated word\<close>

lemma c_strcmp_self [simp]: "c_strcmp v v = 0"
  by (induction v) auto

lemma c_strcmp_eq: "c_strcmp v w = 0 \<longleftrightarrow> v = w"
  by (induction v w rule: c_strcmp.induct) auto

lemma c_strcmp_range: "c_strcmp v w = - 1 \<or> c_strcmp v w = 0 \<or> c_strcmp v w = 1"
  by (induction v w rule: c_strcmp.induct) auto

lemma c_strcmp_take: "length v < k \<Longrightarrow> c_strcmp v (take k w) = c_strcmp v w"
proof (induction v w arbitrary: k rule: c_strcmp.induct)
  case (2 d ds)
  then show ?case by (cases k) auto
next
  case (4 c cs d ds)
  then show ?case by (cases k) auto
qed auto

lemma cstr_fread:
  assumes w: "take (length w + 1) (drop pos file) = w @ [NUL]" "NUL \<notin> set w"
    and b: "length buf = n + 2" "last buf = NUL"
  shows "cstr (fread_into buf file pos (n + 1)) = take (n + 1) w"
    and "length (fread_into buf file pos (n + 1)) = n + 2" and "last (fread_into buf file pos (n + 1)) = NUL"
proof -
  let ?d = "drop pos file"
  obtain rest where d: "?d = w @ NUL # rest"
    using w(1) append_take_drop_id[of "length w + 1" ?d] by (metis append.assoc append_Cons append_Nil)
  have nz: "c \<noteq> NUL" if "c \<in> set w" for c using that w(2) by auto
  show "cstr (fread_into buf file pos (n + 1)) = take (n + 1) w"
  proof (cases "length w \<le> n")
    case True
    have "take (n + 1) ?d = w @ NUL # take (n - length w) rest"
      using True by (simp add: d Suc_diff_le)
    then show ?thesis using True nz by (simp add: fread_into_def cstr_def Let_def takeWhile_append2)
  next
    case False
    then have t: "take (n + 1) ?d = take (n + 1) w" by (simp add: d)
    moreover have "length (take (n + 1) w) = n + 1" using False by simp
    moreover have "drop (n + 1) buf = [NUL]"
    proof -
      have "buf \<noteq> []" using b(1) by auto
      then have "buf = butlast buf @ [NUL]" using b(2) by (metis append_butlast_last_id)
      moreover have "length (butlast buf) = n + 1" using b(1) by simp
      ultimately show ?thesis by (metis append_eq_conv_conj)
    qed
    ultimately have "fread_into buf file pos (n + 1) = take (n + 1) w @ [NUL]"
      unfolding fread_into_def Let_def by simp
    moreover have "\<forall>c \<in> set (take (n + 1) w). c \<noteq> NUL" using nz in_set_takeD by fast
    ultimately show ?thesis by (simp add: cstr_def takeWhile_append2)
  qed
  show "length (fread_into buf file pos (n + 1)) = n + 2" using b(1) by (simp add: fread_into_def Let_def min_def)
  show "last (fread_into buf file pos (n + 1)) = NUL"
    using b by (simp add: fread_into_def Let_def last_append last_drop)
qed

lemma entry_words: "entry_of t v \<noteq> None \<Longrightarrow> v \<in> words_of t"
  by (induction t) (auto split: if_splits option.splits)

lemma entry_None: "v \<notin> words_of t \<Longrightarrow> entry_of t v = None"
  using entry_words by blast

lemma c_strcmp_antisym: "c_strcmp v w < 0 \<longleftrightarrow> c_strcmp w v > 0"
proof (induction v w rule: c_strcmp.induct)
  case (4 c cs d ds)
  have "(of_char c :: nat) \<noteq> of_char d" if "c \<noteq> d" using that by simp
  then show ?case using 4 by auto
qed auto

section \<open>The two searches\<close>

definition at_entry :: "string \<Rightarrow> tree \<Rightarrow> string \<Rightarrow> nat option \<Rightarrow> bool" where
  \<comment> \<open>the position a search ends at is behind the count and the price of the word\<close>
  "at_entry file t word res \<longleftrightarrow> (case res of
     None \<Rightarrow> entry_of t word = None
   | Some pos \<Rightarrow> \<exists>n p. entry_of t word = Some (n, p) \<and> 12 \<le> pos
       \<and> read_u32 file (pos - 8) = Inr n \<and> read_price file (pos - 4) = Inr p)"

definition buffer_of :: "string \<Rightarrow> string \<Rightarrow> string \<Rightarrow> bool" where
  \<comment> \<open>the buffer holds as much of the word \<open>w\<close> as fits\<close>
  "buffer_of word w buf \<longleftrightarrow> length buf = length word + 2 \<and> last buf = NUL
     \<and> cstr buf = take (length word + 1) w"

lemma buffer_cmp: "buffer_of word w buf \<Longrightarrow> c_strcmp word (cstr buf) = c_strcmp word w"
  by (simp add: buffer_of_def c_strcmp_take)

lemma buffer_fread:
  assumes "buffer_of word v buf" and "take (length w + 1) (drop pos file) = w @ [NUL]" and "NUL \<notin> set w"
  shows "buffer_of word w (fread_into buf file pos (length word + 1))"
  using cstr_fread[OF assms(2,3), of buf "length word"] assms by (simp add: buffer_of_def)

lemma entry_left:
  "search_tree (Node l w n p r) \<Longrightarrow> c_strcmp v w < 0 \<Longrightarrow> entry_of (Node l w n p r) v = entry_of l v"
  using entry_None[of v r] by (fastforce split: option.splits)

lemma entry_right:
  assumes "search_tree (Node l w n p r)" and "c_strcmp v w > 0"
  shows "entry_of (Node l w n p r) v = entry_of r v"
proof -
  have "v \<notin> words_of l" "v \<noteq> w" using assms by force+
  then show ?thesis using entry_None[of v l] by simp
qed

lemma at_entry_left:
  "search_tree (Node l w n p r) \<Longrightarrow> c_strcmp v w < 0
     \<Longrightarrow> at_entry bytes (Node l w n p r) v res = at_entry bytes l v res"
  unfolding at_entry_def by (simp only: entry_left)

lemma at_entry_right:
  "search_tree (Node l w n p r) \<Longrightarrow> c_strcmp v w > 0
     \<Longrightarrow> at_entry bytes (Node l w n p r) v res = at_entry bytes r v res"
  unfolding at_entry_def by (simp only: entry_right)

lemma child1:
  assumes "stored bytes c s" and "search_tree s" and b: "buffer_of word w buf"
    and IH: "\<And>l w n p r buf. s = Node l w n p r \<Longrightarrow> search_tree s \<Longrightarrow> buffer_of word w buf
      \<Longrightarrow> \<exists>res. loop1 bytes word (c + 16) buf = Some (Inr res) \<and> at_entry bytes s word res"
  shows "\<exists>res. (if c = 0 then Some (Inr None)
        else loop1 bytes word (c + 16) (fread_into buf bytes (c + 16) (length word + 1))) = Some (Inr res)
      \<and> at_entry bytes s word res"
  using assms(1)
proof (cases rule: stored.cases)
  case leaf
  then show ?thesis by (simp add: at_entry_def)
next
  case (node lo l2 ro r2 n2 p2 w2)
  have "buffer_of word w2 (fread_into buf bytes (c + 16) (length word + 1))"
    by (rule buffer_fread[OF b node(10,9)])
  then show ?thesis using IH[OF node(1) assms(2)] node(2) by simp
qed

lemma loop1_ok:
  "stored bytes off t \<Longrightarrow> t = Node l w n p r \<Longrightarrow> search_tree t \<Longrightarrow> buffer_of word w buf
     \<Longrightarrow> \<exists>res. loop1 bytes word (off + 16) buf = Some (Inr res) \<and> at_entry bytes t word res"
proof (induction arbitrary: l w n p r buf rule: stored.induct)
  case (leaf bytes)
  then show ?case by simp
next
  case (node off bytes lo l' ro r' n' p' w')
  have t [simp]: "l' = l" "w' = w" "n' = n" "p' = p" "r' = r" using node.prems(1) by auto
  note cmp = buffer_cmp[OF node.prems(3)]
  note child = child1[OF _ _ node.prems(3)]
  consider "c_strcmp word w = 0" | "c_strcmp word w < 0" | "c_strcmp word w > 0" by linarith
  then show ?case
  proof cases
    case 1
    then have "word = w" by (simp add: c_strcmp_eq)
    then show ?thesis using 1 cmp node.hyps
      by (subst loop1.simps) (simp add: at_entry_def Let_def add.commute)
  next
    case 2
    have "loop1 bytes word (off + 16) buf = (if lo = 0 then Some (Inr None)
        else loop1 bytes word (lo + 16) (fread_into buf bytes (lo + 16) (length word + 1)))"
      using 2 cmp node.hyps(2) by (subst loop1.simps) (simp add: Let_def)
    then show ?thesis
      using child[OF node.hyps(3) _ node.IH(1)] node.prems(1,2)
        at_entry_left[OF node.prems(2)[unfolded node.prems(1)] 2] by simp
  next
    case 3
    have "loop1 bytes word (off + 16) buf = (if ro = 0 then Some (Inr None)
        else loop1 bytes word (ro + 16) (fread_into buf bytes (ro + 16) (length word + 1)))"
      using 3 cmp node.hyps(4) by (subst loop1.simps) (simp add: Let_def add.commute)
    then show ?thesis
      using child[OF node.hyps(5) _ node.IH(2)] node.prems(1,2)
        at_entry_right[OF node.prems(2)[unfolded node.prems(1)] 3] by simp
  qed
qed

lemma mem_u32:
  "read_u32 bytes pos = Inr n \<Longrightarrow> \<exists>bs. memcpy_from (bytes @ zs) pos 4 = Inr bs \<and> u32 bs = n"
  by (auto simp: read_u32_def memcpy_from_def split: if_splits)

lemma mem_price: "read_price bytes pos = Inr p \<Longrightarrow> memcpy_from (bytes @ zs) pos 4 = Inr p"
  by (auto simp: read_price_def memcpy_from_def split: if_splits)

lemma mem_word:
  assumes "take (length w + 1) (drop pos bytes) = w @ [NUL]" and "length word < length zs"
    and "NUL \<notin> set w" and "buffer_of word v buf"
  shows "\<exists>bs. memcpy_from (bytes @ zs) pos (length word + 1) = Inr bs
    \<and> buffer_of word w (bs @ drop (length word + 1) buf)"
proof -
  have "length (take (length w + 1) (drop pos bytes)) = length w + 1" using assms(1) by simp
  then have l: "pos + length w + 1 \<le> length bytes" by simp
  then have fit: "pos + (length word + 1) \<le> length (bytes @ zs)" using assms(2) by simp
  have "take (length w + 1) (drop pos (bytes @ zs)) = w @ [NUL]" using assms(1) l by simp
  from buffer_fread[OF assms(4) this assms(3)]
  have "buffer_of word w (fread_into buf (bytes @ zs) pos (length word + 1))" .
  moreover have "fread_into buf (bytes @ zs) pos (length word + 1)
      = take (length word + 1) (drop pos (bytes @ zs)) @ drop (length word + 1) buf"
  proof -
    have "length word + 1 \<le> length (drop pos (bytes @ zs))" using fit by simp
    then have "length (take (length word + 1) (drop pos (bytes @ zs))) = length word + 1"
      by (simp only: length_take min_absorb2)
    then show ?thesis unfolding fread_into_def Let_def by simp
  qed
  ultimately show ?thesis using fit by (simp add: memcpy_from_def)
qed

lemma child2:
  assumes "stored bytes c s" and "search_tree s" and b: "buffer_of word w buf" and z: "length word < length zs"
    and IH: "\<And>l w n p r buf. s = Node l w n p r \<Longrightarrow> search_tree s \<Longrightarrow> buffer_of word w buf \<Longrightarrow> length word < length zs
      \<Longrightarrow> \<exists>res. loop2 (bytes @ zs) word (c + 16) buf = Some (Inr res) \<and> at_entry bytes s word res"
  shows "\<exists>res. (if c = 0 then Some (Inr None)
        else let s = memcpy_from (bytes @ zs) (c + 16) (length word + 1)
             in if isl s then Some (Inl (projl s))
                else loop2 (bytes @ zs) word (c + 16) (projr s @ drop (length word + 1) buf)) = Some (Inr res)
      \<and> at_entry bytes s word res"
  using assms(1)
proof (cases rule: stored.cases)
  case leaf
  then show ?thesis by (simp add: at_entry_def)
next
  case (node lo l2 ro r2 n2 p2 w2)
  obtain bs where "memcpy_from (bytes @ zs) (c + 16) (length word + 1) = Inr bs"
    "buffer_of word w2 (bs @ drop (length word + 1) buf)"
    using mem_word[OF node(10) z node(9) b] by blast
  then show ?thesis using IH[OF node(1) assms(2)] node(2) z by simp
qed

lemma loop2_ok:
  "stored bytes off t \<Longrightarrow> t = Node l w n p r \<Longrightarrow> search_tree t \<Longrightarrow> buffer_of word w buf
     \<Longrightarrow> length word < length zs
     \<Longrightarrow> \<exists>res. loop2 (bytes @ zs) word (off + 16) buf = Some (Inr res) \<and> at_entry bytes t word res"
proof (induction arbitrary: l w n p r buf rule: stored.induct)
  case (leaf bytes)
  then show ?case by simp
next
  case (node off bytes lo l' ro r' n' p' w')
  have t [simp]: "l' = l" "w' = w" "n' = n" "p' = p" "r' = r" using node.prems(1) by auto
  let ?mem = "bytes @ zs"
  note cmp = buffer_cmp[OF node.prems(3)]
  note child = child2[OF _ _ node.prems(3,4)]
  obtain lb rb where lr: "memcpy_from ?mem off 4 = Inr lb" "u32 lb = lo"
    "memcpy_from ?mem (off + 4) 4 = Inr rb" "u32 rb = ro"
    using mem_u32[OF node.hyps(2), of zs] mem_u32[OF node.hyps(4), of zs] by blast
  consider "c_strcmp word w = 0" | "c_strcmp word w < 0" | "c_strcmp word w > 0" by linarith
  then show ?case
  proof cases
    case 1
    then have "word = w" by (simp add: c_strcmp_eq)
    then show ?thesis using 1 cmp node.hyps
      by (subst loop2.simps) (simp add: at_entry_def Let_def add.commute)
  next
    case 2
    have "loop2 ?mem word (off + 16) buf = (if lo = 0 then Some (Inr None)
        else let s = memcpy_from ?mem (lo + 16) (length word + 1)
             in if isl s then Some (Inl (projl s))
                else loop2 ?mem word (lo + 16) (projr s @ drop (length word + 1) buf))"
      using 2 cmp lr by (subst loop2.simps) (simp add: Let_def)
    then show ?thesis
      using child[OF node.hyps(3) _ node.IH(1)] node.prems(1,2)
        at_entry_left[OF node.prems(2)[unfolded node.prems(1)] 2] by simp
  next
    case 3
    have "loop2 ?mem word (off + 16) buf = (if ro = 0 then Some (Inr None)
        else let s = memcpy_from ?mem (ro + 16) (length word + 1)
             in if isl s then Some (Inl (projl s))
                else loop2 ?mem word (ro + 16) (projr s @ drop (length word + 1) buf))"
      using 3 cmp lr by (subst loop2.simps) (simp add: Let_def add.commute)
    then show ?thesis
      using child[OF node.hyps(5) _ node.IH(2)] node.prems(1,2)
        at_entry_right[OF node.prems(2)[unfolded node.prems(1)] 3] by simp
  qed
qed

section \<open>The programs\<close>

definition file_pages :: "string \<Rightarrow> nat" where
  "file_pages bytes = (length bytes + 4095) div 4096 * 4096"

lemma file_pages_ge: "length bytes \<le> file_pages bytes"
proof -
  have "(length bytes + 4095) mod 4096 < 4096" by simp
  then have "length bytes + 4095 < file_pages bytes + 4096"
    using div_mult_mod_eq[of "length bytes + 4095" 4096] unfolding file_pages_def by linarith
  then show ?thesis by simp
qed

lemma mmap_ok:
  assumes "bytes \<noteq> []" and "length bytes < 2 ^ 31"
  shows "mmap_file bytes = Inr (bytes @ replicate (file_pages bytes - length bytes) NUL)"
proof -
  have "int (length bytes) < int (2 ^ 31)" using assms(2) by (simp only: of_nat_less_iff)
  then have i: "int_of_long (int (length bytes)) = int (length bytes)" by (intro int_of_long_small) simp_all
  have "mmap_file bytes = Inr (take (file_pages bytes) (bytes @ replicate (file_pages bytes) NUL))"
    using assms(1) unfolding mmap_file_def i Let_def file_pages_def by simp
  then show ?thesis using file_pages_ge[of bytes] by simp
qed

lemma first_buffer:
  assumes "take (length w + 1) (drop 20 bytes) = w @ [NUL]" and "NUL \<notin> set w"
  shows "buffer_of word w (fread_into (replicate (length word + 2) NUL) bytes 20 (length word + 1))"
  using cstr_fread[OF assms, of "replicate (length word + 2) NUL" "length word"]
  by (simp add: buffer_of_def)

lemma lookup1_word_ok:
  assumes s: "stored bytes 4 (Node l w n p r)" "search_tree (Node l w n p r)"
  shows "lookup1_word bytes word = Some (Inr (answer_of (Node l w n p r) word))"
proof -
  have w: "take (length w + 1) (drop 20 bytes) = w @ [NUL]" "NUL \<notin> set w"
    using s(1) by (auto elim: stored_NodeE)
  obtain res where "loop1 bytes word 20 (fread_into (replicate (length word + 2) NUL) bytes 20 (length word + 1))
      = Some (Inr res)" "at_entry bytes (Node l w n p r) word res"
    using loop1_ok[OF s(1) refl s(2) first_buffer[OF w]] by auto
  then show ?thesis
    by (cases res) (auto simp: lookup1_word_def at_entry_def answer_of_def)
qed

lemma lookup2_word_ok:
  assumes s: "stored bytes 4 (Node l w n p r)" "search_tree (Node l w n p r)" and l: "length word < length zs"
  shows "lookup2_word (bytes @ zs) word = Some (Inr (answer_of (Node l w n p r) word))"
proof -
  have w: "take (length w + 1) (drop 20 bytes) = w @ [NUL]" "NUL \<notin> set w"
    using s(1) by (auto elim: stored_NodeE)
  have dr: "drop (length word + 1) (replicate (length word + 2) NUL) = [NUL]"
    by (simp only: drop_replicate) simp
  have b0: "buffer_of word [] (replicate (length word + 2) NUL)" by (simp add: buffer_of_def cstr_def)
  obtain bs where bs: "memcpy_from (bytes @ zs) 20 (length word + 1) = Inr bs" "buffer_of word w (bs @ [NUL])"
    using mem_word[OF w(1) l w(2) b0] unfolding dr by blast
  obtain res where r: "loop2 (bytes @ zs) word 20 (bs @ [NUL]) = Some (Inr res)"
      "at_entry bytes (Node l w n p r) word res"
    using loop2_ok[OF s(1) refl s(2) bs(2) l] by auto
  show ?thesis
  proof (cases res)
    case None
    then show ?thesis using r bs(1) by (simp add: lookup2_word_def at_entry_def answer_of_def)
  next
    case (Some pos)
    then obtain m q where e: "entry_of (Node l w n p r) word = Some (m, q)"
      "read_u32 bytes (pos - 8) = Inr m" "read_price bytes (pos - 4) = Inr q"
      using r(2) by (auto simp: at_entry_def)
    then show ?thesis using r bs(1) Some mem_u32[OF e(2), of zs] mem_price[OF e(3), of zs]
      by (auto simp: lookup2_word_def answer_of_def)
  qed
qed

lemma marker:
  assumes "take 4 bytes = ''BTRE''"
  shows "take 4 (bytes @ zs) = ''BTRE''"
proof -
  have "length (take 4 bytes) = 4" unfolding assms by simp
  then have "4 \<le> length bytes" by simp
  with assms show ?thesis by simp
qed

lemma each_word_ok: "(\<And>v. v \<in> set ws \<Longrightarrow> f v = Some (Inr (g v))) \<Longrightarrow> each_word f ws = Some (Inr (List.map g ws))"
  by (induction ws) auto

text \<open>
  C28: on a file that starts with the marker and holds a search tree from its fourth byte on, both programs
  end for every list of words and print, for each in order, the count and price of its node, or that
  it is not there, exactly as a search of the whole tree decides; for the program with \<open>mmap\<close> the last
  page must have room for the word behind the end of the file.
\<close>

theorem lookup_programs_agree:
  assumes f: "files name = Some bytes" "take 4 bytes = ''BTRE''" "length bytes < 2 ^ 31"
    and s: "stored bytes 4 (Node l w n p r)" "search_tree (Node l w n p r)" and ws: "ws \<noteq> []"
  shows "lookup1_main files (name # ws) = Some (Inr (Answers (List.map (answer_of (Node l w n p r)) ws)))
    \<and> ((\<forall>v \<in> set ws. length bytes + length v < file_pages bytes) \<longrightarrow>
         lookup2_main files (name # ws) = lookup1_main files (name # ws))"
proof -
  let ?t = "Node l w n p r"
  obtain v vs where v: "ws = v # vs" using ws by (cases ws) auto
  have one: "lookup1_main files (name # ws) = Some (Inr (Answers (List.map (answer_of ?t) ws)))"
  proof -
    have "cstr (fread_into (replicate 5 NUL) bytes 0 4) = ''BTRE''"
      using f(2) by (simp add: fread_into_def cstr_def NUL_def)
    moreover have "each_word (lookup1_word bytes) ws = Some (Inr (List.map (answer_of ?t) ws))"
      by (rule each_word_ok) (rule lookup1_word_ok[OF s])
    ultimately show ?thesis using f(1) v by (simp add: lookup1_main_def)
  qed
  have "lookup2_main files (name # ws) = Some (Inr (Answers (List.map (answer_of ?t) ws)))"
    if room: "\<forall>v \<in> set ws. length bytes + length v < file_pages bytes"
  proof -
    let ?zs = "replicate (file_pages bytes - length bytes) NUL"
    have "bytes \<noteq> []" using f(2) by auto
    note m = mmap_ok[OF this f(3)]
    have "take 4 (bytes @ ?zs) = ''BTRE''" by (rule marker[OF f(2)])
    moreover have "each_word (lookup2_word (bytes @ ?zs)) ws = Some (Inr (List.map (answer_of ?t) ws))"
      by (rule each_word_ok) (rule lookup2_word_ok[OF s], use room in \<open>simp add: less_diff_conv add.commute\<close>)
    ultimately show ?thesis using f(1) v m by (simp add: lookup2_main_def)
  qed
  with one show ?thesis by simp
qed

text \<open>
  The program with \<open>mmap\<close> copies as many bytes as the word is long from the mapping, whatever is
  left of it: a word that reaches behind the last page from the root's word makes it fault, where the
  other program answers; and an empty file, which cannot be mapped, makes it fault instead of being
  reported as malformed.
\<close>

theorem lookup2_overruns_mapping:
  assumes f: "files name = Some bytes" "take 4 bytes = ''BTRE''" "length bytes < 2 ^ 31"
    and s: "stored bytes 4 (Node l w n p r)" "search_tree (Node l w n p r)"
    and long: "file_pages bytes \<le> 20 + length v" and e: "files other = Some []"
  shows "lookup2_main files [name, v] = Some (Inl Out_Of_Bounds)
    \<and> lookup1_main files [name, v] = Some (Inr (Answers [answer_of (Node l w n p r) v]))
    \<and> lookup2_main files [other, v] = Some (Inl Out_Of_Bounds)
    \<and> lookup1_main files [other, v] = Some (Inr (Format_Fail other))"
proof (intro conjI)
  have "bytes \<noteq> []" using f(2) by auto
  note m = mmap_ok[OF this f(3)]
  let ?mem = "bytes @ replicate (file_pages bytes - length bytes) NUL"
  have lm: "length ?mem = file_pages bytes" using file_pages_ge[of bytes] by simp
  have t: "take 4 ?mem = ''BTRE''" by (rule marker[OF f(2)])
  have "memcpy_from ?mem 20 (length v + 1) = Inl Out_Of_Bounds"
    unfolding memcpy_from_def lm using long by simp
  then have "lookup2_word ?mem v = Some (Inl Out_Of_Bounds)" by (simp add: lookup2_word_def)
  then show "lookup2_main files [name, v] = Some (Inl Out_Of_Bounds)"
    using f(1) m t by (simp add: lookup2_main_def)
  have "cstr (fread_into (replicate 5 NUL) bytes 0 4) = ''BTRE''"
    using f(2) by (simp add: fread_into_def cstr_def NUL_def)
  then show "lookup1_main files [name, v] = Some (Inr (Answers [answer_of (Node l w n p r) v]))"
    using f(1) lookup1_word_ok[OF s] by (simp add: lookup1_main_def)
  show "lookup2_main files [other, v] = Some (Inl Out_Of_Bounds)"
    using e by (simp add: lookup2_main_def mmap_file_def int_of_long_def)
  show "lookup1_main files [other, v] = Some (Inr (Format_Fail other))"
    using e by (simp add: lookup1_main_def fread_into_def cstr_def)
qed

section \<open>An instance\<close>

definition demo_file :: string where
  \<comment> \<open>one node without children at offset 4: the word \<open>ab\<close>, 7 of it\<close>
  "demo_file = [CHR ''B'', CHR ''T'', CHR ''R'', CHR ''E'', NUL, NUL, NUL, NUL, NUL, NUL, NUL, NUL,
     CHR 0x07, NUL, NUL, NUL, NUL, NUL, CHR 0x80, CHR 0x3F, CHR ''a'', CHR ''b'', NUL]"

lemma demo_fields:
  "read_u32 demo_file 4 = Inr 0" "read_u32 demo_file (4 + 4) = Inr 0" "read_u32 demo_file (4 + 8) = Inr 7"
  "read_price demo_file (4 + 12) = Inr [NUL, NUL, CHR 0x80, CHR 0x3F]"
  "take (length ''ab'' + 1) (drop (4 + 16) demo_file) = ''ab'' @ [NUL]"
  by (simp_all add: demo_file_def read_u32_def read_price_def u32_def NUL_def)

lemma demo_stored: "stored demo_file 4 (Node Leaf ''ab'' 7 [NUL, NUL, CHR 0x80, CHR 0x3F] Leaf)"
  by (rule stored.node[OF _ demo_fields(1) stored.leaf demo_fields(2) stored.leaf demo_fields(3,4) _ demo_fields(5)])
    (simp_all add: NUL_def)

theorem lookup_programs_agree_witness:
  "lookup2_main [''f'' \<mapsto> demo_file] [''f'', ''ab'', ''b'']
     = Some (Inr (Answers [Found ''ab'' 7 [NUL, NUL, CHR 0x80, CHR 0x3F], Not_Found ''b'']))"
proof -
  have f: "[''f'' \<mapsto> demo_file] ''f'' = Some demo_file" "take 4 demo_file = ''BTRE''" "length demo_file < 2 ^ 31"
    "file_pages demo_file = 4096" by (simp_all add: demo_file_def file_pages_def)
  have "search_tree (Node Leaf ''ab'' 7 [NUL, NUL, CHR 0x80, CHR 0x3F] Leaf)" by simp
  from lookup_programs_agree[where files = "[''f'' \<mapsto> demo_file]", OF f(1-3) demo_stored this, of "[''ab'', ''b'']"]
  show ?thesis using f(4) by (simp add: demo_file_def answer_of_def)
qed

theorem lookup2_overruns_mapping_witness:
  "lookup2_main [''f'' \<mapsto> demo_file, ''g'' \<mapsto> []] [''f'', replicate 4096 (CHR ''x'')] = Some (Inl Out_Of_Bounds)"
proof -
  have f: "[''f'' \<mapsto> demo_file, ''g'' \<mapsto> []] ''f'' = Some demo_file" "take 4 demo_file = ''BTRE''"
    "length demo_file < 2 ^ 31" "[''f'' \<mapsto> demo_file, ''g'' \<mapsto> []] ''g'' = Some []"
    "file_pages demo_file = 4096"
    by (simp_all add: demo_file_def file_pages_def)
  have t: "search_tree (Node Leaf ''ab'' 7 [NUL, NUL, CHR 0x80, CHR 0x3F] Leaf)" by simp
  have l: "file_pages demo_file \<le> 20 + length (replicate 4096 (CHR ''x''))" unfolding f(5) length_replicate by simp
  show ?thesis using lookup2_overruns_mapping[where files = "[''f'' \<mapsto> demo_file, ''g'' \<mapsto> []]",
      OF f(1-3) demo_stored t l f(4)] by blast
qed

end
