(* ===== verification/Shell.thy ===== *)
theory Shell
  imports Ctype
begin

text \<open>
  The shell of \<^verbatim>\<open>shell/shell.c\<close>: the history with its file, the built-in commands, the logic
  operators, what a child process does with an external command, and the three main loops. The
  kernel is the parameter \<open>os\<close>: changing the directory, starting a child for an action, waiting for
  it, and whether a process still exists. The history and process vectors are lists (their
  operations are those of \<^verbatim>\<open>vector.c\<close>), printing appends to a list of messages. A command that calls
  itself without end shows as \<open>Diverges\<close> for every bound on the nesting of calls.
\<close>

section \<open>State\<close>

datatype message =
    Prompt | Usage_Line | Command string | Invalid_Command string | Invalid_Index | No_History_Match
  | No_Directory string | History_Line nat string | Wait_Failed | Killed int string
  | Process_Header | Process_Info int string

datatype redirection = No_Redirection | Append_To string | Write_To string | Read_From string

datatype signal = SIGKILL | SIGSTOP | SIGCONT

datatype action = \<comment> \<open>of a child process\<close>
    Exec "string list" redirection
  | Send signal int
  | Reject string

datatype stop = Fault fault | Exit int

type_synonym 'a run = "stop + 'a"

record 'w os =
  os_chdir :: "string \<Rightarrow> 'w \<Rightarrow> int \<times> 'w"
  os_fork :: "action res \<Rightarrow> 'w \<Rightarrow> int \<times> 'w"
  os_wait :: "int \<Rightarrow> 'w \<Rightarrow> int \<times> int \<times> 'w"
  os_alive :: "int \<Rightarrow> 'w \<Rightarrow> bool"

record 'w shell_state =
  history :: "string list"
  hist_file :: "string option" \<comment> \<open>the contents of the file, \<open>None\<close> when \<open>filename\<close> is \<open>NULL\<close>\<close>
  processes :: "(string \<times> int) list"
  printed :: "message list"
  world :: 'w

definition say :: "message \<Rightarrow> 'w shell_state \<Rightarrow> 'w shell_state" where
  "say m st = st\<lparr>printed := printed st @ [m]\<rparr>"

definition lift_res :: "'a res \<Rightarrow> 'a run" where
  "lift_res r = (case r of Inl e \<Rightarrow> Inl (Fault e) | Inr x \<Rightarrow> Inr x)"

definition vector_push :: "string \<Rightarrow> 'w shell_state \<Rightarrow> 'w shell_state" where
  "vector_push s st = st\<lparr>history := history st @ [s]\<rparr>"

section \<open>Recognising commands\<close>

definition split :: "string \<Rightarrow> string list" where
  \<comment> \<open>by spaces; the code adds the final \<open>NULL\<close>\<close>
  "split cmd = strtok_all (CHR '' '') [] cmd"

definition is_background_command :: "string \<Rightarrow> bool" where
  "is_background_command str \<longleftrightarrow> length str > 2 \<and> str ! (length str - 1) = CHR ''&''
     \<and> str ! (length str - 2) = CHR '' ''"

definition is_signal_command :: "string \<Rightarrow> bool" where
  "is_signal_command str \<longleftrightarrow> prefix ''kill'' str \<or> prefix ''stop'' str \<or> prefix ''cont'' str"

definition is_buildin :: "string \<Rightarrow> bool" where
  "is_buildin cmd \<longleftrightarrow> prefix ''cd '' cmd \<or> cmd = ''!history'' \<or> prefix ''#'' cmd \<or> prefix ''!'' cmd \<or> cmd = ''ps''"

definition contain_logic_operator :: "string \<Rightarrow> bool" where
  "contain_logic_operator cmd \<longleftrightarrow> c_strstr cmd ''||'' \<noteq> None \<or> c_strstr cmd ''&&'' \<noteq> None
     \<or> c_strstr cmd '';'' \<noteq> None"

definition is_redirection :: "string \<Rightarrow> bool" where
  "is_redirection cmd \<longleftrightarrow> c_strstr cmd '' > '' \<noteq> None \<or> c_strstr cmd '' >> '' \<noteq> None
     \<or> c_strstr cmd '' < '' \<noteq> None"

section \<open>External commands\<close>

definition rest_from :: "string \<Rightarrow> nat \<Rightarrow> string res" where
  \<comment> \<open>the string at \<open>cmd + n\<close>\<close>
  "rest_from cmd n = (if n \<le> length cmd then Inr (drop n cmd) else Inl Out_Of_Bounds)"

definition before :: "string \<Rightarrow> nat \<Rightarrow> string" where
  \<comment> \<open>the copy of the command, cut one before position \<open>n\<close> when there is one\<close>
  "before cmd n = (if 1 \<le> n then take (n - 1) cmd else cmd)"

definition redirect_action :: "string \<Rightarrow> action res" where
  "redirect_action cmd =
     (if c_strstr cmd '' > '' \<noteq> None \<or> c_strstr cmd '' >> '' \<noteq> None then
        (case c_strstr cmd ''>>'' of
           Some found2 \<Rightarrow> rbind (rest_from cmd (found2 + 3)) (\<lambda>f.
             Inr (Exec (split (before cmd found2)) (Append_To f)))
         | None \<Rightarrow> rbind (deref (c_strstr cmd ''>'')) (\<lambda>found. rbind (rest_from cmd (found + 2)) (\<lambda>f.
             Inr (Exec (split (before cmd found)) (Write_To f)))))
      else rbind (deref (c_strstr cmd ''<'')) (\<lambda>found. rbind (rest_from cmd (found + 2)) (\<lambda>f.
             Inr (Exec (split (before cmd found)) (Read_From f)))))"

definition signal_action :: "string \<Rightarrow> action res" where
  "signal_action cmd =
     (if length cmd = 4 then Inr (Reject cmd)
      else rbind (rest_from cmd 5) (\<lambda>arg.
        if arg \<noteq> ''0'' \<and> atoi arg = 0 then Inr (Reject cmd)
        else if prefix ''kill '' cmd then Inr (Send SIGKILL (atoi arg))
        else if prefix ''stop '' cmd then Inr (Send SIGSTOP (atoi arg))
        else Inr (Send SIGCONT (atoi arg))))"

definition child_action :: "string \<Rightarrow> action res" where
  \<comment> \<open>the branch of \<open>run_external_command\<close> in the child\<close>
  "child_action cmd =
     (let cmd = (if is_background_command cmd then take (length cmd - 2) cmd else cmd) in
      if is_redirection cmd then redirect_action cmd
      else if is_signal_command cmd then signal_action cmd
      else Inr (Exec (split cmd) No_Redirection))"

definition run_external_command :: "'w os \<Rightarrow> string \<Rightarrow> 'w shell_state \<Rightarrow> (int \<times> 'w shell_state) run" where
  "run_external_command os cmd st =
     (let (pid, w) = os_fork os (child_action cmd) (world st);
          is_background = is_background_command cmd;
          st1 = st\<lparr>world := w, processes := processes st @ (if is_background then [(cmd, pid)] else [])\<rparr>
      in if pid < 0 then Inl (Exit 1)
         else if is_background then Inr (0, st1)
         else let (r, status, w') = os_wait os pid (world st1);
                  st2 = st1\<lparr>world := w'\<rparr>;
                  st3 = (if r = 1 then say Wait_Failed st2 else st2)
              in if is_signal_command cmd \<and> status = 9 then
                   rbind (lift_res (rest_from cmd 5)) (\<lambda>arg. Inr (status, say (Killed (atoi arg) cmd) st3))
                 else Inr (status, st3))"

section \<open>History\<close>

fun raw_lines :: "string \<Rightarrow> string \<Rightarrow> string list" where
  \<comment> \<open>what repeated \<open>getline\<close> returns: every line with its newline, the last possibly without\<close>
  "raw_lines cur [] = (if cur = [] then [] else [cur])"
| "raw_lines cur (c # s) = (if c = CHR 0x0A then (cur @ [c]) # raw_lines [] s else raw_lines (cur @ [c]) s)"

definition file_lines :: "string \<Rightarrow> string list" where
  \<comment> \<open>with \<open>line[strlen(line)-1] = 0\<close>\<close>
  "file_lines s = List.map butlast (raw_lines [] s)"

definition wirte_to_file :: "'w shell_state \<Rightarrow> 'w shell_state" where
  "wirte_to_file st = (if history st = [] then st
     else st\<lparr>hist_file := map_option (\<lambda>f. f @ concat (List.map (\<lambda>l. l @ [CHR 0x0A]) (history st))) (hist_file st),
             history := []\<rparr>)"

definition history_lines :: "string list \<Rightarrow> message list" where
  "history_lines ls = List.map (\<lambda>(i, l). History_Line i l) (List.enumerate 0 ls)"

definition read_file :: "string \<Rightarrow> 'w shell_state \<Rightarrow> 'w shell_state" where
  "read_file f st = st\<lparr>printed := printed st @ history_lines (file_lines f)\<rparr>"

definition readvec :: "'w shell_state \<Rightarrow> 'w shell_state" where
  "readvec st = st\<lparr>printed := printed st @ history_lines (history st)\<rparr>"

definition copy40 :: "string \<Rightarrow> string res" where
  \<comment> \<open>\<open>strcpy\<close> into a block of 40 bytes\<close>
  "copy40 s = (if length s < 40 then Inr s else Inl Out_Of_Bounds)"

definition cmdat :: "int \<Rightarrow> 'w shell_state \<Rightarrow> string option res" where
  "cmdat idx st =
     (case hist_file st of
        Some f \<Rightarrow> Inr (if 0 \<le> idx \<and> nat idx < length (file_lines f) then Some (file_lines f ! nat idx) else None)
      | None \<Rightarrow> if 0 \<le> idx \<and> nat idx < length (history st)
                then rbind (copy40 (history st ! nat idx)) (\<lambda>s. Inr (Some s)) else Inr None)"

definition last_with :: "string \<Rightarrow> string list \<Rightarrow> string option" where
  \<comment> \<open>the search from the end for a line that begins with \<open>str\<close>\<close>
  "last_with str ls = List.find (prefix str) (rev ls)"

definition cmd_beginwith :: "string \<Rightarrow> 'w shell_state \<Rightarrow> string option res" where
  "cmd_beginwith str st =
     (let ls = (case hist_file st of Some f \<Rightarrow> file_lines f | None \<Rightarrow> history st) in
      if hist_file st \<noteq> None \<and> str = [] then
        (if ls = [] then Inl Assert_Failed else rbind (copy40 (last ls)) (\<lambda>s. Inr (Some s)))
      else case last_with str ls of None \<Rightarrow> Inr None | Some l \<Rightarrow> rbind (copy40 l) (\<lambda>s. Inr (Some s)))"

section \<open>Built-in commands and operators\<close>

fun ps_loop :: "'w os \<Rightarrow> 'w \<Rightarrow> bool \<Rightarrow> (string \<times> int) list \<Rightarrow> ((string \<times> int) list \<times> message list) res" where
  \<comment> \<open>the flag: \<open>pif->command\<close>, allocated once, has been freed\<close>
  "ps_loop os w freed [] = Inr ([], [])"
| "ps_loop os w freed ((c, pid) # ps) =
     (if os_alive os pid w then
        if freed then Inl Dangling
        else if 40 \<le> length c then Inl Out_Of_Bounds
        else rbind (ps_loop os w True ps) (\<lambda>(kept, ms). Inr ((c, pid) # kept, Process_Info pid c # ms))
      else ps_loop os w freed ps)"

definition recall :: "string \<Rightarrow> 'w shell_state \<Rightarrow> 'w shell_state" where
  "recall fullcmd st = say (Command fullcmd) (vector_push fullcmd st)"

definition flush_history :: "'w shell_state \<Rightarrow> 'w shell_state" where
  "flush_history st = (if hist_file st \<noteq> None then wirte_to_file st else st)"

datatype call = Run string | Simple string | Buildin string | Logic string

fun exec :: "'w os \<Rightarrow> nat \<Rightarrow> call \<Rightarrow> 'w shell_state \<Rightarrow> (int \<times> 'w shell_state) run" where
  \<comment> \<open>\<open>Buildin\<close> is \<open>run_buildin_command\<close>, \<open>Logic\<close> is \<open>with_logic_operator\<close>, \<open>Run\<close> and \<open>Simple\<close> choose
     between the functions with and without operators; the number bounds the nesting of calls\<close>
  "exec os 0 c st = Inl (Fault Diverges)"
| "exec os (Suc n) (Run cmd) st =
     (if contain_logic_operator cmd then exec os n (Logic cmd) st else exec os n (Simple cmd) st)"
| "exec os (Suc n) (Simple cmd) st =
     (if is_buildin cmd then exec os n (Buildin cmd) st else run_external_command os cmd st)"
| "exec os (Suc n) (Buildin cmd) st =
     (if prefix ''cd '' cmd then
        let (r, w) = os_chdir os (drop 3 cmd) (world st); st1 = st\<lparr>world := w\<rparr>
        in if r = - 1 then Inr (1, say (No_Directory (drop 3 cmd)) st1) else Inr (0, st1)
      else if cmd = ''!history'' then
        Inr (0, case hist_file st of None \<Rightarrow> readvec st
                | Some f \<Rightarrow> let st1 = wirte_to_file st in read_file (the (hist_file st1)) st1)
      else if prefix ''#'' cmd then
        let st1 = flush_history st; idx = atoi (drop 1 cmd) in
        if idx \<noteq> 0 \<or> cmd = ''#0'' then
          rbind (lift_res (cmdat idx st1)) (\<lambda>r. case r of
            None \<Rightarrow> Inr (1, say Invalid_Index st1)
          | Some fullcmd \<Rightarrow> rbind (exec os n (Run fullcmd) (recall fullcmd st1)) (\<lambda>(_, st2). Inr (0, st2)))
        else Inr (1, say (Invalid_Command cmd) st1)
      else if prefix ''!'' cmd then
        let st1 = flush_history st in
        rbind (lift_res (cmd_beginwith (drop 1 cmd) st1)) (\<lambda>r. case r of
          None \<Rightarrow> Inr (1, say No_History_Match st1)
        | Some fullcmd \<Rightarrow> rbind (exec os n (Run fullcmd) (recall fullcmd st1)) (\<lambda>(_, st2). Inr (0, st2)))
      else if cmd = ''ps'' then
        rbind (lift_res (ps_loop os (world st) False (processes st))) (\<lambda>(kept, ms).
          Inr (0, st\<lparr>processes := kept, printed := printed st @ [Process_Header] @ ms\<rparr>))
      else Inr (0, st))"
| "exec os (Suc n) (Logic cmd) st =
     (if prefix ''!'' cmd then exec os n (Buildin cmd) st
      else case c_strstr cmd ''&&'' of
        Some loc \<Rightarrow>
          if length cmd \<le> 4 \<or> loc < 2 \<or> \<not> prefix '' '' (drop (loc + 2) cmd) \<or> cmd ! (loc - 1) \<noteq> CHR '' ''
          then Inr (0, say (Invalid_Command cmd) st)
          else rbind (exec os n (Simple (take (loc - 1) cmd)) st) (\<lambda>(fres, st1).
            if fres = 0 then exec os n (Simple (drop (loc + 3) cmd)) st1 else Inr (0, st1))
      | None \<Rightarrow> (case c_strstr cmd ''||'' of
        Some loc \<Rightarrow>
          if length cmd \<le> 5 \<or> loc < 2 \<or> \<not> prefix '' '' (drop (loc + 2) cmd) \<or> cmd ! (loc - 1) \<noteq> CHR '' ''
          then Inr (0, say (Invalid_Command cmd) st)
          else rbind (exec os n (Simple (take (loc - 1) cmd)) st) (\<lambda>(fres, st1).
            if fres \<noteq> 0 then exec os n (Simple (drop (loc + 3) cmd)) st1 else Inr (0, st1))
      | None \<Rightarrow> (case c_strstr cmd '';'' of
        Some loc \<Rightarrow>
          if length cmd \<le> 3 \<or> loc < 1 \<or> \<not> prefix '' '' (drop (loc + 1) cmd)
          then Inr (0, say (Invalid_Command cmd) st)
          else rbind (exec os n (Simple (take loc cmd)) st) (\<lambda>(fres, st1).
            exec os n (Simple (drop (loc + 2) cmd)) st1)
      | None \<Rightarrow> Inr (0, st))))"

declare exec.simps [simp del]

section \<open>Main loops\<close>

definition remember :: "string \<Rightarrow> 'w shell_state \<Rightarrow> 'w shell_state" where
  "remember cmd st = (if prefix ''#'' cmd \<or> prefix ''!'' cmd then st else vector_push cmd st)"

fun hist_flag :: "'w os \<Rightarrow> nat \<Rightarrow> string list \<Rightarrow> 'w shell_state \<Rightarrow> 'w shell_state run" where
  \<comment> \<open>on the lines of the input as \<open>getline\<close> returns them; the history is written at the end\<close>
  "hist_flag os n [] st = Inr (wirte_to_file (say Prompt st))"
| "hist_flag os n (l # ls) st =
     (let cmd = butlast l; st1 = say Prompt st in
      if cmd = ''exit'' then Inr (wirte_to_file st1)
      else rbind (exec os n (Run cmd) (remember cmd st1)) (\<lambda>(_, st2). hist_flag os n ls st2))"

fun noflag :: "'w os \<Rightarrow> nat \<Rightarrow> string list \<Rightarrow> 'w shell_state \<Rightarrow> 'w shell_state run" where
  "noflag os n [] st = Inr (say Prompt st)"
| "noflag os n (l # ls) st =
     (let cmd = butlast l; st1 = say Prompt st in
      if cmd = ''exit'' then Inr st1
      else rbind (exec os n (Run cmd) (remember cmd st1)) (\<lambda>(_, st2). noflag os n ls st2))"

fun file_flag :: "'w os \<Rightarrow> nat \<Rightarrow> string list \<Rightarrow> 'w shell_state \<Rightarrow> 'w shell_state run" where
  \<comment> \<open>on the lines the script has when it is opened\<close>
  "file_flag os n [] st = Inr st"
| "file_flag os n (l # ls) st =
     (let cmd = butlast l in
      rbind (exec os n (Run cmd) (say (Command cmd) (say Prompt st))) (\<lambda>(_, st1). file_flag os n ls st1))"

definition get_file_len :: "string \<Rightarrow> nat" where
  "get_file_len file = length (raw_lines [] file)"

definition shell :: "'w os \<Rightarrow> nat \<Rightarrow> (string \<Rightarrow> string) \<Rightarrow> string list \<Rightarrow> string list \<Rightarrow> int \<Rightarrow> 'w \<Rightarrow> 'w shell_state run" where
  \<comment> \<open>with the contents of the files, the arguments, the input and the shell's own process number\<close>
  "shell os n files argv input pid w =
     (let st = \<lparr>history = [], hist_file = None, processes = [(''./shell'', pid)], printed = [], world = w\<rparr> in
      case argv of
        [_] \<Rightarrow> noflag os n input st
      | [_, flag, f] \<Rightarrow>
          if flag = ''-h'' then hist_flag os n input (st\<lparr>hist_file := Some (files f)\<rparr>)
          else if flag = ''-f'' then
            file_flag os n (take (get_file_len (files f)) (raw_lines [] (files f))) (st\<lparr>hist_file := Some (files f)\<rparr>)
          else Inl (Exit 1)
      | _ \<Rightarrow> Inl (Exit 1))"

definition quiet_os :: "nat os" where
  \<comment> \<open>for the examples: every child runs and exits with status 0, no process is alive but 5 and 6\<close>
  "quiet_os = \<lparr>os_chdir = \<lambda>d w. (- 1, w), os_fork = \<lambda>a w. (7, Suc w), os_wait = \<lambda>p w. (p, 0, w),
     os_alive = \<lambda>p w. p = 5 \<or> p = 6\<rparr>"

section \<open>Commands without references to the history end\<close>

definition plain :: "string \<Rightarrow> bool" where
  "plain cmd \<longleftrightarrow> CHR ''#'' \<notin> set cmd \<and> CHR ''!'' \<notin> set cmd"

lemma plain_parts: "plain cmd \<Longrightarrow> plain (take i cmd)" "plain cmd \<Longrightarrow> plain (drop i cmd)"
  unfolding plain_def by (auto dest: in_set_takeD in_set_dropD)

lemma plain_prefix: "plain cmd \<Longrightarrow> \<not> prefix ''#'' cmd \<and> \<not> prefix ''!'' cmd \<and> cmd \<noteq> ''!history''"
  by (cases cmd) (auto simp: plain_def)

definition keeps_history :: "'w shell_state \<Rightarrow> (int \<times> 'w shell_state) run \<Rightarrow> bool" where
  \<comment> \<open>the run ends, and when it returns the history and its file are as before\<close>
  "keeps_history st r \<longleftrightarrow> r \<noteq> Inl (Fault Diverges)
     \<and> (\<forall>k st'. r = Inr (k, st') \<longrightarrow> history st' = history st \<and> hist_file st' = hist_file st)"

lemma ps_loop_ends: "ps_loop os w freed ps \<noteq> Inl Diverges"
  by (induction os w freed ps rule: ps_loop.induct) (auto simp: rbind_Inl_iff split: if_splits)

lemma external_keeps: "keeps_history st (run_external_command os cmd st)"
  by (auto simp: keeps_history_def run_external_command_def Let_def say_def lift_res_def rest_from_def
      split: prod.splits if_splits)

lemma say_keeps: "keeps_history st (Inr (k, say m st))"
  by (simp add: keeps_history_def say_def)

lemma buildin_plain:
  assumes "plain cmd"
  shows "exec os (Suc n) (Buildin cmd) st = exec os (Suc 0) (Buildin cmd) st"
    and "keeps_history st (exec os (Suc 0) (Buildin cmd) st)"
proof -
  have p: "\<not> prefix ''#'' cmd" "\<not> prefix ''!'' cmd" "cmd \<noteq> ''!history''" using plain_prefix[OF assms] by auto
  show "exec os (Suc n) (Buildin cmd) st = exec os (Suc 0) (Buildin cmd) st"
    using p by (simp add: exec.simps)
  have "lift_res (ps_loop os (world st) False (processes st)) \<noteq> Inl (Fault Diverges)"
    using ps_loop_ends[of os "world st" False "processes st"] by (auto simp: lift_res_def split: sum.splits)
  then show "keeps_history st (exec os (Suc 0) (Buildin cmd) st)" using p
    by (auto simp: exec.simps keeps_history_def say_def rbind_Inr_iff rbind_Inl_iff Let_def split: prod.splits)
qed

lemma if_keeps:
  assumes "keeps_history st x" and "keeps_history st y"
  shows "keeps_history st (if b then x else y)"
  using assms by (cases b) (simp_all only: if_True if_False)

lemma keeps_option:
  assumes "keeps_history st x" and "\<And>i. keeps_history st (f i)"
  shows "keeps_history st (case r of None \<Rightarrow> x | Some i \<Rightarrow> f i)"
  using assms by (cases r) simp_all

lemma return_keeps: "keeps_history st (Inr (k, st))"
  by (simp add: keeps_history_def)

lemma simple_plain:
  assumes "plain cmd"
  shows "exec os (Suc (Suc n)) (Simple cmd) st = exec os (Suc (Suc 0)) (Simple cmd) st"
    and "keeps_history st (exec os (Suc (Suc 0)) (Simple cmd) st)"
proof -
  show "exec os (Suc (Suc n)) (Simple cmd) st = exec os (Suc (Suc 0)) (Simple cmd) st"
    unfolding exec.simps(3) buildin_plain(1)[OF assms, of os n st] ..
  show "keeps_history st (exec os (Suc (Suc 0)) (Simple cmd) st)"
    unfolding exec.simps(3) by (rule if_keeps[OF buildin_plain(2)[OF assms] external_keeps])
qed

lemma bind_keeps:
  assumes "keeps_history st r" and "\<And>k st1. history st1 = history st \<Longrightarrow> hist_file st1 = hist_file st
      \<Longrightarrow> keeps_history st1 (f (k, st1))"
  shows "keeps_history st (rbind r f)"
proof (cases r)
  case (Inl e)
  then show ?thesis using assms(1) by (simp add: keeps_history_def)
next
  case (Inr p)
  obtain k st1 where p: "p = (k, st1)" by (cases p)
  have same: "history st1 = history st" "hist_file st1 = hist_file st"
    using assms(1) unfolding keeps_history_def Inr p by blast+
  have bind: "rbind r f = f (k, st1)" by (simp add: Inr p)
  show ?thesis using assms(2)[OF same, of k] unfolding keeps_history_def same bind .
qed

lemma logic_plain:
  assumes "plain cmd"
  shows "exec os (Suc (Suc (Suc n))) (Logic cmd) st = exec os (Suc (Suc (Suc 0))) (Logic cmd) st"
    and "keeps_history st (exec os (Suc (Suc (Suc 0))) (Logic cmd) st)"
proof -
  have p: "\<not> prefix ''!'' cmd" using plain_prefix[OF assms] by auto
  note parts = plain_parts[OF assms]
  have t: "exec os (Suc (Suc n)) (Simple (take i cmd)) = exec os (Suc (Suc 0)) (Simple (take i cmd))" for i
    by (rule ext) (rule simple_plain(1)[OF parts(1)])
  have d: "exec os (Suc (Suc n)) (Simple (drop i cmd)) = exec os (Suc (Suc 0)) (Simple (drop i cmd))" for i
    by (rule ext) (rule simple_plain(1)[OF parts(2)])
  show "exec os (Suc (Suc (Suc n))) (Logic cmd) st = exec os (Suc (Suc (Suc 0))) (Logic cmd) st"
    unfolding exec.simps(5) if_not_P[OF p] t d ..
  have last: "keeps_history st1 (if b then exec os (Suc (Suc 0)) (Simple (drop i cmd)) st1 else Inr (0, st1))"
    for b i st1 by (rule if_keeps[OF simple_plain(2)[OF parts(2)] return_keeps])
  have two: "keeps_history st (rbind (exec os (Suc (Suc 0)) (Simple (take i cmd)) st) (\<lambda>(k, st1).
      if P k then exec os (Suc (Suc 0)) (Simple (drop j cmd)) st1 else Inr (0, st1)))" for P i j
    by (rule bind_keeps[OF simple_plain(2)[OF parts(1)]]) (simp add: last)
  show "keeps_history st (exec os (Suc (Suc (Suc 0))) (Logic cmd) st)"
    unfolding exec.simps(5)[of _ "Suc (Suc 0)"] if_not_P[OF p]
    by (intro keeps_option if_keeps say_keeps return_keeps two two[where P = "\<lambda>k. True", simplified])
qed

lemma run_plain:
  assumes "plain cmd"
  shows "exec os (n + 4) (Run cmd) st = exec os 4 (Run cmd) st"
    and "keeps_history st (exec os 4 (Run cmd) st)"
proof -
  have e: "n + 4 = Suc (Suc (Suc (Suc n)))" "(4::nat) = Suc (Suc (Suc (Suc 0)))" by simp_all
  note s = simple_plain[OF assms] and l = logic_plain[OF assms]
  have run: "exec os (Suc (Suc (Suc (Suc m)))) (Run cmd) st = (if contain_logic_operator cmd
      then exec os (Suc (Suc (Suc 0))) (Logic cmd) st else exec os (Suc (Suc 0)) (Simple cmd) st)" for m
    unfolding exec.simps(2) l(1)[of os m] s(1)[of os "Suc m"] ..
  show "exec os (n + 4) (Run cmd) st = exec os 4 (Run cmd) st"
    using run[of n] run[of 0] by (simp only: e(1)[symmetric] e(2)[symmetric] add_0_left)
  show "keeps_history st (exec os 4 (Run cmd) st)"
    unfolding e run by (rule if_keeps[OF l(2) s(2)])
qed

text \<open>
  C29: a command line that holds neither \<open>#\<close> nor \<open>!\<close>, whatever operators and built-in commands it
  holds, never nests more than four calls: the run ends, its result does not depend on the bound, and
  it leaves the history and the history file alone.
\<close>

theorem shell_plain_command_ends:
  assumes "plain cmd" and "4 \<le> n"
  shows "exec os n (Run cmd) st = exec os 4 (Run cmd) st \<and> exec os n (Run cmd) st \<noteq> Inl (Fault Diverges)
    \<and> (\<forall>k st'. exec os n (Run cmd) st = Inr (k, st') \<longrightarrow> history st' = history st \<and> hist_file st' = hist_file st)"
proof -
  have "exec os n (Run cmd) st = exec os 4 (Run cmd) st"
    using run_plain(1)[OF assms(1), of os "n - 4" st] assms(2) by simp
  then show ?thesis using run_plain(2)[OF assms(1), of st os] unfolding keeps_history_def by metis
qed

theorem shell_plain_command_ends_witness:
  "\<forall>st. exec quiet_os 9 (Run ''cd x || ls'') st \<noteq> Inl (Fault Diverges)"
proof
  fix st
  have "plain ''cd x || ls''" by (simp add: plain_def)
  from shell_plain_command_ends[OF this, of 9 quiet_os st] show "exec quiet_os 9 (Run ''cd x || ls'') st \<noteq> Inl (Fault Diverges)"
    by (metis numeral_le_iff semiring_norm(68,71,72))
qed

section \<open>Logic operators\<close>

lemma c_strstr_skip: "c \<notin> set a \<Longrightarrow> c_strstr (a @ c # t @ b) (c # t) = Some (length a)"
proof (induction a)
  case Nil
  then show ?case by simp
next
  case (Cons x a)
  then show ?case by (auto simp: prefix_def)
qed

lemma c_strstr_absent: "c \<notin> set s \<Longrightarrow> c_strstr s (c # t) = None"
  by (induction s) (auto simp: prefix_def)

lemma not_bang: "a \<noteq> [] \<Longrightarrow> \<not> prefix ''!'' a \<Longrightarrow> \<not> prefix ''!'' (a @ s)"
  by (cases a) auto

lemma run_and:
  assumes "a \<noteq> []" and "\<not> prefix ''!'' a" and "CHR ''&'' \<notin> set a"
  shows "exec os (Suc (Suc n)) (Run (a @ '' && '' @ b)) st
    = rbind (exec os n (Simple a) st) (\<lambda>(r, st1). if r = 0 then exec os n (Simple b) st1 else Inr (0, st1))"
proof -
  let ?cmd = "a @ '' && '' @ b"
  have at: "c_strstr ?cmd ''&&'' = Some (Suc (length a))"
    using c_strstr_skip[of "CHR ''&''" "a @ '' ''" "''&''" "'' '' @ b"] assms(3) by simp
  have op: "contain_logic_operator ?cmd" using at by (simp add: contain_logic_operator_def)
  have valid: "\<not> (length ?cmd \<le> 4 \<or> Suc (length a) < 2 \<or> \<not> prefix '' '' (drop (Suc (length a) + 2) ?cmd)
      \<or> ?cmd ! (Suc (length a) - 1) \<noteq> CHR '' '')" using assms(1) by (cases a) (auto simp: nth_append)
  have cut: "take (Suc (length a) - 1) ?cmd = a" "drop (Suc (length a) + 3) ?cmd = b" by simp_all
  show ?thesis
    unfolding exec.simps(2) if_P[OF op] exec.simps(5) if_not_P[OF not_bang[OF assms(1,2)]] at option.case
      if_not_P[OF valid] cut ..
qed

lemma run_or:
  assumes "a \<noteq> []" and "\<not> prefix ''!'' a" and "b \<noteq> []" and "CHR ''&'' \<notin> set (a @ b)" and "CHR ''|'' \<notin> set a"
  shows "exec os (Suc (Suc n)) (Run (a @ '' || '' @ b)) st
    = rbind (exec os n (Simple a) st) (\<lambda>(r, st1). if r \<noteq> 0 then exec os n (Simple b) st1 else Inr (0, st1))"
proof -
  let ?cmd = "a @ '' || '' @ b"
  have none: "c_strstr ?cmd ''&&'' = None" using assms(4) by (intro c_strstr_absent) auto
  have at: "c_strstr ?cmd ''||'' = Some (Suc (length a))"
    using c_strstr_skip[of "CHR ''|''" "a @ '' ''" "''|''" "'' '' @ b"] assms(5) by simp
  have op: "contain_logic_operator ?cmd" using at by (simp add: contain_logic_operator_def)
  have valid: "\<not> (length ?cmd \<le> 5 \<or> Suc (length a) < 2 \<or> \<not> prefix '' '' (drop (Suc (length a) + 2) ?cmd)
      \<or> ?cmd ! (Suc (length a) - 1) \<noteq> CHR '' '')" using assms(1,3) by (cases a; cases b) (auto simp: nth_append)
  have cut: "take (Suc (length a) - 1) ?cmd = a" "drop (Suc (length a) + 3) ?cmd = b" by simp_all
  show ?thesis
    unfolding exec.simps(2) if_P[OF op] exec.simps(5) if_not_P[OF not_bang[OF assms(1,2)]] none at option.case
      if_not_P[OF valid] cut ..
qed

lemma run_then:
  assumes "a \<noteq> []" and "\<not> prefix ''!'' a" and "b \<noteq> []" and "CHR ''&'' \<notin> set (a @ b)"
    and "CHR ''|'' \<notin> set (a @ b)" and "CHR '';'' \<notin> set a"
  shows "exec os (Suc (Suc n)) (Run (a @ ''; '' @ b)) st
    = rbind (exec os n (Simple a) st) (\<lambda>(r, st1). exec os n (Simple b) st1)"
proof -
  let ?cmd = "a @ ''; '' @ b"
  have none: "c_strstr ?cmd ''&&'' = None" "c_strstr ?cmd ''||'' = None"
    using assms(4,5) by (auto intro!: c_strstr_absent)
  have at: "c_strstr ?cmd '';'' = Some (length a)"
    using c_strstr_skip[of "CHR '';''" a "[]" "'' '' @ b"] assms(6) by simp
  have op: "contain_logic_operator ?cmd" using at by (simp add: contain_logic_operator_def)
  have valid: "\<not> (length ?cmd \<le> 3 \<or> length a < 1 \<or> \<not> prefix '' '' (drop (length a + 1) ?cmd))"
    using assms(1,3) by (cases a; cases b) auto
  have cut: "take (length a) ?cmd = a" "drop (length a + 2) ?cmd = b" by simp_all
  show ?thesis
    unfolding exec.simps(2) if_P[OF op] exec.simps(5) if_not_P[OF not_bang[OF assms(1,2)]] none at option.case
      if_not_P[OF valid] cut ..
qed



section \<open>The history file\<close>

definition complete :: "string \<Rightarrow> bool" where
  \<comment> \<open>every line of the file has its newline\<close>
  "complete f \<longleftrightarrow> f = [] \<or> last f = CHR 0x0A"

definition one_line :: "string \<Rightarrow> bool" where "one_line l \<longleftrightarrow> CHR 0x0A \<notin> set l"

lemma raw_lines_line: "one_line l \<Longrightarrow> raw_lines cur (l @ CHR 0x0A # s) = (cur @ l @ [CHR 0x0A]) # raw_lines [] s"
  by (induction l arbitrary: cur) (auto simp: one_line_def)

lemma file_lines_written:
  "list_all one_line ls \<Longrightarrow> file_lines (concat (List.map (\<lambda>l. l @ [CHR 0x0A]) ls)) = ls"
  by (induction ls) (auto simp: file_lines_def raw_lines_line)

lemma raw_lines_append:
  "f \<noteq> [] \<Longrightarrow> last f = CHR 0x0A \<Longrightarrow> raw_lines cur (f @ s) = raw_lines cur f @ raw_lines [] s"
  by (induction cur f rule: raw_lines.induct) (auto split: if_splits)

lemma file_lines_append: "complete f \<Longrightarrow> file_lines (f @ s) = file_lines f @ file_lines s"
  using raw_lines_append[of f "[]" s] by (cases "f = []") (auto simp: file_lines_def complete_def)

lemma complete_written: "complete f \<Longrightarrow> complete (f @ concat (List.map (\<lambda>l. l @ [CHR 0x0A]) ls))"
proof (induction ls rule: rev_induct)
  case Nil
  then show ?case by simp
qed (simp add: complete_def)

definition all_lines :: "'w shell_state \<Rightarrow> string list" where
  \<comment> \<open>the history a user sees: the lines of the file, then those not yet written\<close>
  "all_lines st = (case hist_file st of None \<Rightarrow> [] | Some f \<Rightarrow> file_lines f) @ history st"

definition wf_history :: "'w shell_state \<Rightarrow> bool" where
  "wf_history st \<longleftrightarrow> list_all one_line (history st) \<and> (\<forall>f. hist_file st = Some f \<longrightarrow> complete f)"

lemma write_keeps_lines:
  assumes "wf_history st" and "hist_file st \<noteq> None"
  shows "all_lines (wirte_to_file st) = all_lines st" "history (wirte_to_file st) = []"
    "hist_file (wirte_to_file st) \<noteq> None" "wf_history (wirte_to_file st)"
  using assms by (auto simp: all_lines_def wf_history_def wirte_to_file_def file_lines_append file_lines_written
      complete_written)

lemma flush_lines:
  assumes "wf_history st"
  shows "(case hist_file (flush_history st) of Some f \<Rightarrow> file_lines f | None \<Rightarrow> history (flush_history st)) = all_lines st"
    and "hist_file (flush_history st) = None \<longleftrightarrow> hist_file st = None"
proof -
  have "flush_history st = st" if "hist_file st = None" using that by (simp add: flush_history_def)
  moreover have "flush_history st = wirte_to_file st" if "hist_file st \<noteq> None" using that by (simp add: flush_history_def)
  ultimately show "(case hist_file (flush_history st) of Some f \<Rightarrow> file_lines f | None \<Rightarrow> history (flush_history st)) = all_lines st"
      "hist_file (flush_history st) = None \<longleftrightarrow> hist_file st = None"
    using write_keeps_lines[OF assms] by (cases "hist_file st = None"; auto simp: all_lines_def split: option.splits)+
qed

section \<open>Recalling commands\<close>

lemma find_last:
  assumes "ls = xs @ l # ys" and "prefix p l" and "\<forall>y \<in> set ys. \<not> prefix p y"
  shows "last_with p ls = Some l"
proof -
  have "List.find (prefix p) (rev ys @ l # rev xs) = Some l"
    using assms(2,3) by (induction ys rule: rev_induct) auto
  then show ?thesis by (simp add: last_with_def assms(1))
qed

text \<open>
  \<open>!prefix\<close> recalls the most recent line that begins with the prefix, over the history file and the
  lines not yet written to it: the line is appended to the history, printed and run. The copy it is run
  from has 40 bytes: a match of 40 or more characters is written past its end.
\<close>

theorem shell_recall_by_prefix:
  assumes "wf_history st" and "all_lines st = xs @ l # ys" and "prefix p l" and "\<forall>y \<in> set ys. \<not> prefix p y"
    and "p \<noteq> ''history''"
  shows "exec os (Suc n) (Buildin (CHR ''!'' # p)) st =
    (if length l < 40 then rbind (exec os n (Run l) (recall l (flush_history st))) (\<lambda>(_, st2). Inr (0, st2))
     else Inl (Fault Out_Of_Bounds))"
proof -
  have found: "last_with p (all_lines st) = Some l" using find_last[OF assms(2-4)] .
  have last: "p = [] \<Longrightarrow> last (all_lines st) = l" using assms(2,4) by (cases ys) auto
  have "cmd_beginwith p (flush_history st) = rbind (copy40 l) (\<lambda>s. Inr (Some s))"
    unfolding cmd_beginwith_def flush_lines(1)[OF assms(1)] Let_def using found last assms(2) by simp
  then show ?thesis using assms(5)
    by (simp add: exec.simps copy40_def lift_res_def)
qed

theorem shell_recall_by_prefix_witness:
  "exec quiet_os 1 (Buildin ''!ec'') \<lparr>history = [''echo '' @ replicate 40 (CHR ''x''), ''ls''], hist_file = None,
     processes = [], printed = [], world = 0\<rparr> = Inl (Fault Out_Of_Bounds)"
proof -
  let ?st = "\<lparr>history = [''echo '' @ replicate 40 (CHR ''x''), ''ls''], hist_file = None, processes = [],
     printed = [], world = 0\<rparr> :: nat shell_state"
  show ?thesis
    using shell_recall_by_prefix[of ?st "[]" "''echo '' @ replicate 40 (CHR ''x'')" "[''ls'']" "''ec''" quiet_os 0]
    by (simp add: wf_history_def one_line_def all_lines_def)
qed

section \<open>Self-reference\<close>

definition looped :: "'w shell_state \<Rightarrow> bool" where
  "looped st \<longleftrightarrow> hist_file st = None \<and> (\<exists>h. history st = ''ls; #0'' # h)"

lemma external_looped:
  assumes "\<And>a w. 0 \<le> fst (os_fork os a w)" and "looped st"
  shows "\<exists>r st'. run_external_command os ''ls'' st = Inr (r, st') \<and> looped st'"
  using assms(2) assms(1)[of "child_action ''ls''" "world st"]
  by (auto simp: run_external_command_def is_background_command_def is_signal_command_def looped_def say_def
      Let_def split: prod.splits)

lemma looped_diverges:
  assumes "\<And>a w. 0 \<le> fst (os_fork os a w)" and "looped st"
  shows "exec os n (Simple ''#0'') st = Inl (Fault Diverges) \<and> exec os n (Buildin ''#0'') st = Inl (Fault Diverges)
    \<and> exec os n (Run ''ls; #0'') st = Inl (Fault Diverges) \<and> exec os n (Logic ''ls; #0'') st = Inl (Fault Diverges)"
  using assms(2)
proof (induction n arbitrary: st)
  case 0
  then show ?case by (simp add: exec.simps)
next
  case (Suc n)
  note IH = Suc.IH[OF Suc.prems]
  obtain h where h: "history st = ''ls; #0'' # h" "hist_file st = None" using Suc.prems by (auto simp: looped_def)
  have "looped (recall ''ls; #0'' st)" using h by (simp add: looped_def recall_def say_def vector_push_def)
  note again = Suc.IH[OF this]
  have "exec os (Suc n) (Simple ''#0'') st = Inl (Fault Diverges)"
    using IH by (simp add: exec.simps is_buildin_def)
  moreover have "cmdat 0 st = Inr (Some ''ls; #0'')" using h by (simp add: cmdat_def copy40_def)
  then have "exec os (Suc n) (Buildin ''#0'') st = Inl (Fault Diverges)"
    using again h by (simp add: exec.simps flush_history_def lift_res_def atoi_def code_def isspace_def
        digits_value_def int_of_long_def isdigit_def)
  moreover have "exec os (Suc n) (Run ''ls; #0'') st = Inl (Fault Diverges)"
    using IH by (simp add: exec.simps contain_logic_operator_def)
  moreover have "exec os (Suc n) (Logic ''ls; #0'') st = Inl (Fault Diverges)"
  proof (cases n)
    case 0
    then show ?thesis by (simp add: exec.simps)
  next
    case (Suc m)
    obtain r st' where r: "run_external_command os ''ls'' st = Inr (r, st')" "looped st'"
      using external_looped[OF assms(1) Suc.prems] by blast
    have "exec os n (Simple ''ls'') st = Inr (r, st')" using r(1) Suc by (simp add: exec.simps is_buildin_def)
    then show ?thesis using Suc.IH[OF r(2)] by (simp add: exec.simps)
  qed
  ultimately show ?case by blast
qed

text \<open>
  Typing \<open>ls; #0\<close> as the first command never ends: the recall of line 0 runs the same line again.
  When starting a child succeeds, every bound on the nesting of calls is exceeded.
\<close>

theorem shell_self_recall_diverges:
  assumes "\<And>a w. 0 \<le> fst (os_fork os a w)"
  shows "shell os n files [''./shell''] ((''ls; #0'' @ [CHR 0x0A]) # input) pid w = Inl (Fault Diverges)"
proof -
  have "looped (remember ''ls; #0'' (say Prompt
      \<lparr>history = [], hist_file = None, processes = [(''./shell'', pid)], printed = [], world = w\<rparr>))"
    by (simp add: looped_def remember_def say_def vector_push_def)
  from looped_diverges[OF assms this, of n] show ?thesis by (simp add: shell_def)
qed

theorem shell_self_recall_diverges_witness:
  "shell quiet_os 100 (\<lambda>_. []) [''./shell''] [''ls; #0'' @ [CHR 0x0A]] 1 0 = Inl (Fault Diverges)"
  using shell_self_recall_diverges[of quiet_os] by (simp add: quiet_os_def)

section \<open>Process list\<close>

definition live_processes :: "'w os \<Rightarrow> 'w \<Rightarrow> (string \<times> int) list \<Rightarrow> (string \<times> int) list" where
  "live_processes os w ps = filter (\<lambda>(c, pid). os_alive os pid w) ps"

lemma ps_loop_freed: "ps_loop os w True ps = (if live_processes os w ps = [] then Inr ([], []) else Inl Dangling)"
  by (induction ps) (auto simp: live_processes_def)

lemma ps_loop_fresh:
  assumes "\<forall>(c, pid) \<in> set ps. length c < 40"
  shows "ps_loop os w False ps = (case live_processes os w ps of [] \<Rightarrow> Inr ([], [])
     | [(c, pid)] \<Rightarrow> Inr ([(c, pid)], [Process_Info pid c]) | _ \<Rightarrow> Inl Dangling)"
  using assms
proof (induction ps)
  case Nil
  then show ?case by (simp add: live_processes_def)
next
  case (Cons p ps)
  obtain c pid where p: "p = (c, pid)" by (cases p)
  show ?case
  proof (cases "os_alive os pid w")
    case True
    then show ?thesis using Cons.prems
      by (auto simp: p ps_loop_freed live_processes_def split: list.splits)
  next
    case False
    then show ?thesis using Cons by (simp add: p live_processes_def)
  qed
qed

text \<open>
  \<open>ps\<close> keeps and prints the processes that still exist as long as there is at most one: the block
  for the command, allocated before the loop, is freed in each round, so with a second process alive
  (the shell is one of them) the loop writes into freed memory.
\<close>

theorem shell_ps_second_live_process:
  assumes "\<forall>(c, pid) \<in> set (processes st). length c < 40"
  shows "exec os (Suc n) (Buildin ''ps'') st = (let l = live_processes os (world st) (processes st) in
    if 2 \<le> length l then Inl (Fault Dangling)
    else Inr (0, st\<lparr>processes := l, printed := printed st @ Process_Header # List.map (\<lambda>(c, pid). Process_Info pid c) l\<rparr>))"
  by (auto simp: exec.simps ps_loop_fresh[OF assms] lift_res_def Let_def split: list.splits prod.splits)

theorem shell_ps_second_live_process_witness:
  "exec quiet_os 1 (Buildin ''ps'') \<lparr>history = [], hist_file = None,
     processes = [(''./shell'', 5), (''sleep 1 &'', 7), (''sleep 9 &'', 6)], printed = [], world = 0\<rparr>
   = Inl (Fault Dangling)"
  using shell_ps_second_live_process[of "\<lparr>history = [], hist_file = None,
     processes = [(''./shell'', 5), (''sleep 1 &'', 7), (''sleep 9 &'', 6)], printed = [], world = 0\<rparr>" quiet_os 0]
  by (simp add: live_processes_def quiet_os_def)

section \<open>A session with a history file\<close>

definition external :: "string \<Rightarrow> bool" where
  \<comment> \<open>a line that is run as one program\<close>
  "external cmd \<longleftrightarrow> plain cmd \<and> \<not> contain_logic_operator cmd \<and> \<not> is_buildin cmd \<and> one_line cmd \<and> cmd \<noteq> ''exit''"

definition os_runs :: "'w os \<Rightarrow> bool" where
  \<comment> \<open>children start and are not killed by signal 9\<close>
  "os_runs os \<longleftrightarrow> (\<forall>a w. 0 \<le> fst (os_fork os a w)) \<and> (\<forall>p w. fst (snd (os_wait os p w)) \<noteq> 9)"

lemma run_external_returns:
  assumes "os_runs os"
  shows "\<exists>r st'. run_external_command os cmd st = Inr (r, st') \<and> history st' = history st \<and> hist_file st' = hist_file st"
proof -
  obtain pid w where f: "os_fork os (child_action cmd) (world st) = (pid, w)" by fastforce
  obtain r s w' where q: "os_wait os pid w = (r, s, w')" using prod_cases3 by blast
  have "0 \<le> pid" "s \<noteq> 9" using assms f q unfolding os_runs_def by (metis fst_conv snd_conv)+
  then show ?thesis by (auto simp: run_external_command_def f q Let_def say_def)
qed

lemma hist_flag_session:
  assumes "os_runs os" and "2 \<le> n"
  shows "list_all external cmds \<Longrightarrow> hist_file st = Some f \<Longrightarrow>
    \<exists>st'. hist_flag os n (List.map (\<lambda>l. l @ [CHR 0x0A]) cmds) st = Inr st' \<and> history st' = []
      \<and> hist_file st' = Some (f @ concat (List.map (\<lambda>l. l @ [CHR 0x0A]) (history st @ cmds)))"
proof (induction cmds arbitrary: st)
  case Nil
  then show ?case by (auto simp: wirte_to_file_def say_def)
next
  case (Cons c cs)
  obtain m where n: "n = Suc (Suc m)" using assms(2) that by (auto dest!: le_Suc_ex)
  have c: "external c" using Cons.prems by simp
  have rem: "history (remember c (say Prompt st)) = history st @ [c]"
      "hist_file (remember c (say Prompt st)) = Some f"
    using c plain_prefix[of c] Cons.prems(2) by (auto simp: external_def remember_def vector_push_def say_def)
  obtain r st1 where r: "run_external_command os c (remember c (say Prompt st)) = Inr (r, st1)"
      "history st1 = history st @ [c]" "hist_file st1 = Some f"
    using run_external_returns[OF assms(1), of c "remember c (say Prompt st)"] unfolding rem by blast
  have "exec os n (Run c) (remember c (say Prompt st)) = Inr (r, st1)"
    using c r(1) by (simp add: n exec.simps external_def)
  moreover have "c \<noteq> ''exit''" using c by (simp add: external_def)
  ultimately show ?case using Cons.IH[of st1] Cons.prems(1) r(2,3) by simp
qed



end
