(* ===== verification/Net_Io.thy ===== *)
theory Net_Io
  imports Ctype
begin

text \<open>
  The socket routines of \<^verbatim>\<open>nonstop_networking/common.c\<close> and the loops on top of them that client and
  server share. A connection holds the bytes the peer sends before it shuts down, the bytes written so
  far, and, for each direction, a plan of the kernel's answers: a call may be interrupted, may fail,
  or may move fewer bytes than asked; when the plan is used up it moves all it can.
\<close>

section \<open>System calls\<close>

datatype kernel_event = Interrupted | Broken | Chunk nat

record conn =
  incoming :: string
  outgoing :: string
  rplan :: "kernel_event list"
  wplan :: "kernel_event list"

datatype 'a sys_result = Eintr | Failed | Moved 'a

definition sys_read :: "nat \<Rightarrow> conn \<Rightarrow> string sys_result \<times> conn" where
  \<comment> \<open>blocks until there is a byte or the peer has shut down; \<open>Moved []\<close> is the end\<close>
  "sys_read n c = (case rplan c of
     [] \<Rightarrow> (Moved (take n (incoming c)), c\<lparr>incoming := drop n (incoming c)\<rparr>)
   | Interrupted # p \<Rightarrow> (Eintr, c\<lparr>rplan := p\<rparr>)
   | Broken # p \<Rightarrow> (Failed, c\<lparr>rplan := p\<rparr>)
   | Chunk k # p \<Rightarrow> let m = min n (max 1 k)
       in (Moved (take m (incoming c)), c\<lparr>incoming := drop m (incoming c), rplan := p\<rparr>))"

definition sys_write :: "string \<Rightarrow> conn \<Rightarrow> nat sys_result \<times> conn" where
  "sys_write s c = (case wplan c of
     [] \<Rightarrow> (Moved (length s), c\<lparr>outgoing := outgoing c @ s\<rparr>)
   | Interrupted # p \<Rightarrow> (Eintr, c\<lparr>wplan := p\<rparr>)
   | Broken # p \<Rightarrow> (Failed, c\<lparr>wplan := p\<rparr>)
   | Chunk k # p \<Rightarrow> let m = min (length s) (max 1 k)
       in (Moved m, c\<lparr>outgoing := outgoing c @ take m s, wplan := p\<rparr>))"

lemma sys_read_smaller:
  "(Moved s, c') = sys_read n c \<Longrightarrow> length (rplan c') \<le> length (rplan c)"
  "(Eintr, c') = sys_read n c \<Longrightarrow> length (rplan c') < length (rplan c)"
  by (auto simp: sys_read_def Let_def split: list.splits kernel_event.splits)

lemma sys_write_smaller:
  "(Moved r, c') = sys_write s c \<Longrightarrow> length (wplan c') \<le> length (wplan c)"
  "(Eintr, c') = sys_write s c \<Longrightarrow> length (wplan c') < length (wplan c)"
  by (auto simp: sys_write_def Let_def split: list.splits kernel_event.splits)

section \<open>my_read and my_write\<close>

function my_read_loop :: "nat \<Rightarrow> string \<Rightarrow> conn \<Rightarrow> string option \<times> conn" where
  "my_read_loop want got c =
     (if length got < want then
        (case sys_read (want - length got) c of
           (Moved s, c') \<Rightarrow> if s = [] then (Some got, c') else my_read_loop want (got @ s) c'
         | (Eintr, c') \<Rightarrow> my_read_loop want got c'
         | (Failed, c') \<Rightarrow> (None, c'))
      else (Some got, c))"
  by pat_completeness auto
termination
  by (relation "measure (\<lambda>(want, got, c). length (rplan c) + (want - length got))")
    (auto dest!: sys_read_smaller simp: neq_Nil_conv)

declare my_read_loop.simps [simp del]

definition my_read :: "nat \<Rightarrow> conn \<Rightarrow> string option \<times> conn" where
  \<comment> \<open>the bytes stored in the buffer, \<open>None\<close> for -1\<close>
  "my_read want c = my_read_loop want [] c"

function my_write_loop :: "string \<Rightarrow> nat \<Rightarrow> conn \<Rightarrow> int \<times> conn" where
  "my_write_loop buffer written c =
     (if written < length buffer then
        (case sys_write (drop written buffer) c of
           (Moved r, c') \<Rightarrow> if r = 0 then (int written, c') else my_write_loop buffer (written + r) c'
         | (Eintr, c') \<Rightarrow> my_write_loop buffer written c'
         | (Failed, c') \<Rightarrow> (- 1, c'))
      else (int written, c))"
  by pat_completeness auto
termination
  by (relation "measure (\<lambda>(buffer, written, c). length (wplan c) + (length buffer - written))")
    (auto dest: sys_write_smaller)

declare my_write_loop.simps [simp del]

definition my_write :: "string \<Rightarrow> conn \<Rightarrow> int \<times> conn" where
  "my_write buffer c = my_write_loop buffer 0 c"

section \<open>Loops shared by client and server\<close>

definition LF :: char where "LF = CHR 0x0A"

fun read_line :: "nat \<Rightarrow> string \<Rightarrow> conn \<Rightarrow> string option \<times> conn" where
  \<comment> \<open>byte by byte up to a LF or the given number of bytes; \<open>None\<close> when a read fails or the peer
     has ended\<close>
  "read_line 0 got c = (Some got, c)"
| "read_line (Suc k) got c =
     (case my_read 1 c of
        (Some (b # bs), c') \<Rightarrow> if b = LF then (Some (got @ [b]), c') else read_line k (got @ [b]) c'
      | (_, c') \<Rightarrow> (None, c'))"

definition size_bytes :: "nat \<Rightarrow> string" where
  \<comment> \<open>a \<open>size_t\<close> in memory, least byte first\<close>
  "size_bytes n = List.map (\<lambda>i. char_of (n div 256 ^ i)) [0..<8]"

definition bytes_size :: "string \<Rightarrow> nat" where
  "bytes_size bs = foldr (\<lambda>c n. of_char c + 256 * n) bs 0"

function send_chunks :: "string \<Rightarrow> nat \<Rightarrow> conn \<Rightarrow> int \<times> conn" where
  \<comment> \<open>the contents of a file in pieces of 4096 bytes; the result of the last \<open>my_write\<close> when it was not
     positive\<close>
  "send_chunks data bytes_rw c =
     (if bytes_rw < length data then
        let to_rw = min 4096 (length data - bytes_rw);
            (r, c') = my_write (take to_rw (drop bytes_rw data)) c
        in if r \<le> 0 then (r, c') else send_chunks data (bytes_rw + nat r) c'
      else (1, c))"
  by pat_completeness auto
termination by (relation "measure (\<lambda>(data, bytes_rw, c). length data - bytes_rw)") auto

declare send_chunks.simps [simp del]

datatype received = Complete | Read_Failed | Too_Little

function recv_chunks :: "nat \<Rightarrow> string \<Rightarrow> conn \<Rightarrow> received \<times> string \<times> conn" where
  \<comment> \<open>with what has been written to the file so far\<close>
  "recv_chunks want data c =
     (if length data < want then
        (case my_read (min 4096 (want - length data)) c of
           (None, c') \<Rightarrow> (Read_Failed, data, c')
         | (Some r, c') \<Rightarrow> if r = [] then (Too_Little, data, c') else recv_chunks want (data @ r) c')
      else (Complete, data, c))"
  by pat_completeness auto
termination by (relation "measure (\<lambda>(want, data, c). want - length data)")
    (auto intro!: diff_less_mono2)

declare recv_chunks.simps [simp del]

section \<open>Every byte, in order\<close>

definition reliable :: "conn \<Rightarrow> bool" where
  \<comment> \<open>calls are interrupted or cut short, but do not fail\<close>
  "reliable c \<longleftrightarrow> Broken \<notin> set (rplan c) \<and> Broken \<notin> set (wplan c)"

lemma sys_read_cases:
  assumes "reliable c" and "0 < n"
  obtains p where "sys_read n c = (Eintr, c\<lparr>rplan := p\<rparr>)" "set p \<subseteq> set (rplan c)"
  | m p where "0 < m" "m \<le> n" "set p \<subseteq> set (rplan c)"
      "sys_read n c = (Moved (take m (incoming c)), c\<lparr>incoming := drop m (incoming c), rplan := p\<rparr>)"
proof (cases "rplan c")
  case Nil
  have "sys_read n c = (Moved (take n (incoming c)), c\<lparr>incoming := drop n (incoming c), rplan := []\<rparr>)"
    using Nil by (simp add: sys_read_def)
  with that(2)[of n "[]"] assms(2) show ?thesis by simp
next
  case (Cons e p)
  have p: "set p \<subseteq> set (rplan c)" using Cons by auto
  show ?thesis
  proof (cases e)
    case Interrupted
    then show ?thesis using that(1)[of p] Cons p by (simp add: sys_read_def)
  next
    case Broken
    then show ?thesis using assms(1) Cons by (simp add: reliable_def)
  next
    case (Chunk k)
    then show ?thesis using that(2)[of "min n (max 1 k)" p] assms(2) Cons p by (simp add: sys_read_def Let_def)
  qed
qed

lemma take_drop_split:
  assumes "m \<le> n"
  shows "take m xs @ take (n - length (take m xs)) (drop m xs) = take n xs"
    and "drop (n - length (take m xs)) (drop m xs) = drop n xs"
proof -
  have e: "n = m + (n - m)" using assms by simp
  show "take m xs @ take (n - length (take m xs)) (drop m xs) = take n xs"
    using take_add[of m "n - m" xs] e by (cases "m \<le> length xs") auto
  show "drop (n - length (take m xs)) (drop m xs) = drop n xs"
    using assms by (cases "m \<le> length xs") auto
qed

lemma my_read_loop_reliable:
  "reliable c \<Longrightarrow> length got \<le> want \<Longrightarrow>
    \<exists>p. my_read_loop want got c = (Some (got @ take (want - length got) (incoming c)),
        c\<lparr>incoming := drop (want - length got) (incoming c), rplan := p\<rparr>) \<and> set p \<subseteq> set (rplan c)"
proof (induction want got c rule: my_read_loop.induct)
  case (1 want got c)
  show ?case
  proof (cases "length got < want")
    case False
    then show ?thesis using 1(4) by (subst my_read_loop.simps) (auto intro!: exI[of _ "rplan c"])
  next
    case True
    let ?n = "want - length got"
    have "0 < ?n" using True by simp
    with 1(3) show ?thesis
    proof (cases rule: sys_read_cases)
      case (1 p)
      have "reliable (c\<lparr>rplan := p\<rparr>)" using "1.prems"(1) 1(2) by (auto simp: reliable_def)
      from "1.IH"(1)[OF True 1(1)[symmetric] refl this "1.prems"(2)] show ?thesis using True 1
        by (subst my_read_loop.simps) auto
    next
      case (2 m p)
      let ?s = "take m (incoming c)" and ?c = "c\<lparr>incoming := drop m (incoming c), rplan := p\<rparr>"
      show ?thesis
      proof (cases "?s = []")
        case end_reached: True
        then have "incoming c = []" using 2(1) by simp
        then show ?thesis using True 2 by (subst my_read_loop.simps) (auto intro!: exI[of _ p])
      next
        case False
        have "reliable ?c" using "1.prems"(1) 2(3) by (auto simp: reliable_def)
        moreover have "length (got @ ?s) \<le> want" using True 2(2) by simp
        ultimately obtain q where q: "my_read_loop want (got @ ?s) ?c =
            (Some ((got @ ?s) @ take (want - length (got @ ?s)) (incoming ?c)),
             ?c\<lparr>incoming := drop (want - length (got @ ?s)) (incoming ?c), rplan := q\<rparr>)" "set q \<subseteq> set (rplan ?c)"
          using "1.IH"(2)[OF True 2(4)[symmetric] refl False] by blast
        have n: "want - length (got @ ?s) = ?n - length ?s" by simp
        have u: "incoming ?c = drop m (incoming c)" "rplan ?c = p"
            "?c\<lparr>incoming := x, rplan := r\<rparr> = c\<lparr>incoming := x, rplan := r\<rparr>" for x r by simp_all
        note q' = q[unfolded n u append_assoc take_drop_split[OF 2(2)]]
        have "my_read_loop want got c = my_read_loop want (got @ ?s) ?c"
          using True False 2(4) by (subst my_read_loop.simps) simp
        then show ?thesis using q' 2(3) by auto
      qed
    qed
  qed
qed

lemma my_read_reliable:
  assumes "reliable c"
  obtains p where "my_read n c = (Some (take n (incoming c)), c\<lparr>incoming := drop n (incoming c), rplan := p\<rparr>)"
    "set p \<subseteq> set (rplan c)"
  using my_read_loop_reliable[OF assms, of "[]" n] that unfolding my_read_def by auto

lemma sys_write_cases:
  assumes "reliable c" and "s \<noteq> []"
  obtains p where "sys_write s c = (Eintr, c\<lparr>wplan := p\<rparr>)" "set p \<subseteq> set (wplan c)"
  | m p where "0 < m" "m \<le> length s" "set p \<subseteq> set (wplan c)"
      "sys_write s c = (Moved m, c\<lparr>outgoing := outgoing c @ take m s, wplan := p\<rparr>)"
proof (cases "wplan c")
  case Nil
  have "sys_write s c = (Moved (length s), c\<lparr>outgoing := outgoing c @ take (length s) s, wplan := []\<rparr>)"
    using Nil by (simp add: sys_write_def)
  with that(2)[of "length s" "[]"] assms(2) show ?thesis by simp
next
  case (Cons e p)
  have p: "set p \<subseteq> set (wplan c)" using Cons by auto
  show ?thesis
  proof (cases e)
    case Interrupted
    then show ?thesis using that(1)[of p] Cons p by (simp add: sys_write_def)
  next
    case Broken
    then show ?thesis using assms(1) Cons by (simp add: reliable_def)
  next
    case (Chunk k)
    then show ?thesis using that(2)[of "min (length s) (max 1 k)" p] assms(2) Cons p
      by (simp add: sys_write_def Let_def)
  qed
qed

lemma my_write_loop_reliable:
  "reliable c \<Longrightarrow> written \<le> length buffer \<Longrightarrow>
    \<exists>p. my_write_loop buffer written c = (int (length buffer),
        c\<lparr>outgoing := outgoing c @ drop written buffer, wplan := p\<rparr>) \<and> set p \<subseteq> set (wplan c)"
proof (induction buffer written c rule: my_write_loop.induct)
  case (1 buffer written c)
  show ?case
  proof (cases "written < length buffer")
    case False
    then show ?thesis using 1(4) by (subst my_write_loop.simps) (auto intro!: exI[of _ "wplan c"])
  next
    case True
    let ?rest = "drop written buffer"
    have "?rest \<noteq> []" using True by simp
    with 1(3) show ?thesis
    proof (cases rule: sys_write_cases)
      case (1 p)
      have "reliable (c\<lparr>wplan := p\<rparr>)" using "1.prems"(1) 1(2) by (auto simp: reliable_def)
      from "1.IH"(1)[OF True 1(1)[symmetric] refl this "1.prems"(2)] show ?thesis using True 1
        by (subst my_write_loop.simps) auto
    next
      case (2 m p)
      let ?c = "c\<lparr>outgoing := outgoing c @ take m ?rest, wplan := p\<rparr>"
      have "reliable ?c" using "1.prems"(1) 2(3) by (auto simp: reliable_def)
      moreover have "written + m \<le> length buffer" using True 2(2) by simp
      moreover have m: "m \<noteq> 0" using 2(1) by simp
      ultimately obtain q where q: "my_write_loop buffer (written + m) ?c = (int (length buffer),
          ?c\<lparr>outgoing := outgoing ?c @ drop (written + m) buffer, wplan := q\<rparr>)" "set q \<subseteq> set (wplan ?c)"
        using "1.IH"(2)[OF True 2(4)[symmetric] refl m] by blast
      have rest: "take m ?rest @ drop (written + m) buffer = ?rest"
        by (metis append_take_drop_id drop_drop add.commute)
      have "my_write_loop buffer written c = my_write_loop buffer (written + m) ?c"
        using True m 2(4) by (subst my_write_loop.simps) simp
      then show ?thesis using q 2(3) rest by auto
    qed
  qed
qed

lemma my_write_reliable:
  assumes "reliable c"
  obtains p where "my_write s c = (int (length s), c\<lparr>outgoing := outgoing c @ s, wplan := p\<rparr>)"
    "set p \<subseteq> set (wplan c)"
  using my_write_loop_reliable[OF assms, of 0 s] that unfolding my_write_def by auto

section \<open>The interface of a byte stream\<close>

locale byte_stream =
  fixes recv :: "nat \<Rightarrow> 'c \<Rightarrow> string option \<times> 'c"
    and send :: "string \<Rightarrow> 'c \<Rightarrow> int \<times> 'c"
    and inbox :: "'c \<Rightarrow> string"
    and outbox :: "'c \<Rightarrow> string"
    and good :: "'c \<Rightarrow> bool"
  assumes recv_law: "good c \<Longrightarrow> \<exists>c'. recv n c = (Some (take n (inbox c)), c') \<and> inbox c' = drop n (inbox c)
      \<and> outbox c' = outbox c \<and> good c'"
    and send_law: "good c \<Longrightarrow> \<exists>c'. send s c = (int (length s), c') \<and> inbox c' = inbox c
      \<and> outbox c' = outbox c @ s \<and> good c'"
begin

lemma recvE:
  assumes "good c"
  obtains c' where "recv n c = (Some (take n (inbox c)), c')" "inbox c' = drop n (inbox c)"
    "outbox c' = outbox c" "good c'"
  using recv_law[OF assms] by blast

lemma sendE:
  assumes "good c"
  obtains c' where "send s c = (int (length s), c')" "inbox c' = inbox c" "outbox c' = outbox c @ s" "good c'"
  using send_law[OF assms] by blast

lemma recv_byteE:
  assumes "good c" and "inbox c = b # bs"
  obtains c' where "recv 1 c = (Some [b], c')" "inbox c' = bs" "outbox c' = outbox c" "good c'"
  using recvE[OF assms(1), of 1] assms(2) by auto

lemma recv_endE:
  assumes "good c" and "inbox c = []"
  obtains c' where "recv n c = (Some [], c')" "inbox c' = []" "outbox c' = outbox c" "good c'"
  using recvE[OF assms(1), of n] assms(2) by auto

lemma recv_prefixE:
  assumes "good c" and "inbox c = s @ t" and "length s = n"
  obtains c' where "recv n c = (Some s, c')" "inbox c' = t" "outbox c' = outbox c" "good c'"
  using recvE[OF assms(1), of n] assms(2,3) by auto

end

interpretation tcp: byte_stream my_read my_write incoming outgoing reliable
proof
  fix c n
  assume c: "reliable c"
  then obtain p where "my_read n c = (Some (take n (incoming c)), c\<lparr>incoming := drop n (incoming c), rplan := p\<rparr>)"
      "set p \<subseteq> set (rplan c)" by (rule my_read_reliable)
  then show "\<exists>c'. my_read n c = (Some (take n (incoming c)), c') \<and> incoming c' = drop n (incoming c)
      \<and> outgoing c' = outgoing c \<and> reliable c'" using c by (auto simp: reliable_def)
next
  fix c s
  assume c: "reliable c"
  then obtain p where "my_write s c = (int (length s), c\<lparr>outgoing := outgoing c @ s, wplan := p\<rparr>)"
      "set p \<subseteq> set (wplan c)" by (rule my_write_reliable)
  then show "\<exists>c'. my_write s c = (int (length s), c') \<and> incoming c' = incoming c
      \<and> outgoing c' = outgoing c @ s \<and> reliable c'" using c by (auto simp: reliable_def)
qed

text \<open>
  As long as the kernel's calls do not fail, \<open>my_read\<close> and \<open>my_write\<close> end for every sequence of
  interruptions and partial transfers: \<open>my_read\<close> returns the next \<open>n\<close> bytes, fewer only when the peer has
  ended, and consumes exactly these; \<open>my_write\<close> returns the full length and appends all bytes in order.
\<close>

theorem my_read_my_write_complete:
  assumes "reliable c"
  shows "\<exists>c1 c2. my_read n c = (Some (take n (incoming c)), c1) \<and> incoming c1 = drop n (incoming c) \<and> outgoing c1 = outgoing c
    \<and> my_write s c = (int (length s), c2) \<and> outgoing c2 = outgoing c @ s \<and> incoming c2 = incoming c"
  using tcp.recv_law[OF assms, of n] tcp.send_law[OF assms, of s] by blast

theorem my_read_my_write_complete_witness:
  "\<exists>c1. my_read 3 \<lparr>incoming = ''abcd'', outgoing = [], rplan = [Chunk 1, Interrupted, Chunk 9], wplan = []\<rparr>
    = (Some ''abc'', c1) \<and> incoming c1 = ''d''"
  using my_read_my_write_complete[of "\<lparr>incoming = ''abcd'', outgoing = [], rplan = [Chunk 1, Interrupted, Chunk 9], wplan = []\<rparr>" 3]
  by (auto simp: reliable_def)

section \<open>The shared loops\<close>

lemma read_line_found:
  "reliable c \<Longrightarrow> incoming c = l @ LF # rest \<Longrightarrow> LF \<notin> set l \<Longrightarrow> length l < k \<Longrightarrow>
    \<exists>c'. read_line k got c = (Some (got @ l @ [LF]), c') \<and> incoming c' = rest \<and> outgoing c' = outgoing c \<and> reliable c'"
proof (induction k arbitrary: got c l)
  case 0
  then show ?case by simp
next
  case (Suc k)
  obtain b bs where b: "incoming c = b # bs" using Suc.prems(2) by (cases l) auto
  obtain c1 where c1: "my_read 1 c = (Some [b], c1)" "incoming c1 = bs" "outgoing c1 = outgoing c" "reliable c1"
    using tcp.recv_byteE[OF Suc.prems(1) b] .
  show ?case
  proof (cases l)
    case Nil
    then show ?thesis using c1 b Suc.prems(2) by simp
  next
    case (Cons x l')
    then have "b = x" "incoming c1 = l' @ LF # rest" "b \<noteq> LF" using b c1(2) Suc.prems(2,3) by auto
    then show ?thesis using Suc.IH[OF c1(4), of l' "got @ [b]"] Suc.prems(3,4) Cons c1 by auto
  qed
qed

lemma read_line_full:
  "reliable c \<Longrightarrow> LF \<notin> set (take k (incoming c)) \<Longrightarrow> k \<le> length (incoming c) \<Longrightarrow>
    \<exists>c'. read_line k got c = (Some (got @ take k (incoming c)), c') \<and> outgoing c' = outgoing c"
proof (induction k arbitrary: got c)
  case 0
  then show ?case by simp
next
  case (Suc k)
  obtain b bs where b: "incoming c = b # bs" using Suc.prems(3) by (cases "incoming c") auto
  obtain c1 where c1: "my_read 1 c = (Some [b], c1)" "incoming c1 = bs" "outgoing c1 = outgoing c" "reliable c1"
    using tcp.recv_byteE[OF Suc.prems(1) b] .
  show ?case using Suc.IH[OF c1(4), of "got @ [b]"] Suc.prems(2,3) b c1 by auto
qed

lemma read_line_ended:
  "reliable c \<Longrightarrow> LF \<notin> set (incoming c) \<Longrightarrow> length (incoming c) < k \<Longrightarrow>
    \<exists>c'. read_line k got c = (None, c') \<and> outgoing c' = outgoing c"
proof (induction k arbitrary: got c)
  case 0
  then show ?case by simp
next
  case (Suc k)
  show ?case
  proof (cases "incoming c")
    case Nil
    obtain c1 where "my_read 1 c = (Some [], c1)" "outgoing c1 = outgoing c"
      using tcp.recv_endE[OF Suc.prems(1) Nil] .
    then show ?thesis by simp
  next
    case (Cons b bs)
    obtain c1 where c1: "my_read 1 c = (Some [b], c1)" "incoming c1 = bs" "outgoing c1 = outgoing c" "reliable c1"
      using tcp.recv_byteE[OF Suc.prems(1) Cons] .
    show ?thesis using Suc.IH[OF c1(4), of "got @ [b]"] Suc.prems(2,3) Cons c1 by auto
  qed
qed

lemma send_chunks_ok:
  "reliable c \<Longrightarrow> pos \<le> length data \<Longrightarrow> \<exists>r c'. send_chunks data pos c = (r, c') \<and> 0 < r
     \<and> incoming c' = incoming c \<and> outgoing c' = outgoing c @ drop pos data \<and> reliable c'"
proof (induction data pos c rule: send_chunks.induct)
  case (1 data pos c)
  show ?case
  proof (cases "pos < length data")
    case False
    then show ?thesis using 1(2,3) by (subst send_chunks.simps) simp
  next
    case True
    let ?n = "min 4096 (length data - pos)"
    let ?s = "take ?n (drop pos data)"
    obtain c1 where c1: "my_write ?s c = (int (length ?s), c1)" "incoming c1 = incoming c"
        "outgoing c1 = outgoing c @ ?s" "reliable c1"
      using tcp.sendE[OF 1(2)] .
    have len: "length ?s = ?n" by simp
    have pos: "\<not> int ?n \<le> 0" using True by simp
    have rest: "?s @ drop (pos + ?n) data = drop pos data"
      by (metis append_take_drop_id drop_drop add.commute)
    have le: "pos + ?n \<le> length data" using True by simp
    have step: "send_chunks data pos c = send_chunks data (pos + ?n) c1"
      using True le c1(1)[unfolded len] pos by (subst send_chunks.simps) (simp only: Let_def prod.case nat_int if_True if_False refl)
    have "\<exists>r c'. send_chunks data (pos + nat (int ?n)) c1 = (r, c') \<and> 0 < r \<and> incoming c' = incoming c1
        \<and> outgoing c' = outgoing c1 @ drop (pos + nat (int ?n)) data \<and> reliable c'"
      using 1(1)[OF True refl c1(1)[unfolded len, symmetric] refl pos c1(4)] le by simp
    then show ?thesis unfolding step nat_int c1(2,3) append_assoc rest .
  qed
qed

lemma recv_chunks_ok:
  "reliable c \<Longrightarrow> length data \<le> want \<Longrightarrow> \<exists>c'. recv_chunks want data c =
     (if want - length data \<le> length (incoming c) then Complete else Too_Little,
      data @ take (want - length data) (incoming c), c')
     \<and> incoming c' = drop (want - length data) (incoming c) \<and> outgoing c' = outgoing c \<and> reliable c'"
proof (induction want data c rule: recv_chunks.induct)
  case (1 want data c)
  show ?case
  proof (cases "length data < want")
    case False
    then show ?thesis using 1(2,3) by (subst recv_chunks.simps) simp
  next
    case True
    let ?k = "want - length data"
    let ?n = "min 4096 ?k"
    obtain c1 where c1: "my_read ?n c = (Some (take ?n (incoming c)), c1)" "incoming c1 = drop ?n (incoming c)"
        "outgoing c1 = outgoing c" "reliable c1"
      using tcp.recvE[OF 1(2)] .
    show ?thesis
    proof (cases "take ?n (incoming c) = []")
      case end_reached: True
      then have "incoming c = []" using True by auto
      then show ?thesis using True c1 by (subst recv_chunks.simps) simp
    next
      case False
      let ?s = "take ?n (incoming c)"
      have step: "recv_chunks want data c = recv_chunks want (data @ ?s) c1"
        using True False c1(1) by (subst recv_chunks.simps) (simp only: prod.case option.case if_True if_False refl)
      have le: "length (data @ ?s) \<le> want" using True by simp
      have k: "want - length (data @ ?s) = ?k - length ?s" by simp
      have n: "?n \<le> ?k" by simp
      have enough: "?k - length ?s \<le> length (drop ?n (incoming c)) \<longleftrightarrow> ?k \<le> length (incoming c)" by auto
      from 1(1)[OF True c1(1)[symmetric] refl False c1(4) le] show ?thesis
        unfolding step c1(2,3) k append_assoc take_drop_split[OF n] enough .
    qed
  qed
qed

section \<open>Sizes\<close>

lemma length_size_bytes [simp]: "length (size_bytes n) = 8"
  by (simp add: size_bytes_def)

lemma bytes_size_digits:
  "foldr (\<lambda>c n. of_char c + 256 * n) (List.map (\<lambda>i. char_of ((n::nat) div 256 ^ i)) [0..<k]) 0 = n mod 256 ^ k"
proof (induction k arbitrary: n)
  case 0
  then show ?case by simp
next
  case (Suc k)
  have "List.map (\<lambda>i. char_of (n div 256 ^ i)) [0..<Suc k]
      = char_of n # List.map (\<lambda>i. char_of (n div 256 div 256 ^ i)) [0..<k]"
    unfolding upt_conv_Cons[OF zero_less_Suc] map_Suc_upt[symmetric]
    by (simp add: comp_def div_mult2_eq del: upt_Suc)
  then show ?case using Suc.IH[of "n div 256"] by (simp add: mod_mult2_eq del: upt_Suc)
qed

lemma size_roundtrip: "n < 2 ^ 64 \<Longrightarrow> bytes_size (size_bytes n) = n"
  unfolding bytes_size_def size_bytes_def bytes_size_digits by simp

end
