(* ===== verification/Net_Client.thy ===== *)
theory Net_Client
  imports Net_Io
begin

text \<open>
  The client of \<^verbatim>\<open>nonstop_networking/client.c\<close>: the command line, the request it sends and what it makes
  of the response. The local files are a map, what \<open>format.c\<close> prints is a list of told, and the terminal
  the list of files goes to is a connection of its own (file descriptor 1).
\<close>

section \<open>State\<close>

datatype verb = GET | PUT | DELETE | LIST | V_UNKNOWN

record args =
  host :: string
  port :: string
  meth :: string
  remote :: "string option"
  local_file :: "string option"

datatype notice = Usage | Help | Invalid_Response | Error_Message string | Success
  | Too_Little_Data | Too_Much_Data | Connection_Closed | Perror string

record client =
  disk :: "string \<Rightarrow> string option"
  writable :: "string \<Rightarrow> bool"
  told :: "notice list"
  tty :: conn

datatype client_stop = Client_Fault fault | Client_Exit client

definition tell :: "notice \<Rightarrow> client \<Rightarrow> client" where
  "tell n cl = cl\<lparr>told := told cl @ [n]\<rparr>"

definition quit :: "notice \<Rightarrow> client \<Rightarrow> client_stop + 'a" where
  \<comment> \<open>a message and \<open>exit(1)\<close>\<close>
  "quit n cl = Inl (Client_Exit (tell n cl))"

section \<open>Command line\<close>

definition parse_args :: "string list \<Rightarrow> args option" where
  "parse_args argv =
     (if length argv < 3 then None
      else case strtok_all (CHR '':'') [] (argv ! 1) of
        h # p # _ \<Rightarrow> Some \<lparr>host = h, port = p, meth = List.map toupper (argv ! 2),
          remote = (if length argv > 3 then Some (argv ! 3) else None),
          local_file = (if length argv > 4 then Some (argv ! 4) else None)\<rparr>
      | _ \<Rightarrow> None)"

definition check_args :: "args option \<Rightarrow> notice + verb" where
  "check_args a = (case a of None \<Rightarrow> Inl Usage | Some args \<Rightarrow>
     if meth args = ''LIST'' then Inr LIST
     else if meth args = ''GET'' then
       (if remote args \<noteq> None \<and> local_file args \<noteq> None then Inr GET else Inl Help)
     else if meth args = ''DELETE'' then (if remote args \<noteq> None then Inr DELETE else Inl Help)
     else if meth args = ''PUT'' then
       (if remote args = None \<or> local_file args = None then Inl Help else Inr PUT)
     else Inl Help)"

section \<open>Request and response\<close>

definition need :: "'a option \<Rightarrow> client_stop + 'a" where
  "need x = (case x of None \<Rightarrow> Inl (Client_Fault Null_Deref) | Some y \<Rightarrow> Inr y)"

definition request_line :: "args \<Rightarrow> verb \<Rightarrow> client_stop + string" where
  "request_line a command =
     (if command = GET \<or> command = DELETE \<or> command = PUT
      then rbind (need (remote a)) (\<lambda>r. Inr (meth a @ '' '' @ r @ [LF]))
      else Inr (meth a @ [LF]))"

definition send_file :: "args \<Rightarrow> client \<Rightarrow> conn \<Rightarrow> client_stop + conn" where
  \<comment> \<open>the part for \<open>PUT\<close>\<close>
  "send_file a cl c = rbind (need (local_file a)) (\<lambda>f.
     case disk cl f of None \<Rightarrow> quit (Perror ''open local file fail'') cl
     | Some data \<Rightarrow> (case my_write (size_bytes (length data)) c of (r, c) \<Rightarrow>
         if r \<le> 0 then quit (Perror ''send request failed'') cl
         else case send_chunks data 0 c of (r, c) \<Rightarrow>
           if r < 0 then quit (Perror ''send request failed'') cl
           else if r = 0 then quit Connection_Closed cl
           else Inr c))"

definition send_request :: "args \<Rightarrow> verb \<Rightarrow> client \<Rightarrow> conn \<Rightarrow> client_stop + conn" where
  "send_request a command cl c = rbind (request_line a command) (\<lambda>message.
     case my_write message c of (r, c) \<Rightarrow>
       if r \<le> 0 then quit (Perror ''send request failed'') cl
       else if command = PUT then send_file a cl c else Inr c)"

definition strip_nul :: "string \<Rightarrow> string" where
  "strip_nul buf = takeWhile (\<lambda>c. c \<noteq> NUL) buf"

definition error_response :: "client \<Rightarrow> conn \<Rightarrow> client_stop + client" where
  "error_response cl c = (case read_line 1024 [] c of
     (None, c) \<Rightarrow> quit Invalid_Response cl
   | (Some err, c) \<Rightarrow> if last err \<noteq> LF then quit Invalid_Response cl
       else Inr (tell (Error_Message (strip_nul (butlast err))) cl))"

definition save_file :: "args \<Rightarrow> nat \<Rightarrow> client \<Rightarrow> conn \<Rightarrow> client_stop + client" where
  \<comment> \<open>the part for \<open>GET\<close>\<close>
  "save_file a actual_size cl c = rbind (need (local_file a)) (\<lambda>f.
     let opened = writable cl f; store = (\<lambda>data. if opened then cl\<lparr>disk := (disk cl)(f \<mapsto> data)\<rparr> else cl) in
     case recv_chunks actual_size [] c of (res, data, c) \<Rightarrow>
       if \<not> opened \<and> data \<noteq> [] then Inl (Client_Fault Null_Deref)
       else if res = Read_Failed then quit Invalid_Response (store data)
       else let cl1 = (if res = Too_Little then tell Too_Little_Data (store data) else store data);
                cl2 = (if fst (my_read 4096 c) \<noteq> Some [] then tell Too_Much_Data cl1 else cl1)
            in if opened then Inr cl2 else Inl (Client_Fault Null_Deref))"

function print_list :: "nat \<Rightarrow> nat \<Rightarrow> client \<Rightarrow> conn \<Rightarrow> client_stop + (client \<times> conn)" where
  \<comment> \<open>the loop for \<open>LIST\<close>\<close>
  "print_list actual_size bytes_rw cl c =
     (if bytes_rw < actual_size then
        (case my_read (min 4096 (actual_size - bytes_rw)) c of
           (None, c') \<Rightarrow> quit Invalid_Response cl
         | (Some s, c') \<Rightarrow>
             if s = [] then quit Too_Little_Data cl
             else case my_write s (tty cl) of (r, t) \<Rightarrow>
               let cl' = cl\<lparr>tty := t\<rparr>
               in if r \<le> 0 then quit (Perror ''copy remote file fail'') cl'
                  else print_list actual_size (bytes_rw + nat r) cl' c')
      else Inr (cl, c))"
  by pat_completeness auto
termination by (relation "measure (\<lambda>(n, b, cl, c). n - b)") auto

declare print_list.simps [simp del]

definition show_list :: "nat \<Rightarrow> client \<Rightarrow> conn \<Rightarrow> client_stop + client" where
  "show_list actual_size cl c = rbind (print_list actual_size 0 cl c) (\<lambda>(cl, c).
     let cl1 = cl\<lparr>tty := (tty cl)\<lparr>outgoing := outgoing (tty cl) @ [LF]\<rparr>\<rparr>
     in Inr (if fst (my_read 4096 c) \<noteq> Some [] then tell Too_Much_Data cl1 else cl1))"

definition handle_response :: "args \<Rightarrow> verb \<Rightarrow> client \<Rightarrow> conn \<Rightarrow> client_stop + client" where
  "handle_response a command cl c = (case read_line 6 [] c of
     (None, c) \<Rightarrow> quit Invalid_Response cl
   | (Some response, c) \<Rightarrow>
       if strip_nul response \<noteq> ''OK'' @ [LF] then
         (if strip_nul response \<noteq> ''ERROR'' @ [LF] then quit Invalid_Response cl else error_response cl c)
       else if command = PUT \<or> command = DELETE then Inr (tell Success cl)
       else (case my_read 8 c of
           (None, c) \<Rightarrow> quit Invalid_Response cl
         | (Some bs, c) \<Rightarrow>
             if bs = [] then quit Invalid_Response cl
             else if length bs < 8 then Inl (Client_Fault Uninit_Read)
             else if command = GET then save_file a (bytes_size bs) cl c
             else show_list (bytes_size bs) cl c))"

section \<open>On a connection that does not fail\<close>

lemma request_sent:
  assumes "reliable c" and "request_line a command = Inr m" and "m \<noteq> []" and "command \<noteq> PUT"
  obtains c' where "send_request a command cl c = Inr c'" "outgoing c' = outgoing c @ m" "reliable c'"
proof -
  obtain c' where "my_write m c = (int (length m), c')" "outgoing c' = outgoing c @ m" "reliable c'"
    using tcp.sendE[OF assms(1)] .
  then show ?thesis using that[of c'] assms(2-4) by (simp add: send_request_def)
qed

lemma put_sent:
  assumes "reliable c" and "request_line a PUT = Inr m" and "m \<noteq> []" and "local_file a = Some f" and "disk cl f = Some data"
  obtains c' where "send_request a PUT cl c = Inr c'"
    "outgoing c' = outgoing c @ m @ size_bytes (length data) @ data" "reliable c'"
proof -
  obtain c1 where c1: "my_write m c = (int (length m), c1)" "outgoing c1 = outgoing c @ m" "reliable c1"
    using tcp.sendE[OF assms(1)] .
  obtain c2 where c2: "my_write (size_bytes (length data)) c1 = (8, c2)"
      "outgoing c2 = outgoing c1 @ size_bytes (length data)" "reliable c2"
    using tcp.sendE[OF c1(3), of "size_bytes (length data)"] by auto
  obtain r c3 where c3: "send_chunks data 0 c2 = (r, c3)" "0 < r" "outgoing c3 = outgoing c2 @ data" "reliable c3"
    using send_chunks_ok[OF c2(3), of 0 data] by auto
  show ?thesis using that[of c3] assms(2-5) c1 c2 c3
    by (simp add: send_request_def send_file_def need_def)
qed

lemma first_lineE:
  assumes "reliable c" and "incoming c = l @ LF # rest" and "LF \<notin> set l" and "length l < 6"
  obtains c' where "read_line 6 [] c = (Some (l @ [LF]), c')" "incoming c' = rest" "reliable c'"
  using read_line_found[OF assms, of "[]"] by auto

lemma strip_nul_line: "NUL \<notin> set l \<Longrightarrow> strip_nul (l @ [LF]) = l @ [LF]" "NUL \<notin> set l \<Longrightarrow> strip_nul l = l"
  unfolding strip_nul_def by (auto simp: takeWhile_eq_all_conv LF_def NUL_def)

lemma ok_line:
  assumes "reliable c" and "incoming c = ''OK'' @ LF # rest"
  obtains c' where "read_line 6 [] c = (Some (''OK'' @ [LF]), c')" "incoming c' = rest" "reliable c'"
    "strip_nul (''OK'' @ [LF]) = ''OK'' @ [LF]"
proof -
  have "strip_nul (''OK'' @ [LF]) = ''OK'' @ [LF]" by (rule strip_nul_line) (simp add: NUL_def)
  moreover have "LF \<notin> set ''OK''" by (simp add: LF_def)
  ultimately show ?thesis using first_lineE[OF assms] that by auto
qed

lemma success_handled:
  assumes "reliable c" and "incoming c = ''OK'' @ LF # rest" and "command = PUT \<or> command = DELETE"
  shows "handle_response a command cl c = Inr (tell Success cl)"
  using ok_line[OF assms(1,2)] assms(3) by (fastforce simp: handle_response_def)

lemma error_handled:
  assumes "reliable c" and "incoming c = ''ERROR'' @ LF # e @ [LF]" and "LF \<notin> set e" and "NUL \<notin> set e"
    and "length e < 1024"
  shows "handle_response a command cl c = Inr (tell (Error_Message e) cl)"
proof -
  have no: "LF \<notin> set ''ERROR''" "NUL \<notin> set ''ERROR''" by (simp_all add: LF_def NUL_def)
  obtain c1 where c1: "read_line 6 [] c = (Some (''ERROR'' @ [LF]), c1)" "incoming c1 = e @ [LF]" "reliable c1"
    using first_lineE[OF assms(1,2) no(1)] by auto
  obtain c2 where c2: "read_line 1024 [] c1 = (Some (e @ [LF]), c2)"
    using read_line_found[OF c1(3) c1(2) assms(3,5), of "[]"] by auto
  have "strip_nul (''ERROR'' @ [LF]) = ''ERROR'' @ [LF]" using strip_nul_line(1)[OF no(2)] .
  then show ?thesis using c1(1) c2 strip_nul_line(2)[OF assms(4)]
    by (simp add: handle_response_def error_response_def)
qed

lemma size_line:
  assumes "reliable c" and "incoming c = ''OK'' @ LF # size_bytes k @ data" and "k < 2 ^ 64"
    and "command \<noteq> PUT" and "command \<noteq> DELETE"
  obtains c' where "handle_response a command cl c = (if command = GET then save_file a k cl c' else show_list k cl c')"
    "incoming c' = data" "reliable c'"
proof -
  obtain c1 where c1: "read_line 6 [] c = (Some (''OK'' @ [LF]), c1)" "incoming c1 = size_bytes k @ data" "reliable c1"
      "strip_nul (''OK'' @ [LF]) = ''OK'' @ [LF]"
    using ok_line[OF assms(1,2)] .
  obtain c2 where c2: "my_read 8 c1 = (Some (size_bytes k), c2)" "incoming c2 = data" "reliable c2"
    using tcp.recv_prefixE[OF c1(3) c1(2), of 8] by auto
  have "size_bytes k \<noteq> []" using length_size_bytes[of k] by (metis list.size(3) zero_neq_numeral)
  then show ?thesis using that[of c2] c1(1,4) c2 assms(3-5)
    by (simp add: handle_response_def size_roundtrip)
qed

lemma get_handled:
  assumes "reliable c" and "incoming c = ''OK'' @ LF # size_bytes (length data) @ data" and "length data < 2 ^ 64"
    and "local_file a = Some f" and "writable cl f"
  shows "handle_response a GET cl c = Inr (cl\<lparr>disk := (disk cl)(f \<mapsto> data)\<rparr>)"
proof -
  obtain c1 where c1: "handle_response a GET cl c = save_file a (length data) cl c1" "incoming c1 = data" "reliable c1"
    using size_line[OF assms(1-3), of GET a cl] by auto
  obtain c2 where c2: "recv_chunks (length data) [] c1 = (Complete, data, c2)" "incoming c2 = []" "reliable c2"
    using recv_chunks_ok[OF c1(3), of "[]" "length data"] c1(2) by auto
  obtain c3 where "my_read 4096 c2 = (Some [], c3)" using tcp.recv_endE[OF c2(3,2)] by metis
  then show ?thesis using c1(1) c2(1) assms(4,5) by (simp add: save_file_def need_def Let_def)
qed

lemma print_list_ok:
  "reliable c \<Longrightarrow> reliable (tty cl) \<Longrightarrow> b \<le> n \<Longrightarrow> length (incoming c) = n - b \<Longrightarrow>
    \<exists>t c'. print_list n b cl c = Inr (cl\<lparr>tty := t\<rparr>, c') \<and> outgoing t = outgoing (tty cl) @ incoming c
      \<and> incoming c' = [] \<and> reliable c'"
proof (induction n b cl c rule: print_list.induct)
  case (1 n b cl c)
  show ?case
  proof (cases "b < n")
    case False
    have "cl\<lparr>tty := tty cl\<rparr> = cl" by simp
    then show ?thesis using False 1(2-5) by (subst print_list.simps) (auto intro!: exI[of _ "tty cl"])
  next
    case True
    let ?k = "min 4096 (n - b)"
    let ?s = "take ?k (incoming c)"
    obtain c1 where c1: "my_read ?k c = (Some ?s, c1)" "incoming c1 = drop ?k (incoming c)" "reliable c1"
      using tcp.recvE[OF 1(2)] .
    have len: "length ?s = ?k" using 1(5) by simp
    have some: "?s \<noteq> []" using True len by (metis length_0_conv min_def neq0_conv zero_less_diff zero_neq_numeral)
    obtain t1 where t1: "my_write ?s (tty cl) = (int ?k, t1)" "outgoing t1 = outgoing (tty cl) @ ?s" "reliable t1"
      using tcp.sendE[OF 1(3), of ?s] len by metis
    have pos: "\<not> int ?k \<le> 0" using True by simp
    let ?cl = "cl\<lparr>tty := t1\<rparr>"
    have step: "print_list n b cl c = print_list n (b + ?k) ?cl c1"
      using True some c1(1) t1(1) pos by (subst print_list.simps) (simp only: prod.case option.case if_True if_False Let_def nat_int refl)
    have "reliable (tty ?cl)" "b + ?k \<le> n" "length (incoming c1) = n - (b + ?k)" using t1(3) 1(5) True c1(2) by simp_all
    then obtain t c' where "print_list n (b + ?k) ?cl c1 = Inr (?cl\<lparr>tty := t\<rparr>, c')"
        "outgoing t = outgoing (tty ?cl) @ incoming c1" "incoming c' = []" "reliable c'"
      using 1(1)[OF True c1(1)[symmetric] refl some t1(1)[symmetric] refl pos c1(3)] unfolding nat_int by blast
    then show ?thesis unfolding step using t1(2) c1(2) by (intro exI[of _ t] exI[of _ c']) simp
  qed
qed

lemma list_handled:
  assumes "reliable c" and "incoming c = ''OK'' @ LF # size_bytes (length text) @ text" and "length text < 2 ^ 64"
    and "reliable (tty cl)"
  shows "\<exists>t. handle_response a LIST cl c = Inr (cl\<lparr>tty := t\<rparr>) \<and> outgoing t = outgoing (tty cl) @ text @ [LF]"
proof -
  obtain c1 where c1: "handle_response a LIST cl c = show_list (length text) cl c1" "incoming c1 = text" "reliable c1"
    using size_line[OF assms(1-3), of LIST a cl] by auto
  obtain t c2 where t: "print_list (length text) 0 cl c1 = Inr (cl\<lparr>tty := t\<rparr>, c2)"
      "outgoing t = outgoing (tty cl) @ text" "incoming c2 = []" "reliable c2"
    using print_list_ok[OF c1(3) assms(4), of 0 "length text"] c1(2) by auto
  obtain c3 where "my_read 4096 c2 = (Some [], c3)" using tcp.recv_endE[OF t(4,3)] by metis
  then show ?thesis using c1(1) t(1,2)
    by (intro exI[of _ "t\<lparr>outgoing := outgoing (tty cl) @ text @ [LF]\<rparr>"]) (simp add: show_list_def Let_def)
qed

end
