(* ===== verification/Net_Server.thy ===== *)
theory Net_Server
  imports Net_Io "HOL-Library.Word"
begin

text \<open>
  The server of \<^verbatim>\<open>nonstop_networking/server.c\<close>: reading a request header, the four requests, and the
  signal handler that removes the directory. Files are a map from paths to contents; whether a path can
  be opened for writing, and how much of a stream that was never closed has reached the file, are
  parameters. The requests are handled one after the other, as the event loop does.
\<close>

section \<open>State\<close>

record stdio =
  can_create :: "string \<Rightarrow> bool" \<comment> \<open>\<open>fopen(path, "w")\<close> succeeds\<close>
  flushed :: "string \<Rightarrow> string" \<comment> \<open>what others see of the data written to a stream that is still open\<close>

record server =
  dir :: string
  filelist :: "string list"
  list_size :: "64 word"
  files :: "string \<Rightarrow> string option"

datatype stop = Fault fault | Exit server \<comment> \<open>the process ends; the server shows what is left on the disk\<close>

type_synonym 'a run = "stop + 'a"

definition path_of :: "server \<Rightarrow> string \<Rightarrow> string" where
  "path_of s name = dir s @ ''/'' @ name"

definition cstr :: "string \<Rightarrow> string" where "cstr buf = takeWhile (\<lambda>c. c \<noteq> NUL) buf"

definition set_file :: "server \<Rightarrow> string \<Rightarrow> string option \<Rightarrow> server" where
  "set_file s path data = s\<lparr>files := (files s)(path := data)\<rparr>"

section \<open>Requests\<close>

definition handle_sigint :: "server \<Rightarrow> server" where
  "handle_sigint s = s\<lparr>files := (\<lambda>p. if p \<in> path_of s ` set (filelist s) then None else files s p), filelist := []\<rparr>"

definition valid_request :: "string \<Rightarrow> bool" where
  "valid_request request \<longleftrightarrow> prefix ''GET '' request \<or> prefix ''PUT '' request
     \<or> prefix (''LIST'' @ [LF]) request \<or> prefix ''DELETE '' request"

definition read_request_header :: "server \<Rightarrow> conn \<Rightarrow> (string \<times> conn) run" where
  "read_request_header s c =
     (case read_line 263 [] c of
        (None, c') \<Rightarrow> Inl (Exit (handle_sigint s))
      | (Some request, c') \<Rightarrow>
          if last request \<noteq> LF \<or> length (cstr request) < 5 then Inl (Exit (handle_sigint s))
          else if \<not> valid_request (cstr request) then Inl (Exit (handle_sigint s))
          else Inr (cstr (butlast request), c'))"

definition respond :: "server \<Rightarrow> string \<Rightarrow> conn \<Rightarrow> conn run" where
  \<comment> \<open>\<open>my_write\<close> with the test of its result\<close>
  "respond s msg c = (let (r, c') = my_write msg c in if r \<le> 0 then Inl (Exit s) else Inr c')"

definition strchr_after :: "string \<Rightarrow> char \<Rightarrow> string option" where
  \<comment> \<open>\<open>strchr(request, ' ') + 1\<close>\<close>
  "strchr_after s c = (if c \<in> set s then Some (drop 1 (dropWhile (\<lambda>x. x \<noteq> c) s)) else None)"

definition get_request :: "server \<Rightarrow> conn \<Rightarrow> string \<Rightarrow> (server \<times> conn) run" where
  "get_request s c filename =
     (case files s (path_of s filename) of
        None \<Rightarrow> rbind (respond s (''ERROR'' @ [LF] @ ''No such file'' @ [LF]) c) (\<lambda>c. Inr (s, c))
      | Some data \<Rightarrow>
          rbind (respond s (''OK'' @ [LF]) c) (\<lambda>c.
          rbind (respond s (size_bytes (length data)) c) (\<lambda>c.
          let (r, c') = send_chunks data 0 c in if r \<le> 0 then Inl (Exit s) else Inr (s, c'))))"

definition list_file :: "server \<Rightarrow> string \<Rightarrow> server" where
  \<comment> \<open>a new name in the list\<close>
  "list_file s filename = s\<lparr>filelist := filelist s @ [filename],
     list_size := (if list_size s = 0 then of_nat (length filename) else list_size s + (1 + of_nat (length filename)))\<rparr>"

definition put_request :: "stdio \<Rightarrow> server \<Rightarrow> conn \<Rightarrow> string \<Rightarrow> (server \<times> conn) run" where
  "put_request io s c filename =
     (let path = path_of s filename;
          s1 = (if files s path = None then list_file s filename else s);
          opened = can_create io path;
          s2 = (if opened then set_file s1 path (Some []) else s1)
      in case my_read 8 c of
        (None, c) \<Rightarrow> Inl (Exit (handle_sigint s2))
      | (Some bs, c) \<Rightarrow>
          if bs = [] then Inl (Exit (handle_sigint s2))
          else if length bs < 8 then Inl (Fault Uninit_Read)
          else case recv_chunks (bytes_size bs) [] c of
            (res, data, c) \<Rightarrow>
              if \<not> opened \<and> data \<noteq> [] then Inl (Fault Null_Deref)
              else let closed = (if opened then set_file s2 path (Some data) else s2);
                       unclosed = (if opened then set_file s2 path (Some (flushed io data)) else s2)
              in case res of
                Read_Failed \<Rightarrow> Inl (Exit closed)
              | Too_Little \<Rightarrow>
                  rbind (respond closed (''ERROR'' @ [LF]) c) (\<lambda>c.
                  rbind (respond closed (''Received too little data'' @ [LF]) c) (\<lambda>c. Inr (unclosed, c)))
              | Complete \<Rightarrow> (case my_read 4096 c of
                  (extra, c) \<Rightarrow>
                    if extra \<noteq> Some [] then
                      rbind (respond closed (''ERROR'' @ [LF]) c) (\<lambda>c.
                      rbind (respond closed (''Received too much data'' @ [LF]) c) (\<lambda>c. Inr (unclosed, c)))
                    else rbind (respond closed (''OK'' @ [LF]) c) (\<lambda>c. Inr (closed, c))))"

definition delete_request :: "server \<Rightarrow> conn \<Rightarrow> string \<Rightarrow> (server \<times> conn) run" where
  "delete_request s c filename =
     (let path = path_of s filename in
      if files s path \<noteq> None then
        let s1 = set_file s path None in
        rbind (respond s1 (''OK'' @ [LF]) c) (\<lambda>c.
        Inr (s1\<lparr>list_size := (if length (filelist s1) = 1 then 0 else list_size s1 - (1 + of_nat (length filename))),
                filelist := remove1 filename (filelist s1)\<rparr>, c))
      else rbind (respond s (''ERROR'' @ [LF] @ ''No such file'' @ [LF]) c) (\<lambda>c. Inr (s, c)))"

fun send_names :: "server \<Rightarrow> string list \<Rightarrow> conn \<Rightarrow> conn run" where
  "send_names s [] c = Inr c"
| "send_names s (n # ns) c =
     rbind (respond s n c) (\<lambda>c.
     rbind (if ns \<noteq> [] then respond s [LF] c else Inr c) (\<lambda>c. send_names s ns c))"

definition list_request :: "server \<Rightarrow> conn \<Rightarrow> (server \<times> conn) run" where
  "list_request s c =
     rbind (respond s (''OK'' @ [LF]) c) (\<lambda>c.
     rbind (respond s (size_bytes (unat (list_size s))) c) (\<lambda>c.
     rbind (send_names s (filelist s) c) (\<lambda>c. Inr (s, c))))"

definition send_response :: "stdio \<Rightarrow> server \<Rightarrow> conn \<Rightarrow> string \<Rightarrow> (server \<times> conn) run" where
  "send_response io s c request =
     (let filename = strchr_after request (CHR '' '') in
      if prefix ''GET '' request then get_request s c (the filename)
      else if prefix ''PUT '' request then put_request io s c (the filename)
      else if length request > 7 \<and> prefix ''DELETE '' request then delete_request s c (the filename)
      else if prefix ''LIST'' request then list_request s c
      else Inr (s, c))"

definition handle_client_request :: "stdio \<Rightarrow> server \<Rightarrow> conn \<Rightarrow> (server \<times> conn) run" where
  "handle_client_request io s c =
     rbind (read_request_header s c) (\<lambda>(request, c). send_response io s c request)"

fun serve :: "stdio \<Rightarrow> server \<Rightarrow> conn list \<Rightarrow> (server \<times> conn list) run" where
  \<comment> \<open>the clients in the order the event loop finds them ready\<close>
  "serve io s [] = Inr (s, [])"
| "serve io s (c # cs) = rbind (handle_client_request io s c) (\<lambda>(s, c).
     rbind (serve io s cs) (\<lambda>(s, cs). Inr (s, c # cs)))"

definition server_start :: "string \<Rightarrow> (string \<Rightarrow> string option) \<Rightarrow> server" where
  "server_start d fs = \<lparr>dir = d, filelist = [], list_size = 0, files = fs\<rparr>"

section \<open>The list of files\<close>

fun listing :: "string list \<Rightarrow> string" where
  \<comment> \<open>the names separated by newlines\<close>
  "listing [] = []"
| "listing [n] = n"
| "listing (n # m # ns) = n @ [LF] @ listing (m # ns)"

definition simple_name :: "string \<Rightarrow> bool" where
  \<comment> \<open>of a file in the directory itself\<close>
  "simple_name n \<longleftrightarrow> n \<noteq> [] \<and> length n \<le> 255 \<and> CHR ''/'' \<notin> set n \<and> n \<noteq> ''.'' \<and> n \<noteq> ''..''"

definition server_ok :: "server \<Rightarrow> bool" where
  "server_ok s \<longleftrightarrow> distinct (filelist s) \<and> (\<forall>n \<in> set (filelist s). simple_name n)
     \<and> (\<forall>n. simple_name n \<longrightarrow> (n \<in> set (filelist s) \<longleftrightarrow> files s (path_of s n) \<noteq> None))
     \<and> list_size s = of_nat (length (listing (filelist s)))"

definition creates :: "stdio \<Rightarrow> server \<Rightarrow> bool" where
  "creates io s \<longleftrightarrow> (\<forall>n. simple_name n \<longrightarrow> can_create io (path_of s n))"

lemma length_listing: "length (listing ns) = (\<Sum>n\<leftarrow>ns. Suc (length n)) - 1"
  by (induction ns rule: listing.induct) auto

lemma listing_pos: "ns \<noteq> [] \<Longrightarrow> \<forall>n \<in> set ns. simple_name n \<Longrightarrow> 0 < length (listing ns)"
  by (cases ns) (auto simp: length_listing simple_name_def)

lemma path_of_eq [simp]: "path_of s n = path_of s m \<longleftrightarrow> n = m"
  by (simp add: path_of_def)

lemma path_of_dir: "dir s' = dir s \<Longrightarrow> path_of s' = path_of s"
  by (simp add: path_of_def fun_eq_iff)

lemma set_file_fields [simp]:
  "dir (set_file s p d) = dir s" "filelist (set_file s p d) = filelist s"
  "list_size (set_file s p d) = list_size s" "files (set_file s p d) = (files s)(p := d)"
  by (simp_all add: set_file_def)

lemma list_file_fields [simp]:
  "dir (list_file s n) = dir s" "filelist (list_file s n) = filelist s @ [n]" "files (list_file s n) = files s"
  by (simp_all add: list_file_def)

lemma list_file_size:
  assumes "list_size s = of_nat (length (listing (filelist s)))" and "length (listing (filelist s)) < 2 ^ 64"
    and "\<forall>n \<in> set (filelist s). simple_name n"
  shows "list_size (list_file s n) = of_nat (length (listing (filelist s @ [n])))"
proof (cases "filelist s = []")
  case True
  then show ?thesis using assms(1) by (simp add: list_file_def)
next
  case False
  let ?l = "length (listing (filelist s))"
  have pos: "0 < ?l" using listing_pos[OF False assms(3)] .
  moreover have "unat (list_size s) = ?l" unfolding assms(1) using assms(2) by (simp add: unat_of_nat)
  ultimately have "list_size s \<noteq> 0" by auto
  moreover have "length (listing (filelist s @ [n])) = ?l + (1 + length n)"
    using pos by (simp add: length_listing)
  ultimately show ?thesis using assms(1) by (simp add: list_file_def)
qed

lemma remove_name_size:
  assumes "n \<in> set ns"
  shows "(if length ns = 1 then 0 else of_nat (length (listing ns)) - (1 + of_nat (length n)) :: 64 word)
    = of_nat (length (listing (remove1 n ns)))"
proof (cases "length ns = 1")
  case True
  then obtain x where "ns = [x]" by (auto simp: length_Suc_conv)
  then show ?thesis using assms by simp
next
  case False
  have sum: "(\<Sum>m\<leftarrow>ns. Suc (length m)) = Suc (length n) + (\<Sum>m\<leftarrow>remove1 n ns. Suc (length m))"
    using assms by (rule sum_list_map_remove1)
  have "length (remove1 n ns) \<noteq> 0" using assms False by (cases ns) (auto simp: length_remove1)
  then obtain x xs where "remove1 n ns = x # xs" by (cases "remove1 n ns") auto
  then have "length (listing ns) = Suc (length n) + length (listing (remove1 n ns))"
    unfolding length_listing sum by simp
  then show ?thesis using False by simp
qed

lemma respond_result: "respond s msg c = Inl e \<Longrightarrow> e = Exit s"
  by (auto simp: respond_def Let_def split: prod.splits if_splits)

section \<open>Every request keeps the list\<close>

lemma put_request_server:
  assumes "put_request io s c n = Inr (s', c')" and "can_create io (path_of s n)"
  shows "\<exists>data. s' = set_file (if files s (path_of s n) = None then list_file s n else s) (path_of s n) (Some data)"
proof -
  have twice: "set_file (set_file t p a) p b = set_file t p b" for t p a b by (simp add: set_file_def)
  show ?thesis using assms
    by (auto simp: put_request_def Let_def rbind_Inr_iff twice split: prod.splits option.splits if_splits received.splits)
qed

lemma put_request_ok:
  assumes "put_request io s c n = Inr (s', c')" and "server_ok s" and "creates io s" and "simple_name n"
    and "length (listing (filelist s)) < 2 ^ 64"
  shows "server_ok s' \<and> dir s' = dir s \<and> set (filelist s') \<subseteq> insert n (set (filelist s))"
proof -
  have create: "can_create io (path_of s n)" using assms(3,4) by (simp add: creates_def)
  obtain data where s': "s' = set_file (if files s (path_of s n) = None then list_file s n else s) (path_of s n) (Some data)"
    using put_request_server[OF assms(1) create] by blast
  have path: "path_of s' = path_of s" by (rule path_of_dir) (simp add: s')
  note ok = assms(2)[unfolded server_ok_def]
  show ?thesis
  proof (cases "files s (path_of s n) = None")
    case True
    then have "n \<notin> set (filelist s)" using ok assms(4) by auto
    then show ?thesis using True ok assms(4) list_file_size[of s n] assms(5) unfolding server_ok_def path
      by (auto simp: s')
  next
    case False
    then show ?thesis using ok assms(4) unfolding server_ok_def path by (auto simp: s')
  qed
qed

lemma delete_request_ok:
  assumes "delete_request s c n = Inr (s', c')" and "server_ok s" and "simple_name n"
  shows "server_ok s' \<and> dir s' = dir s \<and> set (filelist s') \<subseteq> set (filelist s)"
proof (cases "files s (path_of s n) = None")
  case True
  then show ?thesis using assms(1,2) by (auto simp: delete_request_def rbind_Inr_iff)
next
  case False
  then have mem: "n \<in> set (filelist s)" using assms(2,3) by (simp add: server_ok_def)
  have s': "s' = (set_file s (path_of s n) None)\<lparr>list_size := (if length (filelist s) = 1 then 0
      else list_size s - (1 + of_nat (length n))), filelist := remove1 n (filelist s)\<rparr>"
    using assms(1) False by (auto simp: delete_request_def Let_def rbind_Inr_iff)
  have path: "path_of s' = path_of s" by (rule path_of_dir) (simp add: s')
  have ok: "distinct (filelist s)" "list_size s = of_nat (length (listing (filelist s)))"
      "\<forall>n \<in> set (filelist s). simple_name n"
      "\<forall>n. simple_name n \<longrightarrow> (n \<in> set (filelist s) \<longleftrightarrow> files s (path_of s n) \<noteq> None)"
    using assms(2) by (simp_all add: server_ok_def)
  have "list_size s' = of_nat (length (listing (filelist s')))"
    using remove_name_size[OF mem] unfolding s' ok(2) by (simp add: ok(2))
  moreover have "set (filelist s') = set (filelist s) - {n}" using ok(1) by (simp add: s')
  ultimately show ?thesis using ok unfolding server_ok_def path by (auto simp: s')
qed

lemma get_request_same: "get_request s c n = Inr (s', c') \<Longrightarrow> s' = s"
  by (cases "files s (path_of s n)")
    (auto simp: get_request_def rbind_Inr_iff case_prod_beta Let_def split: if_splits)

lemma list_request_same: "list_request s c = Inr (s', c') \<Longrightarrow> s' = s"
  by (auto simp: list_request_def rbind_Inr_iff)

definition names_simple :: "string \<Rightarrow> bool" where
  "names_simple request \<longleftrightarrow> (\<forall>n. strchr_after request (CHR '' '') = Some n \<longrightarrow> simple_name n)"

lemma strchr_after_prefix:
  assumes "prefix p s" and "CHR '' '' \<in> set p" and "names_simple s"
  shows "simple_name (the (strchr_after s (CHR '' '')))"
  using assms by (auto simp: names_simple_def strchr_after_def prefix_def)

lemma send_response_ok:
  assumes "send_response io s c request = Inr (s', c')" and "server_ok s" and "creates io s"
    and "names_simple request" and "length (listing (filelist s)) < 2 ^ 64"
  shows "server_ok s' \<and> dir s' = dir s \<and> (\<exists>n. simple_name n \<and> set (filelist s') \<subseteq> insert n (set (filelist s)))"
proof -
  have any: "simple_name ''a''" by (simp add: simple_name_def)
  consider "prefix ''GET '' request" | "\<not> prefix ''GET '' request" "prefix ''PUT '' request"
    | "\<not> prefix ''GET '' request" "\<not> prefix ''PUT '' request" "length request > 7" "prefix ''DELETE '' request"
    | "s' = s"
    using assms(1) by (auto simp: send_response_def Let_def split: if_splits dest: list_request_same)
  then show ?thesis
  proof cases
    case 1
    then have "s' = s" using assms(1) by (auto simp: send_response_def dest: get_request_same)
    then show ?thesis using assms(2) any by auto
  next
    case 2
    have simple: "simple_name (the (strchr_after request (CHR '' '')))"
      using strchr_after_prefix[OF 2(2) _ assms(4)] by simp
    have "put_request io s c (the (strchr_after request (CHR '' ''))) = Inr (s', c')"
      using assms(1) 2 by (simp add: send_response_def)
    from put_request_ok[OF this assms(2,3) simple assms(5)] simple show ?thesis by blast
  next
    case 3
    have simple: "simple_name (the (strchr_after request (CHR '' '')))"
      using strchr_after_prefix[OF 3(4) _ assms(4)] by simp
    have "delete_request s c (the (strchr_after request (CHR '' ''))) = Inr (s', c')"
      using assms(1) 3 by (simp add: send_response_def)
    from delete_request_ok[OF this assms(2) simple] any show ?thesis by blast
  next
    case 4
    then show ?thesis using assms(2) any by auto
  qed
qed

lemma listing_bound:
  assumes "distinct ns" and "\<forall>n \<in> set ns. simple_name n"
  shows "length (listing ns) \<le> 256 * card (set ns)"
proof -
  have "(\<Sum>n\<leftarrow>ns. Suc (length n)) \<le> (\<Sum>n\<leftarrow>ns. 256)"
    using assms(2) by (intro sum_list_mono) (auto simp: simple_name_def)
  then show ?thesis unfolding length_listing distinct_card[OF assms(1)] by (simp add: sum_list_triv)
qed

definition simple_requests :: "conn list \<Rightarrow> bool" where
  "simple_requests cs \<longleftrightarrow> (\<forall>c \<in> set cs. \<forall>s request c'. read_request_header s c = Inr (request, c') \<longrightarrow> names_simple request)"

lemma serve_keeps_list:
  assumes "serve io s cs = Inr (s', cs')" and "server_ok s" and "creates io s" and "simple_requests cs"
    and "card (set (filelist s)) + length cs < 2 ^ 56"
  shows "server_ok s' \<and> card (set (filelist s')) \<le> card (set (filelist s)) + length cs"
  using assms
proof (induction cs arbitrary: s cs')
  case Nil
  then show ?case by simp
next
  case (Cons c cs)
  obtain request c1 s1 c2 cs2 where h: "read_request_header s c = Inr (request, c1)"
      "send_response io s c1 request = Inr (s1, c2)" "serve io s1 cs = Inr (s', cs2)"
    using Cons.prems(1) by (auto simp: handle_client_request_def rbind_Inr_iff)
  have names: "names_simple request" using Cons.prems(4) h(1) by (auto simp: simple_requests_def)
  have small: "length (listing (filelist s)) < 2 ^ 64"
    using listing_bound[of "filelist s"] Cons.prems(2,5) by (simp add: server_ok_def)
  obtain n where s1: "server_ok s1" "dir s1 = dir s" "set (filelist s1) \<subseteq> insert n (set (filelist s))"
    using send_response_ok[OF h(2) Cons.prems(2,3) names small] by blast
  have "card (set (filelist s1)) \<le> Suc (card (set (filelist s)))"
    using card_mono[OF _ s1(3)] card_insert_le_m1[of "Suc (card (set (filelist s)))" "set (filelist s)" n] by simp
  moreover have "creates io s1" using Cons.prems(3) path_of_dir[OF s1(2)] by (simp add: creates_def)
  moreover have "simple_requests cs" using Cons.prems(4) by (simp add: simple_requests_def)
  ultimately show ?case using Cons.IH[OF h(3) s1(1)] Cons.prems(5) by simp
qed

text \<open>
  C33: after any number of requests, whatever the clients send and however the connections behave, as
  long as the server is running: the list holds exactly the files of the directory, each once, and the
  size announced for it (a \<open>size_t\<close>) is the length of the text \<open>LIST\<close> sends, provided the requested
  names are names of files in the directory (of at most 255 characters) and those can be created.
\<close>

theorem server_listing_invariant:
  assumes "serve io (server_start d fs) cs = Inr (s', cs')" and "creates io (server_start d fs)"
    and "simple_requests cs" and "length cs < 2 ^ 56" and "\<And>n. simple_name n \<Longrightarrow> fs (d @ ''/'' @ n) = None"
  shows "unat (list_size s') = length (listing (filelist s')) \<and> distinct (filelist s')
    \<and> (\<forall>n. simple_name n \<longrightarrow> (n \<in> set (filelist s') \<longleftrightarrow> files s' (path_of s' n) \<noteq> None))"
proof -
  have start: "server_ok (server_start d fs)"
    using assms(5) by (simp add: server_ok_def server_start_def path_of_def)
  have "server_ok s' \<and> card (set (filelist s')) \<le> 0 + length cs"
    using serve_keeps_list[OF assms(1) start assms(2,3)] assms(4) by (simp add: server_start_def)
  then have s': "server_ok s'" and few: "card (set (filelist s')) < 2 ^ 56" using assms(4) by auto
  have "length (listing (filelist s')) < 2 ^ 64"
    using listing_bound[of "filelist s'"] s' few by (simp add: server_ok_def)
  then have "unat (list_size s') = length (listing (filelist s'))"
    using s' by (simp add: server_ok_def unat_of_nat)
  then show ?thesis using s' by (simp add: server_ok_def)
qed

definition plain_io :: stdio where
  "plain_io = \<lparr>can_create = \<lambda>p. length p < 260, flushed = \<lambda>_. []\<rparr>"

definition client_sends :: "string \<Rightarrow> conn" where
  "client_sends bytes = \<lparr>incoming = bytes, outgoing = [], rplan = [Chunk 2, Interrupted], wplan = [Chunk 1]\<rparr>"

section \<open>Bad requests\<close>

lemma cstr_no_nul: "NUL \<notin> set l \<Longrightarrow> cstr l = l"
  unfolding cstr_def by (auto simp: takeWhile_eq_all_conv)

lemma header_found:
  assumes "reliable c" and "incoming c = l @ LF # rest" and "LF \<notin> set l" and "NUL \<notin> set l" and "length l < 263"
  obtains c' where "read_line 263 [] c = (Some (l @ [LF]), c')" "incoming c' = rest" "outgoing c' = outgoing c" "reliable c'"
  using read_line_found[OF assms(1,2,3,5), of "[]"] by auto

lemma valid_length:
  assumes "valid_request (l @ [LF])"
  shows "5 \<le> length (l @ [LF])"
proof (rule ccontr)
  assume "\<not> 5 \<le> length (l @ [LF])"
  then have short: "length (l @ [LF]) \<le> 4" by simp
  from assms obtain p where p: "prefix p (l @ [LF])" "4 \<le> length p" "last p \<noteq> LF \<or> 5 \<le> length p"
    unfolding valid_request_def
    using that[of "''GET ''"] that[of "''PUT ''"] that[of "''LIST'' @ [LF]"] that[of "''DELETE ''"] by (auto simp: LF_def)
  from prefix_length_le[OF p(1)] short p(2) have "length p = length (l @ [LF])" by simp
  with p(1) have "p = l @ [LF]" by (metis append_Nil2 append_eq_append_conv prefix_def)
  then show False using p(3) short by auto
qed

lemma header_ok:
  assumes "reliable c" and "incoming c = l @ LF # rest" and "LF \<notin> set l" and "NUL \<notin> set l" and "length l < 263"
    and "valid_request (l @ [LF])"
  obtains c' where "read_request_header s c = Inr (l, c')" "incoming c' = rest" "outgoing c' = outgoing c" "reliable c'"
proof -
  obtain c' where c': "read_line 263 [] c = (Some (l @ [LF]), c')" "incoming c' = rest" "outgoing c' = outgoing c" "reliable c'"
    using header_found[OF assms(1-5)] .
  have "NUL \<notin> set (l @ [LF])" using assms(4) by (simp add: LF_def NUL_def)
  then have "cstr (l @ [LF]) = l @ [LF]" by (rule cstr_no_nul)
  then show ?thesis using that[of c'] c' valid_length[OF assms(6)] assms(6) cstr_no_nul[OF assms(4)]
    by (simp add: read_request_header_def)
qed

lemma stop_unlists: "n \<in> set (filelist s) \<Longrightarrow> files (handle_sigint s) (path_of s n) = None"
  by (simp add: handle_sigint_def)

text \<open>
  C34: one client can stop the server: a first line that is none of the four requests, or no newline
  among the first 263 bytes (also when the client closes the connection before), makes the server send
  itself \<open>SIGINT\<close>, whose handler deletes every listed file and exits.
\<close>

theorem malformed_request_stops_server:
  assumes "reliable c"
    and "LF \<notin> set (take 263 (incoming c))
      \<or> (\<exists>l rest. incoming c = l @ LF # rest \<and> LF \<notin> set l \<and> NUL \<notin> set l \<and> length l < 263 \<and> \<not> valid_request (l @ [LF]))"
  shows "handle_client_request io s c = Inl (Exit (handle_sigint s))
    \<and> (\<forall>n \<in> set (filelist s). files (handle_sigint s) (path_of s n) = None)"
proof -
  have "read_request_header s c = Inl (Exit (handle_sigint s))"
  proof (cases "LF \<in> set (take 263 (incoming c))")
    case True
    with assms(2) obtain l rest where l: "incoming c = l @ LF # rest" "LF \<notin> set l" "NUL \<notin> set l" "length l < 263"
        "\<not> valid_request (l @ [LF])" by blast
    obtain c' where "read_line 263 [] c = (Some (l @ [LF]), c')" using header_found[OF assms(1) l(1-4)] by metis
    moreover have "NUL \<notin> set (l @ [LF])" using l(3) by (simp add: LF_def NUL_def)
    then have "cstr (l @ [LF]) = l @ [LF]" by (rule cstr_no_nul)
    ultimately show ?thesis using l(5) by (simp add: read_request_header_def)
  next
    case False
    show ?thesis
    proof (cases "263 \<le> length (incoming c)")
      case True
      obtain c' where c': "read_line 263 [] c = (Some (take 263 (incoming c)), c')"
        using read_line_full[OF assms(1) False True, of "[]"] by auto
      have "take 263 (incoming c) \<noteq> []" using True by auto
      then have "last (take 263 (incoming c)) \<noteq> LF" using False last_in_set by metis
      then show ?thesis by (simp add: read_request_header_def c')
    next
      case short: False
      then show ?thesis using read_line_ended[OF assms(1), of 263 "[]"] False
        by (auto simp: read_request_header_def)
    qed
  qed
  then show ?thesis by (simp add: handle_client_request_def stop_unlists)
qed

theorem malformed_request_stops_server_witness:
  "handle_client_request plain_io \<lparr>dir = ''d'', filelist = [''a''], list_size = 1, files = [''d/a'' \<mapsto> ''x'']\<rparr>
     (client_sends (''HELP'' @ [LF]))
   = Inl (Exit (handle_sigint \<lparr>dir = ''d'', filelist = [''a''], list_size = 1, files = [''d/a'' \<mapsto> ''x'']\<rparr>))"
proof -
  have "reliable (client_sends (''HELP'' @ [LF]))" by (simp add: client_sends_def reliable_def)
  moreover have "\<exists>l rest. incoming (client_sends (''HELP'' @ [LF])) = l @ LF # rest \<and> LF \<notin> set l \<and> NUL \<notin> set l
      \<and> length l < 263 \<and> \<not> valid_request (l @ [LF])"
    by (intro exI[of _ "''HELP''"] exI[of _ "[]"]) (simp add: client_sends_def LF_def NUL_def valid_request_def)
  ultimately show ?thesis using malformed_request_stops_server[of "client_sends (''HELP'' @ [LF])"] by blast
qed

text \<open>
  A \<open>PUT\<close> of at least one byte to a name that cannot be created (a name of 256 characters passes the
  header check) ends the server with a null pointer: the result of \<open>fopen\<close> is not tested.
\<close>

theorem put_uncreatable_crashes:
  assumes "reliable c" and "incoming c = ''PUT '' @ n @ LF # size_bytes k @ data"
    and "LF \<notin> set n" and "NUL \<notin> set n" and "length n \<le> 258"
    and "\<not> can_create io (path_of s n)" and "0 < k" and "k < 2 ^ 64" and "data \<noteq> []"
  shows "handle_client_request io s c = Inl (Fault Null_Deref)"
proof -
  have line: "incoming c = (''PUT '' @ n) @ LF # size_bytes k @ data" "LF \<notin> set (''PUT '' @ n)" "NUL \<notin> set (''PUT '' @ n)"
      "length (''PUT '' @ n) < 263" "valid_request ((''PUT '' @ n) @ [LF])"
    using assms(2-5) by (simp_all add: LF_def NUL_def valid_request_def)
  obtain c1 where c1: "read_request_header s c = Inr (''PUT '' @ n, c1)" "incoming c1 = size_bytes k @ data" "reliable c1"
    using header_ok[OF assms(1) line] .
  obtain c2 where c2: "my_read 8 c1 = (Some (size_bytes k), c2)" "incoming c2 = data" "reliable c2"
    using tcp.recv_prefixE[OF c1(3) c1(2), of 8] by auto
  obtain r c3 where c3: "recv_chunks k [] c2 = (r, take k data, c3)"
    using recv_chunks_ok[OF c2(3), of "[]" k] c2(2) by fastforce
  have "size_bytes k \<noteq> []" using length_size_bytes[of k] by (metis list.size(3) zero_neq_numeral)
  then have "put_request io s c1 n = Inl (Fault Null_Deref)"
    using assms(6-9) c2(1) c3 by (simp add: put_request_def Let_def size_roundtrip)
  then show ?thesis using c1(1) by (simp add: handle_client_request_def send_response_def strchr_after_def)
qed

theorem put_uncreatable_crashes_witness:
  "handle_client_request plain_io (server_start ''d'' Map.empty)
     (client_sends (''PUT '' @ replicate 258 (CHR ''x'') @ LF # size_bytes 1 @ ''z'')) = Inl (Fault Null_Deref)"
proof (rule put_uncreatable_crashes[where n = "replicate 258 (CHR ''x'')" and k = 1 and data = "''z''"])
  show "LF \<notin> set (replicate 258 (CHR ''x''))" "NUL \<notin> set (replicate 258 (CHR ''x''))"
    by (simp_all add: LF_def NUL_def)
qed (simp_all add: client_sends_def reliable_def plain_io_def path_of_def server_start_def)

section \<open>Good requests\<close>

lemma respondE:
  assumes "reliable c" and "msg \<noteq> []"
  obtains c' where "respond s msg c = Inr c'" "incoming c' = incoming c" "outgoing c' = outgoing c @ msg" "reliable c'"
proof -
  obtain c' where "my_write msg c = (int (length msg), c')" "incoming c' = incoming c"
      "outgoing c' = outgoing c @ msg" "reliable c'"
    using tcp.sendE[OF assms(1)] .
  then show ?thesis using that[of c'] assms(2) by (simp add: respond_def)
qed

definition put_name :: "server \<Rightarrow> string \<Rightarrow> server" where
  "put_name s n = (if files s (path_of s n) = None then list_file s n else s)"

lemma size_bytes_nonempty: "size_bytes k \<noteq> []"
  using length_size_bytes[of k] by (metis list.size(3) zero_neq_numeral)

lemma put_served:
  assumes "reliable c" and "incoming c = ''PUT '' @ n @ LF # size_bytes (length data) @ data"
    and "LF \<notin> set n" and "NUL \<notin> set n" and "length n \<le> 258" and "length data < 2 ^ 64"
    and "can_create io (path_of s n)"
  obtains c' where "handle_client_request io s c = Inr (set_file (put_name s n) (path_of s n) (Some data), c')"
    "outgoing c' = outgoing c @ ''OK'' @ [LF]"
proof -
  have line: "incoming c = (''PUT '' @ n) @ LF # size_bytes (length data) @ data" "LF \<notin> set (''PUT '' @ n)"
      "NUL \<notin> set (''PUT '' @ n)" "length (''PUT '' @ n) < 263" "valid_request ((''PUT '' @ n) @ [LF])"
    using assms(2-5) by (simp_all add: LF_def NUL_def valid_request_def)
  obtain c1 where c1: "read_request_header s c = Inr (''PUT '' @ n, c1)" "incoming c1 = size_bytes (length data) @ data"
      "outgoing c1 = outgoing c" "reliable c1"
    using header_ok[OF assms(1) line] .
  obtain c2 where c2: "my_read 8 c1 = (Some (size_bytes (length data)), c2)" "incoming c2 = data"
      "outgoing c2 = outgoing c1" "reliable c2"
    using tcp.recv_prefixE[OF c1(4) c1(2), of 8] by auto
  obtain c3 where c3: "recv_chunks (length data) [] c2 = (Complete, data, c3)" "incoming c3 = []"
      "outgoing c3 = outgoing c2" "reliable c3"
    using recv_chunks_ok[OF c2(4), of "[]" "length data"] c2(2) by auto
  obtain c4 where c4: "my_read 4096 c3 = (Some [], c4)" "outgoing c4 = outgoing c3" "reliable c4"
    using tcp.recv_endE[OF c3(4) c3(2)] .
  let ?s = "set_file (put_name s n) (path_of s n) (Some data)"
  obtain c5 where c5: "respond ?s (''OK'' @ [LF]) c4 = Inr c5" "outgoing c5 = outgoing c4 @ ''OK'' @ [LF]"
    using respondE[OF c4(3)] by blast
  have twice: "set_file (set_file t p a) p b = set_file t p b" for t p a b by (simp add: set_file_def)
  have "put_request io s c1 n = Inr (?s, c5)"
    using assms(7) c2(1) c3(1) c4(1) c5(1) assms(6)
    by (simp add: put_request_def Let_def size_roundtrip size_bytes_nonempty put_name_def twice)
  then show ?thesis using that[of c5] c1 c2(3) c3(3) c4(2) c5(2)
    by (simp add: handle_client_request_def send_response_def strchr_after_def)
qed

lemma get_served:
  assumes "reliable c" and "incoming c = ''GET '' @ n @ [LF]" and "LF \<notin> set n" and "NUL \<notin> set n" and "length n \<le> 258"
  obtains c' where "handle_client_request io s c = Inr (s, c')"
    "outgoing c' = outgoing c @ (case files s (path_of s n) of
        None \<Rightarrow> ''ERROR'' @ [LF] @ ''No such file'' @ [LF]
      | Some data \<Rightarrow> ''OK'' @ [LF] @ size_bytes (length data) @ data)"
proof -
  have line: "incoming c = (''GET '' @ n) @ LF # []" "LF \<notin> set (''GET '' @ n)"
      "NUL \<notin> set (''GET '' @ n)" "length (''GET '' @ n) < 263" "valid_request ((''GET '' @ n) @ [LF])"
    using assms(2-5) by (simp_all add: LF_def NUL_def valid_request_def)
  obtain c1 where c1: "read_request_header s c = Inr (''GET '' @ n, c1)" "outgoing c1 = outgoing c" "reliable c1"
    using header_ok[OF assms(1) line] .
  have handle: "handle_client_request io s c = get_request s c1 n"
    using c1(1) by (simp add: handle_client_request_def send_response_def strchr_after_def)
  show ?thesis
  proof (cases "files s (path_of s n)")
    case None
    obtain c2 where "respond s (''ERROR'' @ [LF] @ ''No such file'' @ [LF]) c1 = Inr c2"
        "outgoing c2 = outgoing c1 @ ''ERROR'' @ [LF] @ ''No such file'' @ [LF]"
      using respondE[OF c1(3)] by blast
    then show ?thesis using that[of c2] handle None c1(2) by (simp add: get_request_def)
  next
    case (Some data)
    obtain c2 where c2: "respond s (''OK'' @ [LF]) c1 = Inr c2" "outgoing c2 = outgoing c1 @ ''OK'' @ [LF]" "reliable c2"
      using respondE[OF c1(3)] by blast
    obtain c3 where c3: "respond s (size_bytes (length data)) c2 = Inr c3"
        "outgoing c3 = outgoing c2 @ size_bytes (length data)" "reliable c3"
      using respondE[OF c2(3) size_bytes_nonempty] by blast
    obtain r c4 where c4: "send_chunks data 0 c3 = (r, c4)" "0 < r" "outgoing c4 = outgoing c3 @ data"
      using send_chunks_ok[OF c3(3), of 0 data] by auto
    have "get_request s c1 n = Inr (s, c4)" using Some c2(1) c3(1) c4(1,2) by (simp add: get_request_def)
    then show ?thesis using that[of c4] handle Some c1(2) c2(2) c3(2) c4(3) by simp
  qed
qed

lemma send_namesE:
  assumes "reliable c" and "\<forall>n \<in> set ns. n \<noteq> []"
  shows "\<exists>c'. send_names s ns c = Inr c' \<and> outgoing c' = outgoing c @ listing ns \<and> reliable c'"
  using assms
proof (induction ns arbitrary: c rule: listing.induct)
  case 1
  then show ?case by simp
next
  case (2 n)
  obtain c1 where "respond s n c = Inr c1" "outgoing c1 = outgoing c @ n" "reliable c1"
    using respondE[OF 2(1), of n] 2(2) by auto
  then show ?case by simp
next
  case (3 n m ns)
  have "n \<noteq> []" using 3(3) by simp
  then obtain c1 where c1: "respond s n c = Inr c1" "outgoing c1 = outgoing c @ n" "reliable c1"
    using respondE[OF 3(2)] by blast
  obtain c2 where c2: "respond s [LF] c1 = Inr c2" "outgoing c2 = outgoing c1 @ [LF]" "reliable c2"
    using respondE[OF c1(3), of "[LF]"] by auto
  show ?case using 3(1)[OF c2(3)] 3(3) c1 c2 by auto
qed

lemma list_served:
  assumes "reliable c" and "incoming c = ''LIST'' @ [LF]" and "\<forall>n \<in> set (filelist s). n \<noteq> []"
  obtains c' where "handle_client_request io s c = Inr (s, c')"
    "outgoing c' = outgoing c @ ''OK'' @ [LF] @ size_bytes (unat (list_size s)) @ listing (filelist s)"
proof -
  have line: "incoming c = ''LIST'' @ LF # []" "LF \<notin> set ''LIST''" "NUL \<notin> set ''LIST''" "length ''LIST'' < 263"
      "valid_request (''LIST'' @ [LF])"
    using assms(2) by (simp_all add: LF_def NUL_def valid_request_def)
  obtain c1 where c1: "read_request_header s c = Inr (''LIST'', c1)" "outgoing c1 = outgoing c" "reliable c1"
    using header_ok[OF assms(1) line] .
  obtain c2 where c2: "respond s (''OK'' @ [LF]) c1 = Inr c2" "outgoing c2 = outgoing c1 @ ''OK'' @ [LF]" "reliable c2"
    using respondE[OF c1(3)] by blast
  obtain c3 where c3: "respond s (size_bytes (unat (list_size s))) c2 = Inr c3"
      "outgoing c3 = outgoing c2 @ size_bytes (unat (list_size s))" "reliable c3"
    using respondE[OF c2(3) size_bytes_nonempty] by blast
  obtain c4 where c4: "send_names s (filelist s) c3 = Inr c4" "outgoing c4 = outgoing c3 @ listing (filelist s)"
    using send_namesE[OF c3(3) assms(3), of s] by blast
  have "list_request s c1 = Inr (s, c4)" using c2(1) c3(1) c4(1) by (simp add: list_request_def)
  then show ?thesis using that[of c4] c1(1,2) c2(2) c3(2) c4(2)
    by (simp add: handle_client_request_def send_response_def)
qed

lemma delete_served:
  assumes "reliable c" and "incoming c = ''DELETE '' @ n @ [LF]" and "LF \<notin> set n" and "NUL \<notin> set n" and "length n \<le> 255"
    and "n \<noteq> []" and "files s (path_of s n) \<noteq> None"
  obtains c' where "handle_client_request io s c = Inr ((set_file s (path_of s n) None)\<lparr>list_size :=
      (if length (filelist s) = 1 then 0 else list_size s - (1 + of_nat (length n))),
      filelist := remove1 n (filelist s)\<rparr>, c')" "outgoing c' = outgoing c @ ''OK'' @ [LF]"
proof -
  have line: "incoming c = (''DELETE '' @ n) @ LF # []" "LF \<notin> set (''DELETE '' @ n)"
      "NUL \<notin> set (''DELETE '' @ n)" "length (''DELETE '' @ n) < 263" "valid_request ((''DELETE '' @ n) @ [LF])"
    using assms(2-5) by (simp_all add: LF_def NUL_def valid_request_def)
  obtain c1 where c1: "read_request_header s c = Inr (''DELETE '' @ n, c1)" "outgoing c1 = outgoing c" "reliable c1"
    using header_ok[OF assms(1) line] .
  obtain c2 where c2: "respond (set_file s (path_of s n) None) (''OK'' @ [LF]) c1 = Inr c2"
      "outgoing c2 = outgoing c1 @ ''OK'' @ [LF]"
    using respondE[OF c1(3)] by blast
  show ?thesis using that[of c2] c1(1,2) c2 assms(6,7)
    by (simp add: handle_client_request_def send_response_def strchr_after_def delete_request_def Let_def)
qed

lemma delete_missing:
  assumes "reliable c" and "incoming c = ''DELETE '' @ n @ [LF]" and "LF \<notin> set n" and "NUL \<notin> set n" and "length n \<le> 255"
    and "n \<noteq> []" and "files s (path_of s n) = None"
  obtains c' where "handle_client_request io s c = Inr (s, c')"
    "outgoing c' = outgoing c @ ''ERROR'' @ [LF] @ ''No such file'' @ [LF]"
proof -
  have line: "incoming c = (''DELETE '' @ n) @ LF # []" "LF \<notin> set (''DELETE '' @ n)"
      "NUL \<notin> set (''DELETE '' @ n)" "length (''DELETE '' @ n) < 263" "valid_request ((''DELETE '' @ n) @ [LF])"
    using assms(2-5) by (simp_all add: LF_def NUL_def valid_request_def)
  obtain c1 where c1: "read_request_header s c = Inr (''DELETE '' @ n, c1)" "outgoing c1 = outgoing c" "reliable c1"
    using header_ok[OF assms(1) line] .
  obtain c2 where c2: "respond s (''ERROR'' @ [LF] @ ''No such file'' @ [LF]) c1 = Inr c2"
      "outgoing c2 = outgoing c1 @ ''ERROR'' @ [LF] @ ''No such file'' @ [LF]"
    using respondE[OF c1(3)] by blast
  show ?thesis using that[of c2] c1(1,2) c2 assms(6,7)
    by (simp add: handle_client_request_def send_response_def strchr_after_def delete_request_def Let_def)
qed

definition put_a :: conn where "put_a = client_sends (''PUT a'' @ LF # size_bytes 2 @ ''hi'')"

lemma put_a_header:
  "reliable put_a" "incoming put_a = ''PUT a'' @ LF # size_bytes 2 @ ''hi''" "LF \<notin> set ''PUT a''"
  "NUL \<notin> set ''PUT a''" "length ''PUT a'' < 263" "valid_request (''PUT a'' @ [LF])"
  by (simp_all add: put_a_def client_sends_def reliable_def LF_def NUL_def valid_request_def)

lemma put_a_served:
  obtains s' c' where "handle_client_request plain_io (server_start ''d'' Map.empty) put_a = Inr (s', c')"
proof -
  have "incoming put_a = ''PUT '' @ ''a'' @ LF # size_bytes (length ''hi'') @ ''hi''"
    using put_a_header(2) by (simp add: numeral_2_eq_2)
  moreover have "LF \<notin> set ''a''" "NUL \<notin> set ''a''" "length ''a'' \<le> 258" "length ''hi'' < 2 ^ 64"
      "can_create plain_io (path_of (server_start ''d'' Map.empty) ''a'')"
    by (simp_all add: LF_def NUL_def plain_io_def path_of_def server_start_def)
  ultimately show ?thesis using that put_served[OF put_a_header(1)] by blast
qed

theorem server_listing_invariant_witness:
  "\<exists>s' cs'. serve plain_io (server_start ''d'' Map.empty) [put_a] = Inr (s', cs')
    \<and> unat (list_size s') = length (listing (filelist s')) \<and> distinct (filelist s')"
proof -
  obtain s' c' where "handle_client_request plain_io (server_start ''d'' Map.empty) put_a = Inr (s', c')"
    by (rule put_a_served)
  then have run: "serve plain_io (server_start ''d'' Map.empty) [put_a] = Inr (s', [c'])" by simp
  have "creates plain_io (server_start ''d'' Map.empty)"
    by (auto simp: creates_def plain_io_def path_of_def server_start_def simple_name_def)
  moreover have "simple_requests [put_a]"
  proof -
    have "names_simple ''PUT a''" by (simp add: names_simple_def strchr_after_def simple_name_def)
    moreover have "request = ''PUT a''" if "read_request_header s put_a = Inr (request, c)" for s request c
      using header_ok[OF put_a_header, of s] that by auto
    ultimately show ?thesis unfolding simple_requests_def by auto
  qed
  ultimately show ?thesis using server_listing_invariant[OF run] run by auto
qed

end
