(* ===== verification/Net_Session.thy ===== *)
theory Net_Session
  imports Net_Client Net_Server
begin

text \<open>
  A client of \<^verbatim>\<open>client.c\<close> talking to the server of \<^verbatim>\<open>server.c\<close>: the client sends its request and shuts
  down its side, the server handles it, the client reads the response. Together they implement a store
  of files with the operations put, get, delete and list.
\<close>

section \<open>One exchange\<close>

datatype session_stop = Client_Stopped client_stop | Server_Stopped stop

definition of_client :: "client_stop + 'a \<Rightarrow> session_stop + 'a" where
  "of_client r = (case r of Inl e \<Rightarrow> Inl (Client_Stopped e) | Inr x \<Rightarrow> Inr x)"

definition of_server :: "stop + 'a \<Rightarrow> session_stop + 'a" where
  "of_server r = (case r of Inl e \<Rightarrow> Inl (Server_Stopped e) | Inr x \<Rightarrow> Inr x)"

definition exchange ::
  "stdio \<Rightarrow> conn \<Rightarrow> conn \<Rightarrow> string list \<Rightarrow> server \<Rightarrow> client \<Rightarrow> session_stop + (server \<times> client)" where
  \<comment> \<open>with the client's and the server's end of a new connection\<close>
  "exchange io cc sc argv s cl =
     (case check_args (parse_args argv) of
        Inl n \<Rightarrow> of_client (quit n cl)
      | Inr command \<Rightarrow>
          let a = the (parse_args argv) in
          rbind (of_client (send_request a command cl cc)) (\<lambda>c1.
          rbind (of_server (handle_client_request io s (sc\<lparr>incoming := outgoing c1\<rparr>))) (\<lambda>(s', c2).
          rbind (of_client (handle_response a command cl (c1\<lparr>incoming := outgoing c2\<rparr>))) (\<lambda>cl'.
          Inr (s', cl')))))"

record client_setup =
  address_ok :: bool
  socket_ok :: bool
  connect_ok :: bool

definition connect_client :: "client_setup \<Rightarrow> client \<Rightarrow> client_stop + unit" where
  "connect_client k cl =
     (if \<not> address_ok k then quit (Perror ''get address info fail'') cl
      else if \<not> socket_ok k then quit (Perror ''socket fail'') cl
      else if \<not> connect_ok k then quit (Perror ''connect fail'') cl
      else Inr ())"

definition client_program ::
  "client_setup \<Rightarrow> stdio \<Rightarrow> conn \<Rightarrow> conn \<Rightarrow> string list \<Rightarrow> server \<Rightarrow> client \<Rightarrow> session_stop + (server \<times> client)" where
  \<comment> \<open>the arguments are checked before anything is connected\<close>
  "client_program k io cc sc argv s cl =
     (case check_args (parse_args argv) of
        Inl n \<Rightarrow> of_client (quit n cl)
      | Inr _ \<Rightarrow> rbind (of_client (connect_client k cl)) (\<lambda>_. exchange io cc sc argv s cl))"

lemma client_program_cases:
  \<comment> \<open>a client that does not reach the server leaves no trace but its message; one that does is an exchange\<close>
  obtains (exchanged) "client_program k io cc sc argv s cl = exchange io cc sc argv s cl"
  | (not_connected) n where "client_program k io cc sc argv s cl = Inl (Client_Stopped (Client_Exit (tell n cl)))"
    and "\<not> (address_ok k \<and> socket_ok k \<and> connect_ok k)"
proof (cases "check_args (parse_args argv)")
  case (Inl n)
  then show ?thesis by (intro exchanged) (simp add: client_program_def exchange_def)
next
  case (Inr command)
  show ?thesis
  proof (cases "address_ok k \<and> socket_ok k \<and> connect_ok k")
    case True
    then show ?thesis using Inr by (intro exchanged) (simp add: client_program_def connect_client_def of_client_def)
  next
    case False
    then have "\<exists>n. connect_client k cl = quit n cl" by (auto simp: connect_client_def)
    then obtain n where "connect_client k cl = quit n cl" by blast
    then show ?thesis using Inr False
      by (intro not_connected) (simp_all add: client_program_def quit_def of_client_def)
  qed
qed

section \<open>The store\<close>

datatype command = Put_File string string | Get_File string string | Delete_File string | List_Files

fun argv_of :: "string \<Rightarrow> command \<Rightarrow> string list" where
  \<comment> \<open>the command line, with the server's address\<close>
  "argv_of h (Put_File n f) = [''client'', h, ''put'', n, f]"
| "argv_of h (Get_File n f) = [''client'', h, ''get'', n, f]"
| "argv_of h (Delete_File n) = [''client'', h, ''delete'', n]"
| "argv_of h List_Files = [''client'', h, ''list'']"

definition store :: "server \<Rightarrow> string \<Rightarrow> string option" where
  "store s n = (if simple_name n then files s (path_of s n) else None)"

definition no_such_file :: "client \<Rightarrow> client" where
  "no_such_file cl = tell (Error_Message ''No such file'') cl"

fun store_step ::
  "command \<Rightarrow> (string \<Rightarrow> string option) \<Rightarrow> client \<Rightarrow> (string \<Rightarrow> string option) \<Rightarrow> client \<Rightarrow> bool" where
  "store_step (Put_File n f) st cl st' cl' \<longleftrightarrow> st' = st(n := disk cl f) \<and> cl' = tell Success cl"
| "store_step (Get_File n f) st cl st' cl' \<longleftrightarrow> st' = st
     \<and> cl' = (case st n of None \<Rightarrow> no_such_file cl | Some data \<Rightarrow> cl\<lparr>disk := (disk cl)(f \<mapsto> data)\<rparr>)"
| "store_step (Delete_File n) st cl st' cl' \<longleftrightarrow> st' = st(n := None)
     \<and> cl' = (if st n = None then no_such_file cl else tell Success cl)"
| "store_step List_Files st cl st' cl' \<longleftrightarrow> st' = st
     \<and> (\<exists>ns t. distinct ns \<and> set ns = dom st \<and> cl' = cl\<lparr>tty := t\<rparr> \<and> outgoing t = outgoing (tty cl) @ listing ns @ [LF])"

definition name_ok :: "string \<Rightarrow> bool" where
  "name_ok n \<longleftrightarrow> simple_name n \<and> LF \<notin> set n \<and> NUL \<notin> set n"

fun command_ok :: "client \<Rightarrow> command \<Rightarrow> bool" where
  "command_ok cl (Put_File n f) \<longleftrightarrow> name_ok n \<and> (\<exists>data. disk cl f = Some data \<and> length data < 2 ^ 64)"
| "command_ok cl (Get_File n f) \<longleftrightarrow> name_ok n \<and> writable cl f"
| "command_ok cl (Delete_File n) \<longleftrightarrow> name_ok n"
| "command_ok cl List_Files \<longleftrightarrow> reliable (tty cl)"

definition address_ok :: "string \<Rightarrow> bool" where
  "address_ok h \<longleftrightarrow> 2 \<le> length (strtok_all (CHR '':'') [] h)"

definition fresh :: "conn \<Rightarrow> bool" where
  "fresh c \<longleftrightarrow> reliable c \<and> incoming c = [] \<and> outgoing c = []"

definition small :: "server \<Rightarrow> bool" where
  \<comment> \<open>sizes fit a \<open>size_t\<close>\<close>
  "small s \<longleftrightarrow> length (listing (filelist s)) < 2 ^ 64 \<and> (\<forall>p data. files s p = Some data \<longrightarrow> length data < 2 ^ 64)"

lemma parse_address:
  assumes "address_ok h"
  shows "\<exists>p q. \<forall>m rest. parse_args (''client'' # h # m # rest) = Some \<lparr>host = p, port = q, meth = List.map toupper m,
      remote = (if rest \<noteq> [] then Some (rest ! 0) else None),
      local_file = (if 1 < length rest then Some (rest ! 1) else None)\<rparr>"
proof -
  obtain p q ts where "strtok_all (CHR '':'') [] h = p # q # ts"
    using assms unfolding address_ok_def by (metis (no_types) Suc_le_length_iff numeral_2_eq_2)
  then show ?thesis by (intro exI[of _ p] exI[of _ q]) (simp add: parse_args_def numeral_eq_Suc)
qed

lemma upper: "List.map toupper ''put'' = ''PUT''" "List.map toupper ''get'' = ''GET''"
    "List.map toupper ''delete'' = ''DELETE''" "List.map toupper ''list'' = ''LIST''"
  by code_simp+

lemma reliable_incoming [simp]: "reliable (c\<lparr>incoming := x\<rparr>) = reliable c"
  by (simp add: reliable_def)

section \<open>The exchanges\<close>

lemma exchange_runs:
  assumes "parse_args argv = Some a" and "check_args (Some a) = Inr command"
    and "send_request a command cl cc = Inr c1"
    and "handle_client_request io s (sc\<lparr>incoming := outgoing c1\<rparr>) = Inr (s', c2)"
    and "handle_response a command cl (c1\<lparr>incoming := outgoing c2\<rparr>) = Inr cl'"
  shows "exchange io cc sc argv s cl = Inr (s', cl')"
  using assms by (simp add: exchange_def of_client_def of_server_def)

lemma name_okD:
  assumes "name_ok n"
  shows "simple_name n" "LF \<notin> set n" "NUL \<notin> set n" "length n \<le> 255" "n \<noteq> []"
  using assms by (auto simp: name_ok_def simple_name_def)

lemma exchange_put:
  assumes "address_ok h" "fresh cc" "fresh sc" "name_ok n" "disk cl f = Some data" "length data < 2 ^ 64"
    and "can_create io (path_of s n)"
  shows "exchange io cc sc (argv_of h (Put_File n f)) s cl
    = Inr (set_file (put_name s n) (path_of s n) (Some data), tell Success cl)"
proof -
  obtain p q where parse: "\<And>m rest. parse_args (''client'' # h # m # rest) = Some \<lparr>host = p, port = q,
      meth = List.map toupper m, remote = (if rest \<noteq> [] then Some (rest ! 0) else None),
      local_file = (if 1 < length rest then Some (rest ! 1) else None)\<rparr>"
    using parse_address[OF assms(1)] by blast
  let ?a = "\<lparr>host = p, port = q, meth = ''PUT'', remote = Some n, local_file = Some f\<rparr>"
  have a: "parse_args (argv_of h (Put_File n f)) = Some ?a" unfolding argv_of.simps parse upper by simp
  have fresh_cc: "reliable cc" "outgoing cc = []" using assms(2) by (simp_all add: fresh_def)
  have line: "request_line ?a PUT = Inr (''PUT '' @ n @ [LF])" by (simp add: request_line_def need_def)
  note n = name_okD[OF assms(4)]
  obtain c1 where c1: "send_request ?a PUT cl cc = Inr c1"
      "outgoing c1 = ''PUT '' @ n @ LF # size_bytes (length data) @ data" "reliable c1"
    using put_sent[OF fresh_cc(1) line, of f cl data] assms(5) unfolding fresh_cc(2) by simp blast
  obtain c2 where c2: "handle_client_request io s (sc\<lparr>incoming := outgoing c1\<rparr>)
        = Inr (set_file (put_name s n) (path_of s n) (Some data), c2)" "outgoing c2 = ''OK'' @ [LF]"
    using put_served[of "sc\<lparr>incoming := outgoing c1\<rparr>" n data io s] c1(2) n assms(3,6,7)
    by (auto simp: fresh_def)
  have "handle_response ?a PUT cl (c1\<lparr>incoming := outgoing c2\<rparr>) = Inr (tell Success cl)"
    by (rule success_handled[where rest = "[]"]) (simp_all add: c1(3) c2(2))
  from exchange_runs[OF a _ c1(1) c2(1) this] show ?thesis by (simp add: check_args_def)
qed

lemma exchange_get:
  assumes "address_ok h" "fresh cc" "fresh sc" "name_ok n" "writable cl f"
    and "\<And>data. files s (path_of s n) = Some data \<Longrightarrow> length data < 2 ^ 64"
  shows "exchange io cc sc (argv_of h (Get_File n f)) s cl
    = Inr (s, case files s (path_of s n) of None \<Rightarrow> no_such_file cl | Some data \<Rightarrow> cl\<lparr>disk := (disk cl)(f \<mapsto> data)\<rparr>)"
proof -
  obtain p q where parse: "\<And>m rest. parse_args (''client'' # h # m # rest) = Some \<lparr>host = p, port = q,
      meth = List.map toupper m, remote = (if rest \<noteq> [] then Some (rest ! 0) else None),
      local_file = (if 1 < length rest then Some (rest ! 1) else None)\<rparr>"
    using parse_address[OF assms(1)] by blast
  let ?a = "\<lparr>host = p, port = q, meth = ''GET'', remote = Some n, local_file = Some f\<rparr>"
  have a: "parse_args (argv_of h (Get_File n f)) = Some ?a" unfolding argv_of.simps parse upper by simp
  have fresh_cc: "reliable cc" "outgoing cc = []" using assms(2) by (simp_all add: fresh_def)
  have line: "request_line ?a GET = Inr (''GET '' @ n @ [LF])" by (simp add: request_line_def need_def)
  note n = name_okD[OF assms(4)]
  obtain c1 where c1: "send_request ?a GET cl cc = Inr c1" "outgoing c1 = ''GET '' @ n @ [LF]" "reliable c1"
    using request_sent[OF fresh_cc(1) line, of cl] unfolding fresh_cc(2) by simp blast
  obtain c2 where c2: "handle_client_request io s (sc\<lparr>incoming := outgoing c1\<rparr>) = Inr (s, c2)"
      "outgoing c2 = (case files s (path_of s n) of None \<Rightarrow> ''ERROR'' @ [LF] @ ''No such file'' @ [LF]
        | Some data \<Rightarrow> ''OK'' @ [LF] @ size_bytes (length data) @ data)"
    using get_served[of "sc\<lparr>incoming := outgoing c1\<rparr>" n io s] c1(2) n assms(3)
    by (auto simp: fresh_def)
  have "handle_response ?a GET cl (c1\<lparr>incoming := outgoing c2\<rparr>) = Inr (case files s (path_of s n) of
      None \<Rightarrow> no_such_file cl | Some data \<Rightarrow> cl\<lparr>disk := (disk cl)(f \<mapsto> data)\<rparr>)"
  proof (cases "files s (path_of s n)")
    case None
    have "handle_response ?a GET cl (c1\<lparr>incoming := outgoing c2\<rparr>) = Inr (no_such_file cl)"
      unfolding no_such_file_def by (rule error_handled) (simp_all add: c1(3) c2(2) None LF_def NUL_def)
    then show ?thesis by (simp add: None)
  next
    case (Some data)
    have "handle_response ?a GET cl (c1\<lparr>incoming := outgoing c2\<rparr>) = Inr (cl\<lparr>disk := (disk cl)(f \<mapsto> data)\<rparr>)"
      by (rule get_handled[OF _ _ assms(6)[OF Some]]) (simp_all add: c1(3) c2(2) Some assms(5))
    then show ?thesis by (simp add: Some)
  qed
  from exchange_runs[OF a _ c1(1) c2(1) this] show ?thesis by (simp add: check_args_def)
qed

lemma exchange_delete:
  assumes "address_ok h" "fresh cc" "fresh sc" "name_ok n"
  shows "exchange io cc sc (argv_of h (Delete_File n)) s cl
    = Inr (if files s (path_of s n) = None then (s, no_such_file cl)
        else ((set_file s (path_of s n) None)\<lparr>list_size := (if length (filelist s) = 1 then 0
          else list_size s - (1 + of_nat (length n))), filelist := remove1 n (filelist s)\<rparr>, tell Success cl))"
proof -
  obtain p q where parse: "\<And>m rest. parse_args (''client'' # h # m # rest) = Some \<lparr>host = p, port = q,
      meth = List.map toupper m, remote = (if rest \<noteq> [] then Some (rest ! 0) else None),
      local_file = (if 1 < length rest then Some (rest ! 1) else None)\<rparr>"
    using parse_address[OF assms(1)] by blast
  let ?a = "\<lparr>host = p, port = q, meth = ''DELETE'', remote = Some n, local_file = None\<rparr>"
  have a: "parse_args (argv_of h (Delete_File n)) = Some ?a" unfolding argv_of.simps parse upper by simp
  have fresh_cc: "reliable cc" "outgoing cc = []" using assms(2) by (simp_all add: fresh_def)
  have line: "request_line ?a DELETE = Inr (''DELETE '' @ n @ [LF])" by (simp add: request_line_def need_def)
  note n = name_okD[OF assms(4)]
  obtain c1 where c1: "send_request ?a DELETE cl cc = Inr c1" "outgoing c1 = ''DELETE '' @ n @ [LF]" "reliable c1"
    using request_sent[OF fresh_cc(1) line, of cl] unfolding fresh_cc(2) by simp blast
  show ?thesis
  proof (cases "files s (path_of s n) = None")
    case True
    obtain c2 where c2: "handle_client_request io s (sc\<lparr>incoming := outgoing c1\<rparr>) = Inr (s, c2)"
        "outgoing c2 = ''ERROR'' @ [LF] @ ''No such file'' @ [LF]"
      using delete_missing[of "sc\<lparr>incoming := outgoing c1\<rparr>" n s io] c1(2) n assms(3) True
      by (auto simp: fresh_def)
    have "handle_response ?a DELETE cl (c1\<lparr>incoming := outgoing c2\<rparr>) = Inr (no_such_file cl)"
      unfolding no_such_file_def by (rule error_handled) (simp_all add: c1(3) c2(2) LF_def NUL_def)
    from exchange_runs[OF a _ c1(1) c2(1) this] show ?thesis unfolding if_P[OF True] by (simp add: check_args_def)
  next
    case False
    let ?s = "(set_file s (path_of s n) None)\<lparr>list_size := (if length (filelist s) = 1 then 0
        else list_size s - (1 + of_nat (length n))), filelist := remove1 n (filelist s)\<rparr>"
    obtain c2 where c2: "handle_client_request io s (sc\<lparr>incoming := outgoing c1\<rparr>) = Inr (?s, c2)"
        "outgoing c2 = ''OK'' @ [LF]"
      using delete_served[of "sc\<lparr>incoming := outgoing c1\<rparr>" n s io] c1(2) n assms(3) False
      by (auto simp: fresh_def)
    have "handle_response ?a DELETE cl (c1\<lparr>incoming := outgoing c2\<rparr>) = Inr (tell Success cl)"
      by (rule success_handled[where rest = "[]"]) (simp_all add: c1(3) c2(2))
    from exchange_runs[OF a _ c1(1) c2(1) this] show ?thesis unfolding if_not_P[OF False] by (simp add: check_args_def)
  qed
qed

lemma exchange_list:
  assumes "address_ok h" "fresh cc" "fresh sc" "reliable (tty cl)" "\<forall>n \<in> set (filelist s). n \<noteq> []"
    and "unat (list_size s) = length (listing (filelist s))" "length (listing (filelist s)) < 2 ^ 64"
  shows "\<exists>t. exchange io cc sc (argv_of h List_Files) s cl = Inr (s, cl\<lparr>tty := t\<rparr>)
    \<and> outgoing t = outgoing (tty cl) @ listing (filelist s) @ [LF]"
proof -
  obtain p q where parse: "\<And>m rest. parse_args (''client'' # h # m # rest) = Some \<lparr>host = p, port = q,
      meth = List.map toupper m, remote = (if rest \<noteq> [] then Some (rest ! 0) else None),
      local_file = (if 1 < length rest then Some (rest ! 1) else None)\<rparr>"
    using parse_address[OF assms(1)] by blast
  let ?a = "\<lparr>host = p, port = q, meth = ''LIST'', remote = None, local_file = None\<rparr>"
  have a: "parse_args (argv_of h List_Files) = Some ?a" unfolding argv_of.simps parse upper by simp
  have fresh_cc: "reliable cc" "outgoing cc = []" using assms(2) by (simp_all add: fresh_def)
  have line: "request_line ?a LIST = Inr (''LIST'' @ [LF])" by (simp add: request_line_def)
  obtain c1 where c1: "send_request ?a LIST cl cc = Inr c1" "outgoing c1 = ''LIST'' @ [LF]" "reliable c1"
    using request_sent[OF fresh_cc(1) line, of cl] unfolding fresh_cc(2) by simp blast
  obtain c2 where c2: "handle_client_request io s (sc\<lparr>incoming := outgoing c1\<rparr>) = Inr (s, c2)"
      "outgoing c2 = ''OK'' @ [LF] @ size_bytes (length (listing (filelist s))) @ listing (filelist s)"
    using list_served[of "sc\<lparr>incoming := outgoing c1\<rparr>" s io] c1(2) assms(3,5,6) by (auto simp: fresh_def)
  obtain t where t: "handle_response ?a LIST cl (c1\<lparr>incoming := outgoing c2\<rparr>) = Inr (cl\<lparr>tty := t\<rparr>)"
      "outgoing t = outgoing (tty cl) @ listing (filelist s) @ [LF]"
    using list_handled[of "c1\<lparr>incoming := outgoing c2\<rparr>" "listing (filelist s)" cl ?a] c1(3) c2(2) assms(4,7) by auto
  from exchange_runs[OF a _ c1(1) c2(1) t(1)] t(2) show ?thesis by (auto simp: check_args_def)
qed

section \<open>Client and server implement the store\<close>

lemma store_simps:
  "simple_name n \<Longrightarrow> store s n = files s (path_of s n)"
  "simple_name n \<Longrightarrow> store (set_file s (path_of s n) d) = (store s)(n := d)"
  by (auto simp: store_def fun_eq_iff path_of_dir[of "set_file s (path_of s n) d" s])

lemma store_put_name: "store (put_name s n) = store s" "path_of (put_name s n) = path_of s"
proof -
  have same: "dir (put_name s n) = dir s" "files (put_name s n) = files s" by (simp_all add: put_name_def)
  show path: "path_of (put_name s n) = path_of s" using same(1) by (rule path_of_dir)
  show "store (put_name s n) = store s" by (rule ext) (simp only: store_def path same(2))
qed

lemma server_names:
  assumes "server_ok s"
  shows "distinct (filelist s)" "set (filelist s) = dom (store s)" "\<forall>n \<in> set (filelist s). n \<noteq> []"
proof -
  have ok: "\<forall>n \<in> set (filelist s). simple_name n"
      "\<forall>n. simple_name n \<longrightarrow> (n \<in> set (filelist s) \<longleftrightarrow> files s (path_of s n) \<noteq> None)"
    using assms by (simp_all add: server_ok_def)
  show "distinct (filelist s)" using assms by (simp add: server_ok_def)
  have "n \<in> set (filelist s) \<longleftrightarrow> store s n \<noteq> None" for n
    using ok by (cases "simple_name n") (auto simp: store_def)
  then show "set (filelist s) = dom (store s)" by (simp add: set_eq_iff domIff)
  show "\<forall>n \<in> set (filelist s). n \<noteq> []" using ok(1) by (auto simp: simple_name_def)
qed

lemma put_refines:
  assumes "server_ok s" and "small s" and "creates io s" and "address_ok h"
    and "fresh cc" and "fresh sc" and "command_ok cl cmd"
    and cmd: "cmd = Put_File n f"
  shows "\<exists>s' cl'. exchange io cc sc (argv_of h cmd) s cl = Inr (s', cl')
    \<and> store_step cmd (store s) cl (store s') cl' \<and> server_ok s'"
proof -
  obtain data where n: "name_ok n" "disk cl f = Some data" "length data < 2 ^ 64" using assms(7) cmd by auto
  have create: "can_create io (path_of s n)" using assms(3) name_okD(1)[OF n(1)] by (simp add: creates_def)
  let ?s = "set_file (put_name s n) (path_of s n) (Some data)"
  have path: "path_of ?s = path_of s" by (rule path_of_dir) (simp add: put_name_def)
  have "store ?s = (store s)(n \<mapsto> data)"
    using store_simps(2)[OF name_okD(1)[OF n(1)], of "put_name s n" "Some data"] by (simp add: store_put_name)
  moreover have "server_ok ?s"
  proof (cases "files s (path_of s n) = None")
    case True
    then have "n \<notin> set (filelist s)" using assms(1) name_okD(1)[OF n(1)] by (simp add: server_ok_def)
    then show ?thesis using True assms(1,2) name_okD(1)[OF n(1)] list_file_size[of s n]
      unfolding server_ok_def path small_def by (auto simp: put_name_def)
  next
    case False
    then show ?thesis using assms(1) name_okD(1)[OF n(1)] unfolding server_ok_def path by (auto simp: put_name_def)
  qed
  ultimately show ?thesis using exchange_put[OF assms(4-6) n create] n(2) cmd by simp
qed

lemma get_refines:
  assumes "server_ok s" and "small s" and "creates io s" and "address_ok h"
    and "fresh cc" and "fresh sc" and "command_ok cl cmd"
    and cmd: "cmd = Get_File n f"
  shows "\<exists>s' cl'. exchange io cc sc (argv_of h cmd) s cl = Inr (s', cl')
    \<and> store_step cmd (store s) cl (store s') cl' \<and> server_ok s'"
proof -
  have n: "name_ok n" "writable cl f" using assms(7) cmd by simp_all
  have "files s (path_of s n) = Some data \<Longrightarrow> length data < 2 ^ 64" for data
    using assms(2) by (auto simp: small_def)
  from exchange_get[OF assms(4-6) n this] show ?thesis using assms(1) store_simps(1)[OF name_okD(1)[OF n(1)]] cmd
    by simp
qed

lemma delete_refines:
  assumes "server_ok s" and "small s" and "creates io s" and "address_ok h"
    and "fresh cc" and "fresh sc" and "command_ok cl cmd"
    and cmd: "cmd = Delete_File n"
  shows "\<exists>s' cl'. exchange io cc sc (argv_of h cmd) s cl = Inr (s', cl')
    \<and> store_step cmd (store s) cl (store s') cl' \<and> server_ok s'"
proof -
  have n: "name_ok n" using assms(7) cmd by simp
  note simple = name_okD(1)[OF n]
  show ?thesis
  proof (cases "files s (path_of s n) = None")
    case True
    then have "(store s)(n := None) = store s" by (simp add: fun_eq_iff store_simps(1)[OF simple])
    then show ?thesis using exchange_delete[OF assms(4-6) n] True assms(1) cmd store_simps(1)[OF simple] by simp
  next
    case False
    let ?s = "(set_file s (path_of s n) None)\<lparr>list_size := (if length (filelist s) = 1 then 0
        else list_size s - (1 + of_nat (length n))), filelist := remove1 n (filelist s)\<rparr>"
    have path: "path_of ?s = path_of s" by (rule path_of_dir) simp
    have mem: "n \<in> set (filelist s)" using False assms(1) simple by (simp add: server_ok_def)
    have "store ?s = (store s)(n := None)"
      unfolding store_def path by (auto simp: fun_eq_iff)
    moreover have "server_ok ?s"
      using assms(1) remove_name_size[OF mem] unfolding server_ok_def path by auto
    moreover have "exchange io cc sc (argv_of h cmd) s cl = Inr (?s, tell Success cl)"
      using exchange_delete[OF assms(4-6) n, of io s cl] unfolding if_not_P[OF False] cmd .
    moreover have "store s n \<noteq> None" using False store_simps(1)[OF simple] by simp
    ultimately show ?thesis unfolding cmd store_step.simps
      by (intro exI[of _ ?s] exI[of _ "tell Success cl"]) (simp only: if_False simp_thms)
  qed
qed

lemma list_refines:
  assumes "server_ok s" and "small s" and "creates io s" and "address_ok h"
    and "fresh cc" and "fresh sc" and "command_ok cl cmd"
    and cmd: "cmd = List_Files"
  shows "\<exists>s' cl'. exchange io cc sc (argv_of h cmd) s cl = Inr (s', cl')
    \<and> store_step cmd (store s) cl (store s') cl' \<and> server_ok s'"
proof -
  have tty: "reliable (tty cl)" using cmd assms(7) cmd by simp
  have len: "length (listing (filelist s)) < 2 ^ 64" using assms(2) by (simp add: small_def)
  then have "unat (list_size s) = length (listing (filelist s))"
    using assms(1) by (simp add: server_ok_def unat_of_nat)
  from exchange_list[OF assms(4-6) tty server_names(3)[OF assms(1)] this len] obtain t where
    "exchange io cc sc (argv_of h List_Files) s cl = Inr (s, cl\<lparr>tty := t\<rparr>)"
    "outgoing t = outgoing (tty cl) @ listing (filelist s) @ [LF]" by blast
  then show ?thesis using assms(1) server_names(1,2)[OF assms(1)] cmd by auto
qed

text \<open>
  C35: the two programs together implement the store. On a server in a reachable state and connections
  that do not fail (but may interrupt calls and cut reads and writes short), each command ends with the
  client holding exactly what the abstract operation answers (the stored bytes, success, the error
  message, the list of all names in some order), and the server's files are the abstract store after it.
\<close>

theorem network_refines_store:
  assumes "server_ok s" and "small s" and "creates io s" and "address_ok h"
    and "fresh cc" and "fresh sc" and "command_ok cl cmd"
  shows "\<exists>s' cl'. exchange io cc sc (argv_of h cmd) s cl = Inr (s', cl')
    \<and> store_step cmd (store s) cl (store s') cl' \<and> server_ok s'"
  using put_refines[OF assms] get_refines[OF assms] delete_refines[OF assms] list_refines[OF assms]
  by (cases cmd) blast+

definition fresh_conn :: conn where "fresh_conn = client_sends []"

theorem network_refines_store_witness:
  "\<exists>s' cl'. exchange plain_io fresh_conn fresh_conn [''client'', ''localhost:9000'', ''put'', ''a'', ''f'']
      (server_start ''d'' Map.empty) \<lparr>disk = [''f'' \<mapsto> ''hi''], writable = \<lambda>_. True, told = [], tty = fresh_conn\<rparr>
      = Inr (s', cl') \<and> store s' ''a'' = Some ''hi'' \<and> told cl' = [Success]"
proof -
  let ?s = "server_start ''d'' Map.empty" and ?c = "Put_File ''a'' ''f''"
  let ?cl = "\<lparr>disk = [''f'' \<mapsto> ''hi''], writable = \<lambda>_. True, told = [], tty = fresh_conn\<rparr>"
  have "server_ok ?s" "small ?s" by (simp_all add: server_ok_def small_def server_start_def)
  moreover have "creates plain_io ?s"
    by (auto simp: creates_def plain_io_def path_of_def server_start_def simple_name_def)
  moreover have "address_ok ''localhost:9000''" "fresh fresh_conn"
    by (simp_all add: address_ok_def fresh_def fresh_conn_def client_sends_def reliable_def)
  moreover have "command_ok ?cl ?c" by (simp add: name_ok_def simple_name_def LF_def NUL_def)
  ultimately obtain s' cl' where "exchange plain_io fresh_conn fresh_conn (argv_of ''localhost:9000'' ?c) ?s ?cl = Inr (s', cl')"
      "store_step ?c (store ?s) ?cl (store s') cl'"
    using network_refines_store[of ?s plain_io "''localhost:9000''" fresh_conn fresh_conn ?cl ?c] by blast
  then show ?thesis by (auto simp: tell_def)
qed

end
