(* ===== verification/Net_Loop.thy ===== *)
theory Net_Loop
  imports Net_Server "HOL-Library.Multiset"
begin

unbundle bit_operations_syntax

text \<open>
  The \<open>main\<close> function of \<^verbatim>\<open>nonstop_networking/server.c\<close>: the set-up of the listening socket and the event
  loop around \<open>handle_client_request\<close>. A descriptor is a number; the kernel keeps the open connections,
  the set of descriptors \<open>epoll\<close> watches, and the clients that wait to be accepted. Which number
  \<open>accept\<close> gives a connection, and which events \<open>epoll_wait\<close> reports, is the kernel's choice. Two
  fields only record history: who arrived, and the connections that were answered, before and after.
\<close>

section \<open>State\<close>

record event_loop =
  server_of :: server
  open_conns :: "nat \<Rightarrow> conn option"
  watched :: "nat set" \<comment> \<open>the interest list of \<open>epollfd\<close>\<close>
  backlog :: "conn list" \<comment> \<open>connected, not yet accepted\<close>
  arrived :: "conn list"
  answered :: "(conn \<times> conn) list"

record socket_setup =
  mkdtemp :: string
  getaddrinfo_ok :: bool
  reuse_addr_ok :: bool
  reuse_port_ok :: bool
  bind_ok :: bool
  listen_ok :: bool

definition EPOLLIN :: "32 word" where "EPOLLIN = 0x1"
definition EPOLLERR :: "32 word" where "EPOLLERR = 0x8"
definition EPOLLHUP :: "32 word" where "EPOLLHUP = 0x10"
definition EPOLLRDHUP :: "32 word" where "EPOLLRDHUP = 0x2000"

definition MAX_NUM_EVENTS :: nat where "MAX_NUM_EVENTS = 100"

section \<open>The loop\<close>

definition server_main :: "socket_setup \<Rightarrow> nat \<Rightarrow> (string \<Rightarrow> string option) \<Rightarrow> nat \<Rightarrow> event_loop option" where
  \<comment> \<open>up to the loop; \<open>None\<close> is \<open>exit(1)\<close>\<close>
  "server_main k argc fs sock_fd =
     (if argc \<noteq> 2 then None
      else let s = server_start (mkdtemp k) fs in
      if \<not> getaddrinfo_ok k then None
      else if \<not> reuse_addr_ok k then None
      else if \<not> reuse_port_ok k then None
      else if \<not> bind_ok k then None
      else if \<not> listen_ok k then None
      else Some \<lparr>server_of = s, open_conns = (\<lambda>_. None), watched = {sock_fd}, backlog = [], arrived = [], answered = []\<rparr>)"

definition accept_client :: "((nat \<Rightarrow> conn option) \<Rightarrow> nat) \<Rightarrow> event_loop \<Rightarrow> event_loop run" where
  \<comment> \<open>the listening socket does not block: without a client the call fails\<close>
  "accept_client new_fd st = (case backlog st of [] \<Rightarrow> Inl (Exit (server_of st))
     | c # cs \<Rightarrow> let client_fd = new_fd (open_conns st) in
         Inr (st\<lparr>backlog := cs, open_conns := (open_conns st)(client_fd \<mapsto> c), watched := insert client_fd (watched st)\<rparr>))"

definition answer_client :: "stdio \<Rightarrow> nat \<Rightarrow> event_loop \<Rightarrow> event_loop run" where
  \<comment> \<open>\<open>handle_client_request\<close> with the closing of the connection; reading a closed descriptor fails\<close>
  "answer_client io fd st = (case open_conns st fd of None \<Rightarrow> Inl (Exit (handle_sigint (server_of st)))
     | Some c \<Rightarrow> rbind (handle_client_request io (server_of st) c) (\<lambda>(s, c').
         Inr (st\<lparr>server_of := s, open_conns := (open_conns st)(fd := None), watched := watched st - {fd},
                 answered := answered st @ [(c, c')]\<rparr>)))"

definition handle_event ::
  "stdio \<Rightarrow> ((nat \<Rightarrow> conn option) \<Rightarrow> nat) \<Rightarrow> nat \<Rightarrow> nat \<times> 32 word \<Rightarrow> event_loop \<Rightarrow> event_loop run" where
  "handle_event io new_fd sock_fd = (\<lambda>(cur_fd, cur_event) st.
     if cur_fd = sock_fd then
       rbind (accept_client new_fd st) (\<lambda>st.
       Inr (if cur_event AND (EPOLLHUP OR EPOLLRDHUP OR EPOLLERR) \<noteq> 0
            then st\<lparr>watched := watched st - {cur_fd}\<rparr> else st))
     else if cur_event AND EPOLLIN \<noteq> 0 then answer_client io cur_fd st
     else Inr st)"

fun handle_events ::
  "stdio \<Rightarrow> ((nat \<Rightarrow> conn option) \<Rightarrow> nat) \<Rightarrow> nat \<Rightarrow> (nat \<times> 32 word) list \<Rightarrow> event_loop \<Rightarrow> event_loop run" where
  "handle_events io new_fd sock_fd [] st = Inr st"
| "handle_events io new_fd sock_fd (e # es) st =
     rbind (handle_event io new_fd sock_fd e st) (handle_events io new_fd sock_fd es)"

definition epoll_answer :: "nat \<Rightarrow> event_loop \<Rightarrow> (nat \<times> 32 word) list \<Rightarrow> bool" where
  \<comment> \<open>what \<open>epoll_wait\<close> may report: watched descriptors, each once; the listening one when a client waits\<close>
  "epoll_answer sock_fd st es \<longleftrightarrow> length es \<le> MAX_NUM_EVENTS \<and> distinct (List.map fst es)
     \<and> fst ` set es \<subseteq> watched st \<and> (sock_fd \<in> fst ` set es \<longrightarrow> backlog st \<noteq> [])"

inductive loop_run ::
  "stdio \<Rightarrow> ((nat \<Rightarrow> conn option) \<Rightarrow> nat) \<Rightarrow> nat \<Rightarrow> event_loop \<Rightarrow> event_loop \<Rightarrow> bool" for io new_fd sock_fd st0 where
  started: "loop_run io new_fd sock_fd st0 st0"
| connects: "loop_run io new_fd sock_fd st0 st
    \<Longrightarrow> loop_run io new_fd sock_fd st0 (st\<lparr>backlog := backlog st @ [c], arrived := arrived st @ [c]\<rparr>)"
| round: "loop_run io new_fd sock_fd st0 st \<Longrightarrow> epoll_answer sock_fd st es
    \<Longrightarrow> handle_events io new_fd sock_fd es st = Inr st' \<Longrightarrow> loop_run io new_fd sock_fd st0 st'"

section \<open>The invariant\<close>

definition fresh_fds :: "((nat \<Rightarrow> conn option) \<Rightarrow> nat) \<Rightarrow> nat \<Rightarrow> bool" where
  \<comment> \<open>\<open>accept\<close> gives a number that is not in use\<close>
  "fresh_fds new_fd sock_fd \<longleftrightarrow> (\<forall>m. finite (dom m) \<longrightarrow> m (new_fd m) = None \<and> new_fd m \<noteq> sock_fd)"

definition waiting :: "event_loop \<Rightarrow> conn multiset" where
  \<comment> \<open>accepted, not yet answered\<close>
  "waiting st = image_mset (\<lambda>fd. the (open_conns st fd)) (mset_set (dom (open_conns st)))"

definition loop_ok :: "stdio \<Rightarrow> server \<Rightarrow> nat \<Rightarrow> event_loop \<Rightarrow> bool" where
  "loop_ok io s0 sock_fd st \<longleftrightarrow> finite (dom (open_conns st)) \<and> open_conns st sock_fd = None
     \<and> watched st - {sock_fd} = dom (open_conns st)
     \<and> serve io s0 (List.map fst (answered st)) = Inr (server_of st, List.map snd (answered st))
     \<and> mset (arrived st) = mset (List.map fst (answered st)) + waiting st + mset (backlog st)"

lemma serve_snoc:
  "serve io s cs = Inr (s1, cs1) \<Longrightarrow> handle_client_request io s1 c = Inr (s2, c2)
    \<Longrightarrow> serve io s (cs @ [c]) = Inr (s2, cs1 @ [c2])"
  by (induction cs arbitrary: s cs1) (auto simp: rbind_Inr_iff)

lemma waiting_accept:
  assumes "finite (dom (open_conns st))" and "open_conns st fd = None" and "open_conns st' = (open_conns st)(fd \<mapsto> c)"
  shows "waiting st' = add_mset c (waiting st)"
proof -
  have "fd \<notin> dom (open_conns st)" using assms(2) by auto
  then have "{#the (open_conns st' x). x \<in># mset_set (dom (open_conns st))#} = waiting st"
    unfolding waiting_def using assms by (intro image_mset_cong) auto
  then show ?thesis
    using assms by (simp add: waiting_def mset_set.insert_remove \<open>fd \<notin> dom (open_conns st)\<close>)
qed

lemma waiting_close:
  assumes "finite (dom (open_conns st))" and "open_conns st fd = Some c" and "open_conns st' = (open_conns st)(fd := None)"
  shows "waiting st = add_mset c (waiting st')"
proof -
  have "finite (dom (open_conns st'))" using assms(1,3) by simp
  moreover have "open_conns st' fd = None" "open_conns st = (open_conns st')(fd \<mapsto> c)"
    using assms(2,3) by (auto simp: fun_eq_iff)
  ultimately show ?thesis by (rule waiting_accept)
qed

lemma accept_ok:
  assumes I: "loop_ok io s0 sock st" and new: "fresh_fds new_fd sock" and a: "accept_client new_fd st = Inr st'"
  shows "loop_ok io s0 sock st'" and "watched st - {sock} \<subseteq> watched st'"
    and "\<And>fd. open_conns st fd \<noteq> None \<Longrightarrow> open_conns st' fd = open_conns st fd"
proof -
  obtain c cs where b: "backlog st = c # cs" using a by (auto simp: accept_client_def split: list.splits)
  let ?fd = "new_fd (open_conns st)"
  have st': "st' = st\<lparr>backlog := cs, open_conns := (open_conns st)(?fd \<mapsto> c), watched := insert ?fd (watched st)\<rparr>"
    using a b by (simp add: accept_client_def Let_def)
  have i: "finite (dom (open_conns st))" "open_conns st sock = None" "watched st - {sock} = dom (open_conns st)"
    using I by (simp_all add: loop_ok_def)
  have fd: "open_conns st ?fd = None" "?fd \<noteq> sock" using new i(1) by (simp_all add: fresh_fds_def)
  have "waiting st' = add_mset c (waiting st)" by (rule waiting_accept[OF i(1) fd(1)]) (simp add: st')
  then show "loop_ok io s0 sock st'" using I fd b by (auto simp: loop_ok_def st')
  show "watched st - {sock} \<subseteq> watched st'" by (auto simp: st')
  show "open_conns st' x = open_conns st x" if "open_conns st x \<noteq> None" for x using that fd(1) by (auto simp: st')
qed

lemma answer_ok:
  assumes I: "loop_ok io s0 sock st" and ne: "fd \<noteq> sock" and a: "answer_client io fd st = Inr st'"
  shows "loop_ok io s0 sock st'" and "\<And>x. x \<noteq> fd \<Longrightarrow> open_conns st' x = open_conns st x"
proof -
  obtain c s c' where c: "open_conns st fd = Some c" "handle_client_request io (server_of st) c = Inr (s, c')"
    "st' = st\<lparr>server_of := s, open_conns := (open_conns st)(fd := None), watched := watched st - {fd},
        answered := answered st @ [(c, c')]\<rparr>"
    using a by (auto simp: answer_client_def rbind_Inr_iff split: option.splits)
  have "waiting st = add_mset c (waiting st')"
    by (rule waiting_close) (use I c in \<open>simp_all add: loop_ok_def\<close>)
  then show "loop_ok io s0 sock st'"
    using I ne serve_snoc[of io s0 "List.map fst (answered st)" "server_of st" "List.map snd (answered st)" c s c'] c(2)
    by (auto simp: loop_ok_def c(3))
  show "open_conns st' x = open_conns st x" if "x \<noteq> fd" for x using that by (simp add: c(3))
qed

definition batch_ok :: "nat \<Rightarrow> event_loop \<Rightarrow> (nat \<times> 32 word) list \<Rightarrow> bool" where
  \<comment> \<open>the events that are left of a round still have their connections\<close>
  "batch_ok sock_fd st es \<longleftrightarrow> distinct (List.map fst es)
     \<and> (\<forall>fd \<in> fst ` set es. if fd = sock_fd then backlog st \<noteq> [] else open_conns st fd \<noteq> None)"

lemma epoll_answer_batch: "loop_ok io s0 sock st \<Longrightarrow> epoll_answer sock st es \<Longrightarrow> batch_ok sock st es"
proof -
  assume I: "loop_ok io s0 sock st" and E: "epoll_answer sock st es"
  have "open_conns st fd \<noteq> None" if "fd \<in> fst ` set es" "fd \<noteq> sock" for fd
  proof -
    have "fd \<in> watched st - {sock}" using E that by (auto simp: epoll_answer_def)
    moreover have "watched st - {sock} = dom (open_conns st)" using I by (simp add: loop_ok_def)
    ultimately have "fd \<in> dom (open_conns st)" by simp
    then show ?thesis by auto
  qed
  then have "if fd = sock then backlog st \<noteq> [] else open_conns st fd \<noteq> None" if "fd \<in> fst ` set es" for fd
    using E that by (auto simp: epoll_answer_def)
  then show ?thesis using E unfolding epoll_answer_def batch_ok_def by blast
qed

lemma batch_okI:
  assumes "batch_ok sock st (e # es)" and "\<And>x. x \<noteq> fst e \<Longrightarrow> open_conns st x \<noteq> None \<Longrightarrow> open_conns st' x \<noteq> None"
    and "fst e \<noteq> sock \<Longrightarrow> backlog st' = backlog st"
  shows "batch_ok sock st' es"
proof -
  have "fst e \<notin> fst ` set es" using assms(1) by (simp add: batch_ok_def)
  then have "fd \<noteq> fst e" if "fd \<in> fst ` set es" for fd using that by blast
  then have "if fd = sock then backlog st' \<noteq> [] else open_conns st' fd \<noteq> None" if "fd \<in> fst ` set es" for fd
    using assms that unfolding batch_ok_def by (metis (no_types, lifting) image_insert insertCI list.simps(15))
  moreover have "distinct (List.map fst es)" using assms(1) by (simp add: batch_ok_def)
  ultimately show ?thesis unfolding batch_ok_def by blast
qed

lemma answer_backlog: "answer_client io fd st = Inr st' \<Longrightarrow> backlog st' = backlog st \<and> arrived st' = arrived st"
  by (auto simp: answer_client_def rbind_Inr_iff split: option.splits)

lemma accept_arrived: "accept_client new_fd st = Inr st' \<Longrightarrow> arrived st' = arrived st"
  by (auto simp: accept_client_def Let_def split: list.splits)

lemma event_ok:
  assumes I: "loop_ok io s0 sock st" and new: "fresh_fds new_fd sock" and B: "batch_ok sock st (e # es)"
    and h: "handle_event io new_fd sock e st = Inr st'"
  shows "loop_ok io s0 sock st' \<and> batch_ok sock st' es \<and> arrived st' = arrived st"
proof -
  obtain fd fl where e: "e = (fd, fl)" by (cases e)
  consider (accept) st1 where "fd = sock" "accept_client new_fd st = Inr st1"
      "st' = st1 \<or> st' = st1\<lparr>watched := watched st1 - {sock}\<rparr>"
    | (answer) "fd \<noteq> sock" "answer_client io fd st = Inr st'" | (other) "fd \<noteq> sock" "st' = st"
  proof (cases "fd = sock")
    case True
    then obtain st1 where "accept_client new_fd st = Inr st1" "st' = st1 \<or> st' = st1\<lparr>watched := watched st1 - {sock}\<rparr>"
      using h unfolding handle_event_def e by (auto simp: rbind_Inr_iff split: if_split_asm)
    then show thesis using that(1) True by blast
  next
    case False
    then have "answer_client io fd st = Inr st' \<or> st' = st"
      using h unfolding handle_event_def e by (auto split: if_split_asm)
    then show thesis using that(2,3) False by blast
  qed
  then show ?thesis
  proof cases
    case accept
    note a = accept_ok[OF I new accept(2)]
    have "loop_ok io s0 sock st'" using a(1) accept(3) by (auto simp: loop_ok_def waiting_def)
    moreover have "batch_ok sock st' es"
      by (rule batch_okI[OF B]) (use a(3) accept in \<open>auto simp: e\<close>)
    ultimately show ?thesis using accept_arrived[OF accept(2)] accept(3) by auto
  next
    case answer
    note a = answer_ok[OF I answer]
    have "batch_ok sock st' es"
      by (rule batch_okI[OF B]) (use a(2) answer_backlog[OF answer(2)] in \<open>simp_all add: e\<close>)
    then show ?thesis using a(1) answer_backlog[OF answer(2)] by simp
  next
    case other
    then show ?thesis using I batch_okI[OF B, of st] by simp
  qed
qed

lemma event_stops:
  assumes B: "batch_ok sock st (e # es)" and h: "handle_event io new_fd sock e st = Inl x"
  obtains fd c where "open_conns st fd = Some c" and "handle_client_request io (server_of st) c = Inl x"
proof -
  obtain fd fl where e: "e = (fd, fl)" by (cases e)
  have "if fd = sock then backlog st \<noteq> [] else open_conns st fd \<noteq> None" using B by (simp add: batch_ok_def e)
  then show thesis
    using that h by (auto simp: handle_event_def e rbind_Inl_iff accept_client_def answer_client_def Let_def
        split: if_splits list.splits option.splits)
qed

lemma events_ok:
  "\<lbrakk>handle_events io new_fd sock es st = Inr st'; loop_ok io s0 sock st; fresh_fds new_fd sock; batch_ok sock st es\<rbrakk>
    \<Longrightarrow> loop_ok io s0 sock st' \<and> arrived st' = arrived st"
proof (induction es arbitrary: st)
  case (Cons e es)
  then obtain st1 where h: "handle_event io new_fd sock e st = Inr st1" "handle_events io new_fd sock es st1 = Inr st'"
    by (auto simp: rbind_Inr_iff)
  then show ?case using Cons.IH[OF h(2)] event_ok[OF Cons.prems(2,3,4) h(1)] Cons.prems(3) by simp
qed simp

lemma waiting_arrived:
  assumes "loop_ok io s0 sock st" and "open_conns st fd = Some c"
  shows "c \<in> set (arrived st)"
proof -
  have "c \<in># waiting st" using assms by (force simp: loop_ok_def waiting_def)
  then have "c \<in># mset (arrived st)" using assms(1) by (simp add: loop_ok_def)
  then show ?thesis by simp
qed

lemma events_stop:
  "\<lbrakk>handle_events io new_fd sock es st = Inl x; loop_ok io s0 sock st; fresh_fds new_fd sock; batch_ok sock st es\<rbrakk>
    \<Longrightarrow> \<exists>cs s cs' c. serve io s0 cs = Inr (s, cs') \<and> c \<in> set (arrived st) \<and> handle_client_request io s c = Inl x"
proof (induction es arbitrary: st)
  case (Cons e es)
  show ?case
  proof (cases "handle_event io new_fd sock e st")
    case (Inl y)
    then have y: "y = x" using Cons.prems(1) by simp
    obtain fd c where "open_conns st fd = Some c" "handle_client_request io (server_of st) c = Inl x"
      using event_stops[OF Cons.prems(4) Inl] unfolding y by blast
    moreover have "serve io s0 (List.map fst (answered st)) = Inr (server_of st, List.map snd (answered st))"
      using Cons.prems(2) by (simp add: loop_ok_def)
    ultimately show ?thesis using waiting_arrived[OF Cons.prems(2)] by blast
  next
    case (Inr st1)
    then show ?thesis
      using Cons.IH[of st1] event_ok[OF Cons.prems(2,3,4) Inr] Cons.prems(1,3) by simp
  qed
qed simp

lemma loop_run_ok:
  "\<lbrakk>loop_run io new_fd sock st0 st; loop_ok io s0 sock st0; fresh_fds new_fd sock\<rbrakk> \<Longrightarrow> loop_ok io s0 sock st"
proof (induction rule: loop_run.induct)
  case (round st es st')
  then show ?case using events_ok epoll_answer_batch by blast
qed (auto simp: loop_ok_def waiting_def)

lemma server_main_ok:
  "server_main k argc fs sock = Some st0 \<Longrightarrow> loop_ok io (server_start (mkdtemp k) fs) sock st0"
  by (auto simp: server_main_def Let_def loop_ok_def waiting_def split: if_splits)


section \<open>An instance\<close>

definition next_fd :: "(nat \<Rightarrow> conn option) \<Rightarrow> nat" where
  "next_fd m = Suc (Max (insert 4 (dom m)))"

lemma next_fd_fresh: "fresh_fds next_fd 3"
proof -
  have "m (next_fd m) = None" "next_fd m \<noteq> 3" if "finite (dom m)" for m
  proof -
    have f: "finite (insert 4 (dom m))" using that by simp
    have le: "x \<le> Max (insert 4 (dom m))" if "x \<in> insert 4 (dom m)" for x using f that by (rule Max_ge)
    then have "next_fd m \<notin> dom m" unfolding next_fd_def by (metis Suc_n_not_le_n insertI2)
    then show "m (next_fd m) = None" by auto
    show "next_fd m \<noteq> 3" using le[of 4] by (simp add: next_fd_def)
  qed
  then show ?thesis by (simp add: fresh_fds_def)
qed

definition one_socket :: socket_setup where
  "one_socket = \<lparr>mkdtemp = ''d'', getaddrinfo_ok = True, reuse_addr_ok = True, reuse_port_ok = True, bind_ok = True, listen_ok = True\<rparr>"


end
