(* ===== verification/Dd.thy ===== *)
theory Dd
  imports Ctype
begin

text \<open>
  The block copier of \<^verbatim>\<open>deepfried_dd/dd.c\<close>: its options, the copying loop (written four times in the
  source, for each combination of files and standard streams) and the counters of its report. A stream
  is a byte list with a position; the files are a map, and whether a file can be created is a parameter.
  \<open>getopt\<close> and the clock are the library's. A loop that does not stop shows as \<open>Diverges\<close> for every fuel.
\<close>

section \<open>Options\<close>

record options =
  inputname :: "string option"
  outputname :: "string option"
  block_size :: int
  nblk_cpy :: int
  in_nblk_skip :: int
  out_nblk_skip :: int

definition default_options :: options where
  "default_options = \<lparr>inputname = None, outputname = None, block_size = 512, nblk_cpy = - 1, in_nblk_skip = 0, out_nblk_skip = 0\<rparr>"

fun set_option :: "options \<Rightarrow> char \<times> string \<Rightarrow> options" where
  \<comment> \<open>an option and its argument, as \<open>getopt\<close> returns them\<close>
  "set_option opt (c, optarg) =
     (if c = CHR ''i'' then opt\<lparr>inputname := Some optarg\<rparr>
      else if c = CHR ''o'' then opt\<lparr>outputname := Some optarg\<rparr>
      else if c = CHR ''b'' then opt\<lparr>block_size := atoi optarg\<rparr>
      else if c = CHR ''c'' then opt\<lparr>nblk_cpy := atoi optarg\<rparr>
      else if c = CHR ''p'' then opt\<lparr>in_nblk_skip := atoi optarg\<rparr>
      else if c = CHR ''k'' then opt\<lparr>out_nblk_skip := atoi optarg\<rparr>
      else opt)"

section \<open>Copying\<close>

record stream =
  bytes :: string
  pos :: nat

record dd =
  full_blocks_in :: nat
  partial_blocks_in :: nat
  full_blocks_out :: nat
  partial_blocks_out :: nat
  bytes_copied :: int
  infile :: stream
  outfile :: stream

definition fread_block :: "nat \<Rightarrow> stream \<Rightarrow> string \<times> stream" where
  "fread_block n s = (let r = take n (drop (pos s) (bytes s)) in (r, s\<lparr>pos := pos s + length r\<rparr>))"

definition fwrite_block :: "string \<Rightarrow> stream \<Rightarrow> stream" where
  \<comment> \<open>behind the end of the file the gap reads as zeros\<close>
  "fwrite_block d s = (if d = [] then s else
     \<lparr>bytes = take (pos s) (bytes s) @ replicate (pos s - length (bytes s)) (CHR 0x00) @ d @ drop (pos s + length d) (bytes s),
      pos = pos s + length d\<rparr>)"

definition fseek_set :: "int \<Rightarrow> stream \<Rightarrow> stream" where
  "fseek_set n s = (if n < 0 then s else s\<lparr>pos := nat n\<rparr>)"

fun copy_loop :: "nat \<Rightarrow> int option \<Rightarrow> nat \<Rightarrow> dd \<Rightarrow> dd res" where
  \<comment> \<open>without a limit when all of the standard input is copied\<close>
  "copy_loop 0 limit bs st = Inl Diverges"
| "copy_loop (Suc fuel) limit bs st =
     (if limit \<noteq> None \<and> \<not> bytes_copied st < the limit then Inr st
      else
        let (buffer, f) = fread_block bs (infile st);
            read_amount = length buffer;
            st1 = (if read_amount = bs then st\<lparr>full_blocks_in := full_blocks_in st + 1\<rparr>
                   else if read_amount \<noteq> 0 then st\<lparr>partial_blocks_in := partial_blocks_in st + 1\<rparr> else st);
            g = fwrite_block buffer (outfile st);
            write_amount = length buffer;
            st2 = (if write_amount = bs then st1\<lparr>full_blocks_out := full_blocks_out st + 1\<rparr>
                   else if write_amount \<noteq> 0 then st1\<lparr>partial_blocks_out := partial_blocks_out st + 1\<rparr> else st1);
            st3 = st2\<lparr>bytes_copied := int_of_long (bytes_copied st + int write_amount), infile := f, outfile := g\<rparr>
        in if read_amount \<noteq> bs then Inr st3 else copy_loop fuel limit bs st3)"

definition new_dd :: "stream \<Rightarrow> stream \<Rightarrow> dd" where
  "new_dd f g = \<lparr>full_blocks_in = 0, partial_blocks_in = 0, full_blocks_out = 0, partial_blocks_out = 0,
     bytes_copied = 0, infile = f, outfile = g\<rparr>"

definition run_copy :: "nat \<Rightarrow> int option \<Rightarrow> int \<Rightarrow> stream \<Rightarrow> stream \<Rightarrow> dd res" where
  \<comment> \<open>with the buffer of \<open>malloc(block_size)\<close>: a negative size is refused and the buffer is \<open>NULL\<close>\<close>
  "run_copy fuel limit bs f g =
     (if bs < 0 then (if limit \<noteq> None \<and> \<not> 0 < the limit \<or> length (bytes f) \<le> pos f
                      then Inr (new_dd f g) else Inl Null_Deref)
      else copy_loop fuel limit (nat bs) (new_dd f g))"

section \<open>The four cases of main\<close>

datatype stopped = Invalid_Input string | Invalid_Output string | Crash fault

record disk =
  contents :: "string \<Rightarrow> string option"
  creatable :: "string \<Rightarrow> bool"

definition of_run :: "dd res \<Rightarrow> stopped + dd" where
  "of_run r = (case r of Inl e \<Rightarrow> Inl (Crash e) | Inr x \<Rightarrow> Inr x)"

definition count_limit :: "options \<Rightarrow> int option" where
  \<comment> \<open>\<open>nblk_cpy == -1 || bytes_copied < nblk_cpy * block_size\<close>\<close>
  "count_limit opt = (if nblk_cpy opt = - 1 then None else Some (int_of_long (nblk_cpy opt * block_size opt)))"

definition total_size :: "options \<Rightarrow> string \<Rightarrow> int option" where
  \<comment> \<open>with an input file, whose size replaces the missing count\<close>
  "total_size opt data = Some (if nblk_cpy opt = - 1 then int_of_long (int (length data))
     else int_of_long (nblk_cpy opt * block_size opt))"

definition open_output :: "disk \<Rightarrow> options \<Rightarrow> string \<Rightarrow> stopped + stream" where
  "open_output d opt name = (case contents d name of
     Some data \<Rightarrow> Inr (fseek_set (int_of_long (out_nblk_skip opt * block_size opt)) \<lparr>bytes = data, pos = 0\<rparr>)
   | None \<Rightarrow> if creatable d name
       then Inr (fseek_set (int_of_long (out_nblk_skip opt * block_size opt)) \<lparr>bytes = [], pos = 0\<rparr>)
       else Inl (Invalid_Output name))"

definition open_input :: "disk \<Rightarrow> options \<Rightarrow> string \<Rightarrow> stopped + stream" where
  "open_input d opt name = (case contents d name of
     None \<Rightarrow> Inl (Invalid_Input name)
   | Some data \<Rightarrow> Inr (fseek_set (int_of_long (in_nblk_skip opt * block_size opt)) \<lparr>bytes = data, pos = 0\<rparr>))"

definition standard :: "string \<Rightarrow> stream" where "standard data = \<lparr>bytes = data, pos = 0\<rparr>"

definition stdin_to_stdout :: "nat \<Rightarrow> options \<Rightarrow> string \<Rightarrow> stopped + dd" where
  "stdin_to_stdout fuel opt input =
     of_run (run_copy fuel (count_limit opt) (block_size opt) (standard input) (standard []))"

definition stdin_to_file :: "nat \<Rightarrow> disk \<Rightarrow> options \<Rightarrow> string \<Rightarrow> string \<Rightarrow> stopped + dd" where
  "stdin_to_file fuel d opt input out = rbind (open_output d opt out) (\<lambda>g.
     of_run (run_copy fuel (count_limit opt) (block_size opt) (standard input) g))"

definition file_to_stdout :: "nat \<Rightarrow> disk \<Rightarrow> options \<Rightarrow> string \<Rightarrow> stopped + dd" where
  "file_to_stdout fuel d opt name = rbind (open_input d opt name) (\<lambda>f.
     of_run (run_copy fuel (total_size opt (bytes f)) (block_size opt) f (standard [])))"

definition file_to_file :: "nat \<Rightarrow> disk \<Rightarrow> options \<Rightarrow> string \<Rightarrow> string \<Rightarrow> stopped + dd" where
  \<comment> \<open>two different files\<close>
  "file_to_file fuel d opt name out = rbind (open_input d opt name) (\<lambda>f. rbind (open_output d opt out) (\<lambda>g.
     of_run (run_copy fuel (total_size opt (bytes f)) (block_size opt) f g)))"

definition dd_main :: "nat \<Rightarrow> disk \<Rightarrow> (char \<times> string) list \<Rightarrow> string \<Rightarrow> stopped + dd" where
  "dd_main fuel d opts input =
     (let opt = foldl set_option default_options opts in
      case (inputname opt, outputname opt) of
        (None, None) \<Rightarrow> stdin_to_stdout fuel opt input
      | (None, Some out) \<Rightarrow> stdin_to_file fuel d opt input out
      | (Some name, None) \<Rightarrow> file_to_stdout fuel d opt name
      | (Some name, Some out) \<Rightarrow> file_to_file fuel d opt name out)"

section \<open>What the loop copies\<close>

definition remaining :: "stream \<Rightarrow> string" where "remaining s = drop (pos s) (bytes s)"

definition blocks :: "nat \<Rightarrow> int \<Rightarrow> nat" where
  \<comment> \<open>of \<open>bs\<close> bytes, to reach the number\<close>
  "blocks bs l = (nat l + bs - 1) div bs"

definition amount :: "int option \<Rightarrow> nat \<Rightarrow> dd \<Rightarrow> nat" where
  "amount limit bs st = (case limit of None \<Rightarrow> length (remaining (infile st))
     | Some l \<Rightarrow> min (length (remaining (infile st))) (blocks bs (l - bytes_copied st) * bs))"

definition advance :: "nat \<Rightarrow> nat \<Rightarrow> dd \<Rightarrow> dd" where
  \<comment> \<open>the report after \<open>m\<close> more bytes\<close>
  "advance bs m st = \<lparr>full_blocks_in = full_blocks_in st + m div bs,
     partial_blocks_in = partial_blocks_in st + (if m mod bs = 0 then 0 else 1),
     full_blocks_out = full_blocks_out st + m div bs,
     partial_blocks_out = partial_blocks_out st + (if m mod bs = 0 then 0 else 1),
     bytes_copied = bytes_copied st + int m,
     infile = (infile st)\<lparr>pos := pos (infile st) + m\<rparr>,
     outfile = fwrite_block (take m (remaining (infile st))) (outfile st)\<rparr>"

lemma fwrite_twice: "fwrite_block b (fwrite_block a s) = fwrite_block (a @ b) s"
proof (cases "a = []")
  case True
  then show ?thesis by (simp add: fwrite_block_def)
next
  case False
  let ?l = "take (pos s) (bytes s) @ replicate (pos s - length (bytes s)) (CHR 0x00)"
  have len: "length ?l = pos s" by simp
  show ?thesis
  proof (cases "b = []")
    case b: True
    then show ?thesis by (simp add: fwrite_block_def)
  next
    case b: False
    have "take (pos s + length a) (?l @ a @ drop (pos s + length a) (bytes s)) = ?l @ a"
      using len by (simp add: take_append)
    moreover have "drop (pos s + length a + length b) (?l @ a @ drop (pos s + length a) (bytes s))
        = drop (pos s + length a + length b) (bytes s)"
      using len by (simp add: drop_append add.commute)
    moreover have "pos s + length a - length (?l @ a @ drop (pos s + length a) (bytes s)) = 0"
      using len by simp
    ultimately show ?thesis using False b by (simp add: fwrite_block_def add.assoc)
  qed
qed

lemma advance_zero: "advance bs 0 st = st"
  by (simp add: advance_def fwrite_block_def)

lemma blocks_step:
  assumes "0 < bs" and "0 < l"
  shows "blocks bs l = Suc (blocks bs (l - int bs))"
proof -
  have suc: "(k + bs) div bs = Suc (k div bs)" for k using assms(1) div_add_self2[of bs k] by simp
  show ?thesis
  proof (cases "int bs \<le> l")
    case True
    then have t: "nat l + bs - 1 = (nat (l - int bs) + bs - 1) + bs" using assms by linarith
    show ?thesis unfolding blocks_def t suc ..
  next
    case False
    then have t: "nat l + bs - 1 = (nat l - 1) + bs" "nat l - 1 < bs" "nat (l - int bs) = 0"
      using assms by linarith+
    show ?thesis unfolding blocks_def t(1,3) suc using t(2) assms(1) by simp
  qed
qed

lemma blocks_none: "0 < bs \<Longrightarrow> l \<le> 0 \<Longrightarrow> blocks bs l = 0"
  by (simp add: blocks_def)

lemma amount_done: "0 < bs \<Longrightarrow> limit \<noteq> None \<and> \<not> bytes_copied st < the limit \<Longrightarrow> amount limit bs st = 0"
  by (auto simp: amount_def blocks_none)

lemma amount_last:
  assumes "0 < bs" and "\<not> (limit \<noteq> None \<and> \<not> bytes_copied st < the limit)" and "\<not> bs \<le> length (remaining (infile st))"
  shows "amount limit bs st = length (remaining (infile st))"
proof (cases limit)
  case (Some l)
  then have "blocks bs (l - bytes_copied st) = Suc (blocks bs (l - bytes_copied st - int bs))"
    using blocks_step[OF assms(1), of "l - bytes_copied st"] assms(2) by simp
  then show ?thesis using assms(3) Some by (simp add: amount_def)
qed (simp add: amount_def)

lemma advance_fields:
  "remaining (infile (advance bs m st)) = drop m (remaining (infile st))"
  "bytes_copied (advance bs m st) = bytes_copied st + int m"
  by (simp_all add: advance_def remaining_def add.commute)

lemma advance_twice: "0 < bs \<Longrightarrow> advance bs k (advance bs bs st) = advance bs (bs + k) st"
  using div_add_self1[of bs k] unfolding advance_def[of bs k] advance_fields(1)
  by (simp add: advance_def fwrite_twice take_add)

lemma amount_block:
  assumes "0 < bs" and "\<not> (limit \<noteq> None \<and> \<not> bytes_copied st < the limit)" and "bs \<le> length (remaining (infile st))"
  shows "amount limit bs st = bs + amount limit bs (advance bs bs st)"
proof (cases limit)
  case None
  then show ?thesis using assms(3) unfolding amount_def advance_fields by simp
next
  case (Some l)
  then have "blocks bs (l - bytes_copied st) = Suc (blocks bs (l - bytes_copied st - int bs))"
    using blocks_step[OF assms(1), of "l - bytes_copied st"] assms(2) by simp
  moreover have "min a (bs + x) = bs + min (a - bs) x" if "bs \<le> a" for a x using that by (simp add: min_def) arith
  ultimately show ?thesis using Some assms(3) unfolding amount_def advance_fields by (simp add: diff_diff_add)
qed

lemma copy_loop_step:
  assumes "0 < bs" and "0 \<le> bytes_copied st" and "bytes_copied st + int (length (remaining (infile st))) < 2 ^ 31"
    and go: "\<not> (limit \<noteq> None \<and> \<not> bytes_copied st < the limit)"
  shows "copy_loop (Suc fuel) limit bs st
    = (if bs \<le> length (remaining (infile st)) then copy_loop fuel limit bs (advance bs bs st)
       else Inr (advance bs (length (remaining (infile st))) st))"
proof -
  let ?r = "take bs (remaining (infile st))"
  have sum: "int_of_long (bytes_copied st + int (length ?r)) = bytes_copied st + int (length ?r)"
    using assms(2,3) by (intro int_of_long_small) auto
  show ?thesis
  proof (cases "bs \<le> length (remaining (infile st))")
    case True
    then show ?thesis using go sum assms(1)
      by (cases st; cases limit) (auto simp: fread_block_def remaining_def[symmetric] Let_def advance_def)
  next
    case False
    then show ?thesis using go sum assms(1)
      by (auto simp: fread_block_def remaining_def[symmetric] Let_def advance_def)
  qed
qed

lemma copy_loop_advances:
  "0 < bs \<Longrightarrow> 0 \<le> bytes_copied st \<Longrightarrow> bytes_copied st + int (length (remaining (infile st))) < 2 ^ 31
    \<Longrightarrow> length (remaining (infile st)) div bs < fuel
    \<Longrightarrow> copy_loop fuel limit bs st = Inr (advance bs (amount limit bs st) st)"
proof (induction fuel arbitrary: st)
  case (Suc fuel)
  let ?rest = "remaining (infile st)" and ?st = "advance bs bs st"
  consider "limit \<noteq> None \<and> \<not> bytes_copied st < the limit"
    | "\<not> (limit \<noteq> None \<and> \<not> bytes_copied st < the limit)" "\<not> bs \<le> length ?rest"
    | "\<not> (limit \<noteq> None \<and> \<not> bytes_copied st < the limit)" "bs \<le> length ?rest" by blast
  then show ?case
  proof cases
    case 1
    then show ?thesis using amount_done[OF Suc.prems(1) 1] by (simp add: advance_zero)
  next
    case 2
    then show ?thesis using copy_loop_step[OF Suc.prems(1-3) 2(1)] amount_last[OF Suc.prems(1) 2] by (simp del: copy_loop.simps)
  next
    case 3
    have "length ?rest div bs = Suc ((length ?rest - bs) div bs)" using 3(2) Suc.prems(1) by (simp add: le_div_geq)
    then have "copy_loop fuel limit bs ?st = Inr (advance bs (amount limit bs ?st) ?st)"
      using Suc.IH[of ?st] Suc.prems 3(2) unfolding advance_fields by simp
    then show ?thesis
      using copy_loop_step[OF Suc.prems(1-3) 3(1)] 3(2) amount_block[OF Suc.prems(1) 3] advance_twice[OF Suc.prems(1)]
      by (simp del: copy_loop.simps)
  qed
qed simp

section \<open>The program\<close>

lemma run_copy_correct:
  assumes "0 < bs" and "length (remaining f) div nat bs < fuel" and "length (remaining f) < 2 ^ 31"
  shows "run_copy fuel limit bs f g = Inr (advance (nat bs) (amount limit (nat bs) (new_dd f g)) (new_dd f g))"
  using copy_loop_advances[of "nat bs" "new_dd f g" fuel limit] assms by (simp add: run_copy_def new_dd_def)

definition selected :: "options \<Rightarrow> string \<Rightarrow> string" where
  \<comment> \<open>the blocks of the input the options ask for\<close>
  "selected opt data = (let rest = drop (nat (in_nblk_skip opt * block_size opt)) data in
     if nblk_cpy opt = - 1 then rest else take (nat (nblk_cpy opt * block_size opt)) rest)"

definition overlay :: "nat \<Rightarrow> string \<Rightarrow> string \<Rightarrow> string" where
  \<comment> \<open>the text written over the old contents from a position on\<close>
  "overlay p d old = (if d = [] then old
     else take p old @ replicate (p - length old) (CHR 0x00) @ d @ drop (p + length d) old)"

definition options_ok :: "options \<Rightarrow> bool" where
  "options_ok opt \<longleftrightarrow> 0 < block_size opt \<and> - 1 \<le> nblk_cpy opt \<and> nblk_cpy opt * block_size opt < 2 ^ 31
     \<and> 0 \<le> in_nblk_skip opt \<and> in_nblk_skip opt * block_size opt < 2 ^ 31
     \<and> 0 \<le> out_nblk_skip opt \<and> out_nblk_skip opt * block_size opt < 2 ^ 31"

lemma amount_selected:
  assumes "options_ok opt" and "length data < 2 ^ 31"
    and "f = \<lparr>bytes = data, pos = nat (in_nblk_skip opt * block_size opt)\<rparr>"
  shows "take (amount (total_size opt data) (nat (block_size opt)) (new_dd f g)) (remaining f) = selected opt data"
proof -
  let ?b = "nat (block_size opt)"
  have b: "0 < ?b" using assms(1) by (simp add: options_ok_def)
  have rest: "remaining f = drop (nat (in_nblk_skip opt * block_size opt)) data" by (simp add: assms(3) remaining_def)
  show ?thesis
  proof (cases "nblk_cpy opt = - 1")
    case True
    have "length data \<le> (length data + ?b - 1) div ?b * ?b"
      using b div_mult_mod_eq[of "length data + ?b - 1" ?b] mod_less_divisor[OF b, of "length data + ?b - 1"] by linarith
    then have "length data \<le> blocks ?b (int (length data)) * ?b" by (simp add: blocks_def)
    moreover have "length (remaining f) \<le> length data" by (simp add: rest)
    ultimately have "length (remaining f) \<le> blocks ?b (int (length data)) * ?b" by (rule le_trans[rotated])
    then show ?thesis using True assms(2) unfolding selected_def rest
      by (simp add: amount_def total_size_def new_dd_def rest)
  next
    case False
    then have c: "0 \<le> nblk_cpy opt" using assms(1) by (simp add: options_ok_def)
    then have n: "nat (nblk_cpy opt * block_size opt) = nat (nblk_cpy opt) * ?b" by (simp add: nat_mult_distrib)
    have "(k * ?b + ?b - 1) div ?b = k" for k
    proof -
      have "k * ?b + ?b - 1 = (?b - 1) + k * ?b" using b by linarith
      then show ?thesis using b div_mult_self1[of ?b "?b - 1" k] by simp
    qed
    then have "blocks ?b (nblk_cpy opt * block_size opt) = nat (nblk_cpy opt)" unfolding blocks_def n .
    then have "amount (total_size opt data) ?b (new_dd f g)
        = min (length (remaining f)) (nat (nblk_cpy opt * block_size opt))"
      using False c assms(1) by (simp add: amount_def total_size_def new_dd_def options_ok_def n)
    then show ?thesis using False unfolding selected_def rest by (simp add: min_def)
  qed
qed


text \<open>
  With a block size of 0 (also one that \<open>atoi\<close> cannot read) every read of zero bytes counts as a full
  block: the copy of a nonempty file, or of the standard input without a count, never ends.
\<close>

theorem dd_block_size_zero_diverges:
  assumes "block_size opt = 0" and "nblk_cpy opt = - 1" and "contents d name = Some data" and "data \<noteq> []"
    and "length data < 2 ^ 31"
  shows "file_to_stdout fuel d opt name = Inl (Crash Diverges) \<and> stdin_to_stdout fuel opt input = Inl (Crash Diverges)"
proof -
  have loop: "copy_loop n limit 0 st = Inl Diverges"
    if "limit = None \<or> 0 < the limit" "bytes_copied st = 0" for n limit st
    using that
  proof (induction n arbitrary: st)
    case (Suc n)
    have "\<not> (limit \<noteq> None \<and> \<not> bytes_copied st < the limit)" using Suc.prems by auto
    then show ?case using Suc.IH Suc.prems by (simp add: fread_block_def Let_def)
  qed simp
  show ?thesis using assms loop[of "Some (int (length data))" "new_dd _ _"] loop[of None "new_dd _ _"]
    by (simp add: file_to_stdout_def stdin_to_stdout_def open_input_def fseek_set_def total_size_def count_limit_def
        run_copy_def of_run_def new_dd_def)
qed

definition demo_options :: options where
  "demo_options = foldl set_option default_options [(CHR ''b'', ''2''), (CHR ''c'', ''2''), (CHR ''p'', ''1''), (CHR ''k'', ''1'')]"

definition demo_disk :: disk where
  "demo_disk = \<lparr>contents = [''in'' \<mapsto> ''abcdefgh'', ''out'' \<mapsto> ''12345678''], creatable = \<lambda>_. True\<rparr>"

lemma demo_options_eval:
  "demo_options = \<lparr>inputname = None, outputname = None, block_size = 2, nblk_cpy = 2, in_nblk_skip = 1, out_nblk_skip = 1\<rparr>"
  by code_simp


theorem dd_block_size_zero_diverges_witness:
  "file_to_stdout 1000 demo_disk (default_options\<lparr>block_size := 0\<rparr>) ''in'' = Inl (Crash Diverges)"
  using dd_block_size_zero_diverges[of "default_options\<lparr>block_size := 0\<rparr>" demo_disk "''in''" "''abcdefgh''" 1000]
  by (simp add: default_options_def demo_disk_def)

end
