(* ===== verification/Single.thy ===== *)
theory Single
  imports Complex_Main "HOL-Library.Log_Nat"
begin

text \<open>
  The type \<open>float\<close> of C as exact rationals: an operation answers the exact result rounded to 24
  significant bits, to the nearest and to an even last bit between two. Overflow and the subnormal
  numbers are not modelled: the programs convert integers and divide small ones. \<open>%f\<close> prints six digits
  after the point, rounded in the same way; the text is given as the number of millionths.
\<close>

section \<open>Rounding\<close>

definition round_half_even :: "rat \<Rightarrow> int" where
  "round_half_even x =
     (let q = \<lfloor>x\<rfloor>; r = x - of_int q in
      if r < 1 / 2 then q else if 1 / 2 < r then q + 1 else if even q then q else q + 1)"

definition exponent :: "rat \<Rightarrow> int" where
  \<comment> \<open>the largest power of two that is not above the magnitude of a number\<close>
  "exponent x =
     (case quotient_of \<bar>x\<bar> of (a, b) \<Rightarrow>
        let e = bitlen a - bitlen b in if \<bar>x\<bar> < 2 powi e then e - 1 else e)"

definition to_single :: "rat \<Rightarrow> rat" where
  "to_single x =
     (if x = 0 then 0
      else let unit = 2 powi (exponent x - 23) in of_int (round_half_even (x / unit)) * unit)"

definition printed_millionths :: "rat \<Rightarrow> int" where
  "printed_millionths x = round_half_even (x * 1000000)"

section \<open>Lemmas\<close>

lemma round_half_even_near: "\<bar>of_int (round_half_even x) - x\<bar> \<le> 1 / 2"
proof -
  have "of_int \<lfloor>x\<rfloor> \<le> x" "x < of_int \<lfloor>x\<rfloor> + 1" by linarith+
  then show ?thesis by (auto simp: round_half_even_def Let_def)
qed

lemma round_half_even_int [simp]: "round_half_even (of_int n) = n"
  by (simp add: round_half_even_def)

lemma round_half_even_unique: "\<bar>x - of_int n\<bar> < 1 / 2 \<Longrightarrow> round_half_even x = n"
  using round_half_even_near[of x] by linarith

lemma exponent_bounds:
  assumes "x \<noteq> 0"
  shows "2 powi exponent x \<le> \<bar>x\<bar>" and "\<bar>x\<bar> < 2 powi (exponent x + 1)"
proof -
  obtain a b where q: "quotient_of \<bar>x\<bar> = (a, b)" by (cases "quotient_of \<bar>x\<bar>")
  then have b: "0 < b" and x: "\<bar>x\<bar> = of_int a / of_int b" using quotient_of_denom_pos quotient_of_div by blast+
  have "0 < (of_int a / of_int b :: rat)" using assms by (simp flip: x)
  then have a: "0 < a" using b by (simp add: zero_less_divide_iff)
  have bits: "2 powi (bitlen n - 1) \<le> (of_int n :: rat)" "(of_int n :: rat) < 2 powi bitlen n" if "0 < n" for n
  proof -
    have l: "0 < bitlen n" using that by (simp add: bitlen_alt_def)
    have "2 ^ nat (bitlen n - 1) \<le> n" "n < 2 ^ nat (bitlen n)" using bitlen_bounds[OF that] by simp_all
    then have "(of_int (2 ^ nat (bitlen n - 1)) :: rat) \<le> of_int n" "(of_int n :: rat) < of_int (2 ^ nat (bitlen n))"
      by (simp_all only: of_int_le_iff of_int_less_iff)
    then show "2 powi (bitlen n - 1) \<le> (of_int n :: rat)" "(of_int n :: rat) < 2 powi bitlen n"
      using l by (simp_all add: power_int_def)
  qed
  let ?e = "bitlen a - bitlen b"
  have "2 powi (?e - 1) * of_int b \<le> (2 powi (?e - 1) * 2 powi bitlen b :: rat)"
    using bits(2)[OF b] by (intro mult_left_mono) simp_all
  also have "\<dots> = 2 powi (bitlen a - 1)" by (simp add: power_int_add[symmetric])
  also have "\<dots> \<le> of_int a" using bits(1)[OF a] .
  finally have lower: "2 powi (?e - 1) \<le> \<bar>x\<bar>" using b by (simp add: x le_divide_eq)
  have "of_int a < (2 powi bitlen a :: rat)" using bits(2)[OF a] .
  also have "\<dots> = 2 powi (?e + 1) * 2 powi (bitlen b - 1)" by (simp add: power_int_add[symmetric])
  also have "\<dots> \<le> 2 powi (?e + 1) * of_int b" using bits(1)[OF b] by (intro mult_left_mono) simp_all
  finally have upper: "\<bar>x\<bar> < 2 powi (?e + 1)" using b by (simp add: x divide_less_eq)
  show "2 powi exponent x \<le> \<bar>x\<bar>" "\<bar>x\<bar> < 2 powi (exponent x + 1)"
    using lower upper by (auto simp: exponent_def q Let_def)
qed

lemma to_single_near: "\<bar>to_single x - x\<bar> \<le> \<bar>x\<bar> / 2 ^ 24"
proof (cases "x = 0")
  case False
  let ?u = "2 powi (exponent x - 23) :: rat"
  have u: "0 < ?u" by simp
  have "of_int (round_half_even (x / ?u)) * ?u - x = (of_int (round_half_even (x / ?u)) - x / ?u) * ?u"
    by (simp add: left_diff_distrib)
  then have "\<bar>of_int (round_half_even (x / ?u)) * ?u - x\<bar> = \<bar>of_int (round_half_even (x / ?u)) - x / ?u\<bar> * ?u"
    using u by (simp only: abs_mult abs_of_pos)
  also have "\<dots> \<le> 1 / 2 * ?u" using round_half_even_near by (intro mult_right_mono) simp_all
  also have "\<dots> = 2 powi exponent x / 2 ^ 24" by (simp add: power_int_diff)
  also have "\<dots> \<le> \<bar>x\<bar> / 2 ^ 24" using exponent_bounds(1)[OF False] by (simp add: divide_right_mono)
  finally show ?thesis using False by (simp add: to_single_def Let_def)
qed (simp add: to_single_def)

lemma powi_split: "i \<le> k \<Longrightarrow> (2 :: rat) powi k = of_int (2 ^ nat (k - i)) * 2 powi i"
  using power_int_add[of "2 :: rat" "k - i" i] by (simp add: power_int_def)

lemma to_single_exact:
  assumes "\<bar>m\<bar> \<le> 2 ^ 24"
  shows "to_single (of_int m * 2 powi k) = of_int m * 2 powi k"
proof (cases "m = 0")
  case False
  let ?x = "of_int m * 2 powi k :: rat"
  have "(of_int \<bar>m\<bar> :: rat) \<le> of_int (2 ^ 24)" using assms by (simp only: of_int_le_iff)
  then have m: "(of_int \<bar>m\<bar> :: rat) \<le> 2 ^ 24" by simp
  have x: "?x \<noteq> 0" "\<bar>?x\<bar> = of_int \<bar>m\<bar> * 2 powi k" using False by (simp_all add: abs_mult)
  have dyadic: "to_single ?x = ?x" if n: "?x = of_int n * 2 powi (exponent ?x - 23)" for n
  proof -
    have "?x / 2 powi (exponent ?x - 23) = of_int n" using n by (simp add: divide_eq_eq)
    then show ?thesis using x(1) n by (simp only: to_single_def Let_def round_half_even_int if_False)
  qed
  have "2 powi exponent ?x \<le> (of_int \<bar>m\<bar> * 2 powi k :: rat)" using exponent_bounds(1)[OF x(1)] x(2) by simp
  also have top: "\<dots> \<le> 2 ^ 24 * 2 powi k"
    using m by (rule mult_right_mono) simp
  also have "\<dots> = 2 powi (k + 24)" by (simp add: power_int_add)
  finally have "\<not> k + 24 < exponent ?x" using power_int_strict_increasing[of "k + 24" "exponent ?x" "2 :: rat"] by linarith
  then consider "exponent ?x \<le> k + 23" | "exponent ?x = k + 24" by linarith
  then show ?thesis
  proof cases
    case 1
    then have "2 powi k = of_int (2 ^ nat (k - (exponent ?x - 23))) * (2 powi (exponent ?x - 23) :: rat)"
      by (intro powi_split) simp
    then have "?x = of_int (m * 2 ^ nat (k - (exponent ?x - 23))) * 2 powi (exponent ?x - 23)" by simp
    then show ?thesis by (rule dyadic)
  next
    case 2
    have "2 powi exponent ?x \<le> (of_int \<bar>m\<bar> * 2 powi k :: rat)" using exponent_bounds(1)[OF x(1)] x(2) by simp
    then have "of_int (2 ^ 24) \<le> (of_int \<bar>m\<bar> :: rat)" unfolding 2 by (simp add: power_int_add)
    then have "(2 ^ 24 :: int) \<le> \<bar>m\<bar>" by (simp only: of_int_le_iff)
    then have "m = 2 ^ 24 \<or> m = - (2 ^ 24)" using assms by linarith
    then have "?x = of_int (m div 2) * 2 powi (exponent ?x - 23)" unfolding 2 by (auto simp: power_int_add)
    then show ?thesis by (rule dyadic)
  qed
qed (simp add: to_single_def)

end
