(* ===== verification/Pointers.thy ===== *)
theory Pointers
  imports Single Ctype "HOL-Library.Signed_Division"
begin

unbundle bit_operations_syntax

text \<open>
  The exercises of \<^verbatim>\<open>perilous_pointers/part1-functions.c\<close>; what they print is their result, a number
  printed with \<open>%f\<close> as its millionths. \<open>strtof\<close> is a parameter, \<open>float\<close> that of \<open>Single\<close>.
  \<open>long\<close> and \<open>int\<close> are signed: division rounds toward zero.
\<close>

section \<open>The functions\<close>

datatype line_out =
    Passed string | Not_Passed string | Value_Of_P int | Equal | Different | Letter | No_Letter
  | Text string | Diagonal "int list" | Cleared_Value int | Final_State int
  | Copied int int | Floats "int list" | Radius int

definition one :: "(string \<Rightarrow> rat) \<Rightarrow> string \<Rightarrow> line_out" where
  "one strtof grade = (if strtof grade > 70 then Passed grade else Not_Passed grade)"

definition two :: line_out where "two = (let x = 4; p = x in Value_Of_P p)"

definition three :: "int \<Rightarrow> int \<Rightarrow> line_out" where
  "three x y = (if x = y then Equal else Different)"

definition four :: "int \<Rightarrow> line_out \<times> rat" where
  \<comment> \<open>with the number behind the returned pointer\<close>
  "four x = (let p = to_single (of_int x) in (Copied x (printed_millionths p), p))"

definition five :: "string \<Rightarrow> line_out" where
  \<comment> \<open>the first character, the terminator of an empty string included\<close>
  "five a = (let c = (case a of [] \<Rightarrow> NUL | c # _ \<Rightarrow> c) in
     if code (CHR ''A'') \<le> code c \<and> code c \<le> code (CHR ''Z'') \<or> code (CHR ''a'') \<le> code c \<and> code c \<le> code (CHR ''z'')
     then Letter else No_Letter)"

definition six :: "string \<Rightarrow> line_out res" where
  "six str = rbind (c_strcat (cstring ''Hello '') (cstring str)) (\<lambda>s. rbind (read_cstr s) (\<lambda>t. Inr (Text t)))"

definition seven :: line_out where
  "seven = (let n = 10; values = List.map (\<lambda>i. to_single (to_single (of_nat i) / to_single (of_nat n))) [0..<n]
     in Floats (List.map printed_millionths values))"

definition eight :: "int \<Rightarrow> line_out" where
  "eight a = (let values = List.map (\<lambda>i. List.map (\<lambda>j. int_of_long (int_of_long (int (i * j)) * a)) [0..<10]) [0..<10]
     in Diagonal (List.map (\<lambda>i. values ! i ! i) [0..<10]))"

definition nine :: "string \<Rightarrow> line_out" where
  "nine s = (case s of
     [] \<Rightarrow> Text ''orange and blue!''
   | c # _ \<Rightarrow> if c = CHR ''b'' then Text ''Orange and BLUE!''
              else if c = CHR ''o'' then Text ''ORANGE and blue!'' else Text ''orange and blue!'')"

definition ten :: "int \<Rightarrow> line_out" where
  "ten d = Radius (printed_millionths (to_single (to_single (of_int d) / to_single 2)))"

function clear_loop :: "int \<Rightarrow> int \<Rightarrow> nat \<Rightarrow> int \<Rightarrow> int \<times> int \<times> nat \<times> int" where
  "clear_loop val flag pw cleared_value =
     (if val \<noteq> 0 \<and> flag \<noteq> 0 then
        let rv = val smod 2; rf = flag smod 2;
            cleared = (if rv = 1 \<and> rf = 0 then cleared_value + 2 ^ pw else cleared_value)
        in clear_loop (val sdiv 2) (flag sdiv 2) (pw + 1) cleared
      else (val, flag, pw, cleared_value))"
  by pat_completeness auto
termination
proof (relation "measure (\<lambda>(val, flag, pw, c). nat \<bar>val\<bar>)")
  fix val :: int
  show "val \<noteq> 0 \<and> flag \<noteq> 0 \<Longrightarrow> ((val sdiv 2, flag sdiv 2, pw + 1, c), val, flag, pw, c')
      \<in> measure (\<lambda>(val, flag, pw, c). nat \<bar>val\<bar>)" for flag c c' :: int and pw :: nat
    by (simp add: signed_divide_int_def abs_mult sgn_if) linarith
qed simp

declare clear_loop.simps [simp del]

definition clear_bits :: "int \<Rightarrow> int \<Rightarrow> line_out" where
  "clear_bits val flag =
     (case clear_loop val flag 0 0 of (val, flag, pw, cleared_value) \<Rightarrow>
        Cleared_Value (if flag = 0 then cleared_value + 2 ^ pw * val else cleared_value))"

definition little_automaton :: "(int \<Rightarrow> char \<Rightarrow> int) \<Rightarrow> string \<Rightarrow> line_out" where
  "little_automaton transition input_string = Final_State (foldl transition 0 input_string)"

section \<open>Floating point\<close>

text \<open>Up to \<open>2 ^ 24\<close> the copy of \<open>four\<close> and the half of \<open>ten\<close> are exact; beyond, the copy may be another number.\<close>

lemma four_exact: "\<bar>x\<bar> \<le> 2 ^ 24 \<Longrightarrow> four x = (Copied x (x * 1000000), of_int x)"
  using round_half_even_int[of "x * 1000000"] to_single_exact[of x 0]
  by (simp add: four_def printed_millionths_def Let_def)

lemma four_rounds: "four 16777217 = (Copied 16777217 16777216000000, 16777216)"
  by code_simp

lemma seven_prints_tenths: "seven = Floats (List.map (\<lambda>i. int i * 100000) [0..<10])"
proof -
  have "printed_millionths (to_single (to_single (of_nat i) / to_single (of_nat 10))) = int i * 100000" if "i < 10" for i
  proof -
    have exact: "to_single (of_nat i) = of_nat i" "to_single (of_nat 10) = 10"
      using to_single_exact[of "int i" 0] to_single_exact[of 10 0] that by simp_all
    have "\<bar>to_single (of_nat i / 10) - of_nat i / 10\<bar> \<le> \<bar>of_nat i / 10\<bar> / 2 ^ 24" by (rule to_single_near)
    also have "\<dots> \<le> 1 / 2 ^ 24" using that by simp
    finally have "\<bar>to_single (of_nat i / 10) * 1000000 - of_int (int i * 100000)\<bar> < 1 / 2"
      unfolding abs_le_iff abs_less_iff by simp
    then show ?thesis unfolding exact printed_millionths_def by (rule round_half_even_unique)
  qed
  then show ?thesis by (simp add: seven_def Let_def)
qed

lemma ten_exact:
  assumes "\<bar>d\<bar> \<le> 2 ^ 24"
  shows "ten d = Radius (d * 500000)"
proof -
  have two: "(2 :: rat) powi (- 1) = 1 / 2" by (simp add: power_int_minus)
  have "to_single (of_int d) = of_int d" using to_single_exact[OF assms, of 0] by (simp only: power_int_0_right mult_1_right)
  moreover have "to_single 2 = 2" using to_single_exact[of 2 0] by simp
  moreover have "to_single (of_int d / 2) = of_int d / 2"
    using to_single_exact[OF assms, of "- 1"] by (simp only: two times_divide_eq_right mult_1_right)
  moreover have "(of_int d / 2 * 1000000 :: rat) = of_int (d * 500000)" by simp
  ultimately show ?thesis unfolding ten_def printed_millionths_def by (simp only: round_half_even_int)
qed

section \<open>clear_bits\<close>

lemma half_cases: "(v::int) = 2 * (v div 2) + v mod 2" "v mod 2 = 0 \<or> v mod 2 = 1"
  by auto

lemma and_not_step:
  fixes v f :: int
  shows "v AND NOT f = 2 * (v div 2 AND NOT (f div 2)) + (if v mod 2 = 1 \<and> f mod 2 = 0 then 1 else 0)"
proof -
  have "odd (NOT f) \<longleftrightarrow> f mod 2 = 0" by (simp add: even_not_iff_int odd_iff_mod_2_eq_one)
  then show ?thesis using and_int_rec[of v "NOT f"] by (simp add: odd_iff_mod_2_eq_one not_int_div_2)
qed

lemma clear_loop_correct:
  assumes "0 \<le> val" and "0 \<le> flag"
  shows "case clear_loop val flag pw c of (v, f, p, d) \<Rightarrow>
    (if f = 0 then d + 2 ^ p * v else d) = c + 2 ^ pw * (val AND NOT flag)"
  using assms
proof (induction val flag pw c rule: clear_loop.induct)
  case (1 val flag pw c)
  have d: "val sdiv 2 = val div 2" "flag sdiv 2 = flag div 2" "val smod 2 = val mod 2" "flag smod 2 = flag mod 2"
    using "1.prems" by (simp_all add: signed_divide_int_def signed_modulo_int_def sgn_if)
  show ?case
  proof (cases "val \<noteq> 0 \<and> flag \<noteq> 0")
    case True
    let ?c = "if val mod 2 = 1 \<and> flag mod 2 = 0 then c + 2 ^ pw else c"
    have half: "0 \<le> val div 2" "0 \<le> flag div 2" using "1.prems" by simp_all
    have step: "clear_loop val flag pw c = clear_loop (val div 2) (flag div 2) (pw + 1) ?c"
      unfolding clear_loop.simps[of val flag] if_P[OF True] d Let_def ..
    have sum: "?c + 2 ^ (pw + 1) * (val div 2 AND NOT (flag div 2)) = c + 2 ^ pw * (val AND NOT flag)"
      unfolding and_not_step[of val flag] by (simp add: algebra_simps)
    from 1(1)[OF True refl refl refl, unfolded d, OF half] show ?thesis unfolding step sum .
  next
    case False
    then show ?thesis by (subst clear_loop.simps) auto
  qed
qed

text \<open>
  On numbers that are not negative \<open>clear_bits\<close> prints the bits of the value that are not set in the
  flag. On negative values it does not: the remainder of a negative odd number is -1, so its bits are
  dropped, also where the flag is not set.
\<close>

theorem clear_bits_correct:
  assumes "0 \<le> val" and "0 \<le> flag"
  shows "clear_bits val flag = Cleared_Value (val AND NOT flag) \<and> clear_bits (- 3) 4 = Cleared_Value 0
    \<and> - 3 AND NOT 4 = (- 7 :: int)"
proof -
  have "clear_bits val flag = Cleared_Value (val AND NOT flag)"
    using clear_loop_correct[OF assms, of 0 0] by (auto simp: clear_bits_def)
  moreover have "clear_bits (- 3) 4 = Cleared_Value 0" by code_simp
  ultimately show ?thesis by simp
qed

theorem clear_bits_correct_witness: "clear_bits 0xFF 0x55 = Cleared_Value 0xAA"
  using clear_bits_correct[of "0xFF" "0x55"] by simp

text \<open>
  The array of \<open>six\<close> has room for its own text only: every string that is not empty is written past it.
  \<open>nine\<close> looks at the first character although its comment asks for the whole string.
\<close>

lemma six_overflows:
  assumes "NUL \<notin> set str"
  shows "six str = (if str = [] then Inr (Text ''Hello '') else Inl Out_Of_Bounds)"
proof -
  have hello: "read_cstr (cstring ''Hello '') = Inr ''Hello ''" by (rule read_cstring_self) (simp add: NUL_def)
  show ?thesis
  proof (cases "str = []")
    case True
    then show ?thesis using c_strcat_in[OF hello read_cstring_self[OF assms]] hello by (simp add: six_def cstring_def)
  next
    case False
    then have "length (cstring ''Hello '') \<le> length ''Hello '' + length str" by (cases str) simp_all
    then show ?thesis using False c_strcat_out[OF hello read_cstring_self[OF assms]] by (simp add: six_def)
  qed
qed

lemma nine_first_character: "nine ''black'' = Text ''Orange and BLUE!'' \<and> nine ''blue'' = nine ''black''"
  by (simp add: nine_def)

lemma automaton_step: "little_automaton t (s @ [c]) = Final_State (t (foldl t 0 s) c)"
  by (simp add: little_automaton_def)

end
