(* ===== verification/Cracker.thy ===== *)
theory Cracker
  imports Ctype "HOL-Library.Multiset"
begin

text \<open>
  The two password crackers of \<^verbatim>\<open>password_cracker/cracker1.c\<close> and \<^verbatim>\<open>cracker2.c\<close>. The first gives every
  task to one of several threads that share the task queue; the second lets all threads search parts of
  the range for one task, with a shared flag. The helpers of \<^verbatim>\<open>utils.h\<close> (prefix length, subranges,
  positions in the alphabet) and \<open>crypt_r\<close> are parameters. The queue is that of \<^verbatim>\<open>queue.c\<close> without a bound:
  a pull takes the first element and waits while there is none, a push never waits.
\<close>

section \<open>Library\<close>

record cracker_lib =
  prefix_length :: "string \<Rightarrow> nat"
  subrange :: "nat \<Rightarrow> nat \<Rightarrow> nat \<Rightarrow> nat \<times> nat" \<comment> \<open>letters, threads, thread: start and count\<close>
  set_position :: "string \<Rightarrow> nat \<Rightarrow> string"
  increment :: "string \<Rightarrow> string"
  crypt :: "string \<Rightarrow> string"

definition tokens :: "string \<Rightarrow> string list" where
  \<comment> \<open>\<open>split(task, " ")\<close>\<close>
  "tokens task = strtok_all (CHR '' '') [] task"

definition first_password :: "cracker_lib \<Rightarrow> nat \<Rightarrow> string \<Rightarrow> nat \<Rightarrow> string res" where
  \<comment> \<open>the copy of the pattern in a block of \<open>n\<close> bytes, its unknown letters set to a position\<close>
  "first_password L n passform i =
     (if n \<le> length passform then Inl Out_Of_Bounds
      else let k = prefix_length L passform in Inr (take k passform @ set_position L (drop k passform) i))"

section \<open>Cracker 1: a task for one thread\<close>

fun crack_loop :: "cracker_lib \<Rightarrow> string \<Rightarrow> nat \<Rightarrow> string \<Rightarrow> nat \<Rightarrow> string option \<times> nat" where
  \<comment> \<open>with the iterations left, the current candidate and \<open>hashcount\<close>\<close>
  "crack_loop L hashval 0 temp hashcount = (None, hashcount)"
| "crack_loop L hashval (Suc n) temp hashcount =
     (if crypt L temp = hashval then (Some temp, hashcount + 1)
      else crack_loop L hashval n (increment L temp) (hashcount + 1))"

definition crack_task :: "cracker_lib \<Rightarrow> string \<Rightarrow> (string option \<times> nat) res" where
  "crack_task L task = (case tokens task of
     user # hashval # passform # _ \<Rightarrow>
       rbind (first_password L 16 passform 0) (\<lambda>temp.
         Inr (crack_loop L hashval (26 ^ (length passform - prefix_length L passform)) temp 0))
   | _ \<Rightarrow> Inl Null_Deref)"

datatype worker = Pulling | Cracking string | Returning | Finished

record pool =
  queue :: "string option list"
  workers :: "worker list"
  sucs :: "nat list" \<comment> \<open>\<open>*nsucs\<close> of each thread\<close>
  results :: "(string \<times> string option) list" \<comment> \<open>of the printed results, with the task\<close>

definition start_pool :: "string list \<Rightarrow> nat \<Rightarrow> pool" where
  \<comment> \<open>the lines of the input, then \<open>NULL\<close>\<close>
  "start_pool tasks thread_count = \<lparr>queue = List.map Some tasks @ [None], workers = replicate thread_count Pulling,
     sucs = replicate thread_count 0, results = []\<rparr>"

inductive crack_step :: "cracker_lib \<Rightarrow> pool \<Rightarrow> pool \<Rightarrow> bool" for L where
  pull_task: "k < length (workers s) \<Longrightarrow> workers s ! k = Pulling \<Longrightarrow> queue s = Some t # q
    \<Longrightarrow> crack_step L s (s\<lparr>queue := q, workers := (workers s)[k := Cracking t]\<rparr>)"
| work: "k < length (workers s) \<Longrightarrow> workers s ! k = Cracking t \<Longrightarrow> crack_task L t = Inr (r, n)
    \<Longrightarrow> crack_step L s (s\<lparr>workers := (workers s)[k := Pulling], results := results s @ [(t, r)],
          sucs := (sucs s)[k := sucs s ! k + (if r = None then 0 else 1)]\<rparr>)"
| pull_end: "k < length (workers s) \<Longrightarrow> workers s ! k = Pulling \<Longrightarrow> queue s = None # q
    \<Longrightarrow> crack_step L s (s\<lparr>queue := q, workers := (workers s)[k := Returning]\<rparr>)"
| push_end: "k < length (workers s) \<Longrightarrow> workers s ! k = Returning
    \<Longrightarrow> crack_step L s (s\<lparr>queue := queue s @ [None], workers := (workers s)[k := Finished]\<rparr>)"

definition summary :: "nat \<Rightarrow> pool \<Rightarrow> nat \<times> nat" where
  \<comment> \<open>what \<open>start\<close> prints after joining all threads\<close>
  "summary ntasks s = (sum_list (sucs s), ntasks - sum_list (sucs s))"

section \<open>Cracker 2: a task for all threads\<close>

datatype phase = Check | Hash | Done "string option"

record searcher =
  todo :: nat \<comment> \<open>\<open>count - i\<close>\<close>
  temp :: string
  hash_count :: nat
  phase :: phase

record search =
  found :: bool
  searchers :: "searcher list"

definition start_searcher :: "cracker_lib \<Rightarrow> string \<Rightarrow> nat \<Rightarrow> nat \<Rightarrow> searcher res" where
  "start_searcher L passform nthread thread_id =
     (let (startidx, cnt) = subrange L (length passform - prefix_length L passform) nthread thread_id in
      rbind (first_password L 17 passform startidx) (\<lambda>p.
        Inr \<lparr>todo = cnt, temp = p, hash_count = 0, phase = Check\<rparr>))"

fun start_searchers :: "cracker_lib \<Rightarrow> string \<Rightarrow> nat \<Rightarrow> nat list \<Rightarrow> searcher list res" where
  "start_searchers L passform nthread [] = Inr []"
| "start_searchers L passform nthread (k # ks) = rbind (start_searcher L passform nthread k) (\<lambda>t.
     rbind (start_searchers L passform nthread ks) (\<lambda>ts. Inr (t # ts)))"

definition start_search :: "cracker_lib \<Rightarrow> string \<Rightarrow> nat \<Rightarrow> search res" where
  "start_search L passform nthread = rbind (start_searchers L passform nthread [1..<nthread + 1]) (\<lambda>ts.
     Inr \<lparr>found = False, searchers = ts\<rparr>)"

inductive search_step :: "cracker_lib \<Rightarrow> string \<Rightarrow> search \<Rightarrow> search \<Rightarrow> bool" for L hashval where
  go_on: "k < length (searchers s) \<Longrightarrow> searchers s ! k = t \<Longrightarrow> phase t = Check \<Longrightarrow> todo t \<noteq> 0 \<Longrightarrow> \<not> found s
    \<Longrightarrow> search_step L hashval s (s\<lparr>searchers := (searchers s)[k := t\<lparr>phase := Hash, hash_count := hash_count t + 1\<rparr>]\<rparr>)"
| give_up: "k < length (searchers s) \<Longrightarrow> searchers s ! k = t \<Longrightarrow> phase t = Check \<Longrightarrow> todo t = 0 \<or> found s
    \<Longrightarrow> search_step L hashval s (s\<lparr>searchers := (searchers s)[k := t\<lparr>phase := Done None\<rparr>]\<rparr>)"
| hit: "k < length (searchers s) \<Longrightarrow> searchers s ! k = t \<Longrightarrow> phase t = Hash \<Longrightarrow> crypt L (temp t) = hashval
    \<Longrightarrow> search_step L hashval s (s\<lparr>found := True, searchers := (searchers s)[k := t\<lparr>phase := Done (Some (temp t))\<rparr>]\<rparr>)"
| miss: "k < length (searchers s) \<Longrightarrow> searchers s ! k = t \<Longrightarrow> phase t = Hash \<Longrightarrow> crypt L (temp t) \<noteq> hashval
    \<Longrightarrow> search_step L hashval s (s\<lparr>searchers := (searchers s)[k := t\<lparr>phase := Check, temp := increment L (temp t),
          todo := todo t - 1\<rparr>]\<rparr>)"

datatype pointer = Null | Live string | Freed

fun join_searchers :: "searcher list \<Rightarrow> pointer \<times> int \<times> nat \<Rightarrow> pointer \<times> int \<times> nat" where
  \<comment> \<open>\<open>password\<close>, \<open>result\<close> and \<open>totalhashcount\<close> over the joined threads\<close>
  "join_searchers [] acc = acc"
| "join_searchers (t # ts) (password, result, hashes) = join_searchers ts
     (case phase t of Done (Some p) \<Rightarrow> (Live p, 0, hashes + hash_count t) | _ \<Rightarrow> (password, result, hashes + hash_count t))"

fun serve_users :: "searcher list list \<Rightarrow> pointer \<Rightarrow> (int \<times> nat) list res" where
  \<comment> \<open>the loop of \<open>start\<close> over the users, on the joined threads of each: the variable \<open>password\<close> keeps its
     value from one user to the next\<close>
  "serve_users [] password = Inr []"
| "serve_users (ts # rest) password =
     (case join_searchers ts (password, 1, 0) of (password', result, hashes) \<Rightarrow>
        if password' = Freed then Inl Dangling
        else rbind (serve_users rest (if password' = Null then Null else Freed)) (\<lambda>out. Inr ((result, hashes) # out)))"

inductive_cases crack_stepE: "crack_step L s s'"
inductive_cases search_stepE: "search_step L hashval s s'"

section \<open>Every task is tried once\<close>

fun task_of :: "worker \<Rightarrow> string multiset" where
  "task_of (Cracking t) = {#t#}"
| "task_of _ = {#}"

fun weight :: "worker \<Rightarrow> nat" where
  "weight Pulling = 2" | "weight (Cracking t) = 3" | "weight Returning = 1" | "weight Finished = 0"

definition queued :: "pool \<Rightarrow> string list" where
  "queued s = List.map_filter id (queue s)"

definition steps_left :: "pool \<Rightarrow> nat" where
  "steps_left s = 2 * length (queued s) + sum_list (List.map weight (workers s))"

definition returning :: "pool \<Rightarrow> nat" where
  "returning s = sum_list (List.map (\<lambda>w. if w = Returning then 1 else 0) (workers s))"

definition pool_ok :: "cracker_lib \<Rightarrow> string list \<Rightarrow> nat \<Rightarrow> pool \<Rightarrow> bool" where
  "pool_ok L tasks n s \<longleftrightarrow> length (workers s) = n \<and> length (sucs s) = n
     \<and> mset tasks = mset (queued s) + sum_list (List.map task_of (workers s)) + mset (List.map fst (results s))
     \<and> ((\<exists>ts. queue s = List.map Some ts @ [None]) \<and> returning s = 0 \<or> queue s = [] \<and> returning s = 1)
     \<and> sum_list (sucs s) = length (filter (\<lambda>(t, r). r \<noteq> None) (results s))
     \<and> (\<forall>(t, r) \<in> set (results s). \<exists>h. crack_task L t = Inr (r, h))
     \<and> (Finished \<in> set (workers s) \<longrightarrow> queued s = [])"

lemma queued_simps [simp]:
  "queue s = Some t # q \<Longrightarrow> queued s = t # List.map_filter id q"
  "queue s = None # q \<Longrightarrow> queued s = List.map_filter id q"
  by (simp_all add: queued_def List.map_filter_simps)

lemma map_filter_append: "List.map_filter f (xs @ ys) = List.map_filter f xs @ List.map_filter f ys"
  by (induction xs) (auto simp: List.map_filter_simps split: option.splits)

lemma worker_update:
  assumes "k < length (workers s)" and "workers s' = (workers s)[k := w]"
  shows "sum_list (List.map task_of (workers s')) + task_of (workers s ! k) = sum_list (List.map task_of (workers s)) + task_of w"
    and "sum_list (List.map weight (workers s')) + weight (workers s ! k) = sum_list (List.map weight (workers s)) + weight w"
    and "returning s' + (if workers s ! k = Returning then 1 else 0) = returning s + (if w = Returning then 1 else 0)"
  using sum_update[OF assms(1), of task_of w] sum_update[OF assms(1), of weight w]
    sum_update[OF assms(1), of "\<lambda>w. if w = Returning then 1 else (0::nat)" w]
  by (simp_all add: assms(2) returning_def)

lemma updated_workers: "w \<noteq> Finished \<Longrightarrow> Finished \<in> set (ws[k := w]) \<Longrightarrow> Finished \<in> set ws"
  using set_update_subset_insert[of ws k w] by auto

lemma pool_step:
  assumes "crack_step L s s'" and "pool_ok L tasks n s"
  shows "pool_ok L tasks n s' \<and> steps_left s = Suc (steps_left s')"
  using assms(1)
proof cases
  case (pull_task k t q)
  have "workers s' = (workers s)[k := Cracking t]" by (simp add: pull_task(1))
  note w = worker_update[OF pull_task(2) this]
  have "\<exists>ts. q = List.map Some ts @ [None]" if "Some t # q = List.map Some ts @ [None]" for ts
    using that by (cases ts) auto
  moreover have "Finished \<notin> set (workers s)" using assms(2) pull_task(4) by (auto simp: pool_ok_def)
  ultimately show ?thesis using assms(2) pull_task w updated_workers[of "Cracking t" "workers s" k]
    by (auto simp: pool_ok_def steps_left_def queued_def List.map_filter_simps)
next
  case (work k t r h)
  let ?n = "sucs s ! k + (if r = None then 0 else 1)"
  have "workers s' = (workers s)[k := Pulling]" by (simp add: work(1))
  note w = worker_update[OF work(2) this]
  have "k < length (sucs s)" using assms(2) work(2) by (simp add: pool_ok_def)
  from sum_update[OF this, of id ?n] have "sum_list ((sucs s)[k := ?n]) = sum_list (sucs s) + (if r = None then 0 else 1)"
    by simp
  then show ?thesis using assms(2) work w updated_workers[of Pulling "workers s" k]
    by (auto simp: pool_ok_def steps_left_def queued_def)
next
  case (pull_end k q)
  have "workers s' = (workers s)[k := Returning]" by (simp add: pull_end(1))
  note w = worker_update[OF pull_end(2) this]
  have "q = []" if "None # q = List.map Some ts @ [None]" for ts
    using that by (cases ts) auto
  then show ?thesis using assms(2) pull_end w by (auto simp: pool_ok_def steps_left_def queued_def List.map_filter_simps)
next
  case (push_end k)
  have "workers s' = (workers s)[k := Finished]" by (simp add: push_end(1))
  note w = worker_update[OF push_end(2) this]
  then show ?thesis using assms(2) push_end
    by (auto simp: pool_ok_def steps_left_def queued_def map_filter_append List.map_filter_simps intro: exI[of _ "[]"])
qed

lemma start_pool_ok: "pool_ok L tasks n (start_pool tasks n)" "steps_left (start_pool tasks n) = 2 * length tasks + 2 * n"
proof -
  have q: "List.map_filter id (List.map Some tasks @ [None]) = tasks"
    by (simp add: map_filter_append List.map_filter_simps) (simp add: List.map_filter_def comp_def)
  have "sum_list (List.map task_of (replicate n Pulling)) = {#}" by (induction n) auto
  then show "pool_ok L tasks n (start_pool tasks n)" by (auto simp: pool_ok_def start_pool_def queued_def q returning_def)
  show "steps_left (start_pool tasks n) = 2 * length tasks + 2 * n"
    by (simp add: steps_left_def start_pool_def queued_def q sum_list_replicate)
qed

lemma pool_steps:
  assumes "(crack_step L ^^ m) (start_pool tasks n) s"
  shows "pool_ok L tasks n s \<and> steps_left s + m = 2 * length tasks + 2 * n"
  using assms
proof (induction m arbitrary: s)
  case 0
  then show ?case using start_pool_ok by auto
next
  case (Suc m)
  from Suc.prems obtain s1 where "(crack_step L ^^ m) (start_pool tasks n) s1" "crack_step L s1 s" by auto
  then show ?case using Suc.IH[of s1] pool_step[of L s1 s tasks n] by simp
qed

definition valid_tasks :: "cracker_lib \<Rightarrow> string list \<Rightarrow> bool" where
  \<comment> \<open>three words, the pattern of at most 15 characters\<close>
  "valid_tasks L tasks \<longleftrightarrow> (\<forall>t \<in> set tasks. \<exists>r. crack_task L t = Inr r)"

lemma cracked_task_known:
  assumes "pool_ok L tasks n s" and "k < length (workers s)" and "workers s ! k = Cracking t"
  shows "t \<in> set tasks"
proof -
  have "sum_list (List.map task_of (workers s)) = sum_list (List.map task_of ((workers s)[k := Finished])) + {#t#}"
    using sum_update[OF assms(2), of task_of Finished] assms(3) by simp
  then have "t \<in># mset tasks" using assms(1) by (simp add: pool_ok_def)
  then show ?thesis by simp
qed

lemma all_finished:
  "\<forall>w \<in> set ws. w = Finished \<Longrightarrow> sum_list (List.map weight ws) = 0 \<and> sum_list (List.map task_of ws) = {#}"
  by (induction ws) auto

lemma none_returning: "Returning \<notin> set (workers s) \<Longrightarrow> returning s = 0"
proof -
  have "Returning \<notin> set ws \<Longrightarrow> sum_list (List.map (\<lambda>w. if w = Returning then 1 else 0) ws) = (0::nat)" for ws
    by (induction ws) auto
  then show "Returning \<notin> set (workers s) \<Longrightarrow> returning s = 0" by (simp only: returning_def)
qed

lemma pool_progress:
  assumes "pool_ok L tasks n s" and "0 < n" and "valid_tasks L tasks" and "steps_left s \<noteq> 0"
  shows "\<exists>s'. crack_step L s s'"
proof -
  have len: "length (workers s) = n" using assms(1) by (simp add: pool_ok_def)
  have "\<exists>k < n. workers s ! k \<noteq> Finished"
  proof (rule ccontr)
    assume "\<not> ?thesis"
    then have all: "\<forall>w \<in> set (workers s). w = Finished" using len by (auto simp: in_set_conv_nth)
    then have "Finished \<in> set (workers s)" using assms(2) len by (cases "workers s") auto
    then have "queued s = []" using assms(1) by (simp add: pool_ok_def)
    moreover have "sum_list (List.map weight (workers s)) = 0" using all_finished[OF all] by simp
    ultimately show False using assms(4) by (simp add: steps_left_def)
  qed
  then obtain k where k: "k < length (workers s)" "workers s ! k \<noteq> Finished" using len by auto
  show ?thesis
  proof (cases "workers s ! k")
    case (Cracking t)
    then obtain r h where "crack_task L t = Inr (r, h)"
      using cracked_task_known[OF assms(1) k(1)] assms(3) by (fastforce simp: valid_tasks_def)
    then show ?thesis using crack_step.work[OF k(1) Cracking] by blast
  next
    case Returning
    then show ?thesis using crack_step.push_end[OF k(1)] by blast
  next
    case Pulling
    show ?thesis
    proof (cases "queue s")
      case Nil
      then have "returning s = 1" using assms(1) by (auto simp: pool_ok_def)
      then have "Returning \<in> set (workers s)" using none_returning[of s] by (cases "Returning \<in> set (workers s)") simp_all
      then obtain j where "j < length (workers s)" "workers s ! j = Returning" by (auto simp: in_set_conv_nth)
      then show ?thesis using crack_step.push_end by blast
    next
      case (Cons x q)
      then show ?thesis using crack_step.pull_task[OF k(1) Pulling] crack_step.pull_end[OF k(1) Pulling]
        by (cases x) blast+
    qed
  qed (use k in simp)
qed


definition demo_lib :: cracker_lib where
  \<comment> \<open>one unknown letter at the end, hashed to itself\<close>
  "demo_lib = \<lparr>prefix_length = \<lambda>s. length s - 1, subrange = \<lambda>u n k. (13 * (k - 1), 13),
     set_position = \<lambda>s i. [char_of (97 + i)], increment = \<lambda>s. butlast s @ [char_of (of_char (last s) + 1 :: nat)],
     crypt = \<lambda>s. s\<rparr>"


section \<open>The shared search\<close>

definition candidate :: "cracker_lib \<Rightarrow> string \<Rightarrow> nat \<Rightarrow> string" where
  "candidate L passform i = take (prefix_length L passform) passform
     @ set_position L (drop (prefix_length L passform) passform) i"

definition candidates :: "cracker_lib \<Rightarrow> string \<Rightarrow> nat" where
  "candidates L passform = 26 ^ (length passform - prefix_length L passform)"

definition range_of :: "cracker_lib \<Rightarrow> string \<Rightarrow> nat \<Rightarrow> nat \<Rightarrow> nat \<times> nat" where
  "range_of L passform n k = subrange L (length passform - prefix_length L passform) n (Suc k)"

definition lib_ok :: "cracker_lib \<Rightarrow> string \<Rightarrow> nat \<Rightarrow> bool" where
  \<comment> \<open>what \<open>incrementString\<close> and \<open>getSubrange\<close> do: the next position, and ranges that cover all positions\<close>
  "lib_ok L passform n \<longleftrightarrow>
     (\<forall>i. Suc i < candidates L passform \<longrightarrow> increment L (candidate L passform i) = candidate L passform (Suc i))
     \<and> (\<Union>k < n. {fst (range_of L passform n k) ..< fst (range_of L passform n k) + snd (range_of L passform n k)})
       = {..< candidates L passform}"

definition no_match :: "cracker_lib \<Rightarrow> string \<Rightarrow> string \<Rightarrow> nat \<Rightarrow> nat \<Rightarrow> bool" where
  "no_match L hashval passform a b \<longleftrightarrow> (\<forall>i. a \<le> i \<and> i < b \<longrightarrow> crypt L (candidate L passform i) \<noteq> hashval)"

definition cracked :: "cracker_lib \<Rightarrow> string \<Rightarrow> string \<Rightarrow> string \<Rightarrow> bool" where
  "cracked L hashval passform p \<longleftrightarrow> crypt L p = hashval \<and> (\<exists>i < candidates L passform. p = candidate L passform i)"

definition searcher_ok :: "cracker_lib \<Rightarrow> string \<Rightarrow> string \<Rightarrow> bool \<Rightarrow> nat \<times> nat \<Rightarrow> searcher \<Rightarrow> bool" where
  "searcher_ok L hashval passform fnd r t \<longleftrightarrow> (case r of (a, c) \<Rightarrow>
     todo t \<le> c \<and> no_match L hashval passform a (a + (c - todo t))
     \<and> (case phase t of
          Done (Some p) \<Rightarrow> cracked L hashval passform p \<and> fnd
        | Done None \<Rightarrow> fnd \<or> todo t = 0
        | Check \<Rightarrow> todo t \<noteq> 0 \<longrightarrow> temp t = candidate L passform (a + (c - todo t))
        | Hash \<Rightarrow> todo t \<noteq> 0 \<and> temp t = candidate L passform (a + (c - todo t))))"

definition search_ok :: "cracker_lib \<Rightarrow> string \<Rightarrow> string \<Rightarrow> nat \<Rightarrow> search \<Rightarrow> bool" where
  "search_ok L hashval passform n s \<longleftrightarrow> length (searchers s) = n
     \<and> (\<forall>k < n. searcher_ok L hashval passform (found s) (range_of L passform n k) (searchers s ! k))
     \<and> (found s \<longrightarrow> (\<exists>k < n. \<exists>p. phase (searchers s ! k) = Done (Some p)))"

fun effort :: "searcher \<Rightarrow> nat" where
  "effort t = (case phase t of Check \<Rightarrow> 2 * todo t + 1 | Hash \<Rightarrow> 2 * todo t | Done _ \<Rightarrow> 0)"

lemma searcher_found: "searcher_ok L h f b r t \<Longrightarrow> searcher_ok L h f True r t"
  by (auto simp: searcher_ok_def split: phase.splits option.splits prod.splits)

lemma in_range:
  assumes "lib_ok L passform n" and "k < n" and "range_of L passform n k = (a, c)" and "i < c"
  shows "a + i < candidates L passform"
proof -
  have "a + i \<in> (\<Union>k < n. {fst (range_of L passform n k) ..< fst (range_of L passform n k) + snd (range_of L passform n k)})"
    using assms(2-4) by (auto intro!: bexI[of _ k])
  also have "\<dots> = {..< candidates L passform}" using assms(1) by (simp only: lib_ok_def)
  finally show ?thesis by simp
qed

lemma search_ok_update:
  assumes "search_ok L hashval passform n s" and "k < length (searchers s)"
    and "searcher_ok L hashval passform fnd (range_of L passform n k) t'"
    and "fnd = found s \<or> fnd \<and> (\<exists>p. phase t' = Done (Some p))"
    and "\<And>p. phase (searchers s ! k) \<noteq> Done (Some p)"
  shows "search_ok L hashval passform n (s\<lparr>found := fnd, searchers := (searchers s)[k := t']\<rparr>)"
proof -
  have ok: "\<forall>j < n. searcher_ok L hashval passform (found s) (range_of L passform n j) (searchers s ! j)"
      "length (searchers s) = n"
    using assms(1) by (simp_all add: search_ok_def)
  have "searcher_ok L hashval passform fnd (range_of L passform n j) (searchers s ! j)" if "j < n" for j
    using ok(1) that assms(4) searcher_found by metis
  moreover have "\<exists>j < n. \<exists>p. phase ((searchers s)[k := t'] ! j) = Done (Some p)" if fnd
  proof (cases "found s")
    case True
    then obtain j p where "j < n" "phase (searchers s ! j) = Done (Some p)" using assms(1) by (auto simp: search_ok_def)
    moreover from this have "j \<noteq> k" using assms(5) by auto
    ultimately show ?thesis by (intro exI[of _ j]) simp
  next
    case False
    then show ?thesis using that assms(2,4) ok(2) by (intro exI[of _ k]) auto
  qed
  ultimately show ?thesis using assms(2,3) ok(2) by (auto simp: search_ok_def nth_list_update)
qed

lemma hit_searcher:
  assumes ok: "searcher_ok L hashval passform fnd (range_of L passform n k) t" and t: "phase t = Hash" "crypt L (temp t) = hashval"
    and lib: "lib_ok L passform n" "k < n"
  shows "searcher_ok L hashval passform True (range_of L passform n k) (t\<lparr>phase := Done (Some (temp t))\<rparr>)" and "todo t \<noteq> 0"
proof -
  obtain a c where r: "range_of L passform n k = (a, c)" by fastforce
  have t': "todo t \<noteq> 0" "todo t \<le> c" "temp t = candidate L passform (a + (c - todo t))"
    using ok t(1) by (auto simp: searcher_ok_def r)
  then have "a + (c - todo t) < candidates L passform" using in_range[OF lib r, of "c - todo t"] by simp
  then have "cracked L hashval passform (temp t)" using t(2) t'(3) by (auto simp: cracked_def)
  then show "searcher_ok L hashval passform True (range_of L passform n k) (t\<lparr>phase := Done (Some (temp t))\<rparr>)" "todo t \<noteq> 0"
    using ok t(1) t'(1) by (auto simp: searcher_ok_def split: prod.splits)
qed

lemma miss_searcher:
  assumes ok: "searcher_ok L hashval passform fnd (range_of L passform n k) t" and t: "phase t = Hash" "crypt L (temp t) \<noteq> hashval"
    and lib: "lib_ok L passform n" "k < n"
  shows "searcher_ok L hashval passform fnd (range_of L passform n k)
      (t\<lparr>phase := Check, temp := increment L (temp t), todo := todo t - 1\<rparr>)" and "todo t \<noteq> 0"
proof -
  obtain a c where r: "range_of L passform n k = (a, c)" by fastforce
  have t': "todo t \<noteq> 0" "todo t \<le> c" "temp t = candidate L passform (a + (c - todo t))"
      "no_match L hashval passform a (a + (c - todo t))"
    using ok t(1) by (auto simp: searcher_ok_def r)
  then show "todo t \<noteq> 0" by simp
  obtain j where j: "todo t = Suc j" using t'(1) by (cases "todo t") auto
  obtain i where c: "c = Suc j + i" using t'(2) by (auto simp: j dest: le_Suc_ex)
  have "no_match L hashval passform a (a + Suc i)"
    using t'(3,4) t(2) by (auto simp: no_match_def less_Suc_eq j c)
  moreover have "increment L (temp t) = candidate L passform (a + Suc i)" if "j \<noteq> 0"
  proof -
    have "a + Suc i < candidates L passform" using in_range[OF lib r, of "Suc i"] that by (simp add: c)
    then show ?thesis using lib(1) t'(3) by (simp add: lib_ok_def j c)
  qed
  ultimately show "searcher_ok L hashval passform fnd (range_of L passform n k)
      (t\<lparr>phase := Check, temp := increment L (temp t), todo := todo t - 1\<rparr>)"
    by (auto simp: searcher_ok_def r j c)
qed

lemma search_step_ok:
  assumes "search_step L hashval s s'" and "search_ok L hashval passform n s" and "lib_ok L passform n"
  shows "search_ok L hashval passform n s'
    \<and> sum_list (List.map effort (searchers s')) < sum_list (List.map effort (searchers s))"
proof -
  have this_ok: "searcher_ok L hashval passform (found s) (range_of L passform n k) (searchers s ! k)"
    if "k < length (searchers s)" for k using assms(2) that by (simp add: search_ok_def)
  have smaller: "sum_list (List.map effort ((searchers s)[k := t'])) < sum_list (List.map effort (searchers s))"
    if "k < length (searchers s)" "effort t' < effort (searchers s ! k)" for k t'
    using sum_update[OF that(1), of effort t'] that(2) by linarith
  have same: "s\<lparr>searchers := x\<rparr> = s\<lparr>found := found s, searchers := x\<rparr>" for x by simp
  from assms(1) show ?thesis
  proof cases
    case (go_on k t)
    let ?t = "t\<lparr>phase := Hash, hash_count := hash_count t + 1\<rparr>"
    have "searcher_ok L hashval passform (found s) (range_of L passform n k) ?t"
      using this_ok[OF go_on(2)] go_on(3-5) by (auto simp: searcher_ok_def split: prod.splits)
    from search_ok_update[OF assms(2) go_on(2) this] show ?thesis
      unfolding go_on(1) same using smaller[OF go_on(2), of ?t] go_on(3-5) by auto
  next
    case (give_up k t)
    let ?t = "t\<lparr>phase := Done None\<rparr>"
    have "searcher_ok L hashval passform (found s) (range_of L passform n k) ?t"
      using this_ok[OF give_up(2)] give_up(3-5) by (auto simp: searcher_ok_def split: prod.splits)
    from search_ok_update[OF assms(2) give_up(2) this] show ?thesis
      unfolding give_up(1) same using smaller[OF give_up(2), of ?t] give_up(3-5) by auto
  next
    case (hit k t)
    let ?t = "t\<lparr>phase := Done (Some (temp t))\<rparr>"
    have k: "k < n" using hit(2) assms(2) by (simp add: search_ok_def)
    note t = hit_searcher[OF this_ok[OF hit(2), unfolded hit(3)] hit(4,5) assms(3) k]
    from search_ok_update[OF assms(2) hit(2) t(1)] show ?thesis
      unfolding hit(1) using smaller[OF hit(2), of ?t] hit(3,4) t(2) by auto
  next
    case (miss k t)
    let ?t = "t\<lparr>phase := Check, temp := increment L (temp t), todo := todo t - 1\<rparr>"
    have k: "k < n" using miss(2) assms(2) by (simp add: search_ok_def)
    note t = miss_searcher[OF this_ok[OF miss(2), unfolded miss(3)] miss(4,5) assms(3) k]
    from search_ok_update[OF assms(2) miss(2) t(1)] show ?thesis
      unfolding miss(1) same using smaller[OF miss(2), of ?t] miss(3,4) t(2) by auto
  qed
qed

definition known_lib :: cracker_lib where
  \<comment> \<open>a password without unknown letters, hashed to itself\<close>
  "known_lib = \<lparr>prefix_length = length, subrange = \<lambda>u n k. (0, 1), set_position = \<lambda>s i. s, increment = \<lambda>s. s, crypt = \<lambda>s. s\<rparr>"

lemma start_searchers_all:
  "start_searchers L passform n ks = Inr ts \<Longrightarrow> length ts = length ks
    \<and> (\<forall>j < length ks. start_searcher L passform n (ks ! j) = Inr (ts ! j))"
  by (induction ks arbitrary: ts) (auto simp: rbind_Inr_iff nth_Cons split: nat.splits)

lemma start_searcher_ok:
  assumes "start_searcher L passform n (Suc k) = Inr t"
  shows "searcher_ok L hashval passform False (range_of L passform n k) t" "effort t = 2 * snd (range_of L passform n k) + 1"
  using assms by (auto simp: start_searcher_def rbind_Inr_iff first_password_def searcher_ok_def range_of_def
      candidate_def no_match_def Let_def split: prod.splits if_splits)

lemma start_search_ok:
  assumes "start_search L passform n = Inr s"
  shows "search_ok L hashval passform n s"
    and "sum_list (List.map effort (searchers s)) = (\<Sum>k < n. 2 * snd (range_of L passform n k) + 1)"
proof -
  obtain ts where ts: "start_searchers L passform n [1..<n + 1] = Inr ts" and s: "s = \<lparr>found = False, searchers = ts\<rparr>"
    using assms by (auto simp: start_search_def rbind_Inr_iff)
  have len: "length ts = n" and each: "\<forall>j < n. start_searcher L passform n (Suc j) = Inr (ts ! j)"
    using start_searchers_all[OF ts] by (simp_all del: upt_Suc)
  show "search_ok L hashval passform n s"
    using each len start_searcher_ok(1) by (auto simp: search_ok_def s)
  have "sum_list (List.map effort ts) = (\<Sum>k < n. effort (ts ! k))"
    unfolding sum_list_sum_nth using len by (simp add: atLeast0LessThan)
  also have "\<dots> = (\<Sum>k < n. 2 * snd (range_of L passform n k) + 1)"
    using each start_searcher_ok(2) by (intro sum.cong) auto
  finally show "sum_list (List.map effort (searchers s)) = (\<Sum>k < n. 2 * snd (range_of L passform n k) + 1)"
    by (simp add: s)
qed

lemma search_steps:
  assumes "(search_step L hashval ^^ m) s0 s" and "search_ok L hashval passform n s0" and "lib_ok L passform n"
  shows "search_ok L hashval passform n s
    \<and> sum_list (List.map effort (searchers s)) + m \<le> sum_list (List.map effort (searchers s0))"
  using assms(1)
proof (induction m arbitrary: s)
  case 0
  then show ?case using assms(2) by simp
next
  case (Suc m)
  then obtain s1 where "(search_step L hashval ^^ m) s0 s1" "search_step L hashval s1 s" by auto
  then show ?case using Suc.IH[of s1] search_step_ok[of L hashval s1 s passform n] assms(3)
    by (auto simp del: effort.simps)
qed

lemma search_progress:
  assumes "k < length (searchers s)" and "phase (searchers s ! k) = Check \<or> phase (searchers s ! k) = Hash"
  shows "\<exists>s'. search_step L hashval s s'"
  using search_step.intros[OF assms(1) refl] assms(2) by blast

lemma join_none:
  "\<forall>t \<in> set ts. \<forall>p. phase t \<noteq> Done (Some p) \<Longrightarrow> \<exists>h. join_searchers ts (pw, r, k) = (pw, r, h)"
proof (induction ts arbitrary: k)
  case (Cons t ts)
  then show ?case by (auto split: phase.splits option.splits)
qed simp

lemma join_some:
  "r = 0 \<and> P pw \<or> (\<exists>t \<in> set ts. \<exists>p. phase t = Done (Some p)) \<Longrightarrow> \<forall>t \<in> set ts. \<forall>p. phase t = Done (Some p) \<longrightarrow> P (Live p)
    \<Longrightarrow> \<exists>pw' h. join_searchers ts (pw, r, k) = (pw', 0, h) \<and> P pw'"
proof (induction ts arbitrary: pw r k)
  case (Cons t ts)
  show ?case
  proof (cases "\<exists>p. phase t = Done (Some p)")
    case True
    then obtain p where p: "phase t = Done (Some p)" by blast
    then show ?thesis using Cons.IH[of 0 "Live p" "k + hash_count t"] Cons.prems(2) by simp
  next
    case False
    then have "join_searchers (t # ts) (pw, r, k) = join_searchers ts (pw, r, k + hash_count t)"
      by (auto split: phase.splits option.splits)
    then show ?thesis using Cons.IH[of r pw "k + hash_count t"] Cons.prems False by auto
  qed
qed auto

lemma search_ok_password:
  assumes "search_ok L hashval passform n s" and t: "t \<in> set (searchers s)" "phase t = Done (Some p)"
  shows "cracked L hashval passform p"
proof -
  have each: "\<forall>k < n. searcher_ok L hashval passform (found s) (range_of L passform n k) (searchers s ! k)"
      "length (searchers s) = n" using assms(1) by (simp_all add: search_ok_def)
  obtain k where k: "k < n" "searchers s ! k = t" using t(1) each(2) by (auto simp: in_set_conv_nth)
  then have "searcher_ok L hashval passform (found s) (range_of L passform n k) t" using each(1) by blast
  then show ?thesis using t(2) by (auto simp: searcher_ok_def split: prod.splits)
qed

lemma search_ok_no_match:
  \<comment> \<open>when every thread stopped without a password, no candidate has the hash\<close>
  assumes ok: "search_ok L hashval passform n s" and lib: "lib_ok L passform n"
    and stopped: "\<forall>t \<in> set (searchers s). phase t = Done None" and i: "i < candidates L passform"
  shows "crypt L (candidate L passform i) \<noteq> hashval"
proof -
  have each: "\<forall>k < n. searcher_ok L hashval passform (found s) (range_of L passform n k) (searchers s ! k)"
      "length (searchers s) = n" using ok by (simp_all add: search_ok_def)
  have not_found: "\<not> found s" using ok stopped each(2) nth_mem[of _ "searchers s"] by (fastforce simp: search_ok_def)
  have "i \<in> (\<Union>k < n. {fst (range_of L passform n k) ..< fst (range_of L passform n k) + snd (range_of L passform n k)})"
    using lib i by (simp only: lib_ok_def lessThan_iff)
  then obtain k where k: "k < n" "fst (range_of L passform n k) \<le> i"
      "i < fst (range_of L passform n k) + snd (range_of L passform n k)" by auto
  have "phase (searchers s ! k) = Done None" using stopped k(1) each(2) by simp
  moreover have "searcher_ok L hashval passform (found s) (range_of L passform n k) (searchers s ! k)"
    using each(1) k(1) by blast
  ultimately have "no_match L hashval passform (fst (range_of L passform n k))
      (fst (range_of L passform n k) + snd (range_of L passform n k))"
    using not_found by (auto simp: searcher_ok_def split: prod.splits)
  then show ?thesis using k(2,3) by (simp add: no_match_def)
qed

lemma joined_result:
  assumes ok: "search_ok L hashval passform n s" and lib: "lib_ok L passform n"
    and stopped: "\<forall>t \<in> set (searchers s). phase t \<noteq> Check \<and> phase t \<noteq> Hash"
  shows "\<exists>pw h. join_searchers (searchers s) (Null, 1, 0) =
            (pw, if \<exists>i < candidates L passform. crypt L (candidate L passform i) = hashval then 0 else 1, h)
          \<and> (if \<exists>i < candidates L passform. crypt L (candidate L passform i) = hashval
             then \<exists>p. pw = Live p \<and> cracked L hashval passform p else pw = Null)"
proof (cases "\<exists>t \<in> set (searchers s). \<exists>p. phase t = Done (Some p)")
  case True
  then have "\<exists>i < candidates L passform. crypt L (candidate L passform i) = hashval"
    using search_ok_password[OF ok] by (fastforce simp: cracked_def)
  moreover from True obtain pw h where "join_searchers (searchers s) (Null, 1, 0) = (pw, 0, h)"
      "\<exists>p. pw = Live p \<and> cracked L hashval passform p"
    using join_some[of 1 "\<lambda>pw. \<exists>p. pw = Live p \<and> cracked L hashval passform p" Null "searchers s" 0]
      search_ok_password[OF ok] by blast
  ultimately show ?thesis by auto
next
  case False
  then have "phase t = Done None" if "t \<in> set (searchers s)" for t
    using stopped that by (metis phase.exhaust option.exhaust)
  then show ?thesis using search_ok_no_match[OF ok lib] join_none[of "searchers s" Null 1 0] False by auto
qed

text \<open>
  C38: the shared search of the second cracker, with helpers that enumerate the candidates and cut them
  into ranges: in every interleaving the threads stop after a bounded number of steps, a thread that has
  not returned can go on, and when all have returned the joined result is success exactly when some
  candidate has the given hash, with a password that is such a candidate; a thread that stops early
  never loses the password.
\<close>

theorem cracker2_search_correct:
  assumes "start_search L passform n = Inr s0" and "lib_ok L passform n" and "(search_step L hashval ^^ m) s0 s"
  shows "m \<le> (\<Sum>k < n. 2 * snd (range_of L passform n k) + 1)
    \<and> ((\<exists>t \<in> set (searchers s). phase t = Check \<or> phase t = Hash) \<longrightarrow> (\<exists>s'. search_step L hashval s s'))
    \<and> ((\<forall>t \<in> set (searchers s). phase t \<noteq> Check \<and> phase t \<noteq> Hash) \<longrightarrow>
        (\<exists>pw h. join_searchers (searchers s) (Null, 1, 0) =
            (pw, if \<exists>i < candidates L passform. crypt L (candidate L passform i) = hashval then 0 else 1, h)
          \<and> (if \<exists>i < candidates L passform. crypt L (candidate L passform i) = hashval
             then \<exists>p. pw = Live p \<and> cracked L hashval passform p else pw = Null)))"
proof -
  note start = start_search_ok[OF assms(1)]
  have ok: "search_ok L hashval passform n s" and bound: "m \<le> (\<Sum>k < n. 2 * snd (range_of L passform n k) + 1)"
    using search_steps[OF assms(3) start(1) assms(2)] unfolding start(2) by auto
  have "\<exists>s'. search_step L hashval s s'" if "\<exists>t \<in> set (searchers s). phase t = Check \<or> phase t = Hash"
    using that search_progress by (metis in_set_conv_nth)
  then show ?thesis using bound joined_result[OF ok assms(2)] by blast
qed

theorem cracker2_search_correct_witness:
  "\<exists>pw h. join_searchers [\<lparr>todo = 0, temp = ''a'', hash_count = 1, phase = Done None\<rparr>] (Null, 1, 0) = (pw, 1, h)
    \<and> (search_step known_lib ''x'' ^^ 3) \<lparr>found = False, searchers = [\<lparr>todo = 1, temp = ''a'', hash_count = 0, phase = Check\<rparr>]\<rparr>
        \<lparr>found = False, searchers = [\<lparr>todo = 0, temp = ''a'', hash_count = 1, phase = Done None\<rparr>]\<rparr>"
proof -
  define s0 where "s0 = \<lparr>found = False, searchers = [\<lparr>todo = 1, temp = ''a'', hash_count = 0, phase = Check\<rparr>]\<rparr>"
  define s1 where "s1 = \<lparr>found = False, searchers = [\<lparr>todo = 1, temp = ''a'', hash_count = 1, phase = Hash\<rparr>]\<rparr>"
  define s2 where "s2 = \<lparr>found = False, searchers = [\<lparr>todo = 0, temp = ''a'', hash_count = 1, phase = Check\<rparr>]\<rparr>"
  define s3 where "s3 = \<lparr>found = False, searchers = [\<lparr>todo = 0, temp = ''a'', hash_count = 1, phase = Done None\<rparr>]\<rparr>"
  have start: "start_search known_lib ''a'' 1 = Inr s0"
    by (simp add: start_search_def start_searcher_def first_password_def known_lib_def s0_def)
  have ok: "lib_ok known_lib ''a'' 1"
    by (auto simp: lib_ok_def candidates_def range_of_def known_lib_def)
  have "search_step known_lib ''x'' s0 s1"
    using search_step.go_on[of 0 s0 "searchers s0 ! 0" known_lib "''x''"] by (simp add: s0_def s1_def)
  moreover have "search_step known_lib ''x'' s1 s2"
    using search_step.miss[of 0 s1 "searchers s1 ! 0" known_lib "''x''"] by (simp add: s1_def s2_def known_lib_def)
  moreover have "search_step known_lib ''x'' s2 s3"
    using search_step.give_up[of 0 s2 "searchers s2 ! 0" known_lib "''x''"] by (simp add: s2_def s3_def)
  ultimately have run: "(search_step known_lib ''x'' ^^ 3) s0 s3" by (auto simp: numeral_3_eq_3)
  let ?hit = "\<exists>i < candidates known_lib ''a''. crypt known_lib (candidate known_lib ''a'' i) = ''x''"
  have none: "\<not> ?hit" by (simp add: candidate_def known_lib_def)
  have "\<forall>t \<in> set (searchers s3). phase t \<noteq> Check \<and> phase t \<noteq> Hash" by (simp add: s3_def)
  then obtain pw h where "join_searchers (searchers s3) (Null, 1, 0) = (pw, if ?hit then 0 else 1, h)"
    using conjunct2[OF conjunct2[OF cracker2_search_correct[OF start ok run]]] by blast
  then have "\<exists>pw h. join_searchers (searchers s3) (Null, 1, 0) = (pw, 1, h)" unfolding if_not_P[OF none] by blast
  then show ?thesis using run by (simp add: s0_def s3_def)
qed

text \<open>
  \<open>password\<close> is not reset between users: when a recovered password is followed by a user whose
  password is not found, \<open>start\<close> prints and frees the freed block again.
\<close>

theorem cracker2_frees_password_twice:
  assumes "\<exists>t \<in> set ts. \<exists>p. phase t = Done (Some p)" and "\<forall>t \<in> set us. \<forall>p. phase t \<noteq> Done (Some p)"
  shows "serve_users (ts # us # rest) Null = Inl Dangling"
proof -
  obtain pw h where "join_searchers ts (Null, 1, 0) = (pw, 0, h)" "pw \<noteq> Null \<and> pw \<noteq> Freed"
    using join_some[of 1 "\<lambda>pw. pw \<noteq> Null \<and> pw \<noteq> Freed" Null ts 0] assms(1) by auto
  moreover obtain h' where "join_searchers us (Freed, 1, 0) = (Freed, 1, h')" using join_none[OF assms(2)] by blast
  ultimately show ?thesis by simp
qed

theorem cracker2_frees_password_twice_witness:
  "serve_users [[\<lparr>todo = 1, temp = ''a'', hash_count = 1, phase = Done (Some ''a'')\<rparr>],
     [\<lparr>todo = 0, temp = ''b'', hash_count = 2, phase = Done None\<rparr>]] Null = Inl Dangling"
  by (rule cracker2_frees_password_twice) simp_all

end
