(* ===== verification/Cracker_Input.thy ===== *)
theory Cracker_Input
  imports Cracker Cstring
begin

text \<open>
  What both crackers do before their threads start: \<open>start\<close> of \<^verbatim>\<open>password_cracker/cracker1.c\<close> and
  \<^verbatim>\<open>cracker2.c\<close> reads the tasks from the standard input, one a line, into the queue; the second splits a
  task into its fields and hands them to the threads. A line is the block \<open>getline\<close> answers, with
  its newline if it has one and a terminating zero.
\<close>

section \<open>Reading the tasks\<close>

definition newline_char :: char where "newline_char = CHR 0x0A"

definition copy_task :: "block \<Rightarrow> string res" where
  \<comment> \<open>a block for the line without its last character; what \<open>queue_push\<close> gets\<close>
  "copy_task task = rbind (c_strlen task) (\<lambda>len.
     if len = 0 then Inl Out_Of_Bounds
     else rbind (wr task (len - 1) NUL) (\<lambda>task. rbind (c_strcpy (fresh_malloc len) task) read_cstr))"

fun read_tasks :: "block list \<Rightarrow> string list res" where
  "read_tasks [] = Inr []"
| "read_tasks (l # ls) = rbind (copy_task l) (\<lambda>t. rbind (read_tasks ls) (\<lambda>ts. Inr (t # ts)))"

definition cracker1_start :: "block list \<Rightarrow> nat \<Rightarrow> (pool \<times> nat) res" where
  \<comment> \<open>the pool of threads, and \<open>ntasks\<close>\<close>
  "cracker1_start input thread_count = rbind (read_tasks input) (\<lambda>tasks.
     Inr (start_pool tasks thread_count, length tasks))"

section \<open>The fields of a task\<close>

definition split :: "string \<Rightarrow> string option list" where
  \<comment> \<open>an array with a null pointer at its end\<close>
  "split task = List.map Some (tokens task) @ [None]"

definition info :: "string option list \<Rightarrow> nat \<Rightarrow> string option res" where
  "info infos k = (if k < length infos then Inr (infos ! k) else Inl Out_Of_Bounds)"

definition start_user :: "cracker_lib \<Rightarrow> nat \<Rightarrow> string \<Rightarrow> (string option \<times> string \<times> search) res" where
  \<comment> \<open>the user, the hash and the threads; the threads read the hash and the pattern\<close>
  "start_user L thread_count task =
     (let infos = split task in
      rbind (info infos 0) (\<lambda>user. rbind (info infos 1) (\<lambda>h. rbind (info infos 2) (\<lambda>pf.
      rbind (deref pf) (\<lambda>passform. rbind (deref h) (\<lambda>hashval.
      rbind (start_search L passform thread_count) (\<lambda>s. Inr (user, hashval, s))))))))"

section \<open>Lemmas\<close>

text \<open>A line that ends with a newline is the task without it; a last line without one loses its last character.\<close>

lemma copy_task_line:
  assumes "NUL \<notin> set (l @ [c])"
  shows "copy_task (cstring (l @ [c])) = Inr l"
proof -
  have n: "NUL \<notin> set l" using assms by simp
  have "(cstring (l @ [c]))[length l := Val NUL] = cstring l @ [Val NUL]"
    by (simp add: cstring_def list_update_append)
  moreover have "read_cstr (cstring l @ [Val NUL]) = Inr l" using n by simp
  moreover have "c_strlen (cstring (l @ [c])) = Inr (Suc (length l))" using assms by (simp add: c_strlen_def)
  ultimately show ?thesis using n
    by (simp add: copy_task_def c_strcpy_in)
qed

lemma read_tasks_lines:
  assumes "\<forall>l \<in> set ls. NUL \<notin> set l"
  shows "read_tasks (List.map (\<lambda>l. cstring (l @ [newline_char])) ls) = Inr ls"
  using assms by (induction ls) (simp_all add: copy_task_line newline_char_def NUL_def)

lemma read_tasks_last_line:
  assumes "\<forall>l \<in> set ls. NUL \<notin> set l" and "NUL \<notin> set (l @ [c])"
  shows "read_tasks (List.map (\<lambda>l. cstring (l @ [newline_char])) ls @ [cstring (l @ [c])]) = Inr (ls @ [l])"
  using assms(1) copy_task_line[OF assms(2)] by (induction ls) (simp_all add: copy_task_line newline_char_def NUL_def)

lemma cracker1_start_lines:
  assumes "\<forall>l \<in> set ls. NUL \<notin> set l"
  shows "cracker1_start (List.map (\<lambda>l. cstring (l @ [newline_char])) ls) n = Inr (start_pool ls n, length ls)"
  by (simp add: cracker1_start_def read_tasks_lines[OF assms])

text \<open>A task needs three fields: with two the pattern is a null pointer, with fewer it is read behind the array.\<close>

lemma start_user_fields:
  assumes "tokens task = ts"
  shows "length ts < 2 \<Longrightarrow> start_user L n task = Inl Out_Of_Bounds"
    and "length ts = 2 \<Longrightarrow> start_user L n task = Inl Null_Deref"
    and "3 \<le> length ts \<Longrightarrow> start_user L n task
      = rbind (start_search L (ts ! 2) n) (\<lambda>s. Inr (Some (ts ! 0), ts ! 1, s))"
proof -
  show "length ts < 2 \<Longrightarrow> start_user L n task = Inl Out_Of_Bounds"
    using assms by (cases "length ts") (auto simp: start_user_def split_def info_def)
  show "length ts = 2 \<Longrightarrow> start_user L n task = Inl Null_Deref"
    using assms by (simp add: start_user_def split_def info_def nth_append)
  assume three: "3 \<le> length ts"
  then have "info (split task) k = Inr (Some (ts ! k))" if "k < 3" for k
    using assms that by (simp add: split_def info_def nth_append)
  then show "start_user L n task = rbind (start_search L (ts ! 2) n) (\<lambda>s. Inr (Some (ts ! 0), ts ! 1, s))"
    by (simp add: start_user_def Let_def)
qed

end
