(* ===== verification/Parmake_Workers.thy ===== *)
theory Parmake_Workers
  imports Parmake "HOL-Library.Multiset" "HOL-Library.Sublist"
begin

text \<open>
  The worker threads of \<^verbatim>\<open>parallel_make/parmake.c\<close> together: \<open>satisfy_rule\<close> as a program of steps, each of
  which reads or writes one shared variable, runs one command, or is a critical section, and any
  interleaving of the threads. The accesses to \<open>state\<close> without the mutex are taken as atomic. The queue
  of rules is that of \<^verbatim>\<open>queue.c\<close> without a bound.
\<close>

section \<open>The threads\<close>

datatype ('v, 'c) pc =
    Pull
  | Got 'v
  | Look 'v "'v list" \<comment> \<open>at the head of the loop over the dependencies left\<close>
  | Blocking 'v 'v "'v list" \<comment> \<open>decided to wait, \<open>m\<close> not yet taken\<close>
  | Asleep 'v 'v "'v list"
  | Test 'v 'v "'v list" \<comment> \<open>behind the inner loop\<close>
  | Stat 'v
  | Mark 'v bool
  | Run 'v "'c list"
  | Failed 'v
  | Signal
  | Returning
  | Finished

record ('v, 'c, 'w) make =
  rules :: "('v, 'c) rules"
  queue :: "'v option list"
  workers :: "('v, 'c) pc list"
  world :: 'w
  runs :: "('v \<times> 'c \<times> int) list" \<comment> \<open>the commands run so far, with their results\<close>

definition goto :: "nat \<Rightarrow> ('v, 'c) pc \<Rightarrow> ('v, 'c, 'w) make \<Rightarrow> ('v, 'c, 'w) make" where
  "goto k p s = s\<lparr>workers := (workers s)[k := p]\<rparr>"

definition set_rule :: "'v \<Rightarrow> int \<Rightarrow> ('v, 'c, 'w) make \<Rightarrow> ('v, 'c, 'w) make" where
  "set_rule v i s = s\<lparr>rules := set_state (rules s) v i\<rparr>"

fun wake_up :: "('v, 'c) pc \<Rightarrow> ('v, 'c) pc" where
  "wake_up (Asleep v n ns) = Look v (n # ns)"
| "wake_up p = p"

definition broadcast :: "('v, 'c, 'w) make \<Rightarrow> ('v, 'c, 'w) make" where
  "broadcast s = s\<lparr>workers := List.map wake_up (workers s)\<rparr>"

definition turn ::
  "('v \<Rightarrow> 'v list) \<Rightarrow> ('w \<Rightarrow> 'v \<Rightarrow> int option) \<Rightarrow> ('w \<Rightarrow> 'c \<Rightarrow> int \<times> 'w) \<Rightarrow> nat
     \<Rightarrow> ('v, 'c, 'w) make \<Rightarrow> ('v, 'c, 'w) make option" where
  \<comment> \<open>the next step of thread \<open>k\<close>; \<open>None\<close> when it waits or has returned\<close>
  "turn nb mtime system k s = (case workers s ! k of
     Pull \<Rightarrow> (case queue s of
         [] \<Rightarrow> None
       | None # q \<Rightarrow> Some (goto k Returning (s\<lparr>queue := q\<rparr>))
       | Some v # q \<Rightarrow> Some (goto k (Got v) (s\<lparr>queue := q\<rparr>)))
   | Got v \<Rightarrow> Some (goto k (if state (rules s v) \<noteq> - 1 then Pull else Look v (nb v)) s)
   | Look v [] \<Rightarrow> Some (goto k (Stat v) s)
   | Look v (n # ns) \<Rightarrow>
       Some (goto k (if state (rules s n) = - 1 \<or> state (rules s n) = 3 then Blocking v n ns else Test v n ns) s)
   | Blocking v n ns \<Rightarrow> Some (goto k (Asleep v n ns) s)
   | Asleep v n ns \<Rightarrow> None
   | Test v n ns \<Rightarrow>
       Some (if state (rules s n) = 2 then goto k Signal (set_rule v 2 s) else goto k (Look v ns) s)
   | Stat v \<Rightarrow> Some (goto k (Mark v (need_to_run_command nb mtime (world s) v)) s)
   | Mark v need \<Rightarrow> Some (goto k (Run v (if need then commands (rules s v) else [])) (set_rule v 3 s))
   | Run v [] \<Rightarrow> Some (goto k Signal (set_rule v 1 s))
   | Run v (c # cs) \<Rightarrow> (case system (world s) c of (i, w) \<Rightarrow>
       Some (goto k (if i \<noteq> 0 then Failed v else Run v cs) (s\<lparr>world := w, runs := runs s @ [(v, c, i)]\<rparr>)))
   | Failed v \<Rightarrow> Some (goto k Signal (set_rule v 2 s))
   | Signal \<Rightarrow> Some (goto k Pull (broadcast s))
   | Returning \<Rightarrow> Some (goto k Finished (s\<lparr>queue := queue s @ [None]\<rparr>))
   | Finished \<Rightarrow> None)"

inductive make_step for nb mtime system where
  thread: "k < length (workers s) \<Longrightarrow> turn nb mtime system k s = Some s' \<Longrightarrow> make_step nb mtime system s s'"

inductive spurious where
  \<comment> \<open>\<open>pthread_cond_wait\<close> may return without a signal\<close>
  wakeup: "k < length (workers s) \<Longrightarrow> spurious s (goto k (wake_up (workers s ! k)) s)"

definition start_workers :: "nat \<Rightarrow> ('v, 'c) rules \<times> 'v list \<Rightarrow> 'w \<Rightarrow> ('v, 'c, 'w) make" where
  "start_workers num_threads collected w = (case collected of (rl, q) \<Rightarrow>
     \<lparr>rules = rl, queue = List.map Some q @ [None], workers = replicate num_threads Pull, world = w, runs = []\<rparr>)"

section \<open>The invariant\<close>

fun target :: "('v, 'c) pc \<Rightarrow> 'v list" where
  "target (Got v) = [v]" | "target (Look v ns) = [v]" | "target (Blocking v n ns) = [v]"
| "target (Asleep v n ns) = [v]" | "target (Test v n ns) = [v]" | "target (Stat v) = [v]"
| "target (Mark v need) = [v]" | "target (Run v cs) = [v]" | "target (Failed v) = [v]" | "target _ = []"

definition runs_of :: "('v, 'c, 'w) make \<Rightarrow> 'v \<Rightarrow> ('c \<times> int) list" where
  "runs_of s v = List.map snd (filter (\<lambda>r. fst r = v) (runs s))"

definition satisfied :: "('v \<Rightarrow> 'v list) \<Rightarrow> ('v, 'c, 'w) make \<Rightarrow> 'v list \<Rightarrow> 'v \<Rightarrow> bool" where
  \<comment> \<open>all dependencies but those in \<open>ns\<close> are satisfied\<close>
  "satisfied nb s ns v \<longleftrightarrow> (\<forall>d \<in> set (nb v) - set ns. state (rules s d) = 1) \<and> set ns \<subseteq> set (nb v)"

fun pc_ok :: "('v \<Rightarrow> 'v list) \<Rightarrow> ('v, 'c, 'w) make \<Rightarrow> ('v, 'c) pc \<Rightarrow> bool" where
  "pc_ok nb s (Got v) \<longleftrightarrow> state (rules s v) = - 1 \<and> runs_of s v = []"
| "pc_ok nb s (Look v ns) \<longleftrightarrow> state (rules s v) = - 1 \<and> runs_of s v = [] \<and> satisfied nb s ns v"
| "pc_ok nb s (Blocking v n ns) \<longleftrightarrow> state (rules s v) = - 1 \<and> runs_of s v = [] \<and> satisfied nb s (n # ns) v"
| "pc_ok nb s (Asleep v n ns) \<longleftrightarrow> state (rules s v) = - 1 \<and> runs_of s v = [] \<and> satisfied nb s (n # ns) v"
| "pc_ok nb s (Test v n ns) \<longleftrightarrow> state (rules s v) = - 1 \<and> runs_of s v = [] \<and> satisfied nb s (n # ns) v
     \<and> state (rules s n) \<in> {1, 2}"
| "pc_ok nb s (Stat v) \<longleftrightarrow> state (rules s v) = - 1 \<and> runs_of s v = [] \<and> satisfied nb s [] v"
| "pc_ok nb s (Mark v need) \<longleftrightarrow> state (rules s v) = - 1 \<and> runs_of s v = [] \<and> satisfied nb s [] v"
| "pc_ok nb s (Run v cs) \<longleftrightarrow> state (rules s v) = 3 \<and> satisfied nb s [] v
     \<and> (runs_of s v = [] \<and> cs = [] \<or> commands (rules s v) = List.map fst (runs_of s v) @ cs \<and> (\<forall>r \<in> set (runs_of s v). snd r = 0))"
| "pc_ok nb s (Failed v) \<longleftrightarrow> state (rules s v) = 3 \<and> satisfied nb s [] v
     \<and> prefix (List.map fst (runs_of s v)) (commands (rules s v))
     \<and> (\<exists>rs c i. runs_of s v = rs @ [(c, i)] \<and> (\<forall>r \<in> set rs. snd r = 0) \<and> i \<noteq> 0)"
| "pc_ok nb s _ \<longleftrightarrow> True"

definition rule_done :: "('v \<Rightarrow> 'v list) \<Rightarrow> ('v, 'c, 'w) make \<Rightarrow> 'v \<Rightarrow> bool" where
  \<comment> \<open>what a final state says about the target\<close>
  "rule_done nb s v \<longleftrightarrow>
     (state (rules s v) = 1 \<longrightarrow> satisfied nb s [] v
        \<and> (runs_of s v = [] \<or> commands (rules s v) = List.map fst (runs_of s v) \<and> (\<forall>r \<in> set (runs_of s v). snd r = 0)))
   \<and> (state (rules s v) = 2 \<longrightarrow>
        runs_of s v = [] \<and> (\<exists>d \<in> set (nb v). state (rules s d) = 2)
      \<or> satisfied nb s [] v \<and> prefix (List.map fst (runs_of s v)) (commands (rules s v))
        \<and> (\<exists>rs c i. runs_of s v = rs @ [(c, i)] \<and> (\<forall>r \<in> set rs. snd r = 0) \<and> i \<noteq> 0))"

fun returner :: "('v, 'c) pc \<Rightarrow> nat" where
  "returner Returning = 1" | "returner _ = 0"

definition queued :: "('v, 'c, 'w) make \<Rightarrow> 'v list" where
  "queued s = List.map_filter id (queue s)"

definition owned :: "('v, 'c, 'w) make \<Rightarrow> 'v multiset" where
  "owned s = sum_list (List.map (\<lambda>p. mset (target p)) (workers s))"

definition returners :: "('v, 'c, 'w) make \<Rightarrow> nat" where
  "returners s = sum_list (List.map returner (workers s))"

definition make_ok :: "('v \<Rightarrow> 'v list) \<Rightarrow> 'v set \<Rightarrow> ('v, 'c, 'w) make \<Rightarrow> bool" where
  "make_ok nb Q s \<longleftrightarrow> (\<forall>v. count (mset (queued s) + owned s) v \<le> 1) \<and> set_mset (mset (queued s) + owned s) \<subseteq> Q
     \<and> (\<forall>v \<in> Q. set (nb v) \<subseteq> Q)
     \<and> (\<forall>v \<in> Q. v \<notin># mset (queued s) + owned s \<longrightarrow> state (rules s v) \<in> {1, 2})
     \<and> (\<forall>v \<in> set (queued s). state (rules s v) = - 1 \<and> runs_of s v = [])
     \<and> (\<forall>p \<in> set (workers s). pc_ok nb s p)
     \<and> (\<forall>v \<in> Q. rule_done nb s v) \<and> (\<forall>v. v \<notin> Q \<longrightarrow> runs_of s v = [])
     \<and> ((\<exists>q. queue s = List.map Some q @ [None]) \<and> returners s = 0 \<or> queue s = [] \<and> returners s = 1)
     \<and> (Finished \<in> set (workers s) \<longrightarrow> queued s = [])"

lemma goto_simps [simp]:
  "rules (goto k p s) = rules s" "queue (goto k p s) = queue s" "runs (goto k p s) = runs s" "world (goto k p s) = world s"
  "workers (goto k p s) = (workers s)[k := p]" "runs_of (goto k p s) = runs_of s" "queued (goto k p s) = queued s"
  by (simp_all add: goto_def runs_of_def queued_def fun_eq_iff)

lemma set_rule_simps [simp]:
  "rules (set_rule v i s) = set_state (rules s) v i" "queue (set_rule v i s) = queue s" "runs (set_rule v i s) = runs s"
  "workers (set_rule v i s) = workers s" "runs_of (set_rule v i s) = runs_of s" "queued (set_rule v i s) = queued s"
  by (simp_all add: set_rule_def runs_of_def queued_def fun_eq_iff)

text \<open>What a thread knows of the rules stays true while others finish theirs.\<close>

definition grows :: "'v \<Rightarrow> ('v, 'c, 'w) make \<Rightarrow> ('v, 'c, 'w) make \<Rightarrow> bool" where
  "grows v s s1 \<longleftrightarrow> (\<forall>u. u \<noteq> v \<longrightarrow> state (rules s1 u) = state (rules s u) \<and> runs_of s1 u = runs_of s u)
     \<and> (\<forall>u. commands (rules s1 u) = commands (rules s u)) \<and> state (rules s v) \<notin> {1, 2}"

lemma satisfied_grows: "satisfied nb s ns u \<Longrightarrow> grows v s s1 \<Longrightarrow> satisfied nb s1 ns u"
  by (auto simp: satisfied_def grows_def)

lemma grows_final: "grows v s s1 \<Longrightarrow> state (rules s n) \<in> {1, 2} \<Longrightarrow> state (rules s1 n) = state (rules s n)"
  by (auto simp: grows_def)

lemma pc_ok_grows: "pc_ok nb s p \<Longrightarrow> grows v s s1 \<Longrightarrow> v \<notin> set (target p) \<Longrightarrow> pc_ok nb s1 p"
proof (cases p)
  case (Test u n ns)
  moreover assume "pc_ok nb s p" "grows v s s1" "v \<notin> set (target p)"
  ultimately show ?thesis
    using satisfied_grows[of nb s "n # ns" u v s1] grows_final[of v s s1 n] by (simp add: grows_def)
qed (use satisfied_grows[of nb s _ _ v s1] in \<open>auto simp: grows_def\<close>)

lemma rule_done_grows: "rule_done nb s u \<Longrightarrow> grows v s s1 \<Longrightarrow> u \<noteq> v \<Longrightarrow> rule_done nb s1 u"
  using satisfied_grows[of nb s "[]" u v s1] unfolding rule_done_def grows_def by (metis insertCI)


lemma member_sum_mset: "x \<in> set xs \<Longrightarrow> f x \<subseteq># sum_list (List.map f xs)" for f :: "'a \<Rightarrow> 'b multiset"
  by (induction xs) (auto simp: subset_mset.add_increasing2 subset_mset.add_increasing)

lemma owned_update:
  "k < length (workers s) \<Longrightarrow> workers s1 = (workers s)[k := p] \<Longrightarrow>
     owned s1 + mset (target (workers s ! k)) = owned s + mset (target p)"
  using sum_update[of k "workers s" "\<lambda>p. mset (target p)" p] by (simp add: owned_def)

lemma owner_unique:
  assumes "make_ok nb Q s" and "k < length (workers s)" and "v \<in> set (target (workers s ! k))"
  shows "v \<notin> set (queued s)" and "j < length (workers s) \<Longrightarrow> j \<noteq> k \<Longrightarrow> v \<notin> set (target (workers s ! j))" and "v \<in> Q"
proof -
  let ?f = "\<lambda>p. mset (target p)"
  have one: "count (mset (queued s)) v + count (owned s) v \<le> 1" using assms(1) unfolding make_ok_def by simp
  have k: "sum_list (List.map ?f ((workers s)[k := Pull])) + ?f (workers s ! k) = owned s"
    using sum_update[OF assms(2), of ?f Pull] by (simp add: owned_def)
  have "0 < count (?f (workers s ! k)) v" using assms(3) by simp
  moreover have "count (owned s) v = count (sum_list (List.map ?f ((workers s)[k := Pull]))) v + count (?f (workers s ! k)) v"
    unfolding k[symmetric] by simp
  ultimately have none: "count (mset (queued s)) v = 0" "count (sum_list (List.map ?f ((workers s)[k := Pull]))) v = 0"
    and "0 < count (owned s) v"
    using one by linarith+
  then have "v \<notin># mset (queued s)" "v \<in># mset (queued s) + owned s" by (simp_all only: count_eq_zero_iff count_greater_zero_iff union_iff simp_thms)
  then show "v \<notin> set (queued s)" "v \<in> Q" using assms(1) unfolding make_ok_def by (simp, blast)
  show "v \<notin> set (target (workers s ! j))" if "j < length (workers s)" "j \<noteq> k"
  proof -
    have "workers s ! j \<in> set ((workers s)[k := Pull])" using that by (metis length_list_update nth_list_update_neq nth_mem)
    then have "?f (workers s ! j) \<subseteq># sum_list (List.map ?f ((workers s)[k := Pull]))" by (rule member_sum_mset)
    then have "count (?f (workers s ! j)) v = 0" using none(2) by (metis mset_subset_eq_count le_zero_eq)
    then show ?thesis by (simp add: count_eq_zero_iff)
  qed
qed

lemma owned_target:
  assumes "k < length (workers s)" and "target (workers s ! k) = [v]" and "owned s1 + {#v#} = owned s + mset (target p)"
    and "target p = [v] \<or> target p = [] \<and> fin"
  shows "\<exists>m. owned s1 = owned s - m" and "u \<noteq> v \<Longrightarrow> u \<in># owned s1 \<longleftrightarrow> u \<in># owned s" and "v \<in># owned s1 \<or> fin"
proof -
  have "mset (target (workers s ! k)) \<subseteq># owned s" unfolding owned_def
    using member_sum_mset[of "workers s ! k" "workers s" "\<lambda>p. mset (target p)"] assms(1) by simp
  then have "v \<in># owned s" using assms(2) by (metis in_multiset_in_set list.set_intros(1) mset_subset_eqD)
  moreover have c: "owned s1 = owned s \<or> owned s = owned s1 + {#v#} \<and> fin" using assms(3,4) by auto
  ultimately show "u \<noteq> v \<Longrightarrow> u \<in># owned s1 \<longleftrightarrow> u \<in># owned s" "v \<in># owned s1 \<or> fin" by auto
  from c have "owned s1 = owned s - {#} \<or> owned s1 = owned s - {#v#}" by auto
  then show "\<exists>m. owned s1 = owned s - m" by blast
qed

text \<open>A step of a thread on its target, which changes nothing but the rule of the target.\<close>

lemma target_step:
  assumes ok: "make_ok nb Q s" and k: "k < length (workers s)" and t: "target (workers s ! k) = [v]"
    and g: "grows v s s1" and same: "workers s1 = workers s" "queue s1 = queue s"
    and p: "target p = [v] \<or> target p = [] \<and> state (rules s1 v) \<in> {1, 2}" "returner p = 0" "p \<noteq> Finished"
    and new: "pc_ok nb s1 p" "rule_done nb s1 v"
  shows "make_ok nb Q (goto k p s1)"
proof -
  let ?s = "goto k p s1"
  have v: "v \<notin> set (queued s)" "\<And>j. j < length (workers s) \<Longrightarrow> j \<noteq> k \<Longrightarrow> v \<notin> set (target (workers s ! j))" "v \<in> Q"
    using owner_unique[OF ok k, of v] t by simp_all
  have own: "owned ?s + {#v#} = owned s + mset (target p)" using owned_update[OF k, of ?s p] t same(1) by simp
  have q: "queued ?s = queued s" "queue ?s = queue s" using same(2) by (simp_all add: queued_def)
  have ret: "returners ?s + returner (workers s ! k) = returners s"
    using sum_update[OF k, of returner p] same(1) p(2) by (simp add: returners_def)
  have "returner (workers s ! k) = 0" using t by (cases "workers s ! k") auto
  then have ret: "returners ?s = returners s" using ret by simp
  have pend: "\<exists>m. owned ?s = owned s - m" "\<And>u. u \<noteq> v \<Longrightarrow> u \<in># owned ?s \<longleftrightarrow> u \<in># owned s"
    and pv: "v \<in># owned ?s \<or> state (rules s1 v) \<in> {1, 2}"
    using owned_target[OF k t own] p(1) by blast+
  have sub: "mset (queued ?s) + owned ?s \<subseteq># mset (queued s) + owned s"
    using pend(1) unfolding q(1) by auto
  have st: "state (rules ?s u) = state (rules s u)" "runs_of ?s u = runs_of s u" if "u \<noteq> v" for u
    using g that by (simp_all add: grows_def)
  have pcs: "pc_ok nb s1 (workers s ! j)" if "j < length (workers s)" "j \<noteq> k" for j
    using ok that v(2)[OF that] pc_ok_grows[OF _ g] by (simp add: make_ok_def)
  have ok1: "pc_ok nb ?s x \<longleftrightarrow> pc_ok nb s1 x" "rule_done nb ?s u \<longleftrightarrow> rule_done nb s1 u" for x u
    by (cases x) (simp_all add: rule_done_def satisfied_def)
  have "count (mset (queued ?s) + owned ?s) u \<le> 1" for u
    using ok mset_subset_eq_count[OF sub, of u] unfolding make_ok_def by (metis le_trans)
  moreover have "set_mset (mset (queued ?s) + owned ?s) \<subseteq> Q"
    using ok set_mset_mono[OF sub] unfolding make_ok_def by (meson subset_trans)
  moreover have "\<forall>u \<in> Q. u \<notin># mset (queued ?s) + owned ?s \<longrightarrow> state (rules ?s u) \<in> {1, 2}"
    using ok st(1) pv pend(2) q(1) unfolding make_ok_def by (metis goto_simps(1) union_iff)
  moreover have "\<forall>u \<in> set (queued ?s). state (rules ?s u) = - 1 \<and> runs_of ?s u = []"
    using ok v(1) st q(1) unfolding make_ok_def by metis
  moreover have "\<forall>x \<in> set (workers ?s). pc_ok nb ?s x"
    using pcs new(1) k unfolding ok1 by (auto simp: same in_set_conv_nth nth_list_update)
  moreover have "\<forall>u \<in> Q. rule_done nb ?s u"
    using ok new(2) rule_done_grows[OF _ g] unfolding ok1 make_ok_def by metis
  moreover have "\<forall>u. u \<notin> Q \<longrightarrow> runs_of ?s u = []" using ok v(3) st(2) unfolding make_ok_def by metis
  moreover have "Finished \<in> set (workers ?s) \<longrightarrow> queued ?s = []"
    using ok p(3) q(1) set_update_subset_insert[of "workers s" k p] by (auto simp: make_ok_def same)
  ultimately show ?thesis using ok ret q unfolding make_ok_def by simp
qed


lemma pc_ok_cong: "rules s1 = rules s \<Longrightarrow> runs s1 = runs s \<Longrightarrow> pc_ok nb s1 p \<longleftrightarrow> pc_ok nb s p"
  by (cases p) (simp_all add: satisfied_def runs_of_def)

lemma rule_done_cong: "rules s1 = rules s \<Longrightarrow> runs s1 = runs s \<Longrightarrow> rule_done nb s1 v \<longleftrightarrow> rule_done nb s v"
  by (simp add: rule_done_def satisfied_def runs_of_def)

lemma wake_simps [simp]:
  "target (wake_up p) = target p" "returner (wake_up p) = returner p" "pc_ok nb s (wake_up p) \<longleftrightarrow> pc_ok nb s p" "wake_up p = Finished \<longleftrightarrow> p = Finished"
  "Finished = wake_up p \<longleftrightarrow> p = Finished"
  by (cases p; simp)+

text \<open>A step that leaves the rules as they are.\<close>

lemma control_step:
  assumes ok: "make_ok nb Q s" and r: "rules s1 = rules s" "runs s1 = runs s"
    and m: "mset (queued s1) + owned s1 = mset (queued s) + owned s" "set (queued s1) \<subseteq> set (queued s)"
    and p: "\<And>p. p \<in> set (workers s1) \<Longrightarrow> pc_ok nb s p"
    and q: "(\<exists>q. queue s1 = List.map Some q @ [None]) \<and> returners s1 = 0 \<or> queue s1 = [] \<and> returners s1 = 1"
    and f: "Finished \<in> set (workers s1) \<Longrightarrow> queued s1 = []"
  shows "make_ok nb Q s1"
proof -
  have runs: "runs_of s1 = runs_of s" using r(2) by (simp add: runs_of_def fun_eq_iff)
  have "\<forall>v \<in> set (queued s1). state (rules s v) = - 1 \<and> runs_of s v = []" using ok m(2) unfolding make_ok_def by blast
  then show ?thesis
    using ok q f p unfolding make_ok_def m(1) pc_ok_cong[OF r] rule_done_cong[OF r] r(1) runs by simp
qed

lemma broadcast_ok:
  assumes "make_ok nb Q s"
  shows "make_ok nb Q (broadcast s)"
proof (rule control_step[OF assms])
  have "returners (broadcast s) = returners s" by (simp add: returners_def broadcast_def comp_def)
  then show "(\<exists>q. queue (broadcast s) = List.map Some q @ [None]) \<and> returners (broadcast s) = 0
      \<or> queue (broadcast s) = [] \<and> returners (broadcast s) = 1"
    using assms by (simp add: make_ok_def broadcast_def)
qed (use assms in \<open>auto simp: broadcast_def queued_def owned_def comp_def make_ok_def\<close>)

lemma idle_step:
  assumes "make_ok nb Q s" and "k < length (workers s)" and "target p = target (workers s ! k)"
    and "returner p = returner (workers s ! k)" and "pc_ok nb s p" and "p \<noteq> Finished"
  shows "make_ok nb Q (goto k p s)"
proof (rule control_step[OF assms(1)])
  have "owned (goto k p s) = owned s" using owned_update[OF assms(2), of "goto k p s" p] assms(3) by simp
  then show "mset (queued (goto k p s)) + owned (goto k p s) = mset (queued s) + owned s" by simp
  have "returners (goto k p s) = returners s"
    using sum_update[OF assms(2), of returner p] assms(4) by (simp add: returners_def)
  then show "(\<exists>q. queue (goto k p s) = List.map Some q @ [None]) \<and> returners (goto k p s) = 0
      \<or> queue (goto k p s) = [] \<and> returners (goto k p s) = 1" using assms(1) by (simp add: make_ok_def)
  show "pc_ok nb s x" if "x \<in> set (workers (goto k p s))" for x
    using that assms(1,5) set_update_subset_insert[of "workers s" k p] by (auto simp: make_ok_def)
  show "queued (goto k p s) = []" if "Finished \<in> set (workers (goto k p s))"
    using that assms(1,6) set_update_subset_insert[of "workers s" k p] by (auto simp: make_ok_def)
qed simp_all

lemma pull_step:
  fixes s :: "('v, 'c, 'w) make"
  assumes ok: "make_ok nb Q s" and k: "k < length (workers s)" "workers s ! k = Pull" and q: "queue s = x # q"
  shows "make_ok nb Q (goto k (case x of None \<Rightarrow> Returning | Some v \<Rightarrow> Got v) (s\<lparr>queue := q\<rparr>))"
proof -
  let ?p = "(case x of None \<Rightarrow> Returning | Some v \<Rightarrow> Got v) :: ('v, 'c) pc"
  let ?s = "goto k ?p (s\<lparr>queue := q\<rparr>)"
  obtain qs where qs: "queue s = List.map Some qs @ [None]" "returners s = 0" using ok q by (auto simp: make_ok_def)
  have own: "owned ?s = owned s + mset (target ?p)" using owned_update[OF k(1), of ?s ?p] k(2) by simp
  have ret: "returners ?s = returner ?p" using sum_update[OF k(1), of returner ?p] k(2) qs(2) by (simp add: returners_def)
  have sub: "set (workers ?s) \<subseteq> insert ?p (set (workers s))" by (simp add: set_update_subset_insert)
  show ?thesis
  proof (cases x)
    case None
    then have "q = []" "qs = []" using q qs(1) by (cases qs; auto)+
    then have "queued ?s = []" "queued s = []" using q by (simp_all add: queued_def List.map_filter_simps None)
    then show ?thesis
      using own ret sub ok by (intro control_step[OF ok]) (auto simp: None \<open>q = []\<close> make_ok_def)
  next
    case (Some v)
    then obtain qs' where qs': "q = List.map Some qs' @ [None]" using q qs(1) by (cases qs) auto
    have "queued s = v # queued ?s" using q by (simp add: queued_def List.map_filter_simps Some)
    then show ?thesis
      using own ret sub ok qs' by (intro control_step[OF ok]) (auto simp: Some make_ok_def)
  qed
qed

lemma return_step:
  assumes ok: "make_ok nb Q s" and k: "k < length (workers s)" "workers s ! k = Returning"
  shows "make_ok nb Q (goto k Finished (s\<lparr>queue := queue s @ [None]\<rparr>))"
proof -
  let ?s = "goto k Finished (s\<lparr>queue := queue s @ [None]\<rparr>)"
  have ret: "returners ?s + 1 = returners s" using sum_update[OF k(1), of returner Finished] k(2) by (simp add: returners_def)
  then have q: "queue s = []" "returners ?s = 0" using ok by (auto simp: make_ok_def)
  have "owned ?s = owned s" using owned_update[OF k(1), of ?s Finished] k(2) by simp
  moreover have "queued ?s = []" "queued s = []" using q(1) by (simp_all add: queued_def List.map_filter_simps)
  moreover have "set (workers ?s) \<subseteq> insert Finished (set (workers s))" by (simp add: set_update_subset_insert)
  ultimately show ?thesis using q ok by (intro control_step[OF ok]) (auto simp: make_ok_def)
qed


section \<open>Every step keeps the invariant\<close>

lemma owner_state:
  "pc_ok nb s p \<Longrightarrow> target p = [v] \<Longrightarrow> state (rules s v) \<in> {- 1, 3}"
  by (cases p) auto

lemma decided:
  assumes "make_ok nb Q s" and "v \<in> Q" and "state (rules s v) \<noteq> - 1" and "state (rules s v) \<noteq> 3"
  shows "state (rules s v) \<in> {1, 2}"
proof (rule ccontr)
  assume "state (rules s v) \<notin> {1, 2}"
  then have "v \<in># mset (queued s) + owned s" using assms(1,2) unfolding make_ok_def by blast
  moreover have "v \<notin> set (queued s)" using assms(1,3) unfolding make_ok_def by blast
  ultimately have "v \<in># owned s" by simp
  then obtain p where p: "p \<in> set (workers s)" "v \<in> set (target p)" by (auto simp: owned_def)
  moreover have "target p = [v]" using p(2) by (cases p) auto
  ultimately show False using owner_state[of nb s p v] assms by (auto simp: make_ok_def)
qed

lemma grows_refl: "state (rules s v) \<notin> {1, 2} \<Longrightarrow> grows v s s"
  by (simp add: grows_def)

lemma grows_set_rule: "state (rules s v) \<notin> {1, 2} \<Longrightarrow> grows v s (set_rule v i s)"
  by (simp add: grows_def)

lemma set_rule_step:
  assumes "make_ok nb Q s" and "k < length (workers s)" and "target (workers s ! k) = [v]"
    and "target p = [v] \<or> target p = [] \<and> i \<in> {1, 2}" and "returner p = 0" and "p \<noteq> Finished"
    and "pc_ok nb (set_rule v i s) p" and "rule_done nb (set_rule v i s) v"
  shows "make_ok nb Q (goto k p (set_rule v i s))"
proof (rule target_step[OF assms(1-3)])
  have "pc_ok nb s (workers s ! k)" using assms(1,2) by (simp add: make_ok_def)
  then have "state (rules s v) \<in> {- 1, 3}" by (rule owner_state[OF _ assms(3)])
  then show "grows v s (set_rule v i s)" by (intro grows_set_rule) auto
qed (use assms(4-8) in simp_all)

lemma runs_of_snoc: "runs s1 = runs s @ [(v, c, i)] \<Longrightarrow> runs_of s1 u = (if u = v then runs_of s u @ [(c, i)] else runs_of s u)"
  by (simp add: runs_of_def)

lemma run_step:
  assumes ok: "make_ok nb Q s" and k: "k < length (workers s)" "workers s ! k = Run v (c # cs)"
  shows "make_ok nb Q (goto k (if i \<noteq> 0 then Failed v else Run v cs) (s\<lparr>world := w, runs := runs s @ [(v, c, i)]\<rparr>))"
proof -
  obtain s1 where s1: "s1 = s\<lparr>world := w, runs := runs s @ [(v, c, i)]\<rparr>" by simp
  have pc: "pc_ok nb s (Run v (c # cs))" using ok k unfolding make_ok_def by (metis nth_mem)
  have r: "runs_of s1 u = (if u = v then runs_of s u @ [(c, i)] else runs_of s u)" for u by (rule runs_of_snoc) (simp add: s1)
  have same: "rules s1 = rules s" by (simp add: s1)
  have g: "grows v s s1" using pc by (simp add: grows_def r same)
  have sat: "satisfied nb s1 [] v" using pc satisfied_grows[OF _ g] by simp
  have "pc_ok nb s1 (if i \<noteq> 0 then Failed v else Run v cs)"
    using pc sat by (auto simp: r same prefix_def)
  moreover have "rule_done nb s1 v" using pc by (simp add: rule_done_def same)
  ultimately show ?thesis unfolding s1[symmetric] using k by (intro target_step[OF ok _ _ g]) (auto simp: s1)
qed

lemma pc_ok_at: "make_ok nb Q s \<Longrightarrow> k < length (workers s) \<Longrightarrow> pc_ok nb s (workers s ! k)"
  by (simp add: make_ok_def)

lemma satisfied_set_rule:
  "satisfied nb s [] v \<Longrightarrow> state (rules s v) \<in> {- 1, 3} \<Longrightarrow> satisfied nb (set_rule v i s) [] v"
  using satisfied_grows[OF _ grows_set_rule[of s v i]] by auto

lemma look_turn_ok:
  assumes ok: "make_ok nb Q s" and k: "k < length (workers s)" "workers s ! k = Look v ns" and turn: "turn nb mtime system k s = Some s'"
  shows "make_ok nb Q s'"
proof (cases ns)
  case Nil
  then show ?thesis using turn pc_ok_at[OF ok k(1)] k(2) idle_step[OF ok k(1), of "Stat v"] by (auto simp: turn_def)
next
  case (Cons n ns')
  note pc = pc_ok_at[OF ok k(1)] and idle = idle_step[OF ok k(1)]
  have "v \<in> Q" using owner_unique(3)[OF ok k(1), of v] k(2) by simp
  then have "n \<in> Q" using ok pc k(2) Cons by (auto simp: make_ok_def satisfied_def)
  then show ?thesis using turn pc k(2) Cons idle[of "Blocking v n ns'"] idle[of "Test v n ns'"] decided[OF ok, of n]
    by (auto simp: turn_def split: if_splits)
qed

lemma test_turn_ok:
  assumes ok: "make_ok nb Q s" and k: "k < length (workers s)" "workers s ! k = Test v n ns" and turn: "turn nb mtime system k s = Some s'"
  shows "make_ok nb Q s'"
proof (cases "state (rules s n) = 2")
  case True
  have "n \<in> set (nb v)" "n \<noteq> v" using pc_ok_at[OF ok k(1)] k(2) True by (auto simp: satisfied_def)
  then have "rule_done nb (set_rule v 2 s) v" using pc_ok_at[OF ok k(1)] k(2) True by (auto simp: rule_done_def)
  then show ?thesis using turn True k(2) set_rule_step[OF ok k(1), of v Signal 2] by (auto simp: turn_def)
next
  case False
  then have "satisfied nb s ns v" using pc_ok_at[OF ok k(1)] k(2) by (auto simp: satisfied_def)
  then show ?thesis using turn pc_ok_at[OF ok k(1)] k(2) False idle_step[OF ok k(1), of "Look v ns"] by (auto simp: turn_def)
qed

lemma run_turn_ok:
  assumes ok: "make_ok nb Q s" and k: "k < length (workers s)" "workers s ! k = Run v cs" and turn: "turn nb mtime system k s = Some s'"
  shows "make_ok nb Q s'"
proof (cases cs)
  case Nil
  then have "rule_done nb (set_rule v 1 s) v" using pc_ok_at[OF ok k(1)] k(2) satisfied_set_rule[of nb s v 1] by (auto simp: rule_done_def)
  then show ?thesis using turn k(2) Nil set_rule_step[OF ok k(1), of v Signal 1] by (auto simp: turn_def)
next
  case (Cons c cs')
  then show ?thesis using turn k(2) run_step[OF ok k(1), of v c cs'] by (auto simp: turn_def split: prod.splits)
qed

lemma turn_ok:
  assumes ok: "make_ok nb Q s" and k: "k < length (workers s)" and turn: "turn nb mtime system k s = Some s'"
  shows "make_ok nb Q s'"
proof -
  note pc = pc_ok_at[OF ok k] and idle = idle_step[OF ok k]
  show ?thesis
  proof (cases "workers s ! k")
    case Pull
    then show ?thesis using turn pull_step[OF ok k Pull] by (auto simp: turn_def split: list.splits option.splits)
  next
    case (Got v)
    then show ?thesis using turn pc idle[of "Look v (nb v)"] by (auto simp: turn_def satisfied_def)
  next
    case (Look v ns)
    then show ?thesis using look_turn_ok[OF ok k _ turn] by blast
  next
    case (Blocking v n ns)
    then show ?thesis using turn pc idle[of "Asleep v n ns"] by (auto simp: turn_def)
  next
    case (Test v n ns)
    then show ?thesis using test_turn_ok[OF ok k _ turn] by blast
  next
    case (Stat v)
    then show ?thesis using turn pc idle[of "Mark v (need_to_run_command nb mtime (world s) v)"] by (auto simp: turn_def)
  next
    case (Mark v need)
    let ?p = "Run v (if need then commands (rules s v) else [])"
    have "pc_ok nb (set_rule v 3 s) ?p" using pc Mark satisfied_set_rule[of nb s v 3] by simp
    then show ?thesis using turn Mark set_rule_step[OF ok k, of v ?p 3] by (auto simp: turn_def rule_done_def)
  next
    case (Run v cs)
    then show ?thesis using run_turn_ok[OF ok k _ turn] by blast
  next
    case (Failed v)
    then have "rule_done nb (set_rule v 2 s) v" using pc satisfied_set_rule[of nb s v 2] by (auto simp: rule_done_def)
    then show ?thesis using turn Failed set_rule_step[OF ok k, of v Signal 2] by (auto simp: turn_def)
  next
    case Signal
    then have "workers (broadcast s) ! k = Signal" "k < length (workers (broadcast s))" using k by (simp_all add: broadcast_def)
    then show ?thesis using turn Signal idle_step[OF broadcast_ok[OF ok], of k Pull] by (auto simp: turn_def)
  next
    case Returning
    then show ?thesis using turn return_step[OF ok k] by (auto simp: turn_def)
  qed (use turn in \<open>auto simp: turn_def\<close>)
qed

lemma spurious_ok:
  assumes "make_ok nb Q s" and "spurious s s'"
  shows "make_ok nb Q s'"
  using assms(2)
proof cases
  case (wakeup k)
  have "pc_ok nb s (wake_up (workers s ! k))" using assms(1) wakeup(2) by (simp add: make_ok_def)
  then show ?thesis
  proof (cases "workers s ! k = Finished")
    case True
    then have "wake_up (workers s ! k) = workers s ! k" by simp
    then have "goto k (wake_up (workers s ! k)) s = s" unfolding goto_def by simp
    then show ?thesis using assms(1) wakeup(1) by simp
  next
    case False
    then show ?thesis using idle_step[OF assms(1) wakeup(2), of "wake_up (workers s ! k)"] \<open>pc_ok nb s _\<close> wakeup(1) by simp
  qed
qed

definition any_step where
  "any_step nb mtime system s s' \<longleftrightarrow> make_step nb mtime system s s' \<or> spurious s s'"

lemma run_ok: "(any_step nb mtime system)\<^sup>*\<^sup>* s s' \<Longrightarrow> make_ok nb Q s \<Longrightarrow> make_ok nb Q s'"
proof (induction rule: rtranclp_induct)
  case (step s1 s2)
  then show ?case using turn_ok[of nb Q s1] spurious_ok[of nb Q s1 s2] by (auto simp: any_step_def elim!: make_step.cases)
qed

section \<open>The whole run\<close>

lemma start_ok:
  assumes "collect_inv nb G (rl, q)" and "0 < num_threads"
  shows "make_ok nb (set q) (start_workers num_threads (rl, q) w)"
proof -
  let ?s = "start_workers num_threads (rl, q) w"
  have i: "distinct q" "ordered nb q" "\<forall>v. state (rl v) = - 1 \<longleftrightarrow> v \<in> set q"
    using assms(1) unfolding collect_inv_def queue_ok_def prod.case by blast+
  have "List.map_filter id (List.map Some q @ [None]) = q" by (induction q) (simp_all add: List.map_filter_simps)
  then have qd: "queued ?s = q" by (simp add: queued_def start_workers_def)
  have "sum_list (replicate n {#}) = {#}" for n by (induction n) simp_all
  then have own: "owned ?s = {#}" "returners ?s = 0" by (simp_all add: owned_def returners_def start_workers_def sum_list_replicate)
  have nbs: "set (nb v) \<subseteq> set q" if v: "v \<in> set q" for v
  proof -
    obtain us vs where "q = us @ v # vs" using split_list[OF v] by blast
    then show ?thesis using i(2) unfolding ordered_def by fastforce
  qed
  have runs: "runs_of ?s v = []" for v by (simp add: runs_of_def start_workers_def)
  have st: "rules ?s = rl" by (simp add: start_workers_def)
  have "rule_done nb ?s v" if "v \<in> set q" for v
  proof -
    have "state (rl v) = - 1" using i(3) that by blast
    then show ?thesis by (simp add: rule_done_def st)
  qed
  moreover have "\<forall>p \<in> set (workers ?s). p = Pull" by (simp add: start_workers_def)
  moreover have "queue ?s = List.map Some q @ [None]" by (simp add: start_workers_def)
  ultimately show ?thesis
    using i(1,3) nbs own qd runs unfolding make_ok_def st
    by (auto simp: distinct_count_atmost_1 not_in_iff)
qed


lemma commands_kept:
  assumes "(any_step nb mtime system)\<^sup>*\<^sup>* s s'"
  shows "commands (rules s' v) = commands (rules s v)"
  using assms
proof (induction rule: rtranclp_induct)
  case (step s1 s2)
  have "commands (rules s2 v) = commands (rules s1 v)" if "turn nb mtime system k s1 = Some s2" for k
    using that by (auto simp: turn_def broadcast_def set_state_def split: pc.splits list.splits option.splits prod.splits if_splits)
  then show ?case using step by (auto simp: any_step_def elim!: make_step.cases spurious.cases)
qed simp

lemma workers_kept:
  assumes "(any_step nb mtime system)\<^sup>*\<^sup>* s s'"
  shows "length (workers s') = length (workers s)"
  using assms
proof (induction rule: rtranclp_induct)
  case (step s1 s2)
  have "length (workers s2) = length (workers s1)" if "turn nb mtime system k s1 = Some s2" for k
    using that by (auto simp: turn_def broadcast_def split: pc.splits list.splits option.splits prod.splits if_splits)
  then show ?case using step by (auto simp: any_step_def elim!: make_step.cases spurious.cases)
qed simp

lemma runs_satisfied:
  assumes "make_ok nb Q s" and "runs_of s v \<noteq> []"
  shows "satisfied nb s [] v \<and> prefix (List.map fst (runs_of s v)) (commands (rules s v))"
proof -
  have v: "v \<in> Q" using assms by (auto simp: make_ok_def)
  consider "v \<in> set (queued s)" | p where "p \<in> set (workers s)" "v \<in> set (target p)" | "state (rules s v) \<in> {1, 2}"
  proof (cases "v \<in># mset (queued s) + owned s")
    case True
    then show ?thesis using that(1,2) by (auto simp: owned_def)
  next
    case False
    then show ?thesis using that(3) assms(1) v unfolding make_ok_def by blast
  qed
  then show ?thesis
  proof cases
    case 1
    then show ?thesis using assms by (auto simp: make_ok_def)
  next
    case 2
    then have "pc_ok nb s p" using assms(1) by (simp add: make_ok_def)
    then show ?thesis using assms(2) 2(2) by - (cases p; auto simp: prefix_def)
  next
    case 3
    moreover have "rule_done nb s v" using assms(1) v by (simp add: make_ok_def)
    ultimately show ?thesis using assms(2) by (auto simp: rule_done_def prefix_def)
  qed
qed


lemma collected_ok:
  assumes "fresh_rules rl" and "closed nb V" and "set goals \<subseteq> V" and "card V < k" and "0 < num_threads"
    and "parmake_collect k nb goals rl = Inr collected"
    and "(any_step nb mtime system)\<^sup>*\<^sup>* (start_workers num_threads collected w) s"
  obtains Q where "make_ok nb Q s" and "Q = {v. \<exists>g \<in> set goals. \<not> reaches_cycle nb g \<and> (g, v) \<in> (edges nb)\<^sup>*}"
    and "\<And>v. commands (rules s v) = commands (rl v)" and "length (workers s) = num_threads"
proof -
  obtain rl' q where c: "collected = (rl', q)" "collect_inv nb (set goals) (rl', q)" "\<forall>v. commands (rl' v) = commands (rl v)"
    using parmake_collect_ok[OF assms(1-4)] assms(6) by auto
  have "set q = {v. \<exists>g \<in> set goals. \<not> reaches_cycle nb g \<and> (g, v) \<in> (edges nb)\<^sup>*}"
    using c(2) by (auto simp: collect_inv_def below_def)
  moreover have "make_ok nb (set q) s" using run_ok[OF assms(7)[unfolded c(1)] start_ok[OF c(2) assms(5)]] .
  moreover have "commands (rules s v) = commands (rl v)" for v
    using commands_kept[OF assms(7), of v] c(1,3) by (simp add: start_workers_def)
  moreover have "length (workers s) = num_threads"
    using workers_kept[OF assms(7)] c(1) by (simp add: start_workers_def)
  ultimately show ?thesis using that by metis
qed

text \<open>
  C16: whatever the interleaving of any number of workers, also with spurious wakeups: a command is run
  only when all dependencies of its target are satisfied, the commands of a target are run in order and
  at most once; a satisfied target has run all its commands successfully or had no need to; a failed one
  has a failed dependency or a failed command, behind which nothing of it was run.
\<close>

theorem parmake_workers_safe:
  assumes "fresh_rules rl" and "closed nb V" and "set goals \<subseteq> V" and "card V < k" and "0 < num_threads"
    and "parmake_collect k nb goals rl = Inr collected"
    and "(any_step nb mtime system)\<^sup>*\<^sup>* (start_workers num_threads collected w) s"
    and "\<exists>g \<in> set goals. \<not> reaches_cycle nb g \<and> (g, v) \<in> (edges nb)\<^sup>*"
  shows "(runs_of s v \<noteq> [] \<longrightarrow> (\<forall>d \<in> set (nb v). state (rules s d) = 1))
    \<and> prefix (List.map fst (runs_of s v)) (commands (rl v))
    \<and> (state (rules s v) = 1 \<longrightarrow> (\<forall>d \<in> set (nb v). state (rules s d) = 1)
        \<and> (runs_of s v = [] \<or> List.map fst (runs_of s v) = commands (rl v) \<and> (\<forall>r \<in> set (runs_of s v). snd r = 0)))
    \<and> (state (rules s v) = 2 \<longrightarrow> runs_of s v = [] \<and> (\<exists>d \<in> set (nb v). state (rules s d) = 2)
        \<or> (\<exists>rs c i. runs_of s v = rs @ [(c, i)] \<and> (\<forall>r \<in> set rs. snd r = 0) \<and> i \<noteq> 0))"
proof -
  obtain Q where ok: "make_ok nb Q s" and Q: "v \<in> Q" and cmd: "commands (rules s v) = commands (rl v)"
    using collected_ok[OF assms(1-7)] assms(8) by (metis (mono_tags, lifting) mem_Collect_eq)
  have "rule_done nb s v" using ok Q by (simp add: make_ok_def)
  moreover have "runs_of s v = [] \<or> satisfied nb s [] v \<and> prefix (List.map fst (runs_of s v)) (commands (rl v))"
    using runs_satisfied[OF ok, of v] cmd by auto
  ultimately show ?thesis using cmd by (auto simp: rule_done_def satisfied_def)
qed

lemma progress:
  assumes ok: "make_ok nb Q s" and "\<And>v n ns. Asleep v n ns \<notin> set (workers s)" and "\<exists>p \<in> set (workers s). p \<noteq> Finished"
  shows "\<exists>s'. make_step nb mtime system s s'"
proof -
  have go: "\<exists>s'. make_step nb mtime system s s'"
    if k: "k < length (workers s)" and t: "turn nb mtime system k s \<noteq> None" for k
    using that make_step.thread[OF k] by blast
  show ?thesis
  proof (cases "\<exists>k < length (workers s). workers s ! k \<notin> {Pull, Finished}")
    case True
    then obtain k where k: "k < length (workers s)" "workers s ! k \<noteq> Pull" "workers s ! k \<noteq> Finished" by auto
    have "workers s ! k \<noteq> Asleep v n ns" for v n ns using assms(2) nth_mem[OF k(1)] by metis
    then have "turn nb mtime system k s \<noteq> None"
      using k by (auto simp: turn_def split: pc.splits list.splits prod.splits)
    then show ?thesis using go[OF k(1)] by blast
  next
    case False
    then have all: "p = Pull \<or> p = Finished" if "p \<in> set (workers s)" for p using that by (auto simp: in_set_conv_nth)
    then obtain k where k: "k < length (workers s)" "workers s ! k = Pull" using assms(3) by (metis in_set_conv_nth)
    have "\<forall>p \<in> set (workers s). returner p = 0" using all by fastforce
    then have "returners s = 0" by (simp add: returners_def sum_list_eq_0_iff)
    then obtain q where "queue s = List.map Some q @ [None]" using ok by (auto simp: make_ok_def)
    then have "turn nb mtime system k s \<noteq> None" using k by (cases q) (auto simp: turn_def)
    then show ?thesis using go[OF k(1)] by blast
  qed
qed

lemma no_targets: "\<forall>p \<in> set ps. target p = [] \<Longrightarrow> sum_list (List.map (\<lambda>p. mset (target p)) ps) = {#}"
  by (induction ps) simp_all

text \<open>
  C17: as long as no worker sleeps on the condition variable and not all have returned, some worker can go
  on; when all have returned every target below a goal without cycles is satisfied or failed.
\<close>

theorem parmake_workers_progress:
  assumes "fresh_rules rl" and "closed nb V" and "set goals \<subseteq> V" and "card V < k" and "0 < num_threads"
    and "parmake_collect k nb goals rl = Inr collected"
    and "(any_step nb mtime system)\<^sup>*\<^sup>* (start_workers num_threads collected w) s"
  shows "((\<forall>v n ns. Asleep v n ns \<notin> set (workers s)) \<and> set (workers s) \<noteq> {Finished} \<longrightarrow> (\<exists>s'. make_step nb mtime system s s'))
    \<and> (set (workers s) = {Finished} \<longrightarrow> (\<forall>g \<in> set goals. \<not> reaches_cycle nb g \<longrightarrow>
         (\<forall>v. (g, v) \<in> (edges nb)\<^sup>* \<longrightarrow> state (rules s v) \<in> {1, 2})))"
proof -
  obtain Q where ok: "make_ok nb Q s" and Q: "Q = {v. \<exists>g \<in> set goals. \<not> reaches_cycle nb g \<and> (g, v) \<in> (edges nb)\<^sup>*}"
    and len: "length (workers s) = num_threads"
    by (rule collected_ok[OF assms]) blast
  have "\<exists>p \<in> set (workers s). p \<noteq> Finished" if "set (workers s) \<noteq> {Finished}"
  proof -
    have "workers s \<noteq> []" using len assms(5) by auto
    then obtain p where "p \<in> set (workers s)" by (cases "workers s") auto
    then show ?thesis using that by (cases "p = Finished") auto
  qed
  moreover have "state (rules s v) \<in> {1, 2}" if f: "set (workers s) = {Finished}" and "v \<in> Q" for v
  proof -
    have "\<forall>p \<in> set (workers s). target p = []" using f by simp
    then have "owned s = {#}" unfolding owned_def by (rule no_targets)
    moreover have "queued s = []" using ok f by (simp add: make_ok_def)
    ultimately have "v \<notin># mset (queued s) + owned s" by simp
    then show ?thesis using ok that(2) unfolding make_ok_def by blast
  qed
  moreover have "v \<in> Q" if "g \<in> set goals" "\<not> reaches_cycle nb g" "(g, v) \<in> (edges nb)\<^sup>*" for g v using that unfolding Q by blast
  ultimately show ?thesis using progress[OF ok, where mtime = mtime and system = system] by (intro conjI impI allI ballI) simp_all
qed


section \<open>The lost wakeup\<close>

fun run_schedule where
  \<comment> \<open>the threads of the list take the next steps in turn\<close>
  "run_schedule nb mtime system [] s = Some s"
| "run_schedule nb mtime system (k # ks) s =
     (if k < length (workers s) then Option.bind (turn nb mtime system k s) (run_schedule nb mtime system ks) else None)"

lemma run_schedule_steps: "run_schedule nb mtime system ks s = Some s' \<Longrightarrow> (make_step nb mtime system)\<^sup>*\<^sup>* s s'"
proof (induction ks arbitrary: s)
  case (Cons k ks)
  then obtain s1 where s1: "k < length (workers s)" "turn nb mtime system k s = Some s1" "run_schedule nb mtime system ks s1 = Some s'"
    by (auto split: if_splits bind_splits)
  then show ?case using Cons.IH[OF s1(3)] make_step.thread[OF s1(1,2)] by (meson converse_rtranclp_into_rtranclp)
qed simp

lemma make_any: "(make_step nb mtime system)\<^sup>*\<^sup>* s s' \<Longrightarrow> (any_step nb mtime system)\<^sup>*\<^sup>* s s'"
  by (erule rtranclp_mono[THEN predicate2D, rotated]) (auto simp: any_step_def)

definition pair_nb :: "nat \<Rightarrow> nat list" where "pair_nb v = (if v = 1 then [2] else [])"

abbreviation pair_step where
  "pair_step \<equiv> make_step pair_nb (\<lambda>w v. None) (\<lambda>w c. (0, ()))"

definition pair_schedule :: "nat list" where
  "pair_schedule = [0, 0, 1, 1, 1, 0, 0, 0, 0, 0, 0, 0, 0, 1]"

lemma pair_collect:
  "parmake_collect 3 pair_nb [1] demo_rules = Inr (set_state (set_state demo_rules 2 (- 1)) 1 (- 1), [2, 1])"
  by (simp add: parmake_collect_def collect_goal_def eval_nat_numeral pair_nb_def demo_rules_def set_state_def set_data_def fun_eq_iff)

lemma pair_run:
  "\<exists>s. run_schedule pair_nb (\<lambda>w v. None) (\<lambda>w c. (0, ())) pair_schedule
     (start_workers 2 (set_state (set_state demo_rules 2 (- 1)) 1 (- 1), [2, 1]) ()) = Some s
   \<and> workers s = [Finished, Asleep 1 2 []] \<and> queue s = [None] \<and> runs s = [(2, 2, 0)]
   \<and> state (rules s 1) = - 1 \<and> state (rules s 2) = 1"
  by (simp add: pair_schedule_def start_workers_def turn_def goto_def set_rule_def broadcast_def pair_nb_def numeral_2_eq_2
      need_to_run_command_def demo_rules_def set_state_def)


lemma pair_edges: "(u, v) \<in> (edges pair_nb)\<^sup>+ \<Longrightarrow> u = 1 \<and> v = 2"
  by (induction rule: trancl_induct) (auto simp: edges_def pair_nb_def split: if_splits)

lemma pair_acyclic: "\<not> reaches_cycle pair_nb g"
  using pair_edges by (fastforce simp: reaches_cycle_def)

lemma pair_closed: "closed pair_nb {1, 2}"
  by (simp add: closed_def pair_nb_def)

lemma pair_reached:
  obtains s where "pair_step\<^sup>*\<^sup>* (start_workers 2 (set_state (set_state demo_rules 2 (- 1)) 1 (- 1), [2, 1]) ()) s"
    and "workers s = [Finished, Asleep 1 2 []]" and "queue s = [None]" and "runs s = [(2, 2, 0)]"
    and "state (rules s 1) = - 1" and "state (rules s 2) = 1"
  using pair_run run_schedule_steps by metis

theorem parmake_workers_safe_witness:
  "\<exists>s. pair_step\<^sup>*\<^sup>* (start_workers 2 (set_state (set_state demo_rules 2 (- 1)) 1 (- 1), [2, 1]) ()) s
    \<and> runs_of s 2 \<noteq> [] \<and> prefix (List.map fst (runs_of s 2)) (commands (demo_rules 2))"
proof (rule pair_reached)
  fix s assume s: "pair_step\<^sup>*\<^sup>* (start_workers 2 (set_state (set_state demo_rules 2 (- 1)) 1 (- 1), [2, 1]) ()) s" "runs s = [(2, 2, 0)]"
  have "(1, 2) \<in> (edges pair_nb)\<^sup>*" by (auto simp: edges_def pair_nb_def)
  then have "\<exists>g \<in> set [1]. \<not> reaches_cycle pair_nb g \<and> (g, 2) \<in> (edges pair_nb)\<^sup>*" using pair_acyclic by simp
  then have "prefix (List.map fst (runs_of s 2)) (commands (demo_rules 2))"
    using parmake_workers_safe[OF demo_fresh pair_closed _ _ _ pair_collect make_any[OF s(1)], of 2] by simp
  moreover have "runs_of s 2 \<noteq> []" by (simp add: runs_of_def s(2))
  ultimately show ?thesis using s(1) by blast
qed

theorem parmake_workers_progress_witness:
  "\<exists>s'. pair_step (start_workers 2 (set_state (set_state demo_rules 2 (- 1)) 1 (- 1), [2, 1]) ()) s'"
  using parmake_workers_progress[OF demo_fresh pair_closed _ _ _ pair_collect rtranclp.rtrancl_refl, of 2]
  by (simp add: start_workers_def)

text \<open>
  C18: the state of a dependency is tested without the mutex that the wait then takes: a worker that has
  seen its dependency unfinished misses the broadcast that comes before it sleeps. Two workers and a goal
  with one dependency reach a state in which the dependency is satisfied, one worker has returned, the
  other sleeps, nobody can go on, and the goal is never built.
\<close>

theorem parmake_loses_wakeup:
  "\<exists>collected s. parmake_collect 3 pair_nb [1] demo_rules = Inr collected
    \<and> pair_step\<^sup>*\<^sup>* (start_workers 2 collected ()) s \<and> (\<forall>s'. \<not> pair_step s s')
    \<and> workers s = [Finished, Asleep 1 2 []] \<and> state (rules s 2) = 1 \<and> state (rules s 1) = - 1"
proof (rule pair_reached)
  fix s assume s: "pair_step\<^sup>*\<^sup>* (start_workers 2 (set_state (set_state demo_rules 2 (- 1)) 1 (- 1), [2, 1]) ()) s"
    "workers s = [Finished, Asleep 1 2 []]" "state (rules s 1) = - 1" "state (rules s 2) = 1"
  have "\<not> pair_step s s'" for s'
    by (auto elim!: make_step.cases simp: s(2) turn_def less_Suc_eq)
  then show ?thesis using pair_collect s by blast
qed

end
