(* ===== verification/Drm_Threads.thy ===== *)
theory Drm_Threads
  imports Drm
begin

text \<open>
  Threads that share the mutexes of \<^verbatim>\<open>deadlock_demolition/libdrm.c\<close>: calls of \<open>drm_wait\<close> and \<open>drm_post\<close> by
  any threads in any order, and behind them the \<open>pthread_mutex_t\<close> of each resource, which a granted wait
  locks and a post unlocks after the critical section of the call.
\<close>

section \<open>The system\<close>

datatype 'v stage = Idle | Locking 'v | Unlocking 'v

record ('g, 'v) system =
  lib :: "'g drm_state"
  held :: "'v \<Rightarrow> 'v option" \<comment> \<open>who holds \<open>drm->m\<close>\<close>
  stage :: "'v \<Rightarrow> 'v stage"

fun after :: "outcome \<Rightarrow> 'v \<Rightarrow> 'v stage" where
  "after (Returns i) d = Idle"
| "after Locks_then_returns_1 d = Locking d"
| "after Unlocks_and_returns_1 d = Unlocking d"

inductive drm_step for L k D T G where
  call_wait: "t \<in> T \<Longrightarrow> d \<in> D \<Longrightarrow> stage s t = Idle \<Longrightarrow> drm_wait L k (lib s) d t = Inr (Some (out, st'))
    \<Longrightarrow> drm_step L k D T G s (s\<lparr>lib := st', stage := (stage s)(t := after out d)\<rparr>)"
| call_post: "t \<in> T \<Longrightarrow> d \<in> D \<Longrightarrow> stage s t = Idle \<Longrightarrow> drm_post L (lib s) d t = Some (out, st')
    \<Longrightarrow> drm_step L k D T G s (s\<lparr>lib := st', stage := (stage s)(t := after out d)\<rparr>)"
| lock: "t \<in> T \<Longrightarrow> stage s t = Locking d \<Longrightarrow> held s d = None \<Longrightarrow> G s t d
    \<comment> \<open>\<open>G\<close> restricts which of the waiting threads may get the mutex\<close>
    \<Longrightarrow> drm_step L k D T G s (s\<lparr>held := (held s)(d := Some t), stage := (stage s)(t := Idle)\<rparr>)"
| unlock: "t \<in> T \<Longrightarrow> stage s t = Unlocking d
    \<Longrightarrow> drm_step L k D T G s (s\<lparr>held := (held s)(d := None), stage := (stage s)(t := Idle)\<rparr>)"

abbreviation wait_graph :: "('g, 'v) graph_lib \<Rightarrow> ('g, 'v) system \<Rightarrow> ('v \<times> 'v) set" where
  "wait_graph L s \<equiv> edge_set L (graph (lib s))"

definition start_system :: "('g, 'v) graph_lib \<Rightarrow> 'v set \<Rightarrow> ('g, 'v) system \<Rightarrow> bool" where
  \<comment> \<open>the resources \<open>D\<close> have been created, nothing has happened\<close>
  "start_system L D s \<longleftrightarrow> drm_inv L (lib s) D D \<and> wait_graph L s = {} \<and> (\<forall>d. held s d = None) \<and> (\<forall>t. stage s t = Idle)"

section \<open>The invariant\<close>

definition system_ok :: "('g, 'v) graph_lib \<Rightarrow> 'v set \<Rightarrow> 'v set \<Rightarrow> ('g, 'v) system \<Rightarrow> bool" where
  "system_ok L D T s \<longleftrightarrow> (\<exists>V \<subseteq> D \<union> T. drm_inv L (lib s\<lparr>mtx := False\<rparr>) V D)
     \<and> (\<forall>u v. (u, v) \<in> wait_graph L s \<longrightarrow> u \<in> D \<and> v \<in> T \<or> u \<in> T \<and> v \<in> D \<and> stage s u = Locking v)
     \<and> (\<forall>d \<in> D. \<forall>x y. (d, x) \<in> wait_graph L s \<longrightarrow> (d, y) \<in> wait_graph L s \<longrightarrow> x = y)
     \<and> (\<forall>d \<in> D. \<forall>t. (d, t) \<in> wait_graph L s \<longrightarrow> stage s t = Locking d \<or> held s d = Some t)
     \<and> (\<forall>t d. stage s t = Unlocking d \<longrightarrow> d \<in> D \<and> held s d = Some t \<and> (d, t) \<notin> wait_graph L s)
     \<and> (\<forall>d y. held s d = Some y \<longrightarrow> y \<in> T \<and> stage s y \<noteq> Locking d \<and> ((d, y) \<in> wait_graph L s \<or> stage s y = Unlocking d))
     \<and> (\<forall>t d. stage s t = Locking d \<longrightarrow> d \<in> D \<and> ((d, t) \<in> wait_graph L s \<or> (t, d) \<in> wait_graph L s))"

lemma threads_start_ok: "start_system L D s \<Longrightarrow> system_ok L D T s"
proof -
  assume s: "start_system L D s"
  then have "lib s\<lparr>mtx := False\<rparr> = lib s" by (simp add: start_system_def drm_inv_def)
  then show ?thesis using s unfolding system_ok_def start_system_def by auto
qed

lemma wait_cases:
  assumes L: "graph_lib_ok L" and ok: "system_ok L D T s" and DT: "D \<inter> T = {}" "finite (D \<union> T)" "card (D \<union> T) + 1 < k"
    and c: "t \<in> T" "d \<in> D" "stage s t = Idle" "drm_wait L k (lib s) d t = Inr (Some (out, st'))"
  obtains "(d, t) \<in> wait_graph L s" and "out = Returns 0" and "st' = lib s\<lparr>mtx := True\<rparr>" and "\<not> mtx (lib s)"
  | V E' where "drm_inv L st' V D" and "V \<subseteq> D \<union> T" and "edge_set L (graph st') = E'" and "\<not> mtx (lib s)"
    and "out = Returns 0 \<and> E' = wait_graph L s
      \<or> out = Locks_then_returns_1 \<and> E' = insert (d, t) (wait_graph L s) \<and> (\<forall>x. (d, x) \<notin> wait_graph L s)
      \<or> out = Locks_then_returns_1 \<and> E' = insert (t, d) (wait_graph L s) \<and> (\<exists>x. (d, x) \<in> wait_graph L s \<and> x \<noteq> t)"
proof -
  have m: "\<not> mtx (lib s)" using c(4) by (auto simp: drm_wait_def)
  then have same: "lib s\<lparr>mtx := False\<rparr> = lib s" by simp
  obtain V where V: "V \<subseteq> D \<union> T" "drm_inv L (lib s) V D" using ok by (auto simp: system_ok_def same)
  have "card V \<le> card (D \<union> T)" using V(1) DT(2) by (rule card_mono[rotated])
  then have k: "card V + 1 < k" using DT(3) by simp
  have t: "t \<notin> D" using c(1) DT(1) by auto
  let ?o = "neighbors L (graph (lib s)) d"
  have own: "x \<in> set ?o \<longleftrightarrow> (d, x) \<in> wait_graph L s" for x by (simp add: edges_def)
  note W = drm_wait_ok[OF L V(2) c(2) t k, unfolded c(4)]
  have V': "insert t V \<subseteq> D \<union> T" using V(1) c(1) by auto
  show ?thesis
  proof (cases "?o \<noteq> [] \<and> hd ?o = t")
    case True
    then have "(d, t) \<in> wait_graph L s" using own hd_in_set by metis
    moreover have "out = Returns 0 \<and> st' = lib s\<lparr>mtx := True\<rparr>" using c(4) m True by (auto simp: drm_wait_def Let_def)
    ultimately show ?thesis using that(1) m by blast
  next
    case False
    consider "?o = []" | "?o \<noteq> []" "hd ?o \<noteq> t" "(d, t) \<in> (wait_graph L s)\<^sup>*" | "?o \<noteq> []" "hd ?o \<noteq> t" "(d, t) \<notin> (wait_graph L s)\<^sup>*"
      using False by blast
    then show ?thesis
    proof cases
      case 1
      then have "out = Locks_then_returns_1" "edge_set L (graph st') = insert (d, t) (wait_graph L s)" "drm_inv L st' (insert t V) D"
        using W by auto
      moreover have "\<forall>x. (d, x) \<notin> wait_graph L s" using own 1 by auto
      ultimately show ?thesis using that(2) V' m by blast
    next
      case 2
      then have "out = Returns 0" "edge_set L (graph st') = wait_graph L s" "drm_inv L st' (insert t V) D" using W by auto
      then show ?thesis using that(2) V' m by blast
    next
      case 3
      then have "out = Locks_then_returns_1" "edge_set L (graph st') = insert (t, d) (wait_graph L s)" "drm_inv L st' (insert t V) D"
        using W by auto
      moreover have "\<exists>x. (d, x) \<in> wait_graph L s \<and> x \<noteq> t" using own 3(1,2) hd_in_set by metis
      ultimately show ?thesis using that(2) V' m by blast
    qed
  qed
qed


text \<open>The parts of the invariant, for states built from their parts.\<close>

lemma system_okI:
  assumes "V \<subseteq> D \<union> T" and "drm_inv L (lib s\<lparr>mtx := False\<rparr>) V D"
    and "\<And>u v. (u, v) \<in> wait_graph L s \<Longrightarrow> u \<in> D \<and> v \<in> T \<or> u \<in> T \<and> v \<in> D \<and> stage s u = Locking v"
    and "\<And>d x y. d \<in> D \<Longrightarrow> (d, x) \<in> wait_graph L s \<Longrightarrow> (d, y) \<in> wait_graph L s \<Longrightarrow> x = y"
    and "\<And>d t. d \<in> D \<Longrightarrow> (d, t) \<in> wait_graph L s \<Longrightarrow> stage s t = Locking d \<or> held s d = Some t"
    and "\<And>t d. stage s t = Unlocking d \<Longrightarrow> d \<in> D \<and> held s d = Some t \<and> (d, t) \<notin> wait_graph L s"
    and "\<And>d y. held s d = Some y \<Longrightarrow> y \<in> T \<and> stage s y \<noteq> Locking d \<and> ((d, y) \<in> wait_graph L s \<or> stage s y = Unlocking d)"
    and "\<And>t d. stage s t = Locking d \<Longrightarrow> d \<in> D \<and> ((d, t) \<in> wait_graph L s \<or> (t, d) \<in> wait_graph L s)"
  shows "system_ok L D T s"
  using assms unfolding system_ok_def by blast

lemma system_okD:
  assumes "system_ok L D T s"
  shows "\<And>u v. (u, v) \<in> wait_graph L s \<Longrightarrow> u \<in> D \<and> v \<in> T \<or> u \<in> T \<and> v \<in> D \<and> stage s u = Locking v"
    and "\<And>d x y. d \<in> D \<Longrightarrow> (d, x) \<in> wait_graph L s \<Longrightarrow> (d, y) \<in> wait_graph L s \<Longrightarrow> x = y"
    and "\<And>d t. d \<in> D \<Longrightarrow> (d, t) \<in> wait_graph L s \<Longrightarrow> stage s t = Locking d \<or> held s d = Some t"
    and "\<And>t d. stage s t = Unlocking d \<Longrightarrow> d \<in> D \<and> held s d = Some t \<and> (d, t) \<notin> wait_graph L s"
    and "\<And>d y. held s d = Some y \<Longrightarrow> y \<in> T \<and> stage s y \<noteq> Locking d \<and> ((d, y) \<in> wait_graph L s \<or> stage s y = Unlocking d)"
    and "\<And>t d. stage s t = Locking d \<Longrightarrow> d \<in> D \<and> ((d, t) \<in> wait_graph L s \<or> (t, d) \<in> wait_graph L s)"
  using assms unfolding system_ok_def by blast+

lemma idle_thread:
  assumes "system_ok L D T s" and "D \<inter> T = {}" and "t \<in> T" and "stage s t = Idle"
  shows "(t, v) \<notin> wait_graph L s" and "e \<in> D \<Longrightarrow> (e, t) \<in> wait_graph L s \<Longrightarrow> held s e = Some t"
    and "t \<notin> D" and "(stage s)(t := Idle) = stage s"
  using assms system_okD(1)[OF assms(1), of t v] system_okD(3)[OF assms(1), of e t] by auto

lemma granted_ok:
  assumes ok: "system_ok L D T s" and DT: "D \<inter> T = {}" and c: "t \<in> T" "d \<in> D" "stage s t = Idle"
    and V: "drm_inv L st' V D" "V \<subseteq> D \<union> T" and E': "edge_set L (graph st') = insert (d, t) (wait_graph L s)"
    and free: "\<forall>x. (d, x) \<notin> wait_graph L s"
  shows "system_ok L D T (s\<lparr>lib := st', stage := (stage s)(t := Locking d)\<rparr>)" (is "system_ok L D T ?s")
proof (rule system_okI[of V])
  note ok' = system_okD[OF ok] and idle = idle_thread[OF ok DT c(1,3)]
  have stage: "stage ?s u = (if u = t then Locking d else stage s u)" "held ?s = held s" for u by simp_all
  have E: "wait_graph L ?s = insert (d, t) (wait_graph L s)" using E' by simp
  show "drm_inv L (lib ?s\<lparr>mtx := False\<rparr>) V D" using V(1) by (simp add: drm_inv_def)
  show "u \<in> D \<and> v \<in> T \<or> u \<in> T \<and> v \<in> D \<and> stage ?s u = Locking v" if "(u, v) \<in> wait_graph L ?s" for u v
    using that c(1,2) ok'(1)[of u v] idle(1) unfolding E stage by auto
  show "x = y" if "e \<in> D" "(e, x) \<in> wait_graph L ?s" "(e, y) \<in> wait_graph L ?s" for e x y
    using that free ok'(2)[of e x y] unfolding E by auto
  show "stage ?s u = Locking e \<or> held ?s e = Some u" if "e \<in> D" "(e, u) \<in> wait_graph L ?s" for e u
    using that free ok'(3)[of e u] idle(2)[of e] unfolding E stage by auto
  show "e \<in> D \<and> held ?s e = Some u \<and> (e, u) \<notin> wait_graph L ?s" if "stage ?s u = Unlocking e" for u e
    using that ok'(4)[of u e] unfolding E stage by (auto split: if_splits)
  show "y \<in> T \<and> stage ?s y \<noteq> Locking e \<and> ((e, y) \<in> wait_graph L ?s \<or> stage ?s y = Unlocking e)" if "held ?s e = Some y" for e y
    using that free ok'(5)[of e y] c(3) unfolding E stage by auto
  show "e \<in> D \<and> ((e, u) \<in> wait_graph L ?s \<or> (u, e) \<in> wait_graph L ?s)" if "stage ?s u = Locking e" for u e
    using that c(2) ok'(6)[of u e] unfolding E stage by (auto split: if_splits)
qed (use V in auto)

lemma queued_ok:
  assumes ok: "system_ok L D T s" and DT: "D \<inter> T = {}" and c: "t \<in> T" "d \<in> D" "stage s t = Idle"
    and V: "drm_inv L st' V D" "V \<subseteq> D \<union> T" and E': "edge_set L (graph st') = insert (t, d) (wait_graph L s)"
    and owned: "(d, x) \<in> wait_graph L s" "x \<noteq> t"
  shows "system_ok L D T (s\<lparr>lib := st', stage := (stage s)(t := Locking d)\<rparr>)" (is "system_ok L D T ?s")
proof (rule system_okI[of V])
  note ok' = system_okD[OF ok] and idle = idle_thread[OF ok DT c(1,3)]
  have td: "d \<notin> T" using c(2) DT by auto
  have stage: "stage ?s u = (if u = t then Locking d else stage s u)" "held ?s = held s" for u by simp_all
  have E: "wait_graph L ?s = insert (t, d) (wait_graph L s)" using E' by simp
  show "drm_inv L (lib ?s\<lparr>mtx := False\<rparr>) V D" using V(1) by (simp add: drm_inv_def)
  show "u \<in> D \<and> v \<in> T \<or> u \<in> T \<and> v \<in> D \<and> stage ?s u = Locking v" if "(u, v) \<in> wait_graph L ?s" for u v
    using that c(1,2) ok'(1)[of u v] idle(1) unfolding E stage by auto
  show "x = y" if "e \<in> D" "(e, x) \<in> wait_graph L ?s" "(e, y) \<in> wait_graph L ?s" for e x y
    using that idle(3) ok'(2)[of e x y] unfolding E by auto
  show "stage ?s u = Locking e \<or> held ?s e = Some u" if "e \<in> D" "(e, u) \<in> wait_graph L ?s" for e u
    using that idle(2)[of e] idle(3) ok'(3)[of e u] unfolding E stage by auto
  show "e \<in> D \<and> held ?s e = Some u \<and> (e, u) \<notin> wait_graph L ?s" if "stage ?s u = Unlocking e" for u e
    using that ok'(4)[of u e] idle(3) unfolding E stage by (auto split: if_splits)
  show "y \<in> T \<and> stage ?s y \<noteq> Locking e \<and> ((e, y) \<in> wait_graph L ?s \<or> stage ?s y = Unlocking e)" if "held ?s e = Some y" for e y
    using that owned ok'(5)[of e y] ok'(2)[OF c(2), of t] c(3) unfolding E stage by auto
  show "e \<in> D \<and> ((e, u) \<in> wait_graph L ?s \<or> (u, e) \<in> wait_graph L ?s)" if "stage ?s u = Locking e" for u e
    using that c(2) ok'(6)[of u e] unfolding E stage by (auto split: if_splits)
qed (use V in auto)

lemma wait_ok:
  assumes L: "graph_lib_ok L" and ok: "system_ok L D T s" and DT: "D \<inter> T = {}" "finite (D \<union> T)" "card (D \<union> T) + 1 < k"
    and c: "t \<in> T" "d \<in> D" "stage s t = Idle" "drm_wait L k (lib s) d t = Inr (Some (out, st'))"
  shows "system_ok L D T (s\<lparr>lib := st', stage := (stage s)(t := after out d)\<rparr>)"
proof (rule wait_cases[OF assms])
  assume "out = Returns 0" "st' = lib s\<lparr>mtx := True\<rparr>"
  then show ?thesis using ok idle_thread(4)[OF ok DT(1) c(1,3)] unfolding system_ok_def by simp
next
  fix V E' assume V: "drm_inv L st' V D" "V \<subseteq> D \<union> T" "edge_set L (graph st') = E'"
    and how: "out = Returns 0 \<and> E' = wait_graph L s
      \<or> out = Locks_then_returns_1 \<and> E' = insert (d, t) (wait_graph L s) \<and> (\<forall>x. (d, x) \<notin> wait_graph L s)
      \<or> out = Locks_then_returns_1 \<and> E' = insert (t, d) (wait_graph L s) \<and> (\<exists>x. (d, x) \<in> wait_graph L s \<and> x \<noteq> t)"
  have m: "st'\<lparr>mtx := False\<rparr> = st'" using V(1) by (simp add: drm_inv_def)
  from how show ?thesis
  proof (elim disjE conjE exE)
    assume "out = Returns 0" "E' = wait_graph L s"
    then show ?thesis using ok V m idle_thread(4)[OF ok DT(1) c(1,3)] unfolding system_ok_def by auto
  next
    assume "out = Locks_then_returns_1" "E' = insert (d, t) (wait_graph L s)" "\<forall>x. (d, x) \<notin> wait_graph L s"
    then show ?thesis using granted_ok[OF ok DT(1) c(1-3) V(1,2)] V(3) by simp
  next
    fix x assume "out = Locks_then_returns_1" "E' = insert (t, d) (wait_graph L s)" "(d, x) \<in> wait_graph L s" "x \<noteq> t"
    then show ?thesis using queued_ok[OF ok DT(1) c(1-3) V(1,2)] V(3) by simp
  qed
qed

text \<open>A release: the edge to the thread goes, and the first waiting thread \<open>w\<close>, if there is one, becomes the owner.\<close>

lemma released_ok:
  assumes ok: "system_ok L D T s" and DT: "D \<inter> T = {}" and c: "t \<in> T" "d \<in> D" "stage s t = Idle" "(d, t) \<in> wait_graph L s"
    and V: "drm_inv L st' V D" "V \<subseteq> D \<union> T" and W: "W = {} \<or> (\<exists>w. W = {w} \<and> w \<in> T \<and> stage s w = Locking d)"
    and E': "edge_set L (graph st') = (wait_graph L s - {(d, t)}) \<union> Pair d ` W - (\<lambda>w. (w, d)) ` W"
  shows "system_ok L D T (s\<lparr>lib := st', stage := (stage s)(t := Unlocking d)\<rparr>)" (is "system_ok L D T ?s")
proof (rule system_okI[of V])
  note ok' = system_okD[OF ok] and idle = idle_thread[OF ok DT c(1,3)]
  have td: "d \<notin> T" using c(2) DT by auto
  have held: "held s d = Some t" by (rule idle(2)[OF c(2,4)])
  have hdw: "w \<in> T \<and> stage s w = Locking d \<and> w \<noteq> t" if "w \<in> W" for w using W that c(3) by auto
  have stage: "stage ?s u = (if u = t then Unlocking d else stage s u)" "held ?s = held s" for u by simp_all
  have E: "wait_graph L ?s = (wait_graph L s - {(d, t)}) \<union> Pair d ` W - (\<lambda>w. (w, d)) ` W" using E' by simp
  have sub: "(u, v) \<in> wait_graph L s \<and> (u, v) \<noteq> (d, t) \<or> u = d \<and> v \<in> W" if "(u, v) \<in> wait_graph L ?s" for u v
    using that unfolding E by auto
  have keep: "(u, v) \<in> wait_graph L ?s" if "(u, v) \<in> wait_graph L s" "(u, v) \<noteq> (d, t)" "v = d \<longrightarrow> u \<notin> W" for u v
    using that unfolding E by auto
  have moved: "(d, w) \<in> wait_graph L ?s" if "w \<in> W" for w using that td hdw unfolding E by auto
  show "drm_inv L (lib ?s\<lparr>mtx := False\<rparr>) V D" using V(1) by (simp add: drm_inv_def)
  show "u \<in> D \<and> v \<in> T \<or> u \<in> T \<and> v \<in> D \<and> stage ?s u = Locking v" if "(u, v) \<in> wait_graph L ?s" for u v
    using sub[OF that] ok'(1)[of u v] hdw[of v] c(2,3) td unfolding stage by auto
  show "x = y" if e: "e \<in> D" and xy: "(e, x) \<in> wait_graph L ?s" "(e, y) \<in> wait_graph L ?s" for e x y
    using sub[OF xy(1)] sub[OF xy(2)] ok'(2)[OF e, of x y] ok'(2)[OF c(2,4)] W by auto
  show "stage ?s u = Locking e \<or> held ?s e = Some u" if e: "e \<in> D" and u: "(e, u) \<in> wait_graph L ?s" for e u
    using sub[OF u] ok'(3)[OF e, of u] hdw[of u] c(3) unfolding stage by auto
  show "e \<in> D \<and> held ?s e = Some u \<and> (e, u) \<notin> wait_graph L ?s" if "stage ?s u = Unlocking e" for u e
    using that held c(2) sub[of e u] hdw[of u] ok'(4)[of u e] td unfolding stage by (auto split: if_splits)
  show "y \<in> T \<and> stage ?s y \<noteq> Locking e \<and> ((e, y) \<in> wait_graph L ?s \<or> stage ?s y = Unlocking e)" if "held ?s e = Some y" for e y
    using that ok'(5)[of e y] keep[of e y] c(3) td hdw[of e] unfolding stage by auto
  show "e \<in> D \<and> ((e, u) \<in> wait_graph L ?s \<or> (u, e) \<in> wait_graph L ?s)" if l: "stage ?s u = Locking e" for u e
  proof -
    have u: "u \<noteq> t" "e \<in> D" "(e, u) \<in> wait_graph L s \<or> (u, e) \<in> wait_graph L s"
      using l ok'(6)[of u e] unfolding stage by (auto split: if_splits)
    then have "e \<noteq> t" "e \<notin> W" using idle(3) hdw[of e] DT by auto
    then show ?thesis using u keep[of e u] keep[of u e] moved[of u] by blast
  qed
qed (use V in auto)

lemma post_ok:
  assumes L: "graph_lib_ok L" and ok: "system_ok L D T s" and DT: "D \<inter> T = {}"
    and c: "t \<in> T" "d \<in> D" "stage s t = Idle" "drm_post L (lib s) d t = Some (out, st')"
  shows "system_ok L D T (s\<lparr>lib := st', stage := (stage s)(t := after out d)\<rparr>)"
proof -
  note ok' = system_okD[OF ok]
  have "\<not> mtx (lib s)" using c(4) by (auto simp: drm_post_def)
  then have "lib s\<lparr>mtx := False\<rparr> = lib s" by simp
  then obtain V where V: "V \<subseteq> D \<union> T" "drm_inv L (lib s) V D" using ok by (auto simp: system_ok_def)
  let ?o = "neighbors L (graph (lib s)) d" and ?ws = "antineighbors L (graph (lib s)) d"
  have own: "x \<in> set ?o \<longleftrightarrow> (d, x) \<in> wait_graph L s" for x by (simp add: edges_def)
  have anti: "x \<in> set ?ws \<longleftrightarrow> (x, d) \<in> wait_graph L s" for x using L unfolding graph_lib_ok_def by blast
  have ws: "x \<in> T \<and> stage s x = Locking d" if "x \<in> set ?ws" for x using ok'(1)[of x d] anti that c(1,2) DT by auto
  have one: "set ?o \<subseteq> {hd ?o}"
    using ok'(2)[OF c(2), of _ "hd ?o"] own by (metis hd_in_set list.set_cases neq_Nil_conv singletonI subsetI)
  have only: "x = d" if "?ws \<noteq> []" "(hd ?ws, x) \<in> wait_graph L s" for x
    using ok'(1)[OF that(2)] ws[OF hd_in_set[OF that(1)]] DT by auto
  have "set ?ws \<inter> D = {}" using ws DT by auto
  note P = drm_post_correct[OF L V(2) c(2) refl refl one only this, of t]
  show ?thesis
  proof (cases "?o \<noteq> [] \<and> hd ?o = t")
    case False
    then have "drm_post L (lib s) d t = Some (Returns 0, lib s)" using P by blast
    then show ?thesis using c(4) ok idle_thread(4)[OF ok DT c(1,3)] by simp
  next
    case True
    let ?W = "if ?ws = [] then {} else {hd ?ws}"
    have "out = Unlocks_and_returns_1" "drm_inv L st' V D"
      "edge_set L (graph st') = (wait_graph L s - {(d, t)}) \<union> Pair d ` ?W - (\<lambda>w. (w, d)) ` ?W"
      using P True c(4) by auto
    moreover have "(d, t) \<in> wait_graph L s" using True own hd_in_set by metis
    moreover have "?W = {} \<or> (\<exists>w. ?W = {w} \<and> w \<in> T \<and> stage s w = Locking d)" using ws[OF hd_in_set] by simp
    ultimately show ?thesis using released_ok[OF ok DT c(1-3) _ _ V(1), of st' ?W] by simp
  qed
qed

lemma lock_ok:
  assumes ok: "system_ok L D T s" and c: "stage s t = Locking d" "held s d = None" "(d, t) \<in> wait_graph L s" "d \<in> D"
    and DT: "D \<inter> T = {}"
  shows "system_ok L D T (s\<lparr>held := (held s)(d := Some t), stage := (stage s)(t := Idle)\<rparr>)"
proof -
  note ok' = system_okD[OF ok]
  obtain V where V: "V \<subseteq> D \<union> T" "drm_inv L (lib s\<lparr>mtx := False\<rparr>) V D" using ok unfolding system_ok_def by blast
  let ?s = "s\<lparr>held := (held s)(d := Some t), stage := (stage s)(t := Idle)\<rparr>"
  have E: "wait_graph L ?s = wait_graph L s" by simp
  have "acyclic (wait_graph L s)" using V(2) by (simp add: drm_inv_def)
  then have "(t, d) \<notin> wait_graph L s" using c(3) by (meson acyclic_def trancl.r_into_trancl trancl_trans)
  moreover have "t \<notin> D" using ok'(1)[OF c(3)] c(4) DT by auto
  ultimately have none: "(t, v) \<notin> wait_graph L s" for v using ok'(1)[of t v] c(1) by auto
  show ?thesis
  proof (rule system_okI[of V])
    show "drm_inv L (lib ?s\<lparr>mtx := False\<rparr>) V D" using V(2) by simp
    show "u \<in> D \<and> v \<in> T \<or> u \<in> T \<and> v \<in> D \<and> stage ?s u = Locking v" if "(u, v) \<in> wait_graph L ?s" for u v
      using that ok'(1)[of u v] none unfolding E by auto
    show "x = y" if "e \<in> D" "(e, x) \<in> wait_graph L ?s" "(e, y) \<in> wait_graph L ?s" for e x y
      using ok'(2) that unfolding E by blast
    show "stage ?s u = Locking e \<or> held ?s e = Some u" if eu: "e \<in> D" "(e, u) \<in> wait_graph L ?s" for e u
    proof (cases "e = d")
      case True
      then show ?thesis using ok'(2)[OF c(4) c(3), of u] eu(2) unfolding E by simp
    next
      case False
      then show ?thesis using ok'(3)[OF eu(1), of u] eu(2) c(1) unfolding E by (cases "u = t") auto
    qed
    show "e \<in> D \<and> held ?s e = Some u \<and> (e, u) \<notin> wait_graph L ?s" if "stage ?s u = Unlocking e" for u e
      using that ok'(4)[of u e] c(2) unfolding E by (auto split: if_splits)
    show "y \<in> T \<and> stage ?s y \<noteq> Locking e \<and> ((e, y) \<in> wait_graph L ?s \<or> stage ?s y = Unlocking e)" if "held ?s e = Some y" for e y
      using that ok'(5)[of e y] ok'(1)[OF c(3)] c DT unfolding E by (auto split: if_splits)
    show "e \<in> D \<and> ((e, u) \<in> wait_graph L ?s \<or> (u, e) \<in> wait_graph L ?s)" if "stage ?s u = Locking e" for u e
      using that ok'(6)[of u e] unfolding E by (auto split: if_splits)
  qed (rule V)
qed

lemma unlock_ok:
  assumes ok: "system_ok L D T s" and c: "stage s t = Unlocking d"
  shows "system_ok L D T (s\<lparr>held := (held s)(d := None), stage := (stage s)(t := Idle)\<rparr>)"
proof -
  note ok' = system_okD[OF ok]
  obtain V where V: "V \<subseteq> D \<union> T" "drm_inv L (lib s\<lparr>mtx := False\<rparr>) V D" using ok unfolding system_ok_def by blast
  let ?s = "s\<lparr>held := (held s)(d := None), stage := (stage s)(t := Idle)\<rparr>"
  have E: "wait_graph L ?s = wait_graph L s" by simp
  have t: "d \<in> D" "held s d = Some t" "(d, t) \<notin> wait_graph L s" using ok'(4)[OF c] by auto
  show ?thesis
  proof (rule system_okI[of V])
    show "drm_inv L (lib ?s\<lparr>mtx := False\<rparr>) V D" using V(2) by simp
    show "u \<in> D \<and> v \<in> T \<or> u \<in> T \<and> v \<in> D \<and> stage ?s u = Locking v" if "(u, v) \<in> wait_graph L ?s" for u v
      using that ok'(1)[of u v] c unfolding E by auto
    show "x = y" if "e \<in> D" "(e, x) \<in> wait_graph L ?s" "(e, y) \<in> wait_graph L ?s" for e x y
      using ok'(2) that unfolding E by blast
    show "stage ?s u = Locking e \<or> held ?s e = Some u" if "e \<in> D" "(e, u) \<in> wait_graph L ?s" for e u
      using that ok'(3)[of e u] t c unfolding E by (cases "u = t"; cases "e = d") auto
    show "e \<in> D \<and> held ?s e = Some u \<and> (e, u) \<notin> wait_graph L ?s" if "stage ?s u = Unlocking e" for u e
      using that ok'(4)[of u e] t unfolding E by (auto split: if_splits)
    show "y \<in> T \<and> stage ?s y \<noteq> Locking e \<and> ((e, y) \<in> wait_graph L ?s \<or> stage ?s y = Unlocking e)" if "held ?s e = Some y" for e y
      using that ok'(5)[of e y] c unfolding E by (auto split: if_splits)
    show "e \<in> D \<and> ((e, u) \<in> wait_graph L ?s \<or> (u, e) \<in> wait_graph L ?s)" if "stage ?s u = Locking e" for u e
      using that ok'(6)[of u e] unfolding E by (auto split: if_splits)
  qed (rule V)
qed

section \<open>Runs in which the mutex goes to the owner of the graph\<close>

definition handed_over where
  "handed_over L s t d \<longleftrightarrow> (d, t) \<in> wait_graph L s"

lemma threads_run_ok:
  assumes "graph_lib_ok L" and "D \<inter> T = {}" and "finite (D \<union> T)" and "card (D \<union> T) + 1 < k"
    and "(drm_step L k D T (handed_over L))\<^sup>*\<^sup>* s s'" and "system_ok L D T s"
  shows "system_ok L D T s'"
  using assms(5,6)
proof (induction rule: rtranclp_induct)
  case (step s1 s2)
  then have ok: "system_ok L D T s1" by simp
  from step(2) show ?case
  proof cases
    case (call_wait t d out st')
    then show ?thesis using wait_ok[OF assms(1) ok assms(2-4)] by simp
  next
    case (call_post t d out st')
    then show ?thesis using post_ok[OF assms(1) ok assms(2)] by simp
  next
    case (lock t d)
    then have "(d, t) \<in> wait_graph L s1" by (simp add: handed_over_def)
    moreover from this have "d \<in> D" using system_okD(1)[OF ok, of d t] lock(2) assms(2) by blast
    ultimately show ?thesis using lock_ok[OF ok lock(3,4)] assms(2) lock(1) by simp
  next
    case (unlock t d)
    then show ?thesis using unlock_ok[OF ok] by simp
  qed
qed


lemma last_waiter:
  \<comment> \<open>along the edges of an acyclic graph in which owned resources lead on, some owner waits for nothing\<close>
  assumes fin: "finite E" and ac: "acyclic E" and x: "c \<in> D" "(c, x) \<in> E"
    and owned: "\<And>t d. (t, d) \<in> E \<Longrightarrow> d \<in> D \<Longrightarrow> \<exists>y. (d, y) \<in> E"
    and next_is: "\<And>c t d. c \<in> D \<Longrightarrow> (c, t) \<in> E \<Longrightarrow> (t, d) \<in> E \<Longrightarrow> d \<in> D"
  obtains c z where "c \<in> D" "(c, z) \<in> E" "\<And>d. (z, d) \<notin> E"
proof -
  let ?O = "{y. \<exists>c \<in> D. (c, y) \<in> E}"
  have wf: "wf ((E\<inverse>)\<^sup>+)" using fin ac by (intro wf_trancl finite_acyclic_wf_converse)
  have "x \<in> ?O" using x by blast
  then obtain z where zO: "z \<in> ?O" and min: "\<And>y. (y, z) \<in> (E\<inverse>)\<^sup>+ \<Longrightarrow> y \<notin> ?O"
    using wfE_min[OF wf, of x ?O thesis] by simp
  obtain c where c: "c \<in> D" "(c, z) \<in> E" using zO by blast
  have "(z, d) \<notin> E" for d
  proof
    assume d: "(z, d) \<in> E"
    then have D: "d \<in> D" using next_is c by blast
    then obtain y where y: "(d, y) \<in> E" using owned[OF d] by blast
    have "(y, z) \<in> (E\<inverse>)\<^sup>+" using d y by (meson converse_iff trancl.r_into_trancl trancl_trans)
    then show False using min D y by blast
  qed
  with c show ?thesis by (rule that)
qed

definition can_move :: "('g, 'v) graph_lib \<Rightarrow> 'v set \<Rightarrow> 'v set \<Rightarrow> ('g, 'v) system \<Rightarrow> bool" where
  \<comment> \<open>some thread can lock what it was granted, is on its way to unlock, or runs and holds a resource\<close>
  "can_move L D T s \<longleftrightarrow> (\<exists>t \<in> T. \<exists>d \<in> D. stage s t = Locking d \<and> held s d = None \<and> (d, t) \<in> wait_graph L s
     \<or> stage s t = Unlocking d \<or> stage s t = Idle \<and> held s d = Some t)"

lemma granted_can_move:
  assumes ok: "system_ok L D T s" and t: "stage s t = Locking d" "(d, t) \<in> wait_graph L s" and DT: "D \<inter> T = {}"
  shows "can_move L D T s"
proof (cases "held s d")
  case None
  moreover have "d \<in> D" "t \<in> T" using system_okD(6)[OF ok t(1)] system_okD(1)[OF ok t(2)] DT by auto
  ultimately show ?thesis using t unfolding can_move_def by blast
next
  case (Some y)
  have d: "d \<in> D" using system_okD(6)[OF ok t(1)] by simp
  have y: "y \<in> T" "stage s y \<noteq> Locking d" "(d, y) \<in> wait_graph L s \<or> stage s y = Unlocking d"
    using system_okD(5)[OF ok Some] by auto
  then have "(d, y) \<notin> wait_graph L s" using system_okD(2)[OF ok d t(2), of y] t(1) by auto
  then show ?thesis using y d unfolding can_move_def by blast
qed

lemma blocked_can_move:
  assumes ok: "system_ok L D T s" and blocked: "stage s t = Locking d" and DT: "D \<inter> T = {}"
  shows "can_move L D T s"
proof (cases "(d, t) \<in> wait_graph L s")
  case False
  let ?E = "wait_graph L s"
  note ok' = system_okD[OF ok]
  obtain V where V: "drm_inv L (lib s\<lparr>mtx := False\<rparr>) V D" using ok unfolding system_ok_def by blast
  have fin: "finite ?E" "acyclic ?E"
    using V by (auto simp: drm_inv_def graph_ok_def intro: finite_subset)
  have owned: "\<exists>x. (d, x) \<in> ?E" if "(t, d) \<in> ?E" "d \<in> D" for t d
    using V that by (auto simp: drm_inv_def neighbors_nil)
  have td: "(t, d) \<in> ?E" "d \<in> D" using ok'(6)[OF blocked] False by auto
  obtain x where x: "(d, x) \<in> ?E" using owned[OF td] by blast
  have next_is: "d \<in> D" if "c \<in> D" "(c, t) \<in> ?E" "(t, d) \<in> ?E" for c t d
    using ok'(1)[OF that(2)] ok'(1)[OF that(3)] that(1) DT by auto
  obtain c z where c: "c \<in> D" "(c, z) \<in> ?E" and last: "\<And>e. (z, e) \<notin> ?E"
    by (rule last_waiter[OF fin td(2) x]) (blast intro: owned next_is)+
  have zT: "z \<in> T" using ok'(1)[OF c(2)] c(1) DT by auto
  show ?thesis
  proof (cases "stage s z")
    case Idle
    then show ?thesis using ok'(3)[OF c] zT c(1) unfolding can_move_def by auto
  next
    case (Locking e)
    then show ?thesis using granted_can_move[OF ok Locking _ DT] ok'(6)[OF Locking] last by blast
  next
    case (Unlocking e)
    then show ?thesis using ok'(4)[OF Unlocking] zT unfolding can_move_def by blast
  qed
qed (rule granted_can_move[OF ok blocked _ DT])



section \<open>When another waiting thread gets the mutex\<close>

text \<open>One resource, three threads, and a graph library whose lists have the newest edge first.\<close>

definition one_resource :: "(list_graph, nat) system" where
  "one_resource = \<lparr>lib = \<lparr>graph = ([2], [], \<lambda>_. 0), mtx = False\<rparr>, held = (\<lambda>_. None), stage = (\<lambda>_. Idle)\<rparr>"

lemma one_resource_starts: "start_system list_lib {2} one_resource"
proof -
  have "neighbors list_lib ([2], [], \<lambda>_. 0) = (\<lambda>v. [])" by (simp add: list_lib_def fun_eq_iff)
  then show ?thesis
    by (simp add: start_system_def one_resource_def drm_inv_def graph_ok_def edges_def list_lib_def acyclic_def)
qed

abbreviation drm_of :: "nat list \<Rightarrow> (nat \<times> nat) list \<Rightarrow> (nat \<Rightarrow> int) \<Rightarrow> list_graph drm_state" where
  "drm_of vs es f \<equiv> \<lparr>graph = (vs, es, f), mtx = False\<rparr>"

lemma isCyclic_numeral:
  "isCyclic (numeral n) L g key =
     (if get_vertex_value L g key = 1 then Inr (True, set_vertex_value L g key 0)
      else let v = neighbors L g key
        in if v = [] then Inr (False, g)
           else rbind (scan (isCyclic (pred_numeral n) L) v False (set_vertex_value L g key 1))
                  (\<lambda>(r, g'). Inr (r, set_vertex_value L g' key 0)))"
  by (simp only: numeral_eq_Suc isCyclic.simps)

lemma one_resource_calls:
  "drm_wait list_lib 9 (drm_of [2] [] (\<lambda>_. 0)) 2 3 = Inr (Some (Locks_then_returns_1, drm_of [3, 2] [(2, 3)] (\<lambda>_. 0)))"
  "drm_wait list_lib 9 (drm_of [3, 2] [(2, 3)] (\<lambda>_. 0)) 2 4
     = Inr (Some (Locks_then_returns_1, drm_of [4, 3, 2] [(4, 2), (2, 3)] (\<lambda>_. 0)))"
  "drm_wait list_lib 9 (drm_of [4, 3, 2] [(4, 2), (2, 3)] (\<lambda>_. 0)) 2 5
     = Inr (Some (Locks_then_returns_1, drm_of [5, 4, 3, 2] [(5, 2), (4, 2), (2, 3)] (\<lambda>_. 0)))"
  "drm_post list_lib (drm_of [5, 4, 3, 2] [(5, 2), (4, 2), (2, 3)] (\<lambda>_. 0)) 2 3
     = Some (Unlocks_and_returns_1, drm_of [5, 4, 3, 2] [(2, 5), (4, 2)] (\<lambda>_. 0))"
  "drm_post list_lib (drm_of [5, 4, 3, 2] [(2, 5), (4, 2)] (\<lambda>_. 0)) 2 4
     = Some (Returns 0, drm_of [5, 4, 3, 2] [(2, 5), (4, 2)] (\<lambda>_. 0))"
  by (simp_all add: drm_wait_def drm_post_def list_lib_def isCyclic_numeral fun_eq_iff fun_upd_def)


abbreviation one_step where
  "one_step \<equiv> drm_step list_lib 9 {2} {3, 4, 5} (\<lambda>s t d. True)"

definition one_state :: "list_graph drm_state \<Rightarrow> nat option \<Rightarrow> nat stage \<Rightarrow> nat stage \<Rightarrow> nat stage \<Rightarrow> (list_graph, nat) system" where
  "one_state l h a b c = \<lparr>lib = l, held = (\<lambda>_. None)(2 := h), stage = (\<lambda>_. Idle)(3 := a, 4 := b, 5 := c)\<rparr>"

lemma one_state_stage [simp]:
  "stage (one_state l h a b c) 3 = a" "stage (one_state l h a b c) 4 = b" "stage (one_state l h a b c) 5 = c"
  by (simp_all add: one_state_def)

lemma one_state_calls:
  "stage (one_state l h a b c) t = Idle \<Longrightarrow> t \<in> {3, 4, 5} \<Longrightarrow> drm_wait list_lib 9 l 2 t = Inr (Some (out, l'))
    \<Longrightarrow> one_step (one_state l h a b c) (one_state l' h (if t = 3 then after out 2 else a) (if t = 4 then after out 2 else b) (if t = 5 then after out 2 else c))"
  "stage (one_state l h a b c) t = Idle \<Longrightarrow> t \<in> {3, 4, 5} \<Longrightarrow> drm_post list_lib l 2 t = Some (out, l')
    \<Longrightarrow> one_step (one_state l h a b c) (one_state l' h (if t = 3 then after out 2 else a) (if t = 4 then after out 2 else b) (if t = 5 then after out 2 else c))"
  using drm_step.call_wait[of t "{3, 4, 5}" 2 "{2}" "one_state l h a b c" list_lib 9 out l' "\<lambda>s t d. True"]
    drm_step.call_post[of t "{3, 4, 5}" 2 "{2}" "one_state l h a b c" list_lib out l' 9 "\<lambda>s t d. True"]
  by (auto simp: one_state_def fun_upd_twist)

lemma one_state_locks:
  "one_step (one_state l None (Locking 2) b c) (one_state l (Some 3) Idle b c)"
  "one_step (one_state l None a (Locking 2) c) (one_state l (Some 4) a Idle c)"
  "one_step (one_state l h (Unlocking 2) b c) (one_state l None Idle b c)"
  using drm_step.lock[of 3 "{3, 4, 5}" "one_state l None (Locking 2) b c" 2 "\<lambda>s t d. True" list_lib 9 "{2}"]
    drm_step.lock[of 4 "{3, 4, 5}" "one_state l None a (Locking 2) c" 2 "\<lambda>s t d. True" list_lib 9 "{2}"]
    drm_step.unlock[of 3 "{3, 4, 5}" "one_state l h (Unlocking 2) b c" 2 list_lib 9 "{2}" "\<lambda>s t d. True"]
  by (simp_all add: one_state_def fun_upd_twist)

definition passed_over :: "(list_graph, nat) system" where
  \<comment> \<open>the graph has given the resource to 5, the mutex has gone to 4\<close>
  "passed_over = one_state (drm_of [5, 4, 3, 2] [(2, 5), (4, 2)] (\<lambda>_. 0)) (Some 4) Idle Idle (Locking 2)"

lemma passed_over_reachable: "one_step\<^sup>*\<^sup>* one_resource passed_over"
proof -
  let ?g1 = "drm_of [3, 2] [(2, 3)] (\<lambda>_. 0)" and ?g2 = "drm_of [4, 3, 2] [(4, 2), (2, 3)] (\<lambda>_. 0)"
    and ?g3 = "drm_of [5, 4, 3, 2] [(5, 2), (4, 2), (2, 3)] (\<lambda>_. 0)" and ?g4 = "drm_of [5, 4, 3, 2] [(2, 5), (4, 2)] (\<lambda>_. 0)"
  note calls = one_resource_calls and wait = one_state_calls(1) and post = one_state_calls(2)
  have start: "one_resource = one_state (drm_of [2] [] (\<lambda>_. 0)) None Idle Idle Idle"
    by (simp add: one_resource_def one_state_def fun_eq_iff)
  have "one_step one_resource (one_state ?g1 None (Locking 2) Idle Idle)"
    unfolding start using wait[OF _ _ calls(1), of None Idle Idle Idle] by simp
  moreover have "one_step (one_state ?g1 None (Locking 2) Idle Idle) (one_state ?g1 (Some 3) Idle Idle Idle)"
    by (rule one_state_locks)
  moreover have "one_step (one_state ?g1 (Some 3) Idle Idle Idle) (one_state ?g2 (Some 3) Idle (Locking 2) Idle)"
    using wait[OF _ _ calls(2), of "Some 3" Idle Idle Idle] by simp
  moreover have "one_step (one_state ?g2 (Some 3) Idle (Locking 2) Idle) (one_state ?g3 (Some 3) Idle (Locking 2) (Locking 2))"
    using wait[OF _ _ calls(3), of "Some 3" Idle "Locking 2" Idle] by simp
  moreover have "one_step (one_state ?g3 (Some 3) Idle (Locking 2) (Locking 2)) (one_state ?g4 (Some 3) (Unlocking 2) (Locking 2) (Locking 2))"
    using post[OF _ _ calls(4), of "Some 3" Idle "Locking 2" "Locking 2"] by simp
  moreover have "one_step (one_state ?g4 (Some 3) (Unlocking 2) (Locking 2) (Locking 2)) (one_state ?g4 None Idle (Locking 2) (Locking 2))"
    by (rule one_state_locks)
  moreover have "one_step (one_state ?g4 None Idle (Locking 2) (Locking 2)) passed_over"
    unfolding passed_over_def by (rule one_state_locks)
  ultimately show ?thesis by (meson rtranclp.rtrancl_into_rtrancl rtranclp.rtrancl_refl)
qed

definition starving :: "(list_graph, nat) system \<Rightarrow> bool" where
  "starving s \<longleftrightarrow> (\<exists>V \<subseteq> {2, 3, 4, 5}. drm_inv list_lib (lib s\<lparr>mtx := False\<rparr>) V {2})
     \<and> (\<forall>x. (2, x) \<in> wait_graph list_lib s \<longleftrightarrow> x = 5) \<and> stage s 5 = Locking 2 \<and> held s 2 = Some 4
     \<and> (\<forall>t. stage s t \<noteq> Unlocking 2)"

lemma starving_passed_over: "starving passed_over"
proof -
  have "acyclic {(2::nat, 5), (4, 2)}"
    by (rule wf_acyclic[OF wf_subset[of "measure (\<lambda>n. if n = 4 then 0 else if n = 2 then 1 else 2)"]]) auto
  moreover have "graph_ok list_lib ([5, 4, 3, 2], [(2, 5), (4, 2)], \<lambda>_. 0) {2, 3, 4, 5}"
    by (auto simp: graph_ok_def list_lib_edges) (auto simp: list_lib_def)
  ultimately have "drm_inv list_lib (drm_of [5, 4, 3, 2] [(2, 5), (4, 2)] (\<lambda>_. 0)) {2, 3, 4, 5} {2}"
    unfolding drm_inv_def neighbors_nil by (auto simp: list_lib_edges)
  then show ?thesis
    by (auto simp: starving_def passed_over_def one_state_def list_lib_edges fun_upd_def intro!: exI[of _ "{2, 3, 4, 5}"])
qed

lemma starving_step: "one_step s s' \<Longrightarrow> starving s \<Longrightarrow> starving s'"
proof (induction rule: drm_step.induct)
  case (call_wait t d s out st')
  let ?E = "wait_graph list_lib s"
  have d: "d = 2" and t: "t \<noteq> 2" "t \<noteq> 5" using call_wait by (auto simp: starving_def)
  have m: "\<not> mtx (lib s)" using call_wait(4) by (auto simp: drm_wait_def)
  then have same: "lib s\<lparr>mtx := False\<rparr> = lib s" by simp
  obtain V where V: "V \<subseteq> {2, 3, 4, 5}" "drm_inv list_lib (lib s) V {2}" using call_wait(5) by (auto simp: starving_def same)
  have "card V \<le> card {2, 3, 4, 5::nat}" using V(1) by (intro card_mono) auto
  then have k: "card V + 1 < 9" by simp
  let ?o = "neighbors list_lib (graph (lib s)) 2"
  have own: "x \<in> set ?o \<longleftrightarrow> x = 5" for x using call_wait(5) by (simp add: starving_def edges_def)
  have "?o \<noteq> []" using own[of 5] by (cases ?o) simp_all
  then have o: "?o \<noteq> []" "hd ?o = 5" using own[of "hd ?o"] by simp_all
  have I: "drm_inv list_lib st' (insert t V) {2}" and E: "edge_set list_lib (graph st') = ?E \<or> edge_set list_lib (graph st') = insert (t, 2) ?E"
    and out: "after out (2::nat) \<noteq> Unlocking 2"
    using drm_wait_ok[OF list_lib_ok V(2) _ _ k, of 2 t] call_wait(4) o t unfolding d by auto
  have m': "st'\<lparr>mtx := False\<rparr> = st'" using I by (simp add: drm_inv_def)
  let ?s = "s\<lparr>lib := st', stage := (stage s)(t := after out d)\<rparr>"
  have "insert t V \<subseteq> {2, 3, 4, 5}" using V(1) call_wait(1) by auto
  moreover have "drm_inv list_lib (lib ?s\<lparr>mtx := False\<rparr>) (insert t V) {2}" using I m' by simp
  moreover have "(2, x) \<in> wait_graph list_lib ?s \<longleftrightarrow> x = 5" for x
  proof -
    have "(2, x) \<in> ?E \<longleftrightarrow> x = 5" using call_wait(5) by (simp add: starving_def)
    then show ?thesis using E t(1) by auto
  qed
  moreover have "stage ?s 5 = Locking 2" "held ?s 2 = Some 4" using call_wait(5) t(2) by (simp_all add: starving_def)
  moreover have "stage ?s u \<noteq> Unlocking 2" for u using call_wait(5) out by (simp add: starving_def d)
  ultimately show ?case unfolding starving_def by blast
next
  case (call_post t d s out st')
  have d: "d = 2" and t: "t \<noteq> 5" using call_post by (auto simp: starving_def)
  let ?o = "neighbors list_lib (graph (lib s)) 2"
  have own: "x \<in> set ?o \<longleftrightarrow> x = 5" for x using call_post(5) by (simp add: starving_def edges_def)
  have "?o \<noteq> []" using own[of 5] by (cases ?o) simp_all
  then have "hd ?o = 5" using own[of "hd ?o"] by simp
  then have "out = Returns 0 \<and> st' = lib s" using call_post(4) t by (auto simp: drm_post_def d Let_def split: if_splits)
  then show ?case using call_post(3,5) by (auto simp: starving_def)
next
  case (lock t s d)
  then show ?case by (auto simp: starving_def)
next
  case (unlock t s d)
  then show ?case by (auto simp: starving_def)
qed

text \<open>
  C13: \<open>drm_post\<close> makes the first waiting thread of the graph the owner, but any waiting thread may get
  the mutex. With one resource and three threads a state is reachable from which on, whatever the threads
  do, thread 4 holds the mutex and can never release it, because the graph names thread 5 as the owner,
  and thread 5 waits for it for ever.
\<close>

theorem drm_handoff_starves:
  "\<exists>s. one_step\<^sup>*\<^sup>* one_resource s \<and> (\<forall>s'. one_step\<^sup>*\<^sup>* s s' \<longrightarrow> stage s' 5 = Locking 2 \<and> held s' 2 = Some 4)"
proof (intro exI conjI allI impI)
  show "one_step\<^sup>*\<^sup>* one_resource passed_over" by (rule passed_over_reachable)
  fix s' assume "one_step\<^sup>*\<^sup>* passed_over s'"
  then have "starving s'" by (induction rule: rtranclp_induct) (auto intro: starving_passed_over starving_step)
  then show "stage s' 5 = Locking 2" "held s' 2 = Some 4" by (simp_all add: starving_def)
qed

theorem drm_handoff_starves_witness:
  "\<exists>s. one_step\<^sup>*\<^sup>* one_resource s \<and> stage s 5 = Locking 2 \<and> held s 2 = Some 4"
  using drm_handoff_starves by blast


end
