(* ===== verification/Drm_Lifecycle.thy ===== *)
theory Drm_Lifecycle
  imports Drm
begin

text \<open>
  Creation and destruction in \<^verbatim>\<open>deadlock_demolition/libdrm.c\<close>. All resources share one graph: the first
  \<open>drm_init\<close> creates it and every \<open>drm_destroy\<close> destroys it. The library's state is the graph, if
  there is one, the mutex \<open>mtx\<close>, and the set of structures that are allocated; a call that hands the
  library a null graph, or locks the mutex of a structure that was freed, is a fault.
\<close>

record ('g, 'v) library =
  g :: "'g option"
  mtx_held :: bool
  allocated :: "'v set"

definition with_graph ::
  "('g, 'v) library \<Rightarrow> 'v \<Rightarrow> ('g drm_state \<Rightarrow> (outcome \<times> 'g drm_state) option res)
     \<Rightarrow> (outcome \<times> ('g, 'v) library) option res" where
  \<comment> \<open>a call on the graph; the structure itself is touched only when its mutex is locked or unlocked\<close>
  "with_graph st drm call =
     (if mtx_held st then Inr None
      else case g st of None \<Rightarrow> Inl Null_Deref
      | Some gr \<Rightarrow> rbind (call \<lparr>graph = gr, mtx = False\<rparr>) (\<lambda>r.
          case r of None \<Rightarrow> Inr None
          | Some (out, s) \<Rightarrow>
              if drm \<notin> allocated st \<and> out \<in> {Locks_then_returns_1, Unlocks_and_returns_1} then Inl Dangling
              else Inr (Some (out, st\<lparr>g := Some (graph s), mtx_held := mtx s\<rparr>))))"

definition wait_call ::
  "('g, 'v) graph_lib \<Rightarrow> nat \<Rightarrow> ('g, 'v) library \<Rightarrow> 'v \<Rightarrow> 'v \<Rightarrow> (outcome \<times> ('g, 'v) library) option res" where
  "wait_call L fuel st drm t = with_graph st drm (\<lambda>s. drm_wait L fuel s drm t)"

definition post_call ::
  "('g, 'v) graph_lib \<Rightarrow> ('g, 'v) library \<Rightarrow> 'v \<Rightarrow> 'v \<Rightarrow> (outcome \<times> ('g, 'v) library) option res" where
  "post_call L st drm t = with_graph st drm (\<lambda>s. Inr (drm_post L s drm t))"

definition init_call ::
  "('g, 'v) graph_lib \<Rightarrow> 'g \<Rightarrow> ('g, 'v) library \<Rightarrow> 'v \<Rightarrow> ('g, 'v) library option" where
  \<comment> \<open>with the graph \<open>shallow_graph_create\<close> answers and the address \<open>malloc\<close> gives\<close>
  "init_call L new_graph st mydrm =
     (let gr = (case g st of None \<Rightarrow> new_graph | Some gr \<Rightarrow> gr) in
      map_option (\<lambda>s. st\<lparr>g := Some (graph s), allocated := insert mydrm (allocated st)\<rparr>)
        (drm_init L \<lparr>graph = gr, mtx = mtx_held st\<rparr> mydrm))"

definition drm_destroy :: "('g, 'v) library \<Rightarrow> 'v \<Rightarrow> ('g, 'v) library option res" where
  "drm_destroy st drm =
     (if mtx_held st then Inr None
      else if drm \<notin> allocated st then Inl Dangling
      else Inr (Some (st\<lparr>g := None, allocated := allocated st - {drm}\<rparr>)))"

section \<open>Destroying one resource destroys the graph of all\<close>

lemma destroy_breaks_others:
  assumes "drm_destroy st drm = Inr (Some st')"
  shows "wait_call L k st' other t = Inl Null_Deref" and "post_call L st' other t = Inl Null_Deref"
  using assms by (auto simp: drm_destroy_def wait_call_def post_call_def with_graph_def split: if_splits)

lemma destroy_forgets_owners:
  \<comment> \<open>a new resource brings the graph back, without the owners: the owner's \<open>drm_post\<close> is refused\<close>
  assumes L: "graph_lib_ok L" and d: "drm_destroy st drm = Inr (Some st')" and o: "other \<in> allocated st" "other \<noteq> drm"
    and e: "edge_set L new_graph = {}" "\<not> contains_vertex L new_graph fresh"
    and i: "init_call L new_graph st' fresh = Some st''"
  shows "post_call L st'' other t = Inr (Some (Returns 0, st''))"
proof -
  have st': "st' = st\<lparr>g := None, allocated := allocated st - {drm}\<rparr>" "\<not> mtx_held st"
    using d by (auto simp: drm_destroy_def split: if_splits)
  let ?g = "set_vertex_value L (add_vertex L new_graph fresh) fresh 0"
  have "contains_vertex L (add_vertex L new_graph fresh) fresh" "edge_set L (add_vertex L new_graph fresh) = {}"
    using L e unfolding graph_lib_ok_def by simp_all
  moreover from this(1) have "neighbors L ?g = neighbors L (add_vertex L new_graph fresh)"
    using L unfolding graph_lib_ok_def by blast
  ultimately have "neighbors L ?g other = []" by (auto simp: neighbors_nil)
  moreover have "st'' = st\<lparr>g := Some ?g, allocated := insert fresh (allocated st - {drm})\<rparr>"
    using i st' by (auto simp: init_call_def drm_init_def)
  ultimately show ?thesis
    using o st'(2) by (simp add: post_call_def with_graph_def drm_post_def)
qed

end
