(* ===== verification/Mapreduce.thy ===== *)
theory Mapreduce
  imports Ctype
begin

text \<open>
  The pipeline of \<^verbatim>\<open>mapreduce/mapreduce.c\<close>: one splitter and one mapper per input part, one reducer, tied
  together by pipes. A process is its table of descriptors and the program it runs; \<open>fork\<close> copies the
  table, \<open>pipe\<close> and \<open>open\<close> take the lowest free descriptors below the limit of the process. The
  collection of descriptors of \<^verbatim>\<open>utils.h\<close> is a parameter; that it closes what was added and nothing else
  is a hypothesis. Whether a fork succeeds and how the processes end is decided by the kernel.
\<close>

section \<open>Descriptors\<close>

datatype stream = Inherited nat | Pipe_Read nat | Pipe_Write nat | Output_File

type_synonym fdtable = "stream option list"

type_synonym closer = "nat list \<Rightarrow> fdtable \<Rightarrow> fdtable" \<comment> \<open>\<open>descriptors_closeall\<close>, after the descriptors added\<close>

definition opened :: "fdtable \<Rightarrow> nat \<Rightarrow> stream option" where
  "opened t fd = (if fd < length t then t ! fd else None)"

definition free_fd :: "fdtable \<Rightarrow> nat" where
  "free_fd t = length (takeWhile (\<lambda>f. f \<noteq> None) t)"

definition open_fd :: "fdtable \<Rightarrow> stream \<Rightarrow> fdtable" where
  "open_fd t f = (if free_fd t < length t then t[free_fd t := Some f] else t @ [Some f])"

definition dup2 :: "fdtable \<Rightarrow> nat option \<Rightarrow> nat \<Rightarrow> fdtable" where
  \<comment> \<open>of a descriptor that is not open (here a failed \<open>open\<close>, \<open>None\<close>) it fails and changes nothing\<close>
  "dup2 t old new = (case old of None \<Rightarrow> t
     | Some fd \<Rightarrow> (if opened t fd = None \<or> length t \<le> new then t else t[new := opened t fd]))"

section \<open>The program\<close>

definition make_pipe :: "nat \<Rightarrow> nat \<Rightarrow> fdtable \<Rightarrow> (nat list \<times> fdtable) res" where
  \<comment> \<open>the result of \<open>pipe\<close> is not tested: after a failure the descriptors added are indeterminate\<close>
  "make_pipe limit p t =
     (let r = free_fd t; t1 = open_fd t (Pipe_Read p); w = free_fd t1 in
      if w < limit then Inr ([r, w], open_fd t1 (Pipe_Write p)) else Inl Uninit_Read)"

fun make_pipes :: "nat \<Rightarrow> nat \<Rightarrow> nat \<Rightarrow> fdtable \<Rightarrow> (nat list \<times> fdtable) res" where
  \<comment> \<open>\<open>k\<close> pipes, the first with number \<open>p\<close>\<close>
  "make_pipes limit p 0 t = Inr ([], t)"
| "make_pipes limit p (Suc k) t = rbind (make_pipe limit p t) (\<lambda>(ds, t1).
     rbind (make_pipes limit (Suc p) k t1) (\<lambda>(ds', t2). Inr (ds @ ds', t2)))"

definition open_output_file :: "nat \<Rightarrow> bool \<Rightarrow> fdtable \<Rightarrow> nat option \<times> fdtable" where
  "open_output_file limit can_open t =
     (if can_open \<and> free_fd t < limit then (Some (free_fd t), open_fd t Output_File) else (None, t))"

record child =
  command :: "string list"
  table :: fdtable

definition splitter :: "closer \<Rightarrow> nat list \<Rightarrow> nat list \<Rightarrow> fdtable \<Rightarrow> string list \<Rightarrow> nat \<Rightarrow> child res" where
  \<comment> \<open>\<open>index\<close> has room for four digits\<close>
  "splitter closeall map_fds descriptors t argv i =
     (if 5 \<le> length (decimal i) then Inl Out_Of_Bounds
      else Inr \<lparr>command = [''./splitter'', argv ! 1, argv ! 5, decimal i],
        table = closeall descriptors (dup2 t (Some (map_fds ! (2 * i + 1))) 1)\<rparr>)"

definition mapper :: "closer \<Rightarrow> nat list \<Rightarrow> nat list \<Rightarrow> nat list \<Rightarrow> fdtable \<Rightarrow> string list \<Rightarrow> nat \<Rightarrow> child" where
  "mapper closeall map_fds reduce_fds descriptors t argv i =
     \<lparr>command = [argv ! 3],
      table = closeall descriptors (dup2 (dup2 t (Some (map_fds ! (2 * i))) 0) (Some (reduce_fds ! 1)) 1)\<rparr>"

definition reducer_child :: "closer \<Rightarrow> nat list \<Rightarrow> nat option \<Rightarrow> nat list \<Rightarrow> fdtable \<Rightarrow> string list \<Rightarrow> child" where
  "reducer_child closeall reduce_fds output_fd descriptors t argv =
     \<lparr>command = [argv ! 4], table = closeall descriptors (dup2 (dup2 t (Some (reduce_fds ! 0)) 0) output_fd 1)\<rparr>"

fun fork_all :: "(nat \<Rightarrow> 'c) \<Rightarrow> (nat \<Rightarrow> bool) \<Rightarrow> nat \<Rightarrow> nat \<Rightarrow> 'c list \<times> bool" where
  \<comment> \<open>the loop that starts \<open>k\<close> children from number \<open>i\<close>; false when a fork failed and the parent exits\<close>
  "fork_all body forks i 0 = ([], True)"
| "fork_all body forks i (Suc k) =
     (if forks i then (case fork_all body forks (Suc i) k of (cs, ok) \<Rightarrow> (body i # cs, ok)) else ([], False))"

record pipeline =
  splitters :: "child res list"
  mappers :: "child list"
  reducers :: "child list"
  parent :: "fdtable option" \<comment> \<open>\<open>None\<close> when it has exited after a failed fork\<close>

record forks =
  split_forks :: "nat \<Rightarrow> bool"
  map_forks :: "nat \<Rightarrow> bool"
  reduce_fork :: bool

definition start_pipeline :: "closer \<Rightarrow> nat \<Rightarrow> bool \<Rightarrow> forks \<Rightarrow> fdtable \<Rightarrow> string list \<Rightarrow> pipeline res" where
  "start_pipeline closeall limit can_open fk t argv =
     (if length argv \<le> 5 then Inl Null_Deref
      else if atoi (argv ! 5) \<le> 0 then Inl Out_Of_Bounds \<comment> \<open>arrays of that size\<close>
      else let num_map = nat (atoi (argv ! 5)) in
        rbind (make_pipes limit 0 num_map t) (\<lambda>(map_fds, t1).
        rbind (make_pipe limit num_map t1) (\<lambda>(reduce_fds, t2).
        let descriptors = map_fds @ reduce_fds; (output_fd, t3) = open_output_file limit can_open t2;
            (ss, ok1) = fork_all (splitter closeall map_fds descriptors t3 argv) (split_forks fk) 0 num_map;
            (ms, ok2) = fork_all (mapper closeall map_fds reduce_fds descriptors t3 argv) (map_forks fk) 0 num_map
        in Inr (if \<not> ok1 then \<lparr>splitters = ss, mappers = [], reducers = [], parent = None\<rparr>
                else if \<not> ok2 then \<lparr>splitters = ss, mappers = ms, reducers = [], parent = None\<rparr>
                else if \<not> reduce_fork fk then \<lparr>splitters = ss, mappers = ms, reducers = [], parent = None\<rparr>
                else \<lparr>splitters = ss, mappers = ms,
                   reducers = [reducer_child closeall reduce_fds output_fd descriptors t3 argv],
                   parent = Some (let t4 = closeall descriptors t3 in
                     case output_fd of None \<Rightarrow> t4 | Some fd \<Rightarrow> if fd < length t4 then t4[fd := None] else t4)\<rparr>))))"

definition exit_reports :: "string list \<Rightarrow> nat \<Rightarrow> (nat \<Rightarrow> int) \<Rightarrow> (nat \<Rightarrow> int) \<Rightarrow> (string \<times> int) list" where
  \<comment> \<open>the calls of \<open>print_nonzero_exit_status\<close>, after \<open>waitpid\<close> gave the statuses of splitters and mappers\<close>
  "exit_reports argv num_map status1 status2 =
     List.map (\<lambda>i. (argv ! 3, status1 i)) [0..<num_map] @ List.map (\<lambda>i. (argv ! 4, status2 i)) [0..<num_map]"

section \<open>Tables\<close>

definition standard :: "fdtable \<Rightarrow> bool" where
  "standard t \<longleftrightarrow> (\<forall>fd < 3. opened t fd \<noteq> None)"

definition exact_closer :: "closer \<Rightarrow> bool" where
  \<comment> \<open>what \<open>descriptors_closeall\<close> promises\<close>
  "exact_closer closeall \<longleftrightarrow> (\<forall>ds t fd. opened (closeall ds t) fd = (if fd \<in> set ds then None else opened t fd))"

lemma opened_length: "opened t fd \<noteq> None \<Longrightarrow> fd < length t"
  by (simp add: opened_def split: if_splits)

lemma opened_free_fd [simp]: "opened t (free_fd t) = None"
proof (cases "free_fd t < length t")
  case True
  then have "\<not> t ! free_fd t \<noteq> None" unfolding free_fd_def using nth_length_takeWhile by fast
  then show ?thesis by (simp add: opened_def)
qed (simp add: opened_def)

lemma opened_open_fd: "opened (open_fd t f) = (opened t)(free_fd t := Some f)"
proof
  fix fd
  have "free_fd t \<le> length t" by (simp add: free_fd_def length_takeWhile_le)
  then show "opened (open_fd t f) fd = ((opened t)(free_fd t := Some f)) fd"
    by (auto simp: opened_def open_fd_def nth_append)
qed

lemma free_fd_standard: "standard t \<Longrightarrow> 3 \<le> free_fd t"
  using opened_free_fd[of t] by (metis standard_def not_less)

lemma standard_open_fd [simp]: "standard t \<Longrightarrow> standard (open_fd t f)"
  by (simp add: standard_def opened_open_fd)

lemma opened_dup2:
  "standard t \<Longrightarrow> new < 3 \<Longrightarrow> opened (dup2 t (Some fd) new) = (if opened t fd = None then opened t else (opened t)(new := opened t fd))"
  using opened_length[of t new] by (auto simp: dup2_def opened_def standard_def fun_eq_iff split: option.splits)

lemma standard_dup2 [simp]: "standard t \<Longrightarrow> standard (dup2 t old new)"
  by (auto simp: standard_def dup2_def opened_def nth_list_update split: option.splits if_splits)


fun is_pipe :: "stream \<Rightarrow> bool" where
  "is_pipe (Pipe_Read _) = True" | "is_pipe (Pipe_Write _) = True" | "is_pipe _ = False"

definition ends :: "fdtable \<Rightarrow> (nat \<times> stream) set" where
  "ends t = {(fd, e). opened t fd = Some e \<and> is_pipe e}"

section \<open>The pipes\<close>

lemma make_pipe_opened:
  assumes "make_pipe limit p t = Inr (ds, t')" and "standard t"
  obtains r w where "ds = [r, w]" and "r \<noteq> w" and "3 \<le> r" and "3 \<le> w" and "opened t r = None" and "opened t w = None"
    and "opened t' = (opened t)(r \<mapsto> Pipe_Read p, w \<mapsto> Pipe_Write p)" and "standard t'"
proof
  let ?r = "free_fd t" and ?w = "free_fd (open_fd t (Pipe_Read p))"
  show "ds = [?r, ?w]" "opened t' = (opened t)(?r \<mapsto> Pipe_Read p, ?w \<mapsto> Pipe_Write p)" "standard t'"
    using assms by (auto simp: make_pipe_def Let_def opened_open_fd split: if_splits)
  have "opened (open_fd t (Pipe_Read p)) ?w = None" by simp
  then show "?r \<noteq> ?w" "opened t ?w = None" by (auto simp: opened_open_fd split: if_splits)
qed (use assms free_fd_standard in auto)

lemma make_pipes_opened:
  assumes "make_pipes limit p k t = Inr (ds, t')" and "standard t"
  shows "length ds = 2 * k \<and> distinct ds \<and> standard t' \<and> (\<forall>fd \<in> set ds. 3 \<le> fd \<and> opened t fd = None)
    \<and> (\<forall>fd. fd \<notin> set ds \<longrightarrow> opened t' fd = opened t fd)
    \<and> (\<forall>j < k. opened t' (ds ! (2 * j)) = Some (Pipe_Read (p + j)) \<and> opened t' (ds ! (2 * j + 1)) = Some (Pipe_Write (p + j)))"
  using assms
proof (induction k arbitrary: p t ds)
  case 0
  then show ?case by simp
next
  case (Suc k)
  obtain d1 t1 d2 where d1: "make_pipe limit p t = Inr (d1, t1)" and d2: "make_pipes limit (Suc p) k t1 = Inr (d2, t')"
    and ds: "ds = d1 @ d2" using Suc.prems(1) by (auto simp: rbind_Inr_iff)
  obtain r w where rw: "d1 = [r, w]" "r \<noteq> w" "3 \<le> r" "3 \<le> w" "opened t r = None" "opened t w = None"
      "opened t1 = (opened t)(r \<mapsto> Pipe_Read p, w \<mapsto> Pipe_Write p)" "standard t1"
    by (rule make_pipe_opened[OF d1 Suc.prems(2)]) blast
  note IH = Suc.IH[OF d2 rw(8)]
  have new: "r \<notin> set d2" "w \<notin> set d2" using IH rw(7,2) by (auto split: if_splits)
  then have "opened t' r = Some (Pipe_Read p)" "opened t' w = Some (Pipe_Write p)" using IH rw(2,7) by auto
  then have "opened t' (ds ! (2 * j)) = Some (Pipe_Read (p + j)) \<and> opened t' (ds ! (2 * j + 1)) = Some (Pipe_Write (p + j))"
    if "j < Suc k" for j
    using IH that by (cases j) (simp_all add: ds rw(1))
  moreover have "\<forall>fd \<in> set d2. opened t fd = None" using IH rw(7) by (auto split: if_splits)
  moreover have "\<forall>fd. fd \<notin> set ds \<longrightarrow> opened t' fd = opened t fd" using IH rw(7) by (simp add: ds rw(1))
  ultimately show ?case using IH new rw(2-6) by (simp add: ds rw(1))
qed

lemma fork_all_children:
  "fork_all body forks i k = (cs, ok) \<Longrightarrow> length cs \<le> k \<and> (ok \<longrightarrow> length cs = k) \<and> (\<forall>j < length cs. cs ! j = body (i + j))"
proof (induction k arbitrary: i cs ok)
  case (Suc k)
  show ?case
  proof (cases "forks i")
    case True
    then obtain cs' where "fork_all body forks (Suc i) k = (cs', ok)" "cs = body i # cs'"
      using Suc.prems by (auto split: prod.splits)
    then show ?thesis using Suc.IH[of "Suc i" cs' ok] by (auto simp: nth_Cons split: nat.splits)
  qed (use Suc.prems in simp)
qed simp

text \<open>A child's table after its calls of \<open>dup2\<close> and the closing of all descriptors.\<close>

lemma ends_closed:
  assumes "exact_closer closeall" and "\<forall>fd. fd \<notin> set ds \<longrightarrow> 3 \<le> fd \<longrightarrow> \<not> (\<exists>e. opened t fd = Some e \<and> is_pipe e)" and "\<forall>fd \<in> set ds. 3 \<le> fd"
  shows "ends (closeall ds t) = {(fd, e). fd < 3 \<and> opened t fd = Some e \<and> is_pipe e}"
  using assms by (auto simp: ends_def exact_closer_def split: if_splits) (meson not_le)+


section \<open>The wiring\<close>

definition no_ends :: "fdtable \<Rightarrow> bool" where
  "no_ends t \<longleftrightarrow> (\<forall>fd e. opened t fd = Some e \<longrightarrow> \<not> is_pipe e)"

definition close_added :: closer where
  "close_added ds t = List.map (\<lambda>fd. if fd \<in> set ds then None else t ! fd) [0..<length t]"

lemma exact_close_added: "exact_closer close_added"
  by (simp add: exact_closer_def close_added_def opened_def)

lemma open_output_opened:
  assumes "open_output_file limit can_open t = (fd, t')" and "standard t"
  shows "standard t' \<and> (\<forall>x f. opened t x = Some f \<longrightarrow> opened t' x = Some f)
    \<and> (\<forall>x e. opened t' x = Some e \<longrightarrow> is_pipe e \<longrightarrow> opened t x = Some e)
    \<and> (\<forall>x. fd = Some x \<longrightarrow> opened t' x = Some Output_File \<and> 3 \<le> x)"
  using assms free_fd_standard by (auto simp: open_output_file_def opened_open_fd split: if_splits)

definition prepared :: "fdtable \<Rightarrow> nat \<Rightarrow> nat list \<Rightarrow> nat list \<Rightarrow> nat option \<Rightarrow> fdtable \<Rightarrow> bool" where
  \<comment> \<open>the table the children are forked with\<close>
  "prepared t n map_fds reduce_fds output_fd u \<longleftrightarrow> standard u \<and> (\<forall>fd \<in> set (map_fds @ reduce_fds). 3 \<le> fd)
     \<and> (\<forall>fd e. fd \<notin> set (map_fds @ reduce_fds) \<longrightarrow> opened u fd = Some e \<longrightarrow> \<not> is_pipe e)
     \<and> (\<forall>j < n. opened u (map_fds ! (2 * j)) = Some (Pipe_Read j) \<and> opened u (map_fds ! (2 * j + 1)) = Some (Pipe_Write j))
     \<and> opened u (reduce_fds ! 0) = Some (Pipe_Read n) \<and> opened u (reduce_fds ! 1) = Some (Pipe_Write n)
     \<and> (\<forall>fd. output_fd = Some fd \<longrightarrow> opened u fd = Some Output_File \<and> 3 \<le> fd) \<and> (\<forall>fd < 3. opened u fd = opened t fd)"

lemma prepared_tables:
  assumes "make_pipes limit 0 n t = Inr (map_fds, t1)" and "make_pipe limit n t1 = Inr (reduce_fds, t2)"
    and "open_output_file limit can_open t2 = (output_fd, u)" and "standard t" and "no_ends t"
  shows "prepared t n map_fds reduce_fds output_fd u"
proof -
  let ?ds = "map_fds @ reduce_fds"
  note M = make_pipes_opened[OF assms(1,4)]
  then have std: "standard t1" by blast
  obtain a b where ab: "reduce_fds = [a, b]" "a \<noteq> b" "3 \<le> a" "3 \<le> b" "opened t1 a = None" "opened t1 b = None"
      "opened t2 = (opened t1)(a \<mapsto> Pipe_Read n, b \<mapsto> Pipe_Write n)" "standard t2"
    by (rule make_pipe_opened[OF assms(2) std])
  have O: "standard u" "\<And>x f. opened t2 x = Some f \<Longrightarrow> opened u x = Some f"
    "\<And>x e. opened u x = Some e \<Longrightarrow> is_pipe e \<Longrightarrow> opened t2 x = Some e"
    "\<forall>x. output_fd = Some x \<longrightarrow> opened u x = Some Output_File \<and> 3 \<le> x"
    using open_output_opened[OF assms(3) ab(8)] by blast+
  have keep: "opened u x = Some f" if "opened t1 x = Some f" for x f
  proof -
    have "x \<noteq> a" "x \<noteq> b" using that ab(5,6) by auto
    then have "opened t2 x = Some f" using that by (simp add: ab(7))
    then show ?thesis by (rule O(2))
  qed
  have "opened t x = Some e" if "opened u x = Some e" "is_pipe e" "x \<notin> set ?ds" for x e
  proof -
    have "opened t2 x = Some e" by (rule O(3)[OF that(1,2)])
    moreover have new: "x \<noteq> a" "x \<noteq> b" "x \<notin> set map_fds" using that(3) by (simp_all add: ab(1))
    ultimately have "opened t1 x = Some e" by (simp add: ab(7))
    moreover have "opened t1 x = opened t x" using M new(3) by blast
    ultimately show ?thesis by simp
  qed
  then have "\<forall>fd e. fd \<notin> set ?ds \<longrightarrow> opened u fd = Some e \<longrightarrow> \<not> is_pipe e" using assms(5) unfolding no_ends_def by blast
  moreover have "opened u fd = opened t fd" if low: "fd < 3" for fd
  proof -
    obtain f where f: "opened t fd = Some f" using assms(4) low unfolding standard_def by auto
    moreover have "fd \<notin> set map_fds" using M low by auto
    ultimately have "opened t1 fd = Some f" using M by simp
    then show "opened u fd = opened t fd" using keep f by simp
  qed
  moreover have "\<forall>j < n. opened u (map_fds ! (2 * j)) = Some (Pipe_Read j) \<and> opened u (map_fds ! (2 * j + 1)) = Some (Pipe_Write j)"
    using M keep by simp
  moreover have "opened t2 a = Some (Pipe_Read n)" "opened t2 b = Some (Pipe_Write n)" using ab(2) by (simp_all add: ab(7))
  then have "opened u (reduce_fds ! 0) = Some (Pipe_Read n)" "opened u (reduce_fds ! 1) = Some (Pipe_Write n)"
    using O(2) by (simp_all only: ab(1) nth_Cons_0 nth_Cons_Suc One_nat_def)
  moreover have "\<forall>fd \<in> set ?ds. 3 \<le> fd" using M ab(1,3,4) by auto
  ultimately show ?thesis using O(1,4) unfolding prepared_def by blast
qed

lemma prepared_low:
  assumes "prepared t n map_fds reduce_fds output_fd u" and "no_ends t" and "opened u fd = Some e" and "fd < 3"
  shows "\<not> is_pipe e"
  using assms by (simp add: prepared_def no_ends_def)

lemma ends_child:
  assumes "prepared t n map_fds reduce_fds output_fd u" and "exact_closer closeall" and "no_ends t"
    and "opened v = opened u ++ m" and "dom m \<subseteq> {..<3}"
  shows "ends (closeall (map_fds @ reduce_fds) v) = {(fd, e). m fd = Some e \<and> is_pipe e}"
proof -
  have out: "m fd = None" if "3 \<le> fd" for fd using assms(5) that by fastforce
  then have "\<forall>fd. fd \<notin> set (map_fds @ reduce_fds) \<longrightarrow> 3 \<le> fd \<longrightarrow> \<not> (\<exists>e. opened v fd = Some e \<and> is_pipe e)"
    using assms(1) by (simp add: assms(4) map_add_def prepared_def)
  moreover have "\<forall>fd \<in> set (map_fds @ reduce_fds). 3 \<le> fd" using assms(1) by (simp add: prepared_def)
  ultimately have "ends (closeall (map_fds @ reduce_fds) v) = {(fd, e). fd < 3 \<and> opened v fd = Some e \<and> is_pipe e}"
    by (rule ends_closed[OF assms(2)])
  also have "\<dots> = {(fd, e). m fd = Some e \<and> is_pipe e}"
    using prepared_low[OF assms(1,3)] assms(5) by (fastforce simp: assms(4) map_add_Some_iff)
  finally show ?thesis .
qed

lemma closed_low:
  assumes "prepared t n map_fds reduce_fds output_fd u" and "exact_closer closeall" and "fd < 3"
  shows "opened (closeall (map_fds @ reduce_fds) v) fd = opened v fd"
proof -
  have "fd \<notin> set (map_fds @ reduce_fds)" using assms(1,3) unfolding prepared_def by fastforce
  then show ?thesis using assms(2) by (simp add: exact_closer_def)
qed

lemma splitter_wired:
  assumes "prepared t n map_fds reduce_fds output_fd u" and "exact_closer closeall" and "no_ends t" and "i < n" and "i < 10000"
  shows "\<exists>c. splitter closeall map_fds (map_fds @ reduce_fds) u argv i = Inr c
      \<and> command c = [''./splitter'', argv ! 1, argv ! 5, decimal i] \<and> ends (table c) = {(1, Pipe_Write i)} \<and> opened (table c) 0 = opened t 0"
proof -
  let ?v = "dup2 u (Some (map_fds ! (2 * i + 1))) 1"
  have std: "standard u" using assms(1) by (simp add: prepared_def)
  have v: "opened ?v = (opened u)(1 := Some (Pipe_Write i))"
    using opened_dup2[OF std, of 1] assms(1,4) by (simp add: prepared_def)
  have "length (decimal i) \<le> 4" using decimal_length[of 4 i] assms(5) by simp
  moreover have "ends (closeall (map_fds @ reduce_fds) ?v) = {(1, Pipe_Write i)}"
    by (rule trans[OF ends_child[OF assms(1-3), of ?v "[1 \<mapsto> Pipe_Write i]"]]) (simp only: v, auto split: if_splits)
  moreover have "opened ?v 0 = opened t 0" unfolding v using assms(1) by (simp add: prepared_def)
  ultimately show ?thesis using closed_low[OF assms(1,2), of 0 ?v] by (simp add: splitter_def)
qed

lemma mapper_wired:
  assumes "prepared t n map_fds reduce_fds output_fd u" and "exact_closer closeall" and "no_ends t" and "i < n"
  shows "ends (table (mapper closeall map_fds reduce_fds (map_fds @ reduce_fds) u argv i)) = {(0, Pipe_Read i), (1, Pipe_Write n)}"
proof -
  let ?w = "dup2 u (Some (map_fds ! (2 * i))) 0"
  let ?v = "dup2 ?w (Some (reduce_fds ! 1)) 1"
  have std: "standard u" and r: "opened u (reduce_fds ! 1) = Some (Pipe_Write n)" using assms(1) by (simp_all add: prepared_def)
  have w: "opened ?w = (opened u)(0 := Some (Pipe_Read i))"
    using opened_dup2[OF std, of 0] assms(1,4) by (simp add: prepared_def)
  have "reduce_fds ! 1 \<noteq> 0"
  proof
    assume "reduce_fds ! 1 = 0"
    then show False using prepared_low[OF assms(1,3) r] by simp
  qed
  then have v: "opened ?v = (opened u)(0 := Some (Pipe_Read i), 1 := Some (Pipe_Write n))"
    using opened_dup2[OF standard_dup2[OF std], of 1] r by (simp add: w)
  show ?thesis
    unfolding mapper_def child.simps
    by (rule trans[OF ends_child[OF assms(1-3), of ?v "[0 \<mapsto> Pipe_Read i, 1 \<mapsto> Pipe_Write n]"]]) (simp only: v, auto split: if_splits)
qed

lemma reducer_wired:
  assumes "prepared t n map_fds reduce_fds output_fd u" and "exact_closer closeall" and "no_ends t"
    and "c = reducer_child closeall reduce_fds output_fd (map_fds @ reduce_fds) u argv"
  shows "ends (table c) = {(0, Pipe_Read n)} \<and> opened (table c) 1 = (if output_fd = None then opened t 1 else Some Output_File)"
proof -
  let ?w = "dup2 u (Some (reduce_fds ! 0)) 0"
  let ?v = "dup2 ?w output_fd 1"
  have std: "standard u" using assms(1) by (simp add: prepared_def)
  have w: "opened ?w = (opened u)(0 := Some (Pipe_Read n))"
    using opened_dup2[OF std, of 0] assms(1) by (simp add: prepared_def)
  have this_out: "opened u fd = Some Output_File \<and> 3 \<le> fd" if "output_fd = Some fd" for fd
    using assms(1) that by (simp add: prepared_def)
  have v: "opened ?v = (if output_fd = None then opened ?w else (opened ?w)(1 := Some Output_File))"
  proof (cases output_fd)
    case None
    then show ?thesis by (simp add: dup2_def)
  next
    case (Some fd)
    then have "opened ?w fd = Some Output_File" using this_out by (simp add: w)
    then show ?thesis using opened_dup2[OF standard_dup2[OF std], of 1 "Some (reduce_fds ! 0)" 0 fd] Some by simp
  qed
  have "opened u 1 = opened t 1" using assms(1) by (simp add: prepared_def)
  then have "opened ?v 1 = (if output_fd = None then opened t 1 else Some Output_File)" unfolding v by (simp add: w)
  moreover have "ends (closeall (map_fds @ reduce_fds) ?v) = {(0, Pipe_Read n)}"
    by (rule trans[OF ends_child[OF assms(1-3), of ?v "if output_fd = None then [0 \<mapsto> Pipe_Read n] else [0 \<mapsto> Pipe_Read n, 1 \<mapsto> Output_File]"]])
      (simp only: v w, auto split: if_splits)
  ultimately show ?thesis using closed_low[OF assms(1,2), of 1 ?v] by (simp add: assms(4) reducer_child_def)
qed

lemma parent_wired:
  assumes "prepared t n map_fds reduce_fds output_fd u" and "exact_closer closeall" and "no_ends t"
    and "\<And>fd e. opened v fd = Some e \<Longrightarrow> opened (closeall (map_fds @ reduce_fds) u) fd = Some e"
  shows "ends v = {}"
proof -
  have "ends (closeall (map_fds @ reduce_fds) u) = {}"
    using ends_child[OF assms(1-3), of u "Map.empty"] by simp
  then show ?thesis using assms(4) by (force simp: ends_def)
qed

lemma opened_close: "fd < length t \<Longrightarrow> opened (t[fd := None]) x = Some e \<Longrightarrow> opened t x = Some e"
  by (auto simp: opened_def nth_list_update split: if_splits)

lemma parent_releases:
  assumes "prepared t n map_fds reduce_fds output_fd u" and "exact_closer closeall" and "no_ends t"
  defines "t4 \<equiv> closeall (map_fds @ reduce_fds) u"
  shows "ends (case output_fd of None \<Rightarrow> t4 | Some fd \<Rightarrow> if fd < length t4 then t4[fd := None] else t4) = {}"
proof (rule parent_wired[OF assms(1-3)])
  fix fd e
  assume "opened (case output_fd of None \<Rightarrow> t4 | Some fd \<Rightarrow> if fd < length t4 then t4[fd := None] else t4) fd = Some e"
  then show "opened (closeall (map_fds @ reduce_fds) u) fd = Some e"
    unfolding t4_def by (cases output_fd) (simp_all split: if_split_asm, erule opened_close)
qed

lemma start_pipeline_run:
  assumes "start_pipeline closeall limit can_open fk t argv = Inr pl" and n: "n = nat (atoi (argv ! 5))"
  obtains map_fds t1 reduce_fds t2 output_fd u ss ok1 ms ok2 where
    "make_pipes limit 0 n t = Inr (map_fds, t1)" and "make_pipe limit n t1 = Inr (reduce_fds, t2)"
    and "open_output_file limit can_open t2 = (output_fd, u)"
    and "fork_all (splitter closeall map_fds (map_fds @ reduce_fds) u argv) (split_forks fk) 0 n = (ss, ok1)"
    and "fork_all (mapper closeall map_fds reduce_fds (map_fds @ reduce_fds) u argv) (map_forks fk) 0 n = (ms, ok2)"
    and "pl = (if \<not> ok1 then \<lparr>splitters = ss, mappers = [], reducers = [], parent = None\<rparr>
                else if \<not> ok2 \<or> \<not> reduce_fork fk then \<lparr>splitters = ss, mappers = ms, reducers = [], parent = None\<rparr>
                else \<lparr>splitters = ss, mappers = ms,
                   reducers = [reducer_child closeall reduce_fds output_fd (map_fds @ reduce_fds) u argv],
                   parent = Some (let t4 = closeall (map_fds @ reduce_fds) u in
                     case output_fd of None \<Rightarrow> t4 | Some fd \<Rightarrow> if fd < length t4 then t4[fd := None] else t4)\<rparr>)"
proof -
  obtain map_fds t1 reduce_fds t2 where m: "make_pipes limit 0 n t = Inr (map_fds, t1)"
      and r: "make_pipe limit n t1 = Inr (reduce_fds, t2)"
    using assms(1) by (auto simp: start_pipeline_def Let_def rbind_Inr_iff n split: if_splits)
  obtain output_fd u where o: "open_output_file limit can_open t2 = (output_fd, u)" by fastforce
  obtain ss ok1 where ss: "fork_all (splitter closeall map_fds (map_fds @ reduce_fds) u argv) (split_forks fk) 0 n = (ss, ok1)"
    by fastforce
  obtain ms ok2 where ms: "fork_all (mapper closeall map_fds reduce_fds (map_fds @ reduce_fds) u argv) (map_forks fk) 0 n = (ms, ok2)"
    by fastforce
  show ?thesis
    by (rule that[OF m r o ss ms], use assms(1) in \<open>unfold start_pipeline_def n[symmetric] Let_def m r rbind.simps prod.case o ss ms\<close>)
      (simp split: if_splits)
qed

text \<open>
  C39: however many forks succeed, each child holds exactly the pipe ends of its place in the pipeline:
  splitter \<open>i\<close> writes pipe \<open>i\<close> at its standard output, mapper \<open>i\<close> reads it at its standard input and
  writes the reducer's pipe, the reducer reads that one. The parent keeps no end. So a reader sees the
  end of its input when its writers have ended, and the pipeline cannot hang on an end left open.
\<close>

theorem mapreduce_wires_pipeline:
  assumes "start_pipeline closeall limit can_open fk t argv = Inr pl" and "n = nat (atoi (argv ! 5))" and "exact_closer closeall"
    and "standard t" and "no_ends t"
  shows "(\<forall>i < length (splitters pl). i < 10000 \<longrightarrow> (\<exists>c. splitters pl ! i = Inr c
      \<and> command c = [''./splitter'', argv ! 1, argv ! 5, decimal i] \<and> ends (table c) = {(1, Pipe_Write i)} \<and> opened (table c) 0 = opened t 0))
    \<and> (\<forall>i < length (mappers pl). command (mappers pl ! i) = [argv ! 3]
      \<and> ends (table (mappers pl ! i)) = {(0, Pipe_Read i), (1, Pipe_Write n)})
    \<and> (\<forall>c \<in> set (reducers pl). command c = [argv ! 4] \<and> ends (table c) = {(0, Pipe_Read n)}
      \<and> opened (table c) 1 \<in> {Some Output_File, opened t 1})
    \<and> (\<forall>tp. parent pl = Some tp \<longrightarrow> length (splitters pl) = n \<and> length (mappers pl) = n \<and> length (reducers pl) = 1 \<and> ends tp = {})"
proof -
  obtain map_fds t1 reduce_fds t2 output_fd u ss ok1 ms ok2 where
    m: "make_pipes limit 0 n t = Inr (map_fds, t1)" and r: "make_pipe limit n t1 = Inr (reduce_fds, t2)"
    and o: "open_output_file limit can_open t2 = (output_fd, u)"
    and ss: "fork_all (splitter closeall map_fds (map_fds @ reduce_fds) u argv) (split_forks fk) 0 n = (ss, ok1)"
    and ms: "fork_all (mapper closeall map_fds reduce_fds (map_fds @ reduce_fds) u argv) (map_forks fk) 0 n = (ms, ok2)"
    and pl: "pl = (if \<not> ok1 then \<lparr>splitters = ss, mappers = [], reducers = [], parent = None\<rparr>
                else if \<not> ok2 \<or> \<not> reduce_fork fk then \<lparr>splitters = ss, mappers = ms, reducers = [], parent = None\<rparr>
                else \<lparr>splitters = ss, mappers = ms,
                   reducers = [reducer_child closeall reduce_fds output_fd (map_fds @ reduce_fds) u argv],
                   parent = Some (let t4 = closeall (map_fds @ reduce_fds) u in
                     case output_fd of None \<Rightarrow> t4 | Some fd \<Rightarrow> if fd < length t4 then t4[fd := None] else t4)\<rparr>)"
    by (rule start_pipeline_run[OF assms(1,2)])
  let ?ds = "map_fds @ reduce_fds" and ?r = "reducer_child closeall reduce_fds output_fd (map_fds @ reduce_fds) u argv"
  have parts: "splitters pl = ss" "mappers pl = ms \<or> mappers pl = []" "reducers pl = [?r] \<or> reducers pl = []"
    by (auto simp: pl)
  note prep = prepared_tables[OF m r o assms(4,5)]
  note S = fork_all_children[OF ss] and M = fork_all_children[OF ms]
  have P: "ends tp = {} \<and> ok1 \<and> ok2 \<and> mappers pl = ms \<and> reducers pl = [?r]" if "parent pl = Some tp" for tp
    using that parent_releases[OF prep assms(3,5)] by (auto simp: pl Let_def split: if_splits)
  have ms_at: "mappers pl ! i = mapper closeall map_fds reduce_fds ?ds u argv i \<and> i < n" if "i < length (mappers pl)" for i
    using M parts(2) that by fastforce
  have ss_at: "splitters pl ! i = splitter closeall map_fds ?ds u argv i \<and> i < n" if "i < length (splitters pl)" for i
    using S that unfolding parts(1) by simp
  have R: "command ?r = [argv ! 4] \<and> ends (table ?r) = {(0, Pipe_Read n)} \<and> opened (table ?r) 1 \<in> {Some Output_File, opened t 1}"
    using reducer_wired[OF prep assms(3,5) refl, of argv] by (simp add: reducer_child_def)
  have mc: "command (mapper closeall map_fds reduce_fds ?ds u argv i) = [argv ! 3]" for i by (simp add: mapper_def)
  have "\<forall>i < length (splitters pl). i < 10000 \<longrightarrow> (\<exists>c. splitters pl ! i = Inr c
      \<and> command c = [''./splitter'', argv ! 1, argv ! 5, decimal i] \<and> ends (table c) = {(1, Pipe_Write i)} \<and> opened (table c) 0 = opened t 0)"
    using splitter_wired[OF prep assms(3,5)] ss_at by simp
  moreover have "\<forall>i < length (mappers pl). command (mappers pl ! i) = [argv ! 3]
      \<and> ends (table (mappers pl ! i)) = {(0, Pipe_Read i), (1, Pipe_Write n)}"
    using mapper_wired[OF prep assms(3,5)] ms_at mc by simp
  moreover have "\<forall>c \<in> set (reducers pl). command c = [argv ! 4] \<and> ends (table c) = {(0, Pipe_Read n)}
      \<and> opened (table c) 1 \<in> {Some Output_File, opened t 1}"
    using parts(3) R by (metis empty_iff empty_set set_ConsD)
  moreover have "length (splitters pl) = n \<and> length (mappers pl) = n \<and> length (reducers pl) = 1 \<and> ends tp = {}"
    if "parent pl = Some tp" for tp using P[OF that] S M parts(1) by simp
  ultimately show ?thesis by blast
qed

definition standard_table :: fdtable where
  "standard_table = List.map (\<lambda>k. Some (Inherited k)) [0..<3]"

theorem mapreduce_wires_pipeline_witness:
  "\<exists>pl. start_pipeline close_added 16 True \<lparr>split_forks = \<lambda>i. True, map_forks = \<lambda>i. True, reduce_fork = True\<rparr> standard_table
      [''mapreduce'', ''in'', ''out'', ''./map'', ''./reduce'', ''2''] = Inr pl
    \<and> ends (table (mappers pl ! 1)) = {(0, Pipe_Read 1), (1, Pipe_Write 2)}"
proof -
  let ?argv = "[''mapreduce'', ''in'', ''out'', ''./map'', ''./reduce'', ''2'']"
  let ?fk = "\<lparr>split_forks = \<lambda>i. True, map_forks = \<lambda>i. True, reduce_fork = True\<rparr>"
  have n: "atoi ''2'' = 2" by (simp add: atoi_def isspace_def code_def digits_value_def isdigit_def)
  have t: "standard_table = [Some (Inherited 0), Some (Inherited 1), Some (Inherited 2)]"
    by (simp add: standard_table_def upt_rec)
  have "standard standard_table" "no_ends standard_table"
    by (auto simp: standard_def no_ends_def opened_def standard_table_def split: if_splits)
  moreover obtain pl where pl: "start_pipeline close_added 16 True ?fk standard_table ?argv = Inr pl" "length (mappers pl) = 2"
    by (simp add: start_pipeline_def n t make_pipe_def open_fd_def free_fd_def open_output_file_def splitter_def decimal.simps
        numeral_2_eq_2 Let_def)
  ultimately show ?thesis
    using mapreduce_wires_pipeline[OF pl(1) _ exact_close_added, of 2] n by auto
qed

end
