(* ===== verification/Rpicheck.thy ===== *)
theory Rpicheck
  imports Ctype
begin

text \<open>
  The comparison of a directory with its backup of \<^verbatim>\<open>final/rpicheck.c\<close>. A directory is the list of its
  entries in the order of \<open>readdir\<close>, or cannot be opened; modification times are integers. Links in the
  backup are what \<open>stat\<close> says of their targets (a file or nothing; links to directories are left out).
  The directories do not change while the program runs.
\<close>

section \<open>Directories\<close>

datatype node =
    File_Node (mtime: int) (nlink: nat) "string option" \<comment> \<open>the contents, when it can be opened\<close>
  | Link_Node string "int option" \<comment> \<open>the target, and its modification time when it is a file that exists\<close>
  | Dir_Node (mtime: int) "(string \<times> node) list option" \<comment> \<open>the entries, when it can be opened\<close>

type_synonym entries = "(string \<times> node) list"

definition dots :: "string \<Rightarrow> bool" where "dots d \<longleftrightarrow> d = ''.'' \<or> d = ''..''"

definition join_path :: "string \<Rightarrow> string \<Rightarrow> string" where "join_path path d = path @ ''/'' @ d"

section \<open>The program\<close>

fun check_backup :: "string \<Rightarrow> int \<Rightarrow> entries \<Rightarrow> int option \<Rightarrow> bool \<Rightarrow> bool res" where
  \<comment> \<open>the loop of \<open>check_backup\<close> with the entries left, \<open>st.st_mtime\<close> (\<open>None\<close> while indeterminate) and \<open>res\<close>\<close>
  "check_backup f t [] st res = Inr res"
| "check_backup f t ((d, n) # es) st res =
     (if dots d then check_backup f t es st res
      else case n of
        Dir_Node m sub \<Rightarrow>
          if \<not> res then check_backup f t es (Some m) False
          else (case sub of
              None \<Rightarrow> check_backup f t es (Some m) True
            | Some s \<Rightarrow> rbind (check_backup f t s None True) (\<lambda>r. check_backup f t es (Some m) r))
      | File_Node m k contents \<Rightarrow> if f = d then Inr (m \<noteq> t) else check_backup f t es (Some m) res
      | Link_Node target m \<Rightarrow>
          let st' = (case m of None \<Rightarrow> st | Some x \<Rightarrow> Some x) in
          if f = d then (case st' of None \<Rightarrow> Inl Uninit_Read | Some x \<Rightarrow> Inr (x \<noteq> t)) else check_backup f t es st' res)"

definition signed_char :: "char \<Rightarrow> int" where
  "signed_char c = (if code c < 128 then int (code c) else int (code c) - 256)"

definition LF :: char where "LF = CHR 0x0A"

fun print_contents :: "nat \<Rightarrow> string \<Rightarrow> string" where
  \<comment> \<open>the loop over the bytes of a file, with \<open>total_read\<close>\<close>
  "print_contents total_read [] = []"
| "print_contents total_read (c # cs) =
     (if total_read + 1 = 80 \<and> c \<noteq> LF then LF # print_contents 0 cs
      else if signed_char c < 32 \<and> signed_char c > 126 then CHR ''.'' # print_contents (total_read + 1) cs
      else if c = LF then c # print_contents 0 cs else c # print_contents (total_read + 1) cs)"

fun traverse_badrpi :: "entries \<Rightarrow> string \<Rightarrow> entries option \<Rightarrow> string res" where
  \<comment> \<open>the loop over the entries of the directory \<open>path\<close>: what is printed\<close>
  "traverse_badrpi [] path backup = Inr []"
| "traverse_badrpi ((d, n) # es) path backup =
     (if dots d then traverse_badrpi es path backup
      else let newpath = join_path path d in
      rbind (case n of
          Link_Node target m \<Rightarrow>
            if 256 \<le> length target then Inl Out_Of_Bounds else Inr (newpath @ '':'' @ target @ [LF])
        | File_Node m k contents \<Rightarrow>
            if 1 < k then (case contents of None \<Rightarrow> Inl Null_Deref
                | Some s \<Rightarrow> Inr (newpath @ [LF] @ print_contents 0 s @ [LF]))
            else rbind (case backup of None \<Rightarrow> Inr True | Some b \<Rightarrow> check_backup d m b None True) (\<lambda>r.
                Inr (if r then newpath @ [LF] else []))
        | Dir_Node m sub \<Rightarrow> (case sub of None \<Rightarrow> Inr [] | Some s \<Rightarrow> traverse_badrpi s newpath backup))
        (\<lambda>out. rbind (traverse_badrpi es path backup) (\<lambda>rest. Inr (out @ rest))))"

definition usage :: string where
  "usage = ''Usage: ./a.out <badrpi directory> <backup directory>'' @ [LF]"

definition rpicheck_main :: "string list \<Rightarrow> (string \<Rightarrow> entries option) \<Rightarrow> (nat \<times> string) res" where
  \<comment> \<open>exit status and output, with the directories that \<open>opendir\<close> finds\<close>
  "rpicheck_main argv directory =
     (if length argv \<noteq> 3 then Inr (1, usage)
      else case (directory (argv ! 1), directory (argv ! 2)) of
        (Some bad, Some backup) \<Rightarrow> rbind (traverse_badrpi bad (argv ! 1) (Some backup)) (\<lambda>out. Inr (0, out))
      | _ \<Rightarrow> Inr (1, usage))"


section \<open>What is in the backup\<close>

fun copies :: "entries \<Rightarrow> (string \<times> int option) list" where
  \<comment> \<open>name and modification time of every file and link of the backup\<close>
  "copies [] = []"
| "copies ((d, n) # es) =
     (if dots d then [] else case n of
        File_Node m k contents \<Rightarrow> [(d, Some m)]
      | Link_Node target m \<Rightarrow> [(d, m)]
      | Dir_Node m sub \<Rightarrow> (case sub of None \<Rightarrow> [] | Some s \<Rightarrow> copies s)) @ copies es"

definition backup_ok :: "entries \<Rightarrow> bool" where
  \<comment> \<open>no link without a target, and no name twice\<close>
  "backup_ok es \<longleftrightarrow> None \<notin> snd ` set (copies es) \<and> distinct (List.map fst (copies es))"

lemma check_backup_absent: "f \<notin> fst ` set (copies es) \<Longrightarrow> check_backup f t es st res = Inr res"
proof (induction es arbitrary: st res rule: copies.induct)
  case (2 d n es)
  show ?case
  proof (cases "dots d")
    case True
    then show ?thesis using 2(2,3) by simp
  next
    case False
    show ?thesis
    proof (cases n)
      case (Dir_Node m sub)
      then show ?thesis using 2(1)[OF False Dir_Node] 2(2,3) False by (cases sub; cases res) (auto simp: image_Un)
    qed (use 2(2,3) False in \<open>auto simp: Let_def\<close>)
  qed
qed simp

lemma check_backup_found: "backup_ok es \<Longrightarrow> check_backup f t es st True = Inr ((f, Some t) \<notin> set (copies es))"
proof (induction es arbitrary: st rule: copies.induct)
  case (2 d n es)
  have rest: "backup_ok es" using 2(3) by (auto simp: backup_ok_def)
  show ?case
  proof (cases "dots d")
    case True
    then show ?thesis using 2(2)[OF rest] by simp
  next
    case False
    have later: "(f, Some t) \<notin> set (copies es)" if "f \<notin> fst ` set (copies es)" using that by force
    show ?thesis
    proof (cases n)
      case (File_Node m k contents)
      then show ?thesis using 2(2)[OF rest] 2(3) False later by (auto simp: backup_ok_def)
    next
      case (Link_Node target x)
      then obtain m where m: "n = Link_Node target (Some m)" using 2(3) False by (cases x) (auto simp: backup_ok_def)
      then show ?thesis using 2(2)[OF rest] 2(3) False later by (auto simp: backup_ok_def Let_def)
    next
      case (Dir_Node m sub)
      show ?thesis
      proof (cases sub)
        case None
        then show ?thesis using 2(2)[OF rest] Dir_Node False by simp
      next
        case (Some s)
        have "backup_ok s" using 2(3) Dir_Node Some False by (auto simp: backup_ok_def)
        then have sub: "check_backup f t s None True = Inr ((f, Some t) \<notin> set (copies s))"
          by (rule 2(1)[OF False Dir_Node Some])
        show ?thesis
        proof (cases "(f, Some t) \<in> set (copies s)")
          case True
          then have "f \<in> fst ` set (copies s)" by force
          then have "f \<notin> fst ` set (copies es)" using 2(3) Dir_Node Some False by (auto simp: backup_ok_def)
          then show ?thesis using check_backup_absent[of f es] sub True Dir_Node Some False by simp
        next
          case sub_absent: False
          then show ?thesis using 2(2)[OF rest] sub Dir_Node Some False by simp
        qed
      qed
    qed
  qed
qed simp

section \<open>The report\<close>

fun leaves :: "entries \<Rightarrow> string \<Rightarrow> (string \<times> string \<times> node) list" where
  \<comment> \<open>path, name and node of every file and link below a directory\<close>
  "leaves [] path = []"
| "leaves ((d, n) # es) path =
     (if dots d then [] else case n of
        Dir_Node m sub \<Rightarrow> (case sub of None \<Rightarrow> [] | Some s \<Rightarrow> leaves s (join_path path d))
      | _ \<Rightarrow> [(join_path path d, d, n)]) @ leaves es path"

definition readable :: "node \<Rightarrow> bool" where
  \<comment> \<open>links short enough for the buffer, and files with several names that can be opened\<close>
  "readable n \<longleftrightarrow> (case n of Link_Node target m \<Rightarrow> length target < 256 | File_Node m k contents \<Rightarrow> k \<le> 1 \<or> contents \<noteq> None | _ \<Rightarrow> True)"

definition report :: "(string \<times> int option) list \<Rightarrow> string \<times> string \<times> node \<Rightarrow> string" where
  "report saved = (\<lambda>(path, d, n). case n of
     Link_Node target m \<Rightarrow> path @ '':'' @ target @ [LF]
   | File_Node m k contents \<Rightarrow>
       if 1 < k then path @ [LF] @ print_contents 0 (the contents) @ [LF]
       else if (d, Some m) \<in> set saved then [] else path @ [LF]
   | _ \<Rightarrow> [])"



section \<open>The contents of a file\<close>

function cut :: "string \<Rightarrow> string" where
  \<comment> \<open>a line, broken after every 79 characters; each break takes the place of a character\<close>
  "cut l = (if length l < 80 then l else take 79 l @ LF # cut (drop 80 l))"
  by auto
termination by (relation "measure length") auto

declare cut.simps [simp del]

lemma print_plain:
  "LF \<notin> set l \<Longrightarrow> k + length l < 80 \<Longrightarrow> print_contents k (l @ s) = l @ print_contents (k + length l) s"
  by (induction l arbitrary: k) auto

lemma print_contents_line: "LF \<notin> set l \<Longrightarrow> print_contents 0 (l @ LF # s) = cut l @ LF # print_contents 0 s"
proof (induction l rule: cut.induct)
  case (1 l)
  show ?case
  proof (cases "length l < 80")
    case True
    then show ?thesis using print_plain[of l 0 "LF # s"] 1(2) by (simp add: cut.simps LF_def signed_char_def code_def)
  next
    case False
    let ?c = "l ! 79"
    have l: "l = take 79 l @ ?c # drop 80 l" using id_take_nth_drop[of 79 l] False by simp
    have all: "l @ LF # s = take 79 l @ ?c # drop 80 l @ LF # s" using arg_cong[OF l, of "\<lambda>x. x @ LF # s"] by simp
    have "LF \<notin> set (take 79 l)" using 1(2) by (auto dest: in_set_takeD)
    then have "print_contents 0 (take 79 l @ ?c # drop 80 l @ LF # s) = take 79 l @ print_contents 79 (?c # drop 80 l @ LF # s)"
      using print_plain[of "take 79 l" 0] False by simp
    moreover have "?c \<in> set l" using False by simp
    then have "?c \<noteq> LF" using 1(2) by auto
    moreover have "LF \<notin> set (drop 80 l)" using 1(2) by (auto dest: in_set_dropD)
    ultimately have "print_contents 0 (l @ LF # s) = take 79 l @ LF # cut (drop 80 l) @ LF # print_contents 0 s"
      using 1(1)[OF False] unfolding all by simp
    then show ?thesis using False by (subst cut.simps) simp
  qed
qed

text \<open>The file is printed verbatim when all its lines are shorter than 80 characters; from a longer
  line every 80th character is lost, and nothing is ever replaced by a dot.\<close>

lemma print_contents_short: "\<forall>l \<in> set ls. LF \<notin> set l \<and> length l < 80
    \<Longrightarrow> print_contents 0 (concat (List.map (\<lambda>l. l @ [LF]) ls)) = concat (List.map (\<lambda>l. l @ [LF]) ls)"
proof (induction ls)
  case (Cons l ls)
  then show ?case using print_contents_line[of l] by (simp add: cut.simps)
qed simp

lemma print_contents_loses_character: "print_contents 0 (replicate 80 CHR ''a'') = replicate 79 CHR ''a'' @ [LF]"
  using print_plain[of "replicate 79 CHR ''a''" 0 "''a''"] replicate_add[of 79 1 "CHR ''a''"]
  by (simp add: LF_def)

end
