(* ===== verification/Utilities.thy ===== *)
theory Utilities
  imports Cstring
begin

text \<open>
  The two programs of \<^verbatim>\<open>utilities_unleashed/\<close>: \<^verbatim>\<open>env.c\<close> runs a command in a changed environment,
  \<^verbatim>\<open>time.c\<close> measures one. Both fork; the child works and the parent waits for it. An environment is a map
  from names to values, \<open>getenv\<close> and \<open>setenv\<close> its lookup and update. The kernel decides whether the fork
  succeeds and how the child ends.
\<close>

section \<open>Environments\<close>

type_synonym environment = "string \<Rightarrow> string option"

datatype child_end =
    Usage \<comment> \<open>the usage is printed, exit 1\<close>
  | Change_Failed \<comment> \<open>the failure is printed, exit 1\<close>
  | Execute environment "string list"

fun strchr_pos :: "string \<Rightarrow> char \<Rightarrow> nat option" where
  "strchr_pos [] c = None"
| "strchr_pos (d # s) c = (if d = c then Some 0 else map_option Suc (strchr_pos s c))"

definition getenv :: "environment \<Rightarrow> string \<Rightarrow> string option" where
  "getenv e name = (if name = [] \<or> CHR ''='' \<in> set name then None else e name)"

definition env_setting :: "string \<Rightarrow> environment \<Rightarrow> (child_end + environment) res" where
  \<comment> \<open>the body of the loop on an argument that is not \<open>--\<close>; \<open>varName\<close> has 30 bytes\<close>
  "env_setting arg e = (case strchr_pos arg CHR ''='' of
     None \<Rightarrow> Inr (Inl Usage)
   | Some idx \<Rightarrow>
       if 30 \<le> idx then Inl Out_Of_Bounds
       else let varName = take idx arg; rhs = drop (idx + 1) arg in
         if varName = [] then Inr (Inl Change_Failed)
         else if take 1 rhs = ''%'' then
           (case getenv e (drop 1 rhs) of None \<Rightarrow> Inr (Inl Change_Failed) | Some val \<Rightarrow> Inr (Inr (e(varName \<mapsto> val))))
         else Inr (Inr (e(varName \<mapsto> rhs))))"

fun env_loop :: "string list \<Rightarrow> environment \<Rightarrow> child_end res" where
  \<comment> \<open>the loop over the arguments left, with what follows it\<close>
  "env_loop [] e = Inr Usage"
| "env_loop (arg # args) e =
     (if arg = ''--'' then Inr (if args = [] then Usage else Execute e args)
      else rbind (env_setting arg e) (\<lambda>r. case r of Inl stop \<Rightarrow> Inr stop | Inr e' \<Rightarrow> env_loop args e'))"

definition env_child :: "string list \<Rightarrow> environment \<Rightarrow> child_end res" where
  "env_child argv e = (if length argv = 1 then Inr Usage else env_loop (tl argv) e)"

datatype fork_outcome = Fork_Failed | Parent_Returns

record run =
  fork_outcome :: fork_outcome
  child :: "child_end res option"
  timed :: bool \<comment> \<open>whether the results are displayed\<close>

definition env_main :: "bool \<Rightarrow> string list \<Rightarrow> environment \<Rightarrow> run" where
  "env_main forked argv e =
     (if \<not> forked then \<lparr>fork_outcome = Fork_Failed, child = None, timed = False\<rparr>
      else \<lparr>fork_outcome = Parent_Returns, child = Some (env_child argv e), timed = False\<rparr>)"

definition time_child :: "string list \<Rightarrow> environment \<Rightarrow> child_end res" where
  "time_child argv e = (case argv of _ # prog # args \<Rightarrow> Inr (Execute e (prog # args)) | _ \<Rightarrow> Inr Usage)"

definition time_main :: "bool \<Rightarrow> int \<Rightarrow> string list \<Rightarrow> environment \<Rightarrow> run" where
  \<comment> \<open>with the status that \<open>waitpid\<close> stores\<close>
  "time_main forked status argv e =
     (if \<not> forked then \<lparr>fork_outcome = Fork_Failed, child = None, timed = False\<rparr>
      else \<lparr>fork_outcome = Parent_Returns, child = Some (time_child argv e), timed = status = 0\<rparr>)"

section \<open>Settings\<close>

datatype setting = To_Value string string | To_Variable string string

fun setting_text :: "setting \<Rightarrow> string" where
  "setting_text (To_Value x v) = x @ ''='' @ v"
| "setting_text (To_Variable x y) = x @ ''=%'' @ y"

fun setting_ok :: "setting \<Rightarrow> bool" where
  "setting_ok (To_Value x v) \<longleftrightarrow> x \<noteq> [] \<and> CHR ''='' \<notin> set x \<and> length x < 30 \<and> take 1 v \<noteq> ''%'' \<and> x @ ''='' @ v \<noteq> ''--''"
| "setting_ok (To_Variable x y) \<longleftrightarrow> x \<noteq> [] \<and> CHR ''='' \<notin> set x \<and> length x < 30 \<and> y \<noteq> [] \<and> CHR ''='' \<notin> set y"

fun apply_settings :: "setting list \<Rightarrow> environment \<Rightarrow> environment option" where
  \<comment> \<open>one after the other: a variable is read as the settings before have left it\<close>
  "apply_settings [] e = Some e"
| "apply_settings (To_Value x v # ss) e = apply_settings ss (e(x \<mapsto> v))"
| "apply_settings (To_Variable x y # ss) e = (case e y of None \<Rightarrow> None | Some v \<Rightarrow> apply_settings ss (e(x \<mapsto> v)))"

lemma strchr_pos_first: "c \<notin> set x \<Longrightarrow> strchr_pos (x @ c # s) c = Some (length x)"
  by (induction x) auto

lemma setting_not_end: "setting_ok s \<Longrightarrow> setting_text s \<noteq> ''--''"
proof (cases s)
  case (To_Variable x y)
  then show ?thesis by (auto simp: append_eq_Cons_conv)
qed simp

lemma env_setting_text:
  "setting_ok s \<Longrightarrow> env_setting (setting_text s) e =
     Inr (case apply_settings [s] e of None \<Rightarrow> Inl Change_Failed | Some e' \<Rightarrow> Inr e')"
  by (cases s) (auto simp: env_setting_def strchr_pos_first getenv_def split: option.splits)

lemma apply_settings_Cons: "apply_settings (s # ss) e = Option.bind (apply_settings [s] e) (apply_settings ss)"
  by (cases s) (auto split: option.splits)

text \<open>
  \<open>env\<close> with well-formed settings, \<open>--\<close> and a command runs the command in the environment that the
  settings give one after the other; a setting from a variable that is not set then makes it fail
  without running anything.
\<close>

theorem env_runs_in_changed_environment:
  assumes "\<forall>s \<in> set ss. setting_ok s" and "cmd \<noteq> []"
  shows "child (env_main True (prog # List.map setting_text ss @ ''--'' # cmd) e) =
    Some (Inr (case apply_settings ss e of None \<Rightarrow> Change_Failed | Some e' \<Rightarrow> Execute e' cmd))"
proof -
  have "env_loop (List.map setting_text ss @ ''--'' # cmd) e
      = Inr (case apply_settings ss e of None \<Rightarrow> Change_Failed | Some e' \<Rightarrow> Execute e' cmd)"
    using assms(1)
  proof (induction ss arbitrary: e)
    case (Cons s ss)
    then show ?case
      using setting_not_end[of s] env_setting_text[of s e]
      by (auto simp: apply_settings_Cons[of s ss e] simp del: apply_settings.simps split: option.splits)
  qed (use assms(2) in simp)
  then show ?thesis by (simp add: env_main_def env_child_def)
qed

theorem env_runs_in_changed_environment_witness:
  "child (env_main True [''env'', ''A=1'', ''B=%A'', ''--'', ''ls''] Map.empty)
    = Some (Inr (Execute [''A'' \<mapsto> ''1'', ''B'' \<mapsto> ''1''] [''ls'']))"
  using env_runs_in_changed_environment[of "[To_Value ''A'' ''1'', To_Variable ''B'' ''A'']" "[''ls'']" "''env''" Map.empty]
  by simp

text \<open>Without \<open>--\<close> and a command nothing is run, and a long name overruns its block.\<close>

lemma env_without_command: "''--'' \<notin> set args \<Longrightarrow> env_loop args e \<noteq> Inr (Execute e' cmd)"
proof (induction args arbitrary: e)
  case (Cons a args)
  have "env_setting a e \<noteq> Inr (Inl (Execute e' cmd))"
    by (auto simp: env_setting_def Let_def split: option.splits)
  then show ?case using Cons
    by (cases "env_setting a e") (auto split: sum.splits)
qed simp

lemma env_long_name: "length x \<ge> 30 \<Longrightarrow> CHR ''='' \<notin> set x \<Longrightarrow> env_loop ((x @ ''='' @ v) # args) e = Inl Out_Of_Bounds"
  by (auto simp: env_setting_def strchr_pos_first append_eq_Cons_conv)

end
