(* ===== verification/Chatroom.thy ===== *)
theory Chatroom
  imports Cstring
begin

text \<open>
  What is written of the chat room of \<^verbatim>\<open>charming_chatroom/\<close>: the composition of messages in \<^verbatim>\<open>utils.c\<close> and
  the thread of \<^verbatim>\<open>client.c\<close> that sends them. The functions that move bytes over the socket are stubs
  in the source: they return the constant 9001 and touch neither the socket nor the buffer.
\<close>

section \<open>Messages\<close>

definition create_message :: "block \<Rightarrow> block \<Rightarrow> block res" where
  "create_message name message = rbind (read_cstr name) (\<lambda>n. rbind (read_cstr message) (\<lambda>m.
     let name_len = int_of_long (int (length n)); msg_len = int_of_long (int (length m));
         total = int_of_long (msg_len + name_len + 4)
     in if total < 0 then Inl Null_Deref
        else write_bytes (replicate (nat total) (Val NUL)) 0 (n @ '': '' @ m @ [NUL])))"

definition write_message_size :: "nat \<Rightarrow> int" where "write_message_size n = 9001"

definition read_all_from_socket :: "block \<Rightarrow> nat \<Rightarrow> int \<times> block" where
  "read_all_from_socket buffer count = (9001, buffer)"

definition write_all_to_socket :: "block \<Rightarrow> nat \<Rightarrow> int" where "write_all_to_socket buffer count = 9001"

definition ntohl :: "block \<Rightarrow> nat res" where
  \<comment> \<open>of an integer in memory: the first byte is the most significant one\<close>
  "ntohl b = for_up 0 4 (\<lambda>i n. rbind (rd b i) (\<lambda>c. Inr (256 * n + of_char c))) 0"

definition get_message_size :: "int res" where
  \<comment> \<open>\<open>size\<close> is a local variable\<close>
  "get_message_size = (case read_all_from_socket (fresh_malloc 4) 4 of (read_bytes, buf) \<Rightarrow>
     if read_bytes = 0 \<or> read_bytes = - 1 then Inr read_bytes else rbind (ntohl buf) (\<lambda>n. Inr (int n)))"

fun write_to_server :: "block \<Rightarrow> block list \<Rightarrow> (block \<times> nat) list res" where
  \<comment> \<open>the loop over the messages that the user enters: what is handed to \<open>write_all_to_socket\<close>\<close>
  "write_to_server name [] = Inr []"
| "write_to_server name (buffer # more) =
     rbind (create_message name buffer) (\<lambda>msg. rbind (c_strlen msg) (\<lambda>n.
       let len = n + 1; retval = write_message_size len;
           calls = (if 0 < retval then [(msg, len)] else []);
           retval = (if 0 < retval then write_all_to_socket msg len else retval)
       in if 0 < retval then rbind (write_to_server name more) (\<lambda>rest. Inr (calls @ rest)) else Inr calls))"

section \<open>Lemmas\<close>

text \<open>A message is the name, a colon and the text, terminated, in a block with one byte to spare.\<close>

lemma create_message_text:
  assumes "NUL \<notin> set n" and "NUL \<notin> set m" and "length n + length m + 4 < 2 ^ 31"
  shows "create_message (cstring n) (cstring m) = Inr (cstring (n @ '': '' @ m) @ [Val NUL])"
proof -
  have "int (length n) < 2 ^ 31" "int (length m) < 2 ^ 31" "int (length m) + int (length n) + 4 < 2 ^ 31"
    using assms(3) by simp_all
  then have "int_of_long (int (length n)) = int (length n)" "int_of_long (int (length m)) = int (length m)"
    "int_of_long (int (length m) + int (length n) + 4) = int (length m) + int (length n) + 4" by simp_all
  moreover have "nat (int (length m) + int (length n) + 4) = length (n @ '': '' @ m @ [NUL]) + 1" by simp
  ultimately have "create_message (cstring n) (cstring m)
      = write_bytes (replicate (length (n @ '': '' @ m @ [NUL]) + 1) (Val NUL)) 0 (n @ '': '' @ m @ [NUL])"
    using assms(1,2) by (simp add: create_message_def Let_def)
  then show ?thesis by (simp add: write_bytes_in cstring_def replicate_append_same[symmetric])
qed

lemma write_to_server_messages:
  assumes "NUL \<notin> set n" and "\<forall>m \<in> set ms. NUL \<notin> set m \<and> length n + length m + 4 < 2 ^ 31"
  shows "write_to_server (cstring n) (List.map cstring ms)
    = Inr (List.map (\<lambda>m. (cstring (n @ '': '' @ m) @ [Val NUL], length n + length m + 3)) ms)"
  using assms(2)
proof (induction ms)
  case (Cons m ms)
  have "NUL \<notin> set (n @ '': '' @ m)" using assms(1) Cons.prems by (auto simp: NUL_def)
  from read_cstring[OF this] have "c_strlen (cstring (n @ '': '' @ m) @ [Val NUL]) = Inr (length (n @ '': '' @ m))"
    unfolding c_strlen_def by (simp only: rbind.simps)
  then show ?case using Cons assms(1)
    by (simp add: create_message_text write_message_size_def write_all_to_socket_def)
qed simp

text \<open>With the stub for reading, the announced size is never written before it is read.\<close>

lemma get_message_size_uninitialised: "get_message_size = Inl Uninit_Read"
  by (simp add: get_message_size_def read_all_from_socket_def ntohl_def fresh_malloc_def for_up_step rd_def)

end
