(* ===== verification/Chat_Server.thy ===== *)
theory Chat_Server
  imports Chatroom
begin

text \<open>
  The server of \<^verbatim>\<open>charming_chatroom/server.c\<close> and the receiving side of \<^verbatim>\<open>client.c\<close>, over the four socket
  routines of \<^verbatim>\<open>utils.c\<close>. In the source these routines are stubs; the record \<open>net\<close> makes them a
  parameter, with the stubs as one instance and a network that loses nothing as another. The array
  \<open>clients\<close> is what the thread sees; the values of the flag \<open>endSession\<close> it reads are a list, after
  whose end the flag is set.
\<close>

section \<open>Routines and state\<close>

record 'k net =
  size_from :: "'k \<Rightarrow> int \<Rightarrow> (int \<times> 'k) res" \<comment> \<open>\<open>get_message_size\<close>\<close>
  bytes_from :: "'k \<Rightarrow> int \<Rightarrow> nat \<Rightarrow> int \<times> block \<times> 'k" \<comment> \<open>\<open>read_all_from_socket\<close>, the buffer after it\<close>
  size_to :: "'k \<Rightarrow> nat \<Rightarrow> int \<Rightarrow> int \<times> 'k" \<comment> \<open>\<open>write_message_size\<close>\<close>
  bytes_to :: "'k \<Rightarrow> int \<Rightarrow> block \<Rightarrow> nat \<Rightarrow> int \<times> 'k" \<comment> \<open>\<open>write_all_to_socket\<close>\<close>

definition MAX_CLIENTS :: nat where "MAX_CLIENTS = 8"

record 'k chat =
  clients :: "int list"
  clientsCount :: int
  kernel :: 'k
  perrors :: nat \<comment> \<open>failures reported on the terminal\<close>

section \<open>The server\<close>

definition write_to_client :: "'k net \<Rightarrow> block \<Rightarrow> nat \<Rightarrow> int \<Rightarrow> 'k chat \<Rightarrow> 'k chat" where
  "write_to_client N message len sock st =
     (if sock = - 1 then st
      else let (retval, k) = size_to N (kernel st) len sock;
               (retval, k) = (if retval > 0 then bytes_to N k sock message len else (retval, k))
           in st\<lparr>kernel := k, perrors := perrors st + (if retval = - 1 then 1 else 0)\<rparr>)"

definition write_to_clients :: "'k net \<Rightarrow> block \<Rightarrow> nat \<Rightarrow> 'k chat \<Rightarrow> 'k chat" where
  "write_to_clients N message len st = fold (write_to_client N message len) (take MAX_CLIENTS (clients st)) st"

fun client_loop :: "'k net \<Rightarrow> int \<Rightarrow> bool list \<Rightarrow> int \<Rightarrow> 'k chat \<Rightarrow> 'k chat res" where
  "client_loop N sock [] retval st = Inr st"
| "client_loop N sock (endSession # flags) retval st =
     (if retval > 0 \<and> \<not> endSession then
        rbind (size_from N (kernel st) sock) (\<lambda>(retval, k).
        let st = st\<lparr>kernel := k\<rparr> in
        if retval > 0 then
          (case bytes_from N (kernel st) sock (nat retval) of (retval, buffer, k) \<Rightarrow>
             let st = st\<lparr>kernel := k\<rparr>;
                 st = (if retval > 0 then write_to_clients N buffer (nat retval) st else st)
             in client_loop N sock flags retval st)
        else client_loop N sock flags retval st)
      else Inr st)"

definition process_client :: "'k net \<Rightarrow> bool list \<Rightarrow> nat \<Rightarrow> 'k chat \<Rightarrow> 'k chat res" where
  \<comment> \<open>only the thread itself changes its slot (lemma \<open>client_loop_clients\<close>), so it is read once\<close>
  "process_client N flags clientId st =
     (if length (clients st) \<le> clientId then Inl Out_Of_Bounds
      else rbind (client_loop N (clients st ! clientId) flags 1 st) (\<lambda>st.
        Inr (st\<lparr>clients := (clients st)[clientId := - 1], clientsCount := clientsCount st - 1\<rparr>)))"

definition server_cleanup :: "int \<Rightarrow> int list \<Rightarrow> int list" where
  \<comment> \<open>the sockets that are shut down and closed, in order\<close>
  "server_cleanup serverSocket cs = serverSocket # filter (\<lambda>s. s \<noteq> - 1) (take MAX_CLIENTS cs)"

definition chat_server_main :: "nat \<Rightarrow> bool \<Rightarrow> int + int list" where
  \<comment> \<open>the exit status, or what \<open>cleanup\<close> closes: \<open>run_server\<close> has an empty body, all globals are still zero\<close>
  "chat_server_main argc sigaction_ok =
     (if argc \<noteq> 2 then Inl (- 1)
      else if \<not> sigaction_ok then Inl 1
      else Inr (server_cleanup 0 (replicate MAX_CLIENTS 0)))"

section \<open>The receiving thread of the client\<close>

fun read_from_server :: "'k net \<Rightarrow> int \<Rightarrow> nat \<Rightarrow> int \<Rightarrow> 'k \<Rightarrow> block list res" where
  \<comment> \<open>the buffers handed to the screen; the first number bounds the rounds\<close>
  "read_from_server N sock 0 retval k = Inl Diverges"
| "read_from_server N sock (Suc n) retval k =
     (if retval > 0 then
        rbind (size_from N k sock) (\<lambda>(retval, k).
        if retval > 0 then
          (case bytes_from N k sock (nat retval) of (retval, buffer, k) \<Rightarrow>
             rbind (read_from_server N sock n retval k) (\<lambda>out.
             Inr (if retval > 0 then buffer # out else out)))
        else read_from_server N sock n retval k)
      else Inr [])"

definition thread_cancellation_handler :: "'p option \<Rightarrow> 'p option option \<Rightarrow> 'p list" where
  \<comment> \<open>what is freed: \<open>*buffer\<close>, and \<open>*msg\<close> when there is one\<close>
  "thread_cancellation_handler buffer msg =
     (case buffer of None \<Rightarrow> [] | Some b \<Rightarrow> [b]) @ (case msg of Some (Some m) \<Rightarrow> [m] | _ \<Rightarrow> [])"

definition client_main :: "string list \<Rightarrow> string option option" where
  \<comment> \<open>the output file, unless the number of arguments is wrong\<close>
  "client_main argv = (if length argv < 4 \<or> length argv > 5 then None
     else Some (if length argv = 5 then Some (argv ! 4) else None))"

section \<open>The reads of the user's hook\<close>

definition READ_FAIL_NUM :: nat where "READ_FAIL_NUM = 10"

definition hook_read :: "bool \<Rightarrow> nat \<Rightarrow> nat \<Rightarrow> nat \<times> nat option" where
  \<comment> \<open>\<open>my_read\<close>: with the value of \<open>rand() % 2 > 0\<close>, the new \<open>read_counter\<close> and how many bytes \<open>read\<close> is
     asked for; \<open>None\<close> is the made-up \<open>EINTR\<close>\<close>
  "hook_read odd_rand read_counter amount =
     (let read_counter = read_counter + 1 in
      if read_counter = READ_FAIL_NUM then (0, if odd_rand then Some (amount div 2 + 1) else None)
      else (read_counter, Some amount))"

fun hook_reads :: "bool list \<Rightarrow> nat \<Rightarrow> nat \<Rightarrow> nat option list" where
  \<comment> \<open>one call after another, each for the same amount\<close>
  "hook_reads [] read_counter amount = []"
| "hook_reads (b # bs) read_counter amount =
     (case hook_read b read_counter amount of (read_counter, r) \<Rightarrow> r # hook_reads bs read_counter amount)"

section \<open>Two networks\<close>

definition stub_net :: "unit net" where
  "stub_net = \<lparr>size_from = \<lambda>k sock. rbind get_message_size (\<lambda>n. Inr (n, k)),
     bytes_from = \<lambda>k sock n. (case read_all_from_socket (replicate n (Val NUL)) n of (r, b) \<Rightarrow> (r, b, k)),
     size_to = \<lambda>k n sock. (write_message_size n, k), bytes_to = \<lambda>k sock b n. (write_all_to_socket b n, k)\<rparr>"

record post =
  inbox :: "block list"
  outbox :: "(int \<times> block) list"

definition lossless :: "post net" where
  \<comment> \<open>the messages of one peer, then its end; everything written is kept\<close>
  "lossless = \<lparr>size_from = \<lambda>k sock. Inr (case inbox k of [] \<Rightarrow> 0 | m # _ \<Rightarrow> int (length m), k),
     bytes_from = \<lambda>k sock n. (int n, take n (hd (inbox k)), k\<lparr>inbox := tl (inbox k)\<rparr>),
     size_to = \<lambda>k n sock. (4, k), bytes_to = \<lambda>k sock b n. (int n, k\<lparr>outbox := outbox k @ [(sock, take n b)]\<rparr>)\<rparr>"

section \<open>Every message goes to every client\<close>

definition connected :: "'k chat \<Rightarrow> int list" where
  "connected st = filter (\<lambda>s. s \<noteq> - 1) (take MAX_CLIENTS (clients st))"

lemma write_to_clients_lossless:
  assumes "m \<noteq> []"
  shows "write_to_clients lossless m (length m) st
    = st\<lparr>kernel := (kernel st)\<lparr>outbox := outbox (kernel st) @ List.map (\<lambda>s. (s, m)) (connected st)\<rparr>\<rparr>"
proof -
  have "fold (write_to_client lossless m (length m)) ss st
      = st\<lparr>kernel := (kernel st)\<lparr>outbox := outbox (kernel st) @ List.map (\<lambda>s. (s, m)) (filter (\<lambda>s. s \<noteq> - 1) ss)\<rparr>\<rparr>" for ss
    using assms by (induction ss arbitrary: st) (simp_all add: write_to_client_def lossless_def)
  then show ?thesis by (simp add: write_to_clients_def connected_def)
qed

lemma client_loop_relays:
  "\<lbrakk>inbox (kernel st) = ms; \<forall>m \<in> set ms. m \<noteq> []; length ms < n; retval > 0\<rbrakk> \<Longrightarrow>
    client_loop lossless sock (replicate n False) retval st
      = Inr (st\<lparr>kernel := (kernel st)\<lparr>inbox := [],
          outbox := outbox (kernel st) @ concat (List.map (\<lambda>m. List.map (\<lambda>s. (s, m)) (connected st)) ms)\<rparr>\<rparr>)"
proof (induction ms arbitrary: st n retval)
  case Nil
  then obtain k where "n = Suc k" by (cases n) auto
  moreover have "client_loop lossless sock fl 0 st = Inr st" for fl by (cases fl) simp_all
  ultimately show ?case using Nil by (simp add: lossless_def Let_def)
next
  case (Cons m ms)
  then obtain k where n: "n = Suc k" by (cases n) auto
  let ?st = "st\<lparr>kernel := (kernel st)\<lparr>inbox := ms\<rparr>\<rparr>"
  have "client_loop lossless sock (replicate n False) retval st
      = client_loop lossless sock (replicate k False) (int (length m)) (write_to_clients lossless m (length m) ?st)"
    using Cons.prems unfolding n by (simp add: lossless_def Let_def)
  also have "write_to_clients lossless m (length m) ?st
      = ?st\<lparr>kernel := (kernel ?st)\<lparr>outbox := outbox (kernel ?st) @ List.map (\<lambda>s. (s, m)) (connected ?st)\<rparr>\<rparr>"
    using Cons.prems(2) by (intro write_to_clients_lossless) simp
  finally show ?case
    using Cons.IH[of "?st\<lparr>kernel := (kernel ?st)\<lparr>outbox := outbox (kernel ?st) @ List.map (\<lambda>s. (s, m)) (connected ?st)\<rparr>\<rparr>" k "int (length m)"]
      Cons.prems n by (simp add: connected_def)
qed

lemma process_client_relays:
  assumes "inbox (kernel st) = ms" and "\<forall>m \<in> set ms. m \<noteq> []" and "length ms < n" and "i < length (clients st)"
  shows "process_client lossless (replicate n False) i st
    = Inr (st\<lparr>clients := (clients st)[i := - 1], clientsCount := clientsCount st - 1,
        kernel := (kernel st)\<lparr>inbox := [],
          outbox := outbox (kernel st) @ concat (List.map (\<lambda>m. List.map (\<lambda>s. (s, m)) (connected st)) ms)\<rparr>\<rparr>)"
  unfolding process_client_def using assms(4) client_loop_relays[OF assms(1-3), of 1 "clients st ! i"] by simp

lemma write_to_clients_clients: "clients (write_to_clients N m l t) = clients t"
proof -
  have "clients (fold (write_to_client N m l) ss t) = clients t" for ss
    by (induction ss arbitrary: t) (auto simp: write_to_client_def Let_def split: prod.splits)
  then show ?thesis by (simp add: write_to_clients_def)
qed

lemma client_loop_clients: "client_loop N sock flags retval s = Inr s' \<Longrightarrow> clients s' = clients s"
proof (induction flags arbitrary: retval s)
  case (Cons e flags)
  then show ?case
    by (auto simp: rbind_Inr_iff Let_def write_to_clients_clients dest!: Cons.IH split: if_splits prod.splits)
qed simp

text \<open>The socket of a client that has left is not closed a second time at the end.\<close>

lemma cleanup_skips_left_clients:
  assumes "process_client N flags i st = Inr st'" and "distinct (connected st)" and "i < length (clients st)"
    and "clients st ! i \<noteq> - 1" and "clients st ! i \<noteq> serverSocket" and "i < MAX_CLIENTS"
  shows "clients st ! i \<notin> set (server_cleanup serverSocket (clients st'))"
proof -
  let ?cs = "take MAX_CLIENTS (clients st)"
  have c: "clients st' = (clients st)[i := - 1]"
    using assms(1) by (auto simp: process_client_def rbind_Inr_iff dest: client_loop_clients split: if_splits)
  have i: "i < length ?cs" "?cs ! i = clients st ! i" using assms(3,6) by simp_all
  have split: "?cs = take i ?cs @ ?cs ! i # drop (Suc i) ?cs" using id_take_nth_drop[OF i(1)] .
  have "connected st = filter (\<lambda>s. s \<noteq> - 1) (take i ?cs) @ clients st ! i # filter (\<lambda>s. s \<noteq> - 1) (drop (Suc i) ?cs)"
    unfolding connected_def by (subst split) (use assms(4) i(2) in simp)
  then have "clients st ! i \<notin> set (take i ?cs) \<union> set (drop (Suc i) ?cs)" using assms(2,4) by auto
  moreover have "take MAX_CLIENTS (clients st') = take i ?cs @ - 1 # drop (Suc i) ?cs"
    unfolding c take_update_swap using upd_conv_take_nth_drop[OF i(1)] by simp
  ultimately show ?thesis using assms(4,5) by (auto simp: server_cleanup_def)
qed

text \<open>With the stubs a connection ends in a read of memory that was never written.\<close>

lemma stub_server_faults: "i < length (clients st) \<Longrightarrow> process_client stub_net (False # flags) i st = Inl Uninit_Read"
  by (simp add: process_client_def stub_net_def get_message_size_uninitialised)

text \<open>Nothing fills the array with -1: at the end descriptor 0 is closed once for every slot, and once as the server's.\<close>

lemma cleanup_closes_descriptor_zero: "chat_server_main 2 True = Inr (replicate 9 0)"
  by (simp add: chat_server_main_def server_cleanup_def MAX_CLIENTS_def eval_nat_numeral)

lemma read_from_server_prints:
  "\<lbrakk>inbox k = ms; \<forall>m \<in> set ms. m \<noteq> []; length ms + 1 < n; retval > 0\<rbrakk>
    \<Longrightarrow> read_from_server lossless sock n retval k = Inr ms"
proof (induction ms arbitrary: k n retval)
  case Nil
  then obtain j where "n = Suc (Suc j)" by (metis add_0 list.size(3) less_iff_Suc_add plus_1_eq_Suc add_Suc)
  then show ?case using Nil by (simp add: lossless_def)
next
  case (Cons m ms)
  then obtain j where n: "n = Suc j" by (cases n) auto
  have "read_from_server lossless sock j (int (length m)) (k\<lparr>inbox := ms\<rparr>) = Inr ms"
    using Cons.prems n by (intro Cons.IH) auto
  then show ?case using Cons.prems unfolding n by (simp add: lossless_def)
qed

text \<open>
  Every tenth read fails or is shortened and the others are passed on. The shortened read asks for no
  more than was wanted, except when nothing was wanted: then it asks for a byte there is no room for.
\<close>

lemma hook_reads_nth:
  "\<lbrakk>i < length bs; c < 10\<rbrakk> \<Longrightarrow> hook_reads bs c amount ! i
    = (if (c + i) mod 10 = 9 then (if bs ! i then Some (amount div 2 + 1) else None) else Some amount)"
proof (induction bs arbitrary: c i)
  case (Cons b bs)
  show ?case
  proof (cases i)
    case 0
    then show ?thesis using Cons.prems by (auto simp: hook_read_def READ_FAIL_NUM_def)
  next
    case (Suc j)
    then show ?thesis
      using Cons.IH[of j 0] Cons.IH[of j "c + 1"] Cons.prems
      by (cases "c = 9") (auto simp: hook_read_def READ_FAIL_NUM_def)
  qed
qed simp

lemma hook_read_asks:
  assumes "hook_read b c amount = (c', Some n)"
  shows "0 < amount \<Longrightarrow> n \<le> amount" and "amount = 0 \<Longrightarrow> c + 1 = READ_FAIL_NUM \<Longrightarrow> n = 1"
  using assms by (auto simp: hook_read_def Let_def split: if_splits)

end
