(* ===== verification/Honey.thy ===== *)
theory Honey
  imports Net_Io Cstring
begin

text \<open>
  The server of \<^verbatim>\<open>final/honey.c\<close>, which logs what its clients send. \<open>main\<close> hands every thread the address
  of one local variable; \<open>handle_client\<close> reads the descriptor there, frees the address, reads the
  request byte by byte until a blank line, appends it to the log of the client's address and answers.
  The contents of the buffer before the first byte, which the code does not initialise, and the time
  are parameters.
\<close>

section \<open>The request\<close>

definition CRLF2 :: string where "CRLF2 = [CHR 0x0D, CHR 0x0A, CHR 0x0D, CHR 0x0A]"

fun read_request :: "nat \<Rightarrow> block \<Rightarrow> nat \<Rightarrow> conn \<Rightarrow> (block \<times> nat \<times> conn) res" where
  \<comment> \<open>with \<open>numreadtotal\<close>; a failed read adds -1 to it\<close>
  "read_request 0 buffer n c = Inl Diverges"
| "read_request (Suc k) buffer n c =
     (if n < 8 * 1024 then
        rbind (read_cstr buffer) (\<lambda>s.
        if c_strstr s CRLF2 \<noteq> None then Inr (buffer, n, c)
        else case sys_read 1 c of
          (Moved [], c) \<Rightarrow> Inr (buffer, n, c)
        | (Moved (x # xs), c) \<Rightarrow> rbind (wr buffer n x) (\<lambda>buffer. read_request k buffer (n + 1) c)
        | (Eintr, c) \<Rightarrow> read_request k buffer n c
        | (Failed, c) \<Rightarrow> read_request k buffer (if n = 0 then 2 ^ 64 - 1 else n - 1) c)
      else Inr (buffer, n, c))"

record log_server =
  logs :: "string \<Rightarrow> string" \<comment> \<open>the log files\<close>
  variable :: int \<comment> \<open>\<open>client_fd\<close> in the frame of \<open>main\<close>\<close>
  started :: nat \<comment> \<open>threads that have not yet read their argument\<close>
  taken :: "int list" \<comment> \<open>the descriptors the threads have read\<close>

definition http_header :: string where
  "http_header = ''HTTP/1.0 200 OK'' @ [CHR 0x0D, CHR 0x0A] @ ''Content-Type: text/plain'' @ CRLF2"

definition serve_client ::
  "nat \<Rightarrow> block \<Rightarrow> string \<Rightarrow> string option \<Rightarrow> conn \<Rightarrow> (string \<Rightarrow> string) \<Rightarrow> ((string \<Rightarrow> string) \<times> conn) res" where
  \<comment> \<open>the part of \<open>handle_client\<close> behind \<open>free\<close>: with the peer's address, if it is known\<close>
  "serve_client fuel stack time address c lg =
     (let filename = (case address of Some a \<Rightarrow> a | None \<Rightarrow> ''unknownip'') in
      rbind (read_request fuel stack 0 c) (\<lambda>(buffer, n, c).
      if length buffer < n \<or> \<not> list_all is_val (take n buffer) then Inl Out_Of_Bounds
      else let lg = lg(filename := lg filename @ List.map the_val (take n buffer));
               (_, c) = sys_write http_header c;
               (_, c) = sys_write time c
           in Inr (lg, c)))"

section \<open>The threads\<close>

inductive honey_step :: "log_server \<Rightarrow> log_server \<Rightarrow> bool" where
  accept: "honey_step st (st\<lparr>variable := client_fd, started := started st + 1\<rparr>)"
| read_argument: "0 < started st
    \<Longrightarrow> honey_step st (st\<lparr>started := started st - 1, taken := taken st @ [variable st]\<rparr>)"

definition honey_main :: "nat \<Rightarrow> bool \<Rightarrow> bool \<Rightarrow> bool \<Rightarrow> bool \<Rightarrow> bool \<Rightarrow> log_server option" where
  \<comment> \<open>up to the loop, with the results of the calls that set the socket up; \<open>None\<close> is \<open>exit(1)\<close>; the
     variable \<open>client_fd\<close> has no value yet\<close>
  "honey_main argc getaddrinfo_ok reuse_addr_ok reuse_port_ok bind_ok listen_ok =
     (if argc < 2 then None
      else if \<not> getaddrinfo_ok then None
      else if \<not> reuse_addr_ok then None
      else if \<not> reuse_port_ok then None
      else if \<not> bind_ok then None
      else if \<not> listen_ok then None
      else Some \<lparr>logs = (\<lambda>_. []), variable = 0, started = 0, taken = []\<rparr>)"

definition free_argument :: "nat set \<Rightarrow> nat \<Rightarrow> nat set res" where
  \<comment> \<open>\<open>free(fd_ptr)\<close> with the blocks of the heap\<close>
  "free_argument heap fd_ptr = (if fd_ptr \<in> heap then Inr (heap - {fd_ptr}) else Inl Dangling)"

section \<open>Lemmas\<close>

text \<open>The argument is the address of a local variable: freeing it is always wrong.\<close>

lemma free_argument_faults: "frame \<notin> heap \<Longrightarrow> free_argument heap frame = Inl Dangling"
  by (simp add: free_argument_def)

text \<open>Two clients that connect before the first thread runs: both threads serve the second.\<close>

lemma client_lost:
  assumes "honey_main argc g1 g2 g3 g4 g5 = Some st"
  shows "\<exists>st'. honey_step\<^sup>*\<^sup>* st st' \<and> taken st' = [b, b] \<and> started st' = 0"
proof -
  have st: "started st = 0" "taken st = []" using assms by (auto simp: honey_main_def split: if_splits)
  let ?s1 = "st\<lparr>variable := a, started := 1\<rparr>"
  let ?s2 = "st\<lparr>variable := b, started := 2\<rparr>"
  let ?s3 = "st\<lparr>variable := b, started := 1, taken := taken st @ [b]\<rparr>"
  let ?s4 = "st\<lparr>variable := b, started := 0, taken := taken st @ [b, b]\<rparr>"
  have "honey_step st ?s1" using accept[of st a] st by simp
  moreover have "honey_step ?s1 ?s2" using accept[of ?s1 b] by (simp add: numeral_2_eq_2)
  moreover have "honey_step ?s2 ?s3" using read_argument[of ?s2] by simp
  moreover have "honey_step ?s3 ?s4" using read_argument[of ?s3] by simp
  ultimately have "honey_step\<^sup>*\<^sup>* st ?s4" by (meson converse_rtranclp_into_rtranclp r_into_rtranclp)
  then show ?thesis using st by (intro exI[of _ ?s4]) simp
qed

text \<open>The first test of the loop reads the buffer before anything is in it.\<close>

lemma read_request_uninitialised: "read_request (Suc k) (fresh_malloc (Suc n)) 0 c = Inl Uninit_Read"
  by (simp add: fresh_malloc_def)

text \<open>On a stack that happens to hold zeroes, the request up to its blank line is what is logged.\<close>

lemma read_request_zeroed:
  assumes req: "NUL \<notin> set req" "length req < 8 * 1024" "c_strstr req CRLF2 \<noteq> None"
    and first: "\<And>j. j < length req \<Longrightarrow> c_strstr (take j req) CRLF2 = None"
  shows "\<lbrakk>j \<le> length req; length req - j < k; rplan c = []; incoming c = drop j req @ rest\<rbrakk> \<Longrightarrow>
    read_request k (List.map Val (take j req) @ replicate (8193 - j) (Val NUL)) j c
      = Inr (List.map Val req @ replicate (8193 - length req) (Val NUL), length req, c\<lparr>incoming := rest\<rparr>)"
proof (induction k arbitrary: j c)
  case (Suc k)
  let ?b = "List.map Val (take j req) @ replicate (8193 - j) (Val NUL)"
  have "8193 - j = Suc (8192 - j)" using Suc.prems(1) req(2) by linarith
  then have "replicate (8193 - j) (Val NUL) = Val NUL # replicate (8192 - j) (Val NUL)" by (simp only: replicate_Suc)
  then have b: "?b = cstring (take j req) @ replicate (8192 - j) (Val NUL)" by (simp add: cstring_def)
  have s: "read_cstr ?b = Inr (take j req)" unfolding b using req(1) by (intro read_cstring) (meson in_set_takeD)
  show ?case
  proof (cases "j < length req")
    case False
    then show ?thesis using Suc.prems req s by simp
  next
    case True
    have "drop j req = req ! j # drop (Suc j) req" using True by (simp add: Cons_nth_drop_Suc)
    then have r: "sys_read 1 c = (Moved [req ! j], c\<lparr>incoming := drop (Suc j) req @ rest\<rparr>)"
      using Suc.prems(3,4) by (simp add: sys_read_def)
    have "?b[j := Val (req ! j)] = List.map Val (take (Suc j) req) @ replicate (8193 - Suc j) (Val NUL)"
      unfolding b using True by (simp add: cstring_def list_update_append take_Suc_conv_app_nth)
    then have w: "wr ?b j (req ! j) = Inr (List.map Val (take (Suc j) req) @ replicate (8193 - Suc j) (Val NUL))"
      using True req(2) by simp
    show ?thesis
      using Suc.IH[of "Suc j" "c\<lparr>incoming := drop (Suc j) req @ rest\<rparr>"] Suc.prems True req(2) first s r w by simp
  qed
qed simp

lemma serve_client_logs:
  assumes "NUL \<notin> set req" and "length req < 8 * 1024" and "c_strstr req CRLF2 \<noteq> None"
    and "\<And>j. j < length req \<Longrightarrow> c_strstr (take j req) CRLF2 = None"
    and "rplan c = []" and "wplan c = []" and "incoming c = req @ rest" and "length req < fuel"
  shows "serve_client fuel (replicate 8193 (Val NUL)) time (Some a) c lg
    = Inr (lg(a := lg a @ req), c\<lparr>incoming := rest, outgoing := outgoing c @ http_header @ time\<rparr>)"
proof -
  have "read_request fuel (replicate 8193 (Val NUL)) 0 c
      = Inr (List.map Val req @ replicate (8193 - length req) (Val NUL), length req, c\<lparr>incoming := rest\<rparr>)"
    using read_request_zeroed[OF assms(1-4), of 0 fuel c rest] assms(5,7,8) by simp
  then show ?thesis
    using assms(2,6) by (simp add: serve_client_def Let_def sys_write_def list_all_iff comp_def)
qed

end
