(* ===== verification/Release.thy ===== *)
theory Release
  imports Par_Reduce Heap
begin

text \<open>
  The memory that functions modelled elsewhere by their values allocate and give back: the copies,
  arguments and results of \<^verbatim>\<open>teaching_threads/par_reduce.c\<close> and the two blocks of a string of
  \<^verbatim>\<open>vector/sstring.c\<close>. A heap here is only the set of the addresses that are live;
  \<open>malloc\<close> takes an address from the allocator \<open>new\<close>, \<open>free\<close> faults on an address that is not live.
\<close>

type_synonym live = "addr set"

definition alloc_block :: "(live \<Rightarrow> addr) \<Rightarrow> live \<Rightarrow> addr \<times> live" where
  "alloc_block new h = (new h, insert (new h) h)"

definition free_block :: "addr option \<Rightarrow> live \<Rightarrow> live res" where
  "free_block p h = (case p of None \<Rightarrow> Inr h | Some a \<Rightarrow> if a \<in> h then Inr (h - {a}) else Inl Dangling)"

definition new_addresses :: "(live \<Rightarrow> addr) \<Rightarrow> bool" where
  \<comment> \<open>the allocator never hands out a live block\<close>
  "new_addresses new \<longleftrightarrow> (\<forall>h. finite h \<longrightarrow> new h \<notin> h)"

section \<open>par_reduce\<close>

primrec alloc_parts :: "(live \<Rightarrow> addr) \<Rightarrow> nat \<Rightarrow> live \<Rightarrow> (addr \<times> addr) list \<times> live" where
  \<comment> \<open>\<open>thread_lists[i]\<close> and \<open>args[i]\<close>\<close>
  "alloc_parts new 0 h = ([], h)"
| "alloc_parts new (Suc k) h =
     (let (l, h) = alloc_block new h; (a, h) = alloc_block new h; (ps, h) = alloc_parts new k h
      in ((l, a) # ps, h))"

primrec join_threads :: "(live \<Rightarrow> addr) \<Rightarrow> nat \<Rightarrow> live \<Rightarrow> live res" where
  \<comment> \<open>the block \<open>start_routine\<close> returns its result in is freed by the thread that joins it\<close>
  "join_threads new 0 h = Inr h"
| "join_threads new (Suc k) h =
     (let (r, h) = alloc_block new h in rbind (free_block (Some r) h) (join_threads new k))"

fun release_all :: "addr list \<Rightarrow> live \<Rightarrow> live res" where
  "release_all [] h = Inr h"
| "release_all (a # as) h = rbind (free_block (Some a) h) (release_all as)"

definition destroy_thread_lists :: "addr list \<Rightarrow> addr \<Rightarrow> live \<Rightarrow> live res" where
  "destroy_thread_lists ls arr h = rbind (release_all ls h) (\<lambda>h. free_block (Some arr) h)"

definition destroy_args :: "addr list \<Rightarrow> addr \<Rightarrow> live \<Rightarrow> live res" where
  "destroy_args as arr h = rbind (release_all as h) (\<lambda>h. free_block (Some arr) h)"

definition par_reduce_memory :: "(live \<Rightarrow> addr) \<Rightarrow> nat \<Rightarrow> live \<Rightarrow> live res" where
  "par_reduce_memory new num_threads h =
     (let (thread_lists, h) = alloc_block new h;
          (args, h) = alloc_block new h;
          (parts, h) = alloc_parts new num_threads h;
          (results, h) = alloc_block new h
      in rbind (join_threads new num_threads h) (\<lambda>h.
         rbind (free_block (Some results) h) (\<lambda>h.
         rbind (destroy_thread_lists (List.map fst parts) thread_lists h)
           (destroy_args (List.map snd parts) args))))"

section \<open>sstring_destroy\<close>

definition sstring_destroy :: "addr option \<Rightarrow> addr option \<Rightarrow> live \<Rightarrow> live res" where
  \<comment> \<open>the struct and its field \<open>str\<close>\<close>
  "sstring_destroy this str h = c_assert (this \<noteq> None) (rbind (free_block str h) (\<lambda>h. free_block this h))"

section \<open>Nothing is kept and nothing is freed twice\<close>

lemma new_address: "new_addresses new \<Longrightarrow> finite h \<Longrightarrow> new h \<notin> h"
  by (simp add: new_addresses_def)

lemma release_all_live: "\<lbrakk>distinct as; set as \<subseteq> h\<rbrakk> \<Longrightarrow> release_all as h = Inr (h - set as)"
proof (induction as arbitrary: h)
  case (Cons a as)
  then have "release_all as (h - {a}) = Inr (h - {a} - set as)" by (intro Cons.IH) auto
  moreover have "h - {a} - set as = h - set (a # as)" by auto
  ultimately show ?case using Cons.prems by (simp add: free_block_def)
qed simp

lemma join_threads_ok: "\<lbrakk>new_addresses new; finite h\<rbrakk> \<Longrightarrow> join_threads new n h = Inr h"
  by (induction n) (simp_all add: alloc_block_def free_block_def new_addresses_def)

lemma alloc_parts_new:
  "\<lbrakk>new_addresses new; finite h; alloc_parts new n h = (ps, h')\<rbrakk> \<Longrightarrow>
    finite h' \<and> h' = h \<union> set (List.map fst ps @ List.map snd ps)
    \<and> distinct (List.map fst ps @ List.map snd ps) \<and> h \<inter> set (List.map fst ps @ List.map snd ps) = {}"
proof (induction n arbitrary: h ps)
  case (Suc n)
  let ?l = "new h" and ?h1 = "insert (new h) h"
  let ?h2 = "insert (new ?h1) ?h1"
  obtain qs where s: "alloc_parts new n ?h2 = (qs, h')" "ps = (?l, new ?h1) # qs"
    using Suc.prems(3) by (auto simp: alloc_block_def Let_def split: prod.splits)
  have new: "?l \<notin> h" "new ?h1 \<notin> ?h1" using Suc.prems(2) by (intro new_address[OF Suc.prems(1)]; simp)+
  have "finite h'" "h' = ?h2 \<union> set (List.map fst qs @ List.map snd qs)" "distinct (List.map fst qs @ List.map snd qs)"
    "?h2 \<inter> set (List.map fst qs @ List.map snd qs) = {}"
    using Suc.IH[OF Suc.prems(1) _ s(1)] Suc.prems(2) by simp_all
  then show ?case using new unfolding s(2) by auto
qed simp

lemma par_reduce_releases_all:
  assumes new: "new_addresses new" and fin: "finite h"
  shows "par_reduce_memory new n h = Inr h"
proof -
  let ?t = "new h" and ?h1 = "insert (new h) h"
  let ?a = "new ?h1" and ?h2 = "insert (new ?h1) ?h1"
  obtain ps h3 where p: "alloc_parts new n ?h2 = (ps, h3)" by (cases "alloc_parts new n ?h2")
  let ?L = "List.map fst ps" and ?A = "List.map snd ps"
  have h3: "finite h3" "h3 = ?h2 \<union> set (?L @ ?A)" "distinct (?L @ ?A)" "?h2 \<inter> set (?L @ ?A) = {}"
    using alloc_parts_new[OF new _ p] fin by simp_all
  have fresh: "?t \<notin> h" "?a \<notin> ?h1" "new h3 \<notin> h3" using fin h3(1) by (intro new_address[OF new]; simp)+
  have j: "join_threads new n (insert (new h3) h3) = Inr (insert (new h3) h3)" using join_threads_ok[OF new] h3(1) by simp
  have L: "release_all ?L h3 = Inr (h3 - set ?L)" using h3(2,3) by (intro release_all_live) auto
  have A: "release_all ?A (h3 - set ?L - {?t}) = Inr (h3 - set ?L - {?t} - set ?A)"
  proof (rule release_all_live)
    show "distinct ?A" using h3(3) by simp
    have "set ?L \<inter> set ?A = {}" "?t \<notin> set ?A" using h3(3,4) by simp_all
    then show "set ?A \<subseteq> h3 - set ?L - {?t}" using h3(2) by (simp only: set_append) blast
  qed
  have live: "?t \<in> h3 - set ?L" "?a \<in> h3 - set ?L - {?t} - set ?A" using h3(2,4) fresh by auto
  have "h3 - set ?L - {?t} - set ?A - {?a} = h" using h3(2,4) fresh by auto
  then show ?thesis
    using p j L A live fresh(3)
    by (simp add: par_reduce_memory_def destroy_thread_lists_def destroy_args_def alloc_block_def free_block_def)
qed

end
