(* ===== verification/Spec2Isabelle.thy ===== *)
theory Spec2Isabelle
  imports Vector Sstring Alloc Sync_Queue Semamore Barrier Rendezvous
    Memcheck Drm Parmake Scheduler Camel Par_Reduce Mmu Minixfs Minixfs_Session Lookup Shell Net_Session Net_Loop Dd Pointers
    Cracker Cracker_Input Parmake_Workers Drm_Threads Drm_Lifecycle Mapreduce Rpicheck Utilities Chatroom Chat_Server Honey Release
begin

text \<open>
  This library verifies the C programs of the repository: a systems-programming course's data structures,
  an allocator, synchronisation primitives, a scheduler, a shell, a file server and its client, a file
  system, and several small tools. Every program is a directory under \<^verbatim>\<open>src/\<close>; each has its own theory
  (sometimes several), in which the functions of the C file appear under their own names, one definition
  for each function, loop or struct. The programs share little code (the dynamic array is used by the
  counted string and the shell, the queue by parallel make and the password crackers); what they share
  is C itself, which the first theories model.

  \<^bold>\<open>How C is modelled.\<close> A function that can go wrong returns a result \<open>fault + 'a\<close>: the faults are a
  failed assertion, a null pointer, an access outside a block, a read of memory that was never written,
  a use of freed memory, a division by zero and a loop that does not end. Structs are records, unsigned
  integers are words where wrap-around matters, \<open>int\<close> is \<open>int\<close> with explicit conversion. Memory appears
  at the level the program needs: lists of cells that may be uninitialised (strings, arrays), an explicit
  heap of structures (linked lists), an address space of blocks (the allocator), bytes of simulated
  physical memory (the memory management unit). Threads are step relations whose steps are critical
  sections or single shared accesses; every interleaving is allowed. The kernel, the C library's \<open>malloc\<close>
  and libraries that are not in the repository are parameters, with what the code relies on as named
  hypotheses (\<open>graph_lib_ok\<close>, \<open>exact_closer\<close>, \<open>lib_ok\<close>, and others), each satisfied by a concrete
  instance in the witnesses.

  \<^bold>\<open>Foundations.\<close> \<open>Prelude\<close>: results and faults, counted loops with invariant rules, blocks of cells, sums
  over lists. \<open>Cstring\<close> and \<open>Ctype\<close>: \<^verbatim>\<open>string.h\<close>, \<^verbatim>\<open>ctype.h\<close> and number conversion. \<open>Heap\<close>: loads, stores,
  \<open>free\<close>, and chains of structures. \<open>Sequence\<close>: the locale \<open>growable_seq\<close>, the interface of the dynamic
  array that its clients are proved against. \<open>Monitor\<close>: the locale \<open>monitor\<close>, threads that wait on one
  mutex and one condition variable, with the laws under which no wakeup is lost. \<open>Digraph\<close>: the locale
  \<open>marked_graph\<close>, depth-first search for cycles with marks in the vertices. \<open>Net_Io\<close>: the locale
  \<open>byte_stream\<close>, reliable transfer over calls that may be cut short.

  \<^bold>\<open>Data structures and memory.\<close>
  \<^item> \<open>Vector\<close> (\<^verbatim>\<open>vector/vector.c\<close>): a program of vector calls refines the same program on lists, and every
    constructed object is released exactly once. It interprets \<open>growable_seq\<close>.
  \<^item> \<open>Sstring\<close> (\<^verbatim>\<open>vector/sstring.c\<close>): splitting, substitution, append and slice against functions on strings,
    with the reads of uninitialised cells the code makes.
  \<^item> \<open>Alloc\<close> (\<^verbatim>\<open>malloc/alloc.c\<close>): the blocks tile the heap and the free list holds exactly the free ones;
    \<open>malloc\<close>, \<open>calloc\<close>, \<open>realloc\<close> and \<open>free\<close> refine a map from addresses to allocations.
  \<^item> \<open>Memcheck\<close> (\<^verbatim>\<open>mini_memcheck/mini_memcheck.c\<close>): the list of live allocations and the totals.
  \<^item> \<open>Mmu\<close> (\<^verbatim>\<open>ideal_indirection/mmu.c\<close>): address translation with TLB, page faults and swapping.
  \<^item> \<open>Minixfs\<close> (\<^verbatim>\<open>finding_filesystems/minixfs.c\<close>): reading and writing through direct and indirect blocks.
    \<open>Minixfs_Session\<close>: any sequence of its calls keeps the file system well-formed.
  \<^item> \<open>Lookup\<close> (\<^verbatim>\<open>mad_mad_access_patterns/\<close>): two searches in a tree stored in a file agree with each other
    and with the tree.

  \<^bold>\<open>Concurrency.\<close>
  \<^item> \<open>Sync_Queue\<close>, \<open>Semamore\<close>, \<open>Barrier\<close> (\<^verbatim>\<open>critical_concurrency/\<close>): each interprets \<open>monitor\<close>; the queue is
    a linked list on the heap that refines a bounded FIFO queue. \<open>Rendezvous\<close>: two threads and two
    semaphores.
  \<^item> \<open>Drm\<close> and \<open>Drm_Threads\<close> (\<^verbatim>\<open>deadlock_demolition/libdrm.c\<close>): the calls on the allocation graph, then
    threads that use them with the mutexes behind; both use \<open>marked_graph\<close>. \<open>Drm_Lifecycle\<close>: the graph
    that all resources share, from the first \<open>drm_init\<close> to any \<open>drm_destroy\<close>.
  \<^item> \<open>Parmake\<close> and \<open>Parmake_Workers\<close> (\<^verbatim>\<open>parallel_make/parmake.c\<close>): collecting the rules in dependency order
    (\<open>marked_graph\<close> again), one worker, and any number of workers in any interleaving.
  \<^item> \<open>Cracker\<close> (\<^verbatim>\<open>password_cracker/\<close>): tasks shared out to threads, and one search cut into ranges.
    \<open>Cracker_Input\<close>: from the lines of the input to the tasks and their fields.
  \<^item> \<open>Par_Reduce\<close> (\<^verbatim>\<open>teaching_threads/par_reduce.c\<close>): cutting a list for threads. \<open>Release\<close>: the blocks
    this function and \<open>sstring_destroy\<close> allocate and free.
  \<^item> \<open>Scheduler\<close> (\<^verbatim>\<open>savvy_scheduler/libscheduler.c\<close>): comparison functions of six schemes and the clock.

  \<^bold>\<open>Programs.\<close>
  \<^item> \<open>Shell\<close> (\<^verbatim>\<open>shell/shell.c\<close>): parsing, operators, built-ins, history and its file.
  \<^item> \<open>Net_Server\<close>, \<open>Net_Client\<close>, \<open>Net_Session\<close> (\<^verbatim>\<open>nonstop_networking/\<close>): the protocol from both ends, over
    \<open>byte_stream\<close>; together they refine a store of files. \<open>Net_Loop\<close>: the set-up and the \<open>epoll\<close> loop of the
    server, which refine serving the clients one after the other.
  \<^item> \<open>Dd\<close> (\<^verbatim>\<open>deepfried_dd/dd.c\<close>), \<open>Camel\<close> (\<^verbatim>\<open>extreme_edge_cases/camelCaser.c\<close>), \<open>Mapreduce\<close>
    (\<^verbatim>\<open>mapreduce/mapreduce.c\<close>), \<open>Rpicheck\<close> (\<^verbatim>\<open>final/rpicheck.c\<close>), \<open>Utilities\<close> (\<^verbatim>\<open>utilities_unleashed/\<close>),
    \<open>Pointers\<close> (\<^verbatim>\<open>perilous_pointers/part1-functions.c\<close>, with \<open>float\<close> in \<open>Single\<close>), \<open>Chatroom\<close> and \<open>Chat_Server\<close>
    (\<^verbatim>\<open>charming_chatroom/\<close>), \<open>Honey\<close> (\<^verbatim>\<open>final/honey.c\<close>).

  \<^bold>\<open>Bounds and fuel.\<close> Recursion through pointers or a graph takes fuel and is \<open>Diverges\<close> without it: the
  cycle tests need one more than the number of vertices, the walks of the allocator and of the lists one
  more than the number of blocks, the copy loop of \<open>Dd\<close> one more than the length of its input, a line of
  the shell a nesting of four when it does not recall the history. The theorems name these bounds as
  hypotheses and conclude that the result is there; where the code really can diverge (growth of a vector
  beyond \<open>2 ^ 63\<close>, block size 0 in \<open>Dd\<close>, a history line that recalls itself) that is a lemma. Loops over
  threads have no fuel: their runs are step sequences of any length.

  \<^bold>\<open>What the lemmas show about errors.\<close> Modelling found places where the code does not do what it means
  to; each is a lemma on the same definitions: a \<open>realloc\<close> that leaks the old block, a mutex kept when
  an owner waits again, an owner that starves because another thread took its mutex (\<open>Drm_Threads\<close>), a
  graph that disappears with any resource (\<open>Drm_Lifecycle\<close>), a lost wakeup that hangs parallel make
  (\<open>Parmake_Workers\<close>), a request that stops the server (\<open>Net_Server\<close>), a page fault that stores the wrong
  frame (\<open>mmu_read_maps_wrong_frame\<close>), a read beyond the information file
  (\<open>minixfs_virtual_read_overruns\<close>), a password that is freed twice (\<open>cracker2_frees_password_twice\<close>), a
  client whose connection is lost to the next (\<open>client_lost\<close>), a barrier destroyed while its threads still
  leave it (\<open>barrier_destroy_after_wait_faults\<close>), and others in the theories.

  \<^bold>\<open>Not modelled.\<close> The calls that open and connect sockets, beyond whether they succeed; clocks, printing
  whose text nothing depends on, and the reading of \<^verbatim>\<open>/proc\<close>. Of the chat room, windows, signals and the creation of threads. The test programs, the unsolved
  version of the rendezvous, and files without code. Data races are not given the undefined behaviour
  of the C standard: an access without a lock is one atomic step.
\<close>

end
